(* ===== verification/Prelude.thy ===== *)
theory Prelude
  imports "HOL-Library.Multiset" "HOL-Library.Word" "HOL-Library.Monad_Syntax"
begin

text \<open>
  Shared vocabulary of the Orthotope development.

  \<^item> Machine integers. \<open>usize\<close>, \<open>u64\<close> and addresses are natural numbers whose
    64-bit range is written out: \<open>checked_add\<close>, \<open>checked_mul\<close>, \<open>checked_sub\<close>
    are Rust's methods of the same name, and they also model the operators
    \<open>+ * -\<close> of a build with overflow checks (both profiles of the crate turn them
    on), where an overflow ends the run. \<open>wrapping_add\<close> and \<open>wrapping_sub\<close> reduce
    modulo \<open>2 ^ 64\<close>. The \<open>u8\<close> and \<open>u32\<close> fields of the block header are words.
  \<^item> Runs. A function that may panic or leave the defined behaviour of the language
    has result type \<open>'a run\<close>: \<open>None\<close> is a panic (a failed assertion, an index out of
    range, an overflow, an \<open>unreachable!\<close>) or undefined behaviour
    (\<open>unwrap_unchecked\<close> on \<open>None\<close>), \<open>Some\<close> is a normal return. A Rust
    \<open>Result\<close> is a sum with the error on the left.
  \<^item> Vectors: indexing, \<open>swap_remove\<close>, \<open>insert\<close>, \<open>binary_search_by\<close> and
    \<open>partition_point\<close> of the standard library, with their correctness.
  \<^item> Multiset lemmas that account for blocks held in vectors of slabs.
\<close>

section \<open>Collections of rules\<close>

named_theorems run_defs \<open>definitions of the guards of a run\<close>
named_theorems arith_defs \<open>definitions of the machine arithmetic\<close>

section \<open>Machine integers\<close>

type_synonym usize = nat
type_synonym addr = nat
type_synonym u8 = "8 word"
type_synonym u32 = "32 word"

definition usize_max :: usize where
  "usize_max = 18446744073709551615"

definition checked_add :: "usize \<Rightarrow> usize \<Rightarrow> usize option" where
  [arith_defs]: "checked_add a b = (if a + b \<le> usize_max then Some (a + b) else None)"

definition checked_mul :: "usize \<Rightarrow> usize \<Rightarrow> usize option" where
  [arith_defs]: "checked_mul a b = (if a * b \<le> usize_max then Some (a * b) else None)"

definition checked_sub :: "usize \<Rightarrow> usize \<Rightarrow> usize option" where
  [arith_defs]: "checked_sub a b = (if b \<le> a then Some (a - b) else None)"

definition saturating_sub :: "usize \<Rightarrow> usize \<Rightarrow> usize" where
  [arith_defs]: "saturating_sub a b = a - b"

definition wrapping_add :: "usize \<Rightarrow> usize \<Rightarrow> usize" where
  "wrapping_add a b = (a + b) mod (usize_max + 1)"

definition wrapping_sub :: "usize \<Rightarrow> usize \<Rightarrow> usize" where
  "wrapping_sub a b = (a + (usize_max + 1) - b) mod (usize_max + 1)"

definition is_multiple_of :: "usize \<Rightarrow> usize \<Rightarrow> bool" where
  "is_multiple_of a b = (if b = 0 then a = 0 else a mod b = 0)"

definition is_power_of_two :: "usize \<Rightarrow> bool" where
  "is_power_of_two n \<longleftrightarrow> list_ex (\<lambda>k. n = 2 ^ k) [0..<64]"

definition u32_try_from :: "usize \<Rightarrow> u32 option" where
  "u32_try_from n = (if n < 2 ^ 32 then Some (word_of_nat n) else None)"

lemma usize_max_power: "usize_max + 1 = 2 ^ 64"
  by (simp add: usize_max_def)

lemma checked_add_eq_Some [simp]:
  "checked_add a b = Some c \<longleftrightarrow> c = a + b \<and> a + b \<le> usize_max"
  by (auto simp: checked_add_def)

lemma checked_add_eq_None [simp]: "checked_add a b = None \<longleftrightarrow> usize_max < a + b"
  by (auto simp: checked_add_def)

lemma checked_mul_eq_Some [simp]:
  "checked_mul a b = Some c \<longleftrightarrow> c = a * b \<and> a * b \<le> usize_max"
  by (auto simp: checked_mul_def)

lemma checked_mul_eq_None [simp]: "checked_mul a b = None \<longleftrightarrow> usize_max < a * b"
  by (auto simp: checked_mul_def)

lemma checked_sub_eq_Some [simp]: "checked_sub a b = Some c \<longleftrightarrow> c = a - b \<and> b \<le> a"
  by (auto simp: checked_sub_def)

lemma checked_sub_eq_None [simp]: "checked_sub a b = None \<longleftrightarrow> a < b"
  by (auto simp: checked_sub_def)

lemma wrapping_add_small [simp]: "a + b \<le> usize_max \<Longrightarrow> wrapping_add a b = a + b"
  by (simp add: wrapping_add_def)

lemma wrapping_sub_small: "b \<le> a \<Longrightarrow> a \<le> usize_max \<Longrightarrow> wrapping_sub a b = a - b"
proof -
  assume le: "b \<le> a" and a: "a \<le> usize_max"
  have "a + (usize_max + 1) - b = (a - b) + (usize_max + 1)" using le by simp
  moreover have "(a - b + (usize_max + 1)) mod (usize_max + 1) = a - b"
    using a by (simp only: mod_add_self2) simp
  ultimately show ?thesis by (simp only: wrapping_sub_def)
qed

lemma is_multiple_of_dvd [simp]: "is_multiple_of a b \<longleftrightarrow> b dvd a"
  by (auto simp: is_multiple_of_def dvd_eq_mod_eq_0)

lemma is_power_of_two_iff: "is_power_of_two n \<longleftrightarrow> (\<exists>k<64. n = 2 ^ k)"
  by (auto simp: is_power_of_two_def list_ex_iff)

lemma is_power_of_two_pos: "is_power_of_two n \<Longrightarrow> 0 < n"
  by (auto simp: is_power_of_two_iff)

lemma power_of_two_dvd_le:
  assumes "is_power_of_two a" "is_power_of_two b" "a \<le> b"
  shows "a dvd b"
proof -
  from assms obtain i j :: nat where "a = 2 ^ i" "b = 2 ^ j"
    by (auto simp: is_power_of_two_iff)
  with assms(3) have "i \<le> j" by simp
  then show ?thesis using \<open>a = 2 ^ i\<close> \<open>b = 2 ^ j\<close> by (simp add: le_imp_power_dvd)
qed

lemma u32_try_from_eq_Some:
  "u32_try_from n = Some w \<longleftrightarrow> n < 2 ^ 32 \<and> w = word_of_nat n"
  by (auto simp: u32_try_from_def)

lemma unat_u32_of_nat [simp]: "n < 2 ^ 32 \<Longrightarrow> unat (word_of_nat n :: u32) = n"
  by (simp add: unat_of_nat take_bit_nat_eq_self)

section \<open>Runs\<close>

type_synonym 'a run = "'a option"

definition assert_that :: "bool \<Rightarrow> unit run" where
  [run_defs]: "assert_that P = (if P then Some () else None)"

text \<open>\<open>debug_assert!\<close> checks only in a build with debug assertions (\<open>dbg\<close>).\<close>

definition debug_assert :: "bool \<Rightarrow> bool \<Rightarrow> unit run" where
  [run_defs]: "debug_assert dbg P = (if dbg \<and> \<not> P then None else Some ())"

lemma assert_that_eq_Some [simp]: "assert_that P = Some u \<longleftrightarrow> P"
  by (simp add: assert_that_def)

lemma debug_assert_eq_Some [simp]: "debug_assert dbg P = Some u \<longleftrightarrow> (dbg \<longrightarrow> P)"
  by (auto simp: debug_assert_def)

lemma assert_that_True [simp]: "P \<Longrightarrow> assert_that P = Some ()"
  by simp

lemma debug_assert_True [simp]: "P \<Longrightarrow> debug_assert dbg P = Some ()"
  by simp

lemmas run_elims = Option.bind_eq_Some_conv

section \<open>Vectors\<close>

definition vec_get :: "'a list \<Rightarrow> usize \<Rightarrow> 'a run" where
  [run_defs]: "vec_get xs i = (if i < length xs then Some (xs ! i) else None)"

definition vec_set :: "'a list \<Rightarrow> usize \<Rightarrow> 'a \<Rightarrow> 'a list run" where
  [run_defs]: "vec_set xs i x = (if i < length xs then Some (xs[i := x]) else None)"

definition vec_insert :: "'a list \<Rightarrow> usize \<Rightarrow> 'a \<Rightarrow> 'a list run" where
  [run_defs]: "vec_insert xs i x =
    (if i \<le> length xs then Some (take i xs @ x # drop i xs) else None)"

definition vec_last :: "'a list \<Rightarrow> 'a option" where
  "vec_last xs = (if xs = [] then None else Some (last xs))"

definition swap_remove :: "'a list \<Rightarrow> usize \<Rightarrow> ('a \<times> 'a list) run" where
  [run_defs]: "swap_remove xs i =
    (if i < length xs then Some (xs ! i, butlast (xs[i := last xs])) else None)"

lemma vec_get_eq_Some [simp]: "vec_get xs i = Some x \<longleftrightarrow> i < length xs \<and> x = xs ! i"
  by (auto simp: vec_get_def)

lemma vec_set_eq_Some [simp]: "vec_set xs i x = Some ys \<longleftrightarrow> i < length xs \<and> ys = xs[i := x]"
  by (auto simp: vec_set_def)

lemma vec_get_in [simp]: "i < length xs \<Longrightarrow> vec_get xs i = Some (xs ! i)"
  by simp

lemma vec_set_in [simp]: "i < length xs \<Longrightarrow> vec_set xs i x = Some (xs[i := x])"
  by simp

lemma vec_last_eq_Some: "vec_last xs = Some x \<longleftrightarrow> xs \<noteq> [] \<and> x = last xs"
  by (auto simp: vec_last_def)

lemma vec_last_eq_None [simp]: "vec_last xs = None \<longleftrightarrow> xs = []"
  by (simp add: vec_last_def)

lemma swap_remove_nth:
  assumes "i < length xs" "j < length xs - 1"
  shows "butlast (xs[i := last xs]) ! j = (if j = i then last xs else xs ! j)"
  using assms by (simp add: nth_butlast)

lemma mset_swap_remove:
  assumes "i < length xs"
  shows "mset xs = add_mset (xs ! i) (mset (butlast (xs[i := last xs])))"
proof (cases "i = length xs - 1")
  case True
  from assms have ne: "xs \<noteq> []" by auto
  with True have last: "xs ! i = last xs" by (simp add: last_conv_nth)
  from last have same: "xs[i := last xs] = xs" by (metis list_update_id)
  have "mset (butlast xs @ [last xs]) = add_mset (last xs) (mset (butlast xs))" by simp
  then show ?thesis using ne same last by simp
next
  case False
  let ?ys = "xs[i := last xs]"
  have ne: "xs \<noteq> []" and i: "i < length (butlast xs)" using assms False by auto
  have "last ?ys = last xs" using False ne assms
    by (simp add: last_list_update)
  then have "mset ?ys = add_mset (last xs) (mset (butlast ?ys))"
  proof -
    have "?ys = butlast ?ys @ [last ?ys]" using ne by simp
    then have "mset ?ys = mset (butlast ?ys @ [last ?ys])" by (rule arg_cong)
    with \<open>last ?ys = last xs\<close> show ?thesis by simp
  qed
  moreover have "add_mset (xs ! i) (mset ?ys) = add_mset (last xs) (mset xs)"
    using assms by (simp add: mset_update)
  ultimately have "add_mset (last xs) (add_mset (xs ! i) (mset (butlast ?ys))) =
      add_mset (last xs) (mset xs)" by (simp add: add_mset_commute)
  then show ?thesis by simp
qed

subsection \<open>Binary search\<close>

text \<open>
  \<open>slice::binary_search_by\<close> as the standard library implements it: the window
  \<open>[base, base + size)\<close> is halved while it has more than one element.
  \<open>partition_point\<close> is the search whose comparison never answers \<open>Equal\<close>.
\<close>

datatype ordering = OLess | OEqual | OGreater

definition cmp_usize :: "usize \<Rightarrow> usize \<Rightarrow> ordering" where
  "cmp_usize a b = (if a < b then OLess else if a = b then OEqual else OGreater)"

function bsearch_base :: "('a \<Rightarrow> ordering) \<Rightarrow> 'a list \<Rightarrow> nat \<Rightarrow> nat \<Rightarrow> nat" where
  "bsearch_base f xs base sz =
     (if 1 < sz
      then let half = sz div 2; mid = base + half
           in bsearch_base f xs (if f (xs ! mid) = OGreater then base else mid) (sz - half)
      else base)"
  by pat_completeness auto
termination
  by (relation "measure (\<lambda>(f, xs, base, sz). sz)") auto

declare bsearch_base.simps [simp del]

definition binary_search_by :: "('a \<Rightarrow> ordering) \<Rightarrow> 'a list \<Rightarrow> usize + usize" where
  "binary_search_by f xs =
     (if xs = [] then Inl 0
      else let base = bsearch_base f xs 0 (length xs)
           in (case f (xs ! base) of
                 OEqual \<Rightarrow> Inr base
               | OLess \<Rightarrow> Inl (base + 1)
               | OGreater \<Rightarrow> Inl base))"

definition partition_point :: "('a \<Rightarrow> bool) \<Rightarrow> 'a list \<Rightarrow> usize" where
  "partition_point p xs =
     (case binary_search_by (\<lambda>x. if p x then OLess else OGreater) xs of
        Inl i \<Rightarrow> i | Inr i \<Rightarrow> i)"

lemma bsearch_base_spec:
  assumes "0 < sz" "base + sz \<le> length xs"
    and "base = 0 \<or> f (xs ! base) \<noteq> OGreater"
    and "\<And>i. base + sz \<le> i \<Longrightarrow> i < length xs \<Longrightarrow> f (xs ! i) = OGreater"
    and "\<And>i j. i \<le> j \<Longrightarrow> j < length xs \<Longrightarrow> f (xs ! i) = OGreater \<Longrightarrow> f (xs ! j) = OGreater"
  defines "b \<equiv> bsearch_base f xs base sz"
  shows "b < length xs \<and> (b = 0 \<or> f (xs ! b) \<noteq> OGreater) \<and>
    (\<forall>i. b < i \<longrightarrow> i < length xs \<longrightarrow> f (xs ! i) = OGreater)"
  unfolding b_def using assms(1-5)
proof (induction f xs base sz rule: bsearch_base.induct)
  case (1 f xs base sz)
  show ?case
  proof (cases "1 < sz")
    case False
    with "1.prems"(1) have sz: "sz = 1" by simp
    have "bsearch_base f xs base sz = base" using False by (simp add: bsearch_base.simps)
    with sz "1.prems"(2-4) show ?thesis by auto
  next
    case True
    let ?mid = "base + sz div 2"
    let ?base = "if f (xs ! ?mid) = OGreater then base else ?mid"
    let ?b = "bsearch_base f xs ?base (sz - sz div 2)"
    have "?b < length xs \<and> (?b = 0 \<or> f (xs ! ?b) \<noteq> OGreater) \<and>
      (\<forall>i. ?b < i \<longrightarrow> i < length xs \<longrightarrow> f (xs ! i) = OGreater)"
    proof (rule "1.IH" [OF True refl refl])
      show "0 < sz - sz div 2" using True by simp
      show "?base + (sz - sz div 2) \<le> length xs" using "1.prems"(2) by auto
      show "?base = 0 \<or> f (xs ! ?base) \<noteq> OGreater" using "1.prems"(3) by auto
      show "f (xs ! i) = OGreater" if "?base + (sz - sz div 2) \<le> i" "i < length xs" for i
      proof (cases "f (xs ! ?mid) = OGreater")
        case True
        then have "?mid \<le> i" using that(1) by (simp split: if_splits)
        from this that(2) True show ?thesis by (rule "1.prems"(5))
      next
        case False
        then show ?thesis using that "1.prems"(4) by (simp split: if_splits)
      qed
      show "f (xs ! j) = OGreater" if "i \<le> j" "j < length xs" "f (xs ! i) = OGreater" for i j
        by (rule "1.prems"(5) [OF that])
    qed
    then show ?thesis
    proof (rule back_subst [of "\<lambda>b. b < length xs \<and> (b = 0 \<or> f (xs ! b) \<noteq> OGreater) \<and>
        (\<forall>i. b < i \<longrightarrow> i < length xs \<longrightarrow> f (xs ! i) = OGreater)"])
      show "?b = bsearch_base f xs base sz"
        unfolding bsearch_base.simps [of f xs base sz] Let_def by (rule if_P [OF True, symmetric])
    qed
  qed
qed

text \<open>
  On strictly increasing keys the search answers the position of the key, or the
  position where it would be inserted.
\<close>

lemma binary_search_by_key_spec:
  assumes sorted: "sorted_wrt (<) (map key xs)"
  shows "case binary_search_by (\<lambda>x. cmp_usize (key x) k) xs of
      Inr i \<Rightarrow> i < length xs \<and> key (xs ! i) = k
    | Inl i \<Rightarrow> i \<le> length xs \<and> (\<forall>j<i. key (xs ! j) < k) \<and>
        (\<forall>j. i \<le> j \<longrightarrow> j < length xs \<longrightarrow> k < key (xs ! j))"
proof (cases "xs = []")
  case True
  then show ?thesis by (simp add: binary_search_by_def)
next
  case False
  let ?f = "\<lambda>x. cmp_usize (key x) k"
  let ?b = "bsearch_base ?f xs 0 (length xs)"
  have mono: "key (xs ! i) < key (xs ! j)" if "i < j" "j < length xs" for i j
    using sorted that by (auto simp: sorted_wrt_map sorted_wrt_iff_nth_less)
  have gt: "?f x = OGreater \<longleftrightarrow> k < key x" for x by (simp add: cmp_usize_def)
  have spec: "?b < length xs \<and> (?b = 0 \<or> \<not> k < key (xs ! ?b)) \<and>
      (\<forall>i. ?b < i \<longrightarrow> i < length xs \<longrightarrow> k < key (xs ! i))"
  proof -
    have up: "?f (xs ! j) = OGreater"
      if "i \<le> j" "j < length xs" "?f (xs ! i) = OGreater" for i j
    proof (cases "i = j")
      case False
      then have "key (xs ! i) < key (xs ! j)" using mono that by simp
      with that(3) show ?thesis unfolding gt by simp
    qed (use that in simp)
    have "?b < length xs \<and> (?b = 0 \<or> ?f (xs ! ?b) \<noteq> OGreater) \<and>
        (\<forall>i. ?b < i \<longrightarrow> i < length xs \<longrightarrow> ?f (xs ! i) = OGreater)"
      using False up by (intro bsearch_base_spec) simp_all
    then show ?thesis unfolding gt .
  qed
  show ?thesis
  proof (cases "?f (xs ! ?b)")
    case OEqual
    with False spec show ?thesis
      by (simp add: binary_search_by_def Let_def cmp_usize_def split: if_splits)
  next
    case OLess
    then have lt: "key (xs ! ?b) < k" by (simp add: cmp_usize_def split: if_splits)
    have "key (xs ! j) < k" if "j < ?b + 1" for j
      using lt mono [of j ?b] spec that by (cases "j = ?b") auto
    with OLess False spec show ?thesis by (auto simp: binary_search_by_def Let_def)
  next
    case OGreater
    then have "k < key (xs ! ?b)" by (simp add: cmp_usize_def split: if_splits)
    moreover from this spec have "?b = 0" by simp
    ultimately have "k < key (xs ! j)" if "j < length xs" for j
      using spec that by (cases "j = 0") auto
    with OGreater False \<open>?b = 0\<close> show ?thesis by (simp add: binary_search_by_def Let_def)
  qed
qed

lemma partition_point_spec:
  assumes down: "\<And>i j. i \<le> j \<Longrightarrow> j < length xs \<Longrightarrow> p (xs ! j) \<Longrightarrow> p (xs ! i)"
  defines "k \<equiv> partition_point p xs"
  shows "k \<le> length xs \<and> (\<forall>i<k. p (xs ! i)) \<and> (\<forall>i. k \<le> i \<longrightarrow> i < length xs \<longrightarrow> \<not> p (xs ! i))"
proof (cases "xs = []")
  case True
  then show ?thesis by (simp add: k_def partition_point_def binary_search_by_def)
next
  case False
  let ?f = "\<lambda>x. if p x then OLess else OGreater"
  let ?b = "bsearch_base ?f xs 0 (length xs)"
  have "?b < length xs \<and> (?b = 0 \<or> ?f (xs ! ?b) \<noteq> OGreater) \<and>
      (\<forall>i. ?b < i \<longrightarrow> i < length xs \<longrightarrow> ?f (xs ! i) = OGreater)"
    using False down by (intro bsearch_base_spec) (auto split: if_splits)
  then have spec: "?b < length xs" "?b = 0 \<or> p (xs ! ?b)" "\<And>i. ?b < i \<Longrightarrow> i < length xs \<Longrightarrow> \<not> p (xs ! i)"
    by (auto split: if_splits)
  have k: "k = (if p (xs ! ?b) then ?b + 1 else ?b)"
    using False by (simp add: k_def partition_point_def binary_search_by_def Let_def)
  show ?thesis
  proof (cases "p (xs ! ?b)")
    case True
    then have "p (xs ! i)" if "i < ?b + 1" for i
      using down [of i ?b] spec(1) that by simp
    with True spec show ?thesis by (auto simp: k)
  next
    case False
    with spec(2) have "?b = 0" by simp
    have "\<not> p (xs ! i)" if "i < length xs" for i
      using spec(3) [of i] False \<open>?b = 0\<close> that by (cases "i = 0") auto
    with False \<open>?b = 0\<close> show ?thesis by (simp add: k)
  qed
qed

section \<open>Rounding up to an alignment\<close>

text \<open>
  Several modules of the crate carry their own copy of \<open>align_up\<close>. They share one
  contract, and what the callers need of it is proved once here.
\<close>

locale aligner =
  fixes round_up :: "usize \<Rightarrow> usize \<Rightarrow> usize option"
  assumes round_up_eq: "round_up v a =
    (if v mod a = 0 then Some v else checked_add v (a - v mod a))"
begin

lemma round_up_SomeD:
  assumes "round_up v a = Some w" "0 < a"
  shows "a dvd w" "v \<le> w" "w < v + a" "v \<le> usize_max \<Longrightarrow> w \<le> usize_max"
proof -
  have "a dvd w \<and> v \<le> w \<and> w < v + a \<and> (v \<le> usize_max \<longrightarrow> w \<le> usize_max)"
  proof (cases "v mod a = 0")
    case True
    with assms show ?thesis by (auto simp: round_up_eq)
  next
    case False
    with assms have w: "w = v + (a - v mod a)" "w \<le> usize_max" by (auto simp: round_up_eq)
    have "v mod a < a" using assms(2) by simp
    then have "v + (a - v mod a) = (v - v mod a) + a" by (simp add: mod_less_eq_dividend)
    moreover have "a dvd (v - v mod a) + a" by (rule dvd_add [OF dvd_minus_mod dvd_refl])
    ultimately show ?thesis using w False \<open>v mod a < a\<close> by auto
  qed
  then show "a dvd w" "v \<le> w" "w < v + a" "v \<le> usize_max \<Longrightarrow> w \<le> usize_max" by auto
qed

lemma round_up_least:
  assumes "round_up v a = Some w" "0 < a" "a dvd u" "v \<le> u"
  shows "w \<le> u"
proof (rule ccontr)
  assume "\<not> w \<le> u"
  then have lt: "u < w" by simp
  have "a dvd w" "w < v + a" using round_up_SomeD [OF assms(1,2)] by auto
  then have "a dvd w - u" using assms(3) by simp
  moreover have "0 < w - u" "w - u < a" using lt \<open>w < v + a\<close> assms(4) by auto
  ultimately show False by (simp add: nat_dvd_not_less)
qed

lemma round_up_None_iff:
  assumes "v \<le> usize_max" "0 < a"
  shows "round_up v a = None \<longleftrightarrow> (\<forall>w. a dvd w \<longrightarrow> v \<le> w \<longrightarrow> usize_max < w)"
proof
  assume none: "round_up v a = None"
  then have nz: "v mod a \<noteq> 0" and big: "usize_max < v + (a - v mod a)"
    by (auto simp: round_up_eq split: if_splits)
  show "\<forall>w. a dvd w \<longrightarrow> v \<le> w \<longrightarrow> usize_max < w"
  proof (intro allI impI)
    fix w assume w: "a dvd w" "v \<le> w"
    then obtain k where k: "w = a * k" by (auto elim: dvdE)
    have v: "v = a * (v div a) + v mod a" by simp
    have "v div a < k"
    proof (rule ccontr)
      assume "\<not> v div a < k"
      then have "a * k \<le> a * (v div a)" by simp
      with k v w(2) nz show False by linarith
    qed
    then have "a * (v div a + 1) \<le> w" using k by (metis Suc_eq_plus1 Suc_leI mult_le_mono2)
    then have "a * (v div a) + a \<le> w" by simp
    moreover have "v + (a - v mod a) = a * (v div a) + a"
      using v mod_less_divisor [OF assms(2), of v] by linarith
    ultimately show "usize_max < w" using big by simp
  qed
next
  assume all: "\<forall>w. a dvd w \<longrightarrow> v \<le> w \<longrightarrow> usize_max < w"
  show "round_up v a = None"
  proof (cases "round_up v a")
    case (Some w)
    then show ?thesis using round_up_SomeD [OF Some assms(2)] all assms(1) by fastforce
  qed
qed

lemma round_up_multiple [simp]: "a dvd v \<Longrightarrow> round_up v a = Some v"
  by (simp add: round_up_eq)

end

section \<open>Accounting for blocks\<close>

lemma distinct_addrs_length:
  assumes "distinct xs" "\<And>x. x \<in> set xs \<Longrightarrow> 0 < x \<and> x \<le> usize_max"
  shows "length xs \<le> usize_max"
proof -
  have "set xs \<subseteq> {1..usize_max}" using assms(2) by force
  then have "card (set xs) \<le> card {1..usize_max}" by (intro card_mono) auto
  then show ?thesis using assms(1) by (simp add: distinct_card)
qed

lemma mset_concat_map_update:
  assumes "i < length xs"
  shows "mset (concat (map f (xs[i := y]))) + mset (f (xs ! i)) =
    mset (concat (map f xs)) + mset (f y)"
  using assms
proof (induction xs arbitrary: i)
  case (Cons x xs)
  show ?case
  proof (cases i)
    case 0
    then show ?thesis by (simp add: ac_simps)
  next
    case (Suc j)
    then show ?thesis using Cons.IH [of j] Cons.prems by (simp add: add.assoc)
  qed
qed simp

lemma sum_list_map_update:
  fixes f :: "'a \<Rightarrow> 'b::comm_monoid_add"
  assumes "i < length xs"
  shows "sum_list (map f (xs[i := y])) + f (xs ! i) = sum_list (map f xs) + f y"
  using assms
proof (induction xs arbitrary: i)
  case (Cons x xs)
  show ?case
  proof (cases i)
    case 0
    then show ?thesis by (simp add: ac_simps)
  next
    case (Suc j)
    then show ?thesis using Cons.IH [of j] Cons.prems by (simp add: add.assoc)
  qed
qed simp

lemma set_mset_sum_list [simp]: "set_mset (sum_list Ms) = (\<Union>M\<in>set Ms. set_mset M)"
  by (induction Ms) auto

lemma distinct_mset_eq: "mset xs = mset ys \<Longrightarrow> distinct xs \<Longrightarrow> distinct ys"
  by (metis distinct_count_atmost_1 set_mset_mset)

end
