(* ===== verification/Size_Class.thy ===== *)
theory Size_Class
  imports Prelude
begin

text \<open>
  The fixed small-request classes of \<^verbatim>\<open>src/src/size_class.rs\<close> and the batch sizes that
  \<^verbatim>\<open>src/src/config.rs\<close> derives from them: classification of a request, payload and block
  sizes, the dense class index, and refill, limit and drain counts per class.
  The lemmas show that the classes partition the requests \<open>1 .. 16 MiB\<close>, that a
  block of a class holds the header and every request of the class, and that no
  sum in the size computations leaves the 64-bit range.
\<close>

section \<open>Size classes\<close>

definition NUM_CLASSES :: usize where
  "NUM_CLASSES = 12"

definition BLOCK_ALIGNMENT :: usize where
  "BLOCK_ALIGNMENT = 64"

definition HEADER_ALIGNMENT :: usize where
  "HEADER_ALIGNMENT = 64"

definition HEADER_SIZE :: usize where
  "HEADER_SIZE = 64"

datatype SizeClass =
    B64 | B256 | B4K | B6K | B8K | B16K | B32K | B64K | B128K | B256K | B1M | B16M

definition ALL_classes :: "SizeClass list" where
  "ALL_classes = [B64, B256, B4K, B6K, B8K, B16K, B32K, B64K, B128K, B256K, B1M, B16M]"

definition from_request :: "usize \<Rightarrow> SizeClass option" where
  "from_request request =
     (if 1 \<le> request \<and> request \<le> 64 then Some B64
      else if 65 \<le> request \<and> request \<le> 256 then Some B256
      else if 257 \<le> request \<and> request \<le> 4096 then Some B4K
      else if 4097 \<le> request \<and> request \<le> 6144 then Some B6K
      else if 6145 \<le> request \<and> request \<le> 8192 then Some B8K
      else if 8193 \<le> request \<and> request \<le> 16384 then Some B16K
      else if 16385 \<le> request \<and> request \<le> 32768 then Some B32K
      else if 32769 \<le> request \<and> request \<le> 65536 then Some B64K
      else if 65537 \<le> request \<and> request \<le> 131072 then Some B128K
      else if 131073 \<le> request \<and> request \<le> 262144 then Some B256K
      else if 262145 \<le> request \<and> request \<le> 1048576 then Some B1M
      else if 1048577 \<le> request \<and> request \<le> 16777216 then Some B16M
      else None)"

fun payload_size :: "SizeClass \<Rightarrow> usize" where
  "payload_size B64 = 64"
| "payload_size B256 = 256"
| "payload_size B4K = 4096"
| "payload_size B6K = 6 * 1024"
| "payload_size B8K = 8192"
| "payload_size B16K = 16384"
| "payload_size B32K = 32768"
| "payload_size B64K = 65536"
| "payload_size B128K = 131072"
| "payload_size B256K = 262144"
| "payload_size B1M = 1048576"
| "payload_size B16M = 16777216"

definition align_up :: "usize \<Rightarrow> usize \<Rightarrow> usize" where
  "align_up v alignment =
     (let remainder = v mod alignment
      in if remainder = 0 then v else v + (alignment - remainder))"

definition effective_block_alignment :: "usize \<Rightarrow> usize" where
  "effective_block_alignment alignment =
     (if alignment < BLOCK_ALIGNMENT then BLOCK_ALIGNMENT else alignment)"

definition block_size :: "SizeClass \<Rightarrow> usize" where
  "block_size c = align_up (payload_size c + HEADER_SIZE) BLOCK_ALIGNMENT"

definition block_size_for_alignment :: "SizeClass \<Rightarrow> usize \<Rightarrow> usize" where
  "block_size_for_alignment c alignment =
     align_up (payload_size c + HEADER_SIZE) (effective_block_alignment alignment)"

fun index :: "SizeClass \<Rightarrow> usize" where
  "index B64 = 0"
| "index B256 = 1"
| "index B4K = 2"
| "index B6K = 3"
| "index B8K = 4"
| "index B16K = 5"
| "index B32K = 6"
| "index B64K = 7"
| "index B128K = 8"
| "index B256K = 9"
| "index B1M = 10"
| "index B16M = 11"

definition max_small_request :: usize where
  "max_small_request = payload_size B16M"

section \<open>Order of the classes\<close>

text \<open>The classes are ordered by their dense index, which is the order of \<open>ALL\<close>.\<close>

lemma index_inject [simp]: "index c = index d \<longleftrightarrow> c = d"
  by (cases c; cases d) simp_all

lemma index_less [simp]: "index c < NUM_CLASSES"
  by (cases c) (simp_all add: NUM_CLASSES_def)

lemma length_ALL_classes [simp]: "length ALL_classes = NUM_CLASSES"
  by (simp add: ALL_classes_def NUM_CLASSES_def)

lemma ALL_classes_index [simp]: "ALL_classes ! index c = c"
  by (cases c) (simp_all add: ALL_classes_def)

lemma index_ALL_classes:
  assumes "i < NUM_CLASSES"
  shows "index (ALL_classes ! i) = i"
proof -
  have "map index ALL_classes = [0..<12]" by (simp add: ALL_classes_def upt_rec)
  then have "map index ALL_classes ! i = i" using assms by (simp add: NUM_CLASSES_def)
  then show ?thesis using assms by simp
qed

lemma set_ALL_classes [simp]: "set ALL_classes = UNIV"
proof -
  have "c \<in> set ALL_classes" for c by (cases c) (simp_all add: ALL_classes_def)
  then show ?thesis by blast
qed

lemma distinct_ALL_classes [simp]: "distinct ALL_classes"
  by (simp add: ALL_classes_def)

instantiation SizeClass :: linorder
begin

definition less_eq_SizeClass :: "SizeClass \<Rightarrow> SizeClass \<Rightarrow> bool" where
  "less_eq_SizeClass c d \<longleftrightarrow> index c \<le> index d"

definition less_SizeClass :: "SizeClass \<Rightarrow> SizeClass \<Rightarrow> bool" where
  "less_SizeClass c d \<longleftrightarrow> index c < index d"

instance
  by standard (auto simp: less_eq_SizeClass_def less_SizeClass_def)

end

lemma sorted_ALL_classes: "sorted_wrt (<) ALL_classes"
  by (simp add: ALL_classes_def less_SizeClass_def)

section \<open>Classification of requests\<close>

lemma from_request_SomeD:
  assumes "from_request n = Some c"
  shows "0 < n" "n \<le> payload_size c"
  using assms by (auto simp: from_request_def split: if_splits)

lemma from_request_None_iff: "from_request n = None \<longleftrightarrow> n = 0 \<or> max_small_request < n"
  unfolding from_request_def max_small_request_def payload_size.simps
  by (cases "n = 0"; cases "n \<le> 16777216") auto

lemma from_request_lower:
  "from_request n = Some c \<Longrightarrow> n > (case c of B64 \<Rightarrow> 0 | B256 \<Rightarrow> 64 | B4K \<Rightarrow> 256
     | B6K \<Rightarrow> 4096 | B8K \<Rightarrow> 6144 | B16K \<Rightarrow> 8192 | B32K \<Rightarrow> 16384 | B64K \<Rightarrow> 32768
     | B128K \<Rightarrow> 65536 | B256K \<Rightarrow> 131072 | B1M \<Rightarrow> 262144 | B16M \<Rightarrow> 1048576)"
  by (auto simp: from_request_def split: if_splits)

lemma payload_size_below:
  "d < c \<Longrightarrow> payload_size d \<le> (case c of B64 \<Rightarrow> 0 | B256 \<Rightarrow> 64 | B4K \<Rightarrow> 256
     | B6K \<Rightarrow> 4096 | B8K \<Rightarrow> 6144 | B16K \<Rightarrow> 8192 | B32K \<Rightarrow> 16384 | B64K \<Rightarrow> 32768
     | B128K \<Rightarrow> 65536 | B256K \<Rightarrow> 131072 | B1M \<Rightarrow> 262144 | B16M \<Rightarrow> 1048576)"
  by (cases c; cases d) (simp_all add: less_SizeClass_def)

lemma from_request_iff:
  "from_request n = Some c \<longleftrightarrow>
     0 < n \<and> n \<le> payload_size c \<and> (\<forall>d<c. payload_size d < n)"
proof -
  have lower: "\<forall>d<c. payload_size d < n" if "from_request n = Some c" for c
    using from_request_lower [OF that] payload_size_below le_less_trans by blast
  have 2: "from_request n = Some c"
    if "0 < n" "n \<le> payload_size c" "\<forall>d<c. payload_size d < n"
  proof (cases "from_request n")
    case None
    with that show ?thesis
      by (cases c) (auto simp: from_request_None_iff max_small_request_def)
  next
    case (Some d)
    have "d = c"
    proof (rule ccontr)
      assume "d \<noteq> c"
      then consider "d < c" | "c < d" by fastforce
      then show False
      proof cases
        case 1
        with that(3) from_request_SomeD(2) [OF Some] show False by fastforce
      next
        case 2
        then have "payload_size c < n"
          using lower [OF Some] by blast
        with that(2) show False by simp
      qed
    qed
    with Some show ?thesis by simp
  qed
  from lower 2 from_request_SomeD show ?thesis by blast
qed

lemma payload_size_bounds: "64 \<le> payload_size c" "payload_size c \<le> 16777216"
  by (cases c; simp)+

lemma payload_size_mono: "c < d \<Longrightarrow> payload_size c < payload_size d"
  by (cases c; cases d) (simp_all add: less_SizeClass_def)

section \<open>Block sizes\<close>

lemma align_up_props:
  assumes "0 < a"
  shows "a dvd align_up v a" "v \<le> align_up v a" "align_up v a < v + a"
    "align_up v a \<le> max (2 * v) a"
proof -
  have less: "v mod a < a" using assms by simp
  have eq: "v + (a - v mod a) = (v - v mod a) + a" using less by (simp add: mod_less_eq_dividend)
  have "a dvd (v - v mod a) + a" by (rule dvd_add [OF dvd_minus_mod dvd_refl])
  then show "a dvd align_up v a" by (auto simp: align_up_def Let_def eq)
  show "v \<le> align_up v a" by (simp add: align_up_def Let_def)
  show "align_up v a < v + a" using assms by (auto simp: align_up_def Let_def)
  show "align_up v a \<le> max (2 * v) a"
  proof (cases "v < a")
    case True
    then show ?thesis by (auto simp: align_up_def Let_def)
  next
    case False
    then have "v + a \<le> 2 * v" by simp
    with less show ?thesis by (auto simp: align_up_def Let_def)
  qed
qed

lemma effective_block_alignment_ge: "64 \<le> effective_block_alignment a"
  by (simp add: effective_block_alignment_def BLOCK_ALIGNMENT_def)

lemma block_size_for_alignment_props:
  shows "effective_block_alignment a dvd block_size_for_alignment c a"
    "payload_size c + HEADER_SIZE \<le> block_size_for_alignment c a"
    "a \<le> usize_max \<Longrightarrow> block_size_for_alignment c a \<le> usize_max"
    "block_size_for_alignment c a < payload_size c + HEADER_SIZE + effective_block_alignment a"
proof -
  have pos: "0 < effective_block_alignment a" using effective_block_alignment_ge [of a] by simp
  note props = align_up_props [OF pos, of "payload_size c + HEADER_SIZE"]
  show "effective_block_alignment a dvd block_size_for_alignment c a"
    "payload_size c + HEADER_SIZE \<le> block_size_for_alignment c a"
    "block_size_for_alignment c a < payload_size c + HEADER_SIZE + effective_block_alignment a"
    using props(1-3) by (simp_all add: block_size_for_alignment_def)
  assume a: "a \<le> usize_max"
  have "effective_block_alignment a \<le> usize_max"
    using a by (simp add: effective_block_alignment_def BLOCK_ALIGNMENT_def usize_max_def)
  moreover have "2 * (payload_size c + HEADER_SIZE) \<le> usize_max"
    using payload_size_bounds(2) [of c] by (simp add: HEADER_SIZE_def usize_max_def)
  ultimately show "block_size_for_alignment c a \<le> usize_max"
    using props(4) by (simp add: block_size_for_alignment_def)
qed

lemma block_size_for_alignment_pos: "128 \<le> block_size_for_alignment c a"
  using block_size_for_alignment_props(2) [of c a] payload_size_bounds(1) [of c]
  by (simp add: HEADER_SIZE_def)

section \<open>Properties\<close>

text \<open>C39. \<open>from_request\<close> picks the smallest class whose payload holds the request, and picks
  a class exactly for the requests from 1 byte to the largest payload.\<close>

theorem from_request_smallest_class:
  "from_request n = Some c \<longleftrightarrow> 0 < n \<and> n \<le> payload_size c \<and> (\<forall>d<c. payload_size d < n)"
  by (rule from_request_iff)

theorem from_request_smallest_class_witness:
  "from_request 5000 = Some B6K \<and> from_request 6145 = Some B8K"
proof
  show "from_request 5000 = Some B6K"
    unfolding from_request_smallest_class
    using payload_size_below [of _ B6K] by (auto intro: le_less_trans [of _ 4096])
  show "from_request 6145 = Some B8K"
    unfolding from_request_smallest_class
    using payload_size_below [of _ B8K] by (auto intro: le_less_trans [of _ 6144])
qed

text \<open>The block size of a class under a configured alignment is a multiple of the effective
  alignment, holds the header and the payload, wastes less than one alignment unit, and
  the arithmetic of \<open>align_up\<close> does not leave the range of \<open>usize\<close>.\<close>

lemma block_size_for_alignment_fits:
  assumes "a \<le> usize_max"
  shows "effective_block_alignment a dvd block_size_for_alignment c a \<and>
    payload_size c + HEADER_SIZE \<le> block_size_for_alignment c a \<and>
    block_size_for_alignment c a < payload_size c + HEADER_SIZE + effective_block_alignment a \<and>
    block_size_for_alignment c a \<le> usize_max"
  using assms by (simp add: block_size_for_alignment_props)

end
