(* ===== verification/Config.thy ===== *)
theory Config
  imports Size_Class
begin

text \<open>
  \<^verbatim>\<open>src/src/config.rs\<close> (the allocator configuration and the batch sizes it implies),
  \<^verbatim>\<open>src/src/error.rs\<close> (the error enums) and \<^verbatim>\<open>src/src/stats.rs\<close> (the snapshot structs
  with their totals). The lemmas bound the batch sizes: a refill is at least one block
  and at most the target, a drain never exceeds a refill, and the local limit is at
  least two.
\<close>

section \<open>Errors\<close>

text \<open>The payload of \<open>MapFailed\<close> is an operating-system error code.\<close>

datatype InitError = MapFailed int | InvalidConfig string

datatype AllocError =
    ZeroSize
  | AllocGlobalInitFailed
  | OutOfMemory (requested: usize) (remaining: usize)

datatype FreeError =
    FreeGlobalInitFailed
  | ForeignPointer
  | SizeMismatch (provided: usize) (recorded: usize)
  | DoubleFree
  | AlreadyFreedOrUnknownLarge
  | CorruptHeader

section \<open>Configuration\<close>

record AllocatorConfig =
  arena_size :: usize
  alignment :: usize
  refill_target_bytes :: usize
  local_cache_target_bytes :: usize

definition class_block_size :: "AllocatorConfig \<Rightarrow> SizeClass \<Rightarrow> usize" where
  "class_block_size cfg c = block_size_for_alignment c (alignment cfg)"

definition refill_count :: "AllocatorConfig \<Rightarrow> SizeClass \<Rightarrow> usize" where
  "refill_count cfg c =
     (let count = refill_target_bytes cfg div class_block_size cfg c
      in if count = 0 then 1 else count)"

definition local_limit :: "AllocatorConfig \<Rightarrow> SizeClass \<Rightarrow> usize" where
  "local_limit cfg c =
     (let limit = local_cache_target_bytes cfg div class_block_size cfg c
      in if limit < 2 then 2 else limit)"

definition drain_count :: "AllocatorConfig \<Rightarrow> SizeClass \<Rightarrow> usize" where
  "drain_count cfg c =
     (let count = refill_count cfg c div 2
      in if count = 0 then 1 else count)"

definition default_config :: AllocatorConfig where
  "default_config =
     \<lparr>arena_size = 2 ^ 30, alignment = BLOCK_ALIGNMENT,
      refill_target_bytes = 32 * 2 ^ 10, local_cache_target_bytes = 64 * 2 ^ 10\<rparr>"

lemma refill_count_pos [simp]: "0 < refill_count cfg c"
  by (simp add: refill_count_def Let_def)

lemma drain_count_pos [simp]: "0 < drain_count cfg c"
  by (simp add: drain_count_def Let_def)

lemma drain_count_le_refill: "drain_count cfg c \<le> refill_count cfg c"
  by (simp add: drain_count_def Let_def Suc_leI)

lemma local_limit_ge: "2 \<le> local_limit cfg c"
  by (simp add: local_limit_def Let_def)

lemma class_block_size_pos: "128 \<le> class_block_size cfg c"
  by (simp add: class_block_size_def block_size_for_alignment_pos)

lemma refill_bytes_bound:
  "refill_count cfg c * class_block_size cfg c
     \<le> max (refill_target_bytes cfg) (class_block_size cfg c)"
  by (simp add: refill_count_def Let_def le_max_iff_disj)

lemma local_limit_bytes_bound:
  "local_limit cfg c * class_block_size cfg c
     \<le> max (local_cache_target_bytes cfg) (2 * class_block_size cfg c)"
  by (simp add: local_limit_def Let_def le_max_iff_disj)

section \<open>Statistics snapshots\<close>

record SizeClassStats =
  stats_class :: SizeClass
  stats_blocks :: usize
  stats_bytes :: usize

record AllocatorStats =
  arena_capacity :: usize
  arena_remaining :: usize
  small_central :: "SizeClassStats list"
  large_live_allocations :: usize
  large_live_bytes :: usize
  large_free_blocks :: usize
  large_free_bytes :: usize

record ThreadCacheStats =
  is_bound :: bool
  local_stats :: "SizeClassStats list"

text \<open>\<open>Iterator::sum\<close> over \<open>usize\<close> adds with an overflow check.\<close>

fun sum_usize :: "usize list \<Rightarrow> usize run" where
  "sum_usize [] = Some 0"
| "sum_usize (x # xs) = do { rest \<leftarrow> sum_usize xs; checked_add x rest }"

definition total_small_central_blocks :: "AllocatorStats \<Rightarrow> usize run" where
  "total_small_central_blocks st = sum_usize (map stats_blocks (small_central st))"

definition total_small_central_bytes :: "AllocatorStats \<Rightarrow> usize run" where
  "total_small_central_bytes st = sum_usize (map stats_bytes (small_central st))"

definition total_local_blocks :: "ThreadCacheStats \<Rightarrow> usize run" where
  "total_local_blocks st = sum_usize (map stats_blocks (local_stats st))"

definition total_local_bytes :: "ThreadCacheStats \<Rightarrow> usize run" where
  "total_local_bytes st = sum_usize (map stats_bytes (local_stats st))"

lemma sum_usize_eq:
  "sum_usize xs = (if sum_list xs \<le> usize_max then Some (sum_list xs) else None)"
  by (induction xs) (auto simp: checked_add_def)

section \<open>Properties\<close>

text \<open>Refills and drains always move at least one block, a drain never moves more than a
  refill, a cache may keep at least two blocks, and the bytes behind a refill and a full
  local cache stay within their targets whenever the targets hold one (two) blocks.\<close>

lemma cache_policy_bounds:
  "0 < drain_count cfg c \<and> drain_count cfg c \<le> refill_count cfg c \<and> 2 \<le> local_limit cfg c \<and>
   refill_count cfg c * class_block_size cfg c
     \<le> max (refill_target_bytes cfg) (class_block_size cfg c) \<and>
   local_limit cfg c * class_block_size cfg c
     \<le> max (local_cache_target_bytes cfg) (2 * class_block_size cfg c)"
  using drain_count_le_refill local_limit_ge refill_bytes_bound local_limit_bytes_bound by simp

end
