(* ===== verification/Header.thy ===== *)
theory Header
  imports Config
begin

text \<open>
  \<^verbatim>\<open>src/src/header.rs\<close>: the 64-byte header at the start of every block, its encoding and
  validation, the conversions between block starts and user pointers, and the two
  header words that a free small block uses (the intrusive link and the freed marker).

  Memory is a function from block starts to headers. Headers are 64 bytes long and
  64-byte aligned, so the headers of different block starts never overlap and each can be
  updated on its own. The bytes of a header that was never written need not form a value
  of the Rust enum \<open>AllocationKindTag\<close>; such a byte is \<open>Bad_tag\<close>, and reading it at its
  Rust type has no defined result.
\<close>

unbundle bit_operations_syntax

section \<open>Layout\<close>

definition HEADER_MAGIC :: u32 where
  "HEADER_MAGIC = 0x4f525448"

definition LARGE_CLASS_SENTINEL :: u8 where
  "LARGE_CLASS_SENTINEL = 255"

definition SMALL_FREE_MARKER_SEED :: "64 word" where
  "SMALL_FREE_MARKER_SEED = (- 1) XOR ucast HEADER_MAGIC"

definition HEADER_TAIL_PADDING_SIZE :: usize where
  "HEADER_TAIL_PADDING_SIZE = HEADER_SIZE - 20 - 4 - 8 - 8"

datatype AllocationKindTag = Small_tag | Large_tag | Bad_tag u8

datatype AllocationKind = Small SizeClass | Large

record AllocationHeaderPrefix =
  magic :: u32
  kind :: AllocationKindTag
  class_index :: u8
  reserved :: "u8 list"
  requested_size :: u32
  usable_size :: u32
  owner_cache_id :: u32

record AllocationHeader = AllocationHeaderPrefix +
  free_metadata_alignment_padding :: u32
  free_list_link :: usize
  small_free_marker :: usize
  tail_padding :: "u8 list"

type_synonym heap = "addr \<Rightarrow> AllocationHeader"

definition valid_tag :: "AllocationKindTag \<Rightarrow> bool" where
  "valid_tag t \<longleftrightarrow> t = Small_tag \<or> t = Large_tag"

section \<open>Encoding\<close>

fun size_class_to_index :: "SizeClass \<Rightarrow> u8" where
  "size_class_to_index B64 = 0"
| "size_class_to_index B256 = 1"
| "size_class_to_index B4K = 2"
| "size_class_to_index B6K = 3"
| "size_class_to_index B8K = 4"
| "size_class_to_index B16K = 5"
| "size_class_to_index B32K = 6"
| "size_class_to_index B64K = 7"
| "size_class_to_index B128K = 8"
| "size_class_to_index B256K = 9"
| "size_class_to_index B1M = 10"
| "size_class_to_index B16M = 11"

definition index_to_size_class :: "u8 \<Rightarrow> SizeClass option" where
  "index_to_size_class i =
     (if i = 0 then Some B64
      else if i = 1 then Some B256
      else if i = 2 then Some B4K
      else if i = 3 then Some B6K
      else if i = 4 then Some B8K
      else if i = 5 then Some B16K
      else if i = 6 then Some B32K
      else if i = 7 then Some B64K
      else if i = 8 then Some B128K
      else if i = 9 then Some B256K
      else if i = 10 then Some B1M
      else if i = 11 then Some B16M
      else None)"

definition encode_small_fields :: "SizeClass \<Rightarrow> usize \<Rightarrow> (u8 \<times> u32 \<times> u32) option" where
  "encode_small_fields c request =
     (if request = 0 \<or> request > payload_size c then None
      else do {
        r \<leftarrow> u32_try_from request;
        u \<leftarrow> u32_try_from (payload_size c);
        Some (size_class_to_index c, r, u) })"

definition encode_large_fields :: "usize \<Rightarrow> usize \<Rightarrow> (u32 \<times> u32) option" where
  "encode_large_fields request usable =
     (if request = 0 \<or> usable < request then None
      else do {
        r \<leftarrow> u32_try_from request;
        u \<leftarrow> u32_try_from usable;
        Some (r, u) })"

definition from_encoded_fields ::
    "AllocationKindTag \<Rightarrow> u8 \<Rightarrow> u32 \<Rightarrow> u32 \<Rightarrow> u32 \<Rightarrow> AllocationHeader" where
  "from_encoded_fields k ci r u ow =
     \<lparr>magic = HEADER_MAGIC, kind = k, class_index = ci, reserved = [0, 0],
      requested_size = r, usable_size = u, owner_cache_id = ow,
      free_metadata_alignment_padding = 0, free_list_link = 0, small_free_marker = 0,
      tail_padding = replicate HEADER_TAIL_PADDING_SIZE 0\<rparr>"

definition new_small :: "SizeClass \<Rightarrow> usize \<Rightarrow> AllocationHeader option" where
  "new_small c request = do {
     (ci, r, u) \<leftarrow> encode_small_fields c request;
     Some (from_encoded_fields Small_tag ci r u 0) }"

definition new_large :: "usize \<Rightarrow> usize \<Rightarrow> AllocationHeader option" where
  "new_large request usable = do {
     (r, u) \<leftarrow> encode_large_fields request usable;
     Some (from_encoded_fields Large_tag LARGE_CLASS_SENTINEL r u 0) }"

section \<open>Validation\<close>

text \<open>
  \<open>validate\<close> and \<open>validate_prefix\<close> repeat the same checks on the header and on its
  prefix. The match on the kind has no arm for a byte that is not a value of the enum.
\<close>

definition validate :: "AllocationHeader \<Rightarrow> (FreeError + AllocationKind) run" where
  "validate h =
     (if magic h \<noteq> HEADER_MAGIC then Some (Inl CorruptHeader)
      else if requested_size h = 0 \<or> usable_size h < requested_size h
      then Some (Inl CorruptHeader)
      else case kind h of
          Small_tag \<Rightarrow> (case index_to_size_class (class_index h) of
              None \<Rightarrow> Some (Inl CorruptHeader)
            | Some c \<Rightarrow> if unat (usable_size h) \<noteq> payload_size c
                then Some (Inl CorruptHeader) else Some (Inr (Small c)))
        | Large_tag \<Rightarrow> if class_index h \<noteq> LARGE_CLASS_SENTINEL
            then Some (Inl CorruptHeader) else Some (Inr Large)
        | Bad_tag b \<Rightarrow> None)"

definition validate_prefix :: "AllocationHeaderPrefix \<Rightarrow> (FreeError + AllocationKind) run" where
  "validate_prefix p =
     (if magic p \<noteq> HEADER_MAGIC then Some (Inl CorruptHeader)
      else if requested_size p = 0 \<or> usable_size p < requested_size p
      then Some (Inl CorruptHeader)
      else case kind p of
          Small_tag \<Rightarrow> (case index_to_size_class (class_index p) of
              None \<Rightarrow> Some (Inl CorruptHeader)
            | Some c \<Rightarrow> if unat (usable_size p) \<noteq> payload_size c
                then Some (Inl CorruptHeader) else Some (Inr (Small c)))
        | Large_tag \<Rightarrow> if class_index p \<noteq> LARGE_CLASS_SENTINEL
            then Some (Inl CorruptHeader) else Some (Inr Large)
        | Bad_tag b \<Rightarrow> None)"

definition header_requested_size :: "AllocationHeader \<Rightarrow> usize" where
  "header_requested_size h = unat (requested_size h)"

definition header_usable_size :: "AllocationHeader \<Rightarrow> usize" where
  "header_usable_size h = unat (usable_size h)"

definition small_owner_cache_id :: "AllocationHeader \<Rightarrow> u32 option" where
  "small_owner_cache_id h =
     (case kind h of Small_tag \<Rightarrow> Some (owner_cache_id h) | _ \<Rightarrow> None)"

definition small_owner_cache_id_after_kind_decode :: "bool \<Rightarrow> AllocationHeader \<Rightarrow> u32 run" where
  "small_owner_cache_id_after_kind_decode dbg h = do {
     debug_assert dbg (kind h = Small_tag);
     Some (owner_cache_id h) }"

section \<open>Pointer conversions\<close>

text \<open>
  \<open>NonNull<u8>\<close>, \<open>NonNull<AllocationHeader>\<close> and \<open>NonNull<AllocationHeaderPrefix>\<close> are
  addresses; the casts between them keep the address.
\<close>

definition header_from_block_start :: "addr \<Rightarrow> addr" where
  "header_from_block_start block_start = block_start"

definition header_prefix_from_block_start :: "addr \<Rightarrow> addr" where
  "header_prefix_from_block_start block_start = block_start"

definition block_start_from_header :: "addr \<Rightarrow> addr" where
  "block_start_from_header hdr = hdr"

definition user_ptr_from_block_start :: "addr \<Rightarrow> addr" where
  "user_ptr_from_block_start block_start = wrapping_add block_start HEADER_SIZE"

definition user_ptr_from_header :: "addr \<Rightarrow> addr" where
  "user_ptr_from_header hdr = user_ptr_from_block_start (block_start_from_header hdr)"

definition header_from_user_ptr :: "addr \<Rightarrow> addr" where
  "header_from_user_ptr user_ptr = wrapping_sub user_ptr HEADER_SIZE"

definition block_start_from_user_ptr :: "addr \<Rightarrow> addr" where
  "block_start_from_user_ptr user_ptr = header_from_user_ptr user_ptr"

definition header_prefix_from_user_ptr :: "addr \<Rightarrow> addr" where
  "header_prefix_from_user_ptr user_ptr =
     header_prefix_from_block_start (block_start_from_user_ptr user_ptr)"

section \<open>Reads and writes of headers\<close>

definition read_prefix :: "heap \<Rightarrow> addr \<Rightarrow> AllocationHeaderPrefix run" where
  "read_prefix m p =
     (if valid_tag (kind (m p)) then Some (AllocationHeaderPrefix.truncate (m p)) else None)"

definition read_from_user_ptr ::
    "heap \<Rightarrow> addr \<Rightarrow> (FreeError + AllocationHeader \<times> AllocationKind) run" where
  "read_from_user_ptr m user_ptr = do {
     prefix \<leftarrow> read_prefix m (header_prefix_from_user_ptr user_ptr);
     v \<leftarrow> validate_prefix prefix;
     (case v of
        Inl e \<Rightarrow> Some (Inl e)
      | Inr k \<Rightarrow> Some (Inr (from_encoded_fields (kind prefix) (class_index prefix)
            (requested_size prefix) (usable_size prefix) (owner_cache_id prefix), k))) }"

definition write_to_block :: "bool \<Rightarrow> heap \<Rightarrow> AllocationHeader \<Rightarrow> addr \<Rightarrow> heap run" where
  "write_to_block dbg m h block_start = do {
     debug_assert dbg (block_start mod HEADER_ALIGNMENT = 0);
     Some (m(header_from_block_start block_start := h)) }"

text \<open>Every field of the header is written, so nothing of the old header remains.\<close>

definition write_encoded_fields ::
    "heap \<Rightarrow> addr \<Rightarrow> AllocationKindTag \<Rightarrow> u8 \<Rightarrow> u32 \<Rightarrow> u32 \<Rightarrow> u32 \<Rightarrow> heap" where
  "write_encoded_fields m p k ci r u ow =
     m(p := (m p)\<lparr>magic := HEADER_MAGIC, kind := k, class_index := ci, reserved := [0, 0],
        requested_size := r, usable_size := u, owner_cache_id := ow,
        free_metadata_alignment_padding := 0, free_list_link := 0, small_free_marker := 0,
        tail_padding := replicate HEADER_TAIL_PADDING_SIZE 0\<rparr>)"

definition write_small_prefix :: "heap \<Rightarrow> addr \<Rightarrow> u8 \<Rightarrow> u32 \<Rightarrow> u32 \<Rightarrow> heap" where
  "write_small_prefix m p ci r u = write_encoded_fields m p Small_tag ci r u 0"

definition write_small_to_block ::
    "bool \<Rightarrow> heap \<Rightarrow> addr \<Rightarrow> SizeClass \<Rightarrow> usize \<Rightarrow> u32 \<Rightarrow> (heap \<times> addr) option run" where
  "write_small_to_block dbg m block_start c request ow =
     (case encode_small_fields c request of
        None \<Rightarrow> Some None
      | Some (ci, r, u) \<Rightarrow> do {
          debug_assert dbg (block_start mod HEADER_ALIGNMENT = 0);
          Some (Some (write_encoded_fields m (header_from_block_start block_start) Small_tag ci r u ow,
                      header_from_block_start block_start)) })"

definition write_small_to_block_unchecked ::
    "bool \<Rightarrow> heap \<Rightarrow> addr \<Rightarrow> SizeClass \<Rightarrow> usize \<Rightarrow> u32 \<Rightarrow> heap run" where
  "write_small_to_block_unchecked dbg m block_start c request ow = do {
     debug_assert dbg (request > 0);
     debug_assert dbg (request \<le> payload_size c);
     r \<leftarrow> u32_try_from request;
     u \<leftarrow> u32_try_from (payload_size c);
     debug_assert dbg (block_start mod HEADER_ALIGNMENT = 0);
     Some (write_encoded_fields m (header_from_block_start block_start) Small_tag
             (size_class_to_index c) r u ow) }"

definition initialize_small_to_block_unchecked ::
    "bool \<Rightarrow> heap \<Rightarrow> addr \<Rightarrow> SizeClass \<Rightarrow> heap run" where
  "initialize_small_to_block_unchecked dbg m block_start c = do {
     u \<leftarrow> u32_try_from (payload_size c);
     debug_assert dbg (block_start mod HEADER_ALIGNMENT = 0);
     Some (write_small_prefix m (header_from_block_start block_start) (size_class_to_index c) 0 u) }"

definition refresh_small_requested_size_unchecked ::
    "bool \<Rightarrow> heap \<Rightarrow> addr \<Rightarrow> usize \<Rightarrow> heap run" where
  "refresh_small_requested_size_unchecked dbg m block_start request = do {
     debug_assert dbg (request > 0);
     r \<leftarrow> u32_try_from request;
     debug_assert dbg (block_start mod HEADER_ALIGNMENT = 0);
     debug_assert dbg (usable_size (m block_start) \<ge> r);
     Some (m(block_start := (m block_start)\<lparr>requested_size := r\<rparr>)) }"

definition refresh_small_requested_size_and_owner_unchecked ::
    "bool \<Rightarrow> heap \<Rightarrow> addr \<Rightarrow> usize \<Rightarrow> u32 \<Rightarrow> heap run" where
  "refresh_small_requested_size_and_owner_unchecked dbg m block_start request ow = do {
     debug_assert dbg (request > 0);
     r \<leftarrow> u32_try_from request;
     debug_assert dbg (block_start mod HEADER_ALIGNMENT = 0);
     debug_assert dbg (usable_size (m block_start) \<ge> r);
     Some (m(block_start := (m block_start)\<lparr>requested_size := r, owner_cache_id := ow\<rparr>)) }"

definition write_large_to_block ::
    "bool \<Rightarrow> heap \<Rightarrow> addr \<Rightarrow> usize \<Rightarrow> usize \<Rightarrow> (heap \<times> addr) option run" where
  "write_large_to_block dbg m block_start request usable =
     (case encode_large_fields request usable of
        None \<Rightarrow> Some None
      | Some (r, u) \<Rightarrow> do {
          debug_assert dbg (block_start mod HEADER_ALIGNMENT = 0);
          Some (Some (write_encoded_fields m (header_from_block_start block_start) Large_tag
                        LARGE_CLASS_SENTINEL r u 0,
                      header_from_block_start block_start)) })"

section \<open>Words of a free small block\<close>

definition read_small_free_list_next :: "heap \<Rightarrow> addr \<Rightarrow> addr option" where
  "read_small_free_list_next m block_start =
     (let next_addr = free_list_link (m (header_from_block_start block_start))
      in if next_addr = 0 then None else Some next_addr)"

definition write_small_free_list_next :: "heap \<Rightarrow> addr \<Rightarrow> addr option \<Rightarrow> heap" where
  "write_small_free_list_next m block_start nxt =
     (let hdr = header_from_block_start block_start
      in m(hdr := (m hdr)\<lparr>free_list_link := (case nxt of None \<Rightarrow> 0 | Some p \<Rightarrow> p)\<rparr>))"

definition small_free_marker_for :: "addr \<Rightarrow> usize" where
  "small_free_marker_for block_start =
     unat (SMALL_FREE_MARKER_SEED XOR word_rotl 17 (word_of_nat block_start)
           XOR word_of_nat HEADER_SIZE)"

definition small_block_is_marked_freed :: "bool \<Rightarrow> heap \<Rightarrow> addr \<Rightarrow> bool" where
  "small_block_is_marked_freed dbg m block_start =
     (if dbg then small_free_marker (m block_start) = small_free_marker_for block_start
      else False)"

definition mark_small_block_freed :: "bool \<Rightarrow> heap \<Rightarrow> addr \<Rightarrow> heap" where
  "mark_small_block_freed dbg m block_start =
     (if dbg
      then m(block_start := (m block_start)\<lparr>small_free_marker := small_free_marker_for block_start\<rparr>)
      else m)"

definition clear_small_block_freed :: "bool \<Rightarrow> heap \<Rightarrow> addr \<Rightarrow> heap" where
  "clear_small_block_freed dbg m block_start =
     (if dbg then m(block_start := (m block_start)\<lparr>small_free_marker := 0\<rparr>) else m)"

definition clear_small_free_metadata :: "bool \<Rightarrow> heap \<Rightarrow> addr \<Rightarrow> heap" where
  "clear_small_free_metadata dbg m block_start = clear_small_block_freed dbg m block_start"

section \<open>Facts about the encoding\<close>

named_theorems header_defs \<open>definitions that read or write header fields\<close>

lemmas [header_defs] =
  header_from_block_start_def header_prefix_from_block_start_def block_start_from_header_def
  user_ptr_from_header_def block_start_from_user_ptr_def header_prefix_from_user_ptr_def

lemma index_to_size_class_inverse [simp]:
  "index_to_size_class (size_class_to_index c) = Some c"
  by (cases c) (simp_all add: index_to_size_class_def)

lemma index_to_size_class_SomeD:
  "index_to_size_class i = Some c \<Longrightarrow> i = size_class_to_index c"
  by (auto simp: index_to_size_class_def split: if_splits)

lemma unat_size_class_to_index: "unat (size_class_to_index c) = index c"
  by (cases c) simp_all

lemma payload_size_u32 [simp]:
  "u32_try_from (payload_size c) = Some (word_of_nat (payload_size c))"
  using payload_size_bounds(2) [of c] by (simp add: u32_try_from_def)

lemma unat_payload_size [simp]: "unat (word_of_nat (payload_size c) :: u32) = payload_size c"
  using payload_size_bounds(2) [of c] by simp

lemma request_u32:
  assumes "request \<le> payload_size c"
  shows "u32_try_from request = Some (word_of_nat request)"
    "unat (word_of_nat request :: u32) = request"
    "0 < request \<Longrightarrow> (word_of_nat request :: u32) \<noteq> 0"
    "(word_of_nat request :: u32) \<le> word_of_nat (payload_size c)"
proof -
  have lt: "request < 2 ^ 32" using assms payload_size_bounds(2) [of c] by simp
  then show "u32_try_from request = Some (word_of_nat request)" by (simp add: u32_try_from_def)
  show u: "unat (word_of_nat request :: u32) = request" using lt by simp
  show "(word_of_nat request :: u32) \<noteq> 0" if "0 < request"
    using u that by (metis less_numeral_extra(3) unat_0)
  show "(word_of_nat request :: u32) \<le> word_of_nat (payload_size c)"
    using assms by (simp add: word_le_nat_alt u)
qed

text \<open>Validation of the prefix decides exactly what validation of the header decides.\<close>

lemma validate_prefix_truncate: "validate_prefix (AllocationHeaderPrefix.truncate h) = validate h"
  by (simp add: validate_prefix_def validate_def AllocationHeaderPrefix.truncate_def
      split: AllocationKindTag.split option.split)

lemma validate_cases:
  assumes "valid_tag (kind h)"
  obtains "validate h = Some (Inl CorruptHeader)"
  | c where "validate h = Some (Inr (Small c))" "kind h = Small_tag"
      "class_index h = size_class_to_index c" "unat (usable_size h) = payload_size c"
      "0 < unat (requested_size h)" "unat (requested_size h) \<le> payload_size c"
  | "validate h = Some (Inr Large)" "kind h = Large_tag" "class_index h = LARGE_CLASS_SENTINEL"
      "0 < unat (requested_size h)" "unat (requested_size h) \<le> unat (usable_size h)"
proof -
  consider (bad) "magic h \<noteq> HEADER_MAGIC \<or> requested_size h = 0 \<or> usable_size h < requested_size h"
    | (ok) "magic h = HEADER_MAGIC" "requested_size h \<noteq> 0" "requested_size h \<le> usable_size h"
    by fastforce
  then show ?thesis
  proof cases
    case bad
    then have "validate h = Some (Inl CorruptHeader)" by (auto simp: validate_def)
    then show ?thesis by (rule that(1))
  next
    case ok
    have pos: "0 < unat (requested_size h)" using ok(2) by (simp add: unat_gt_0)
    have le: "unat (requested_size h) \<le> unat (usable_size h)" using ok(3) by (simp add: word_le_nat_alt)
    from assms consider "kind h = Small_tag" | "kind h = Large_tag" by (auto simp: valid_tag_def)
    then show ?thesis
    proof cases
      case 1
      show ?thesis
      proof (cases "index_to_size_class (class_index h)")
        case None
        then show ?thesis using 1 ok that(1) by (simp add: validate_def leD)
      next
        case (Some c)
        then show ?thesis
          using 1 ok pos le that(1) that(2) [of c] index_to_size_class_SomeD [OF Some]
          by (cases "unat (usable_size h) = payload_size c") (simp_all add: validate_def leD)
      qed
    next
      case 2
      then show ?thesis using ok pos le that(1) that(3)
        by (cases "class_index h = LARGE_CLASS_SENTINEL") (simp_all add: validate_def leD)
    qed
  qed
qed

section \<open>Facts about pointers\<close>

lemma block_start_user_ptr_inverse:
  assumes "b \<le> usize_max"
  shows "block_start_from_user_ptr (user_ptr_from_block_start b) = b"
proof (cases "b + HEADER_SIZE \<le> usize_max")
  case True
  then show ?thesis
    by (simp add: header_defs user_ptr_from_block_start_def header_from_user_ptr_def wrapping_sub_small)
next
  case False
  then have "user_ptr_from_block_start b = b + HEADER_SIZE - (usize_max + 1)"
    using assms by (simp add: user_ptr_from_block_start_def wrapping_add_def HEADER_SIZE_def
        usize_max_def mod_if)
  then show ?thesis using False assms
    by (simp add: header_defs header_from_user_ptr_def wrapping_sub_def HEADER_SIZE_def usize_max_def)
qed

lemma user_ptr_from_block_start_eq:
  "b + HEADER_SIZE \<le> usize_max \<Longrightarrow> user_ptr_from_block_start b = b + HEADER_SIZE"
  by (simp add: user_ptr_from_block_start_def)

section \<open>Headers of small blocks\<close>

text \<open>
  What every initialised header of a small block of class \<open>c\<close> satisfies, allocated or
  free; \<open>requested_size\<close> and \<open>owner_cache_id\<close> are refreshed on allocation.
\<close>

definition small_header :: "SizeClass \<Rightarrow> AllocationHeader \<Rightarrow> bool" where
  "small_header c h \<longleftrightarrow> magic h = HEADER_MAGIC \<and> kind h = Small_tag \<and>
     class_index h = size_class_to_index c \<and> usable_size h = word_of_nat (payload_size c) \<and>
     tail_padding h = replicate HEADER_TAIL_PADDING_SIZE 0"

lemma small_header_update [simp]:
  "small_header c (h\<lparr>requested_size := r\<rparr>) = small_header c h"
  "small_header c (h\<lparr>owner_cache_id := ow\<rparr>) = small_header c h"
  "small_header c (h\<lparr>free_list_link := l\<rparr>) = small_header c h"
  "small_header c (h\<lparr>small_free_marker := mk\<rparr>) = small_header c h"
  by (simp_all add: small_header_def)

lemma small_header_class: "small_header c h \<Longrightarrow> small_header d h \<Longrightarrow> c = d"
  by (metis index_to_size_class_inverse option.inject small_header_def)

lemma small_header_write_encoded [simp]:
  "small_header c (write_encoded_fields m p Small_tag (size_class_to_index c) r
     (word_of_nat (payload_size c)) ow p)"
  by (simp add: small_header_def write_encoded_fields_def)

lemma read_small_header:
  assumes "b \<le> usize_max" and "small_header c (m b)"
    and "requested_size (m b) = word_of_nat request" and "0 < request" "request \<le> payload_size c"
  shows "read_from_user_ptr m (user_ptr_from_block_start b) =
    Some (Inr (from_encoded_fields Small_tag (size_class_to_index c) (word_of_nat request)
       (word_of_nat (payload_size c)) (owner_cache_id (m b)), Small c))"
  using assms request_u32 [OF assms(5)]
  by (simp add: read_from_user_ptr_def read_prefix_def header_prefix_from_user_ptr_def
      header_prefix_from_block_start_def block_start_user_ptr_inverse validate_prefix_def
      AllocationHeaderPrefix.truncate_def small_header_def valid_tag_def leD)

section \<open>Freed markers\<close>

lemma marker_seed_bit: "bit (SMALL_FREE_MARKER_SEED XOR word_of_nat HEADER_SIZE) 18"
  by (simp add: SMALL_FREE_MARKER_SEED_def HEADER_MAGIC_def HEADER_SIZE_def bit_simps)

lemma rotated_block_bit:
  assumes "64 dvd b"
  shows "\<not> bit (word_rotl 17 (word_of_nat b :: 64 word)) 18"
proof -
  have "even (b div 2)" using assms by (auto elim!: dvdE)
  then have "\<not> bit b 1" by (simp add: bit_iff_odd)
  then show ?thesis by (simp add: bit_word_rotl_iff bit_of_nat_iff)
qed

text \<open>
  The marker of a 64-byte aligned block is never zero, so a block whose marker word was
  cleared is never taken for a freed one.
\<close>

lemma small_free_marker_for_nonzero:
  assumes "64 dvd b"
  shows "small_free_marker_for b \<noteq> 0"
proof
  assume "small_free_marker_for b = 0"
  then have "SMALL_FREE_MARKER_SEED XOR word_rotl 17 (word_of_nat b) XOR word_of_nat HEADER_SIZE = 0"
    by (simp add: small_free_marker_for_def unat_eq_zero)
  then have "\<not> bit (SMALL_FREE_MARKER_SEED XOR word_rotl 17 (word_of_nat b)
      XOR word_of_nat HEADER_SIZE) 18" by simp
  then show False using marker_seed_bit rotated_block_bit [OF assms] by (simp add: bit_xor_iff)
qed

lemma xor_cancel_mid:
  fixes x a b y :: "64 word"
  assumes "x XOR a XOR y = x XOR b XOR y"
  shows "a = b"
proof (rule bit_word_eqI)
  fix n assume "n < LENGTH(64)"
  have "bit (x XOR a XOR y) n = bit (x XOR b XOR y) n" using assms by simp
  then show "bit a n = bit b n" by (auto simp: bit_xor_iff)
qed

lemma small_free_marker_for_inj:
  assumes "small_free_marker_for a = small_free_marker_for b" "a \<le> usize_max" "b \<le> usize_max"
  shows "a = b"
proof -
  let ?s = "SMALL_FREE_MARKER_SEED" and ?h = "word_of_nat HEADER_SIZE :: 64 word"
  have "?s XOR word_rotl 17 (word_of_nat a) XOR ?h = ?s XOR word_rotl 17 (word_of_nat b) XOR ?h"
    using assms(1) unfolding small_free_marker_for_def by (simp only: word_unat_eq_iff)
  then have "word_rotl 17 (word_of_nat a :: 64 word) = word_rotl 17 (word_of_nat b)"
    by (rule xor_cancel_mid)
  then have "(word_of_nat a :: 64 word) = word_of_nat b"
    by (metis word_rot_lr)
  then have "unat (word_of_nat a :: 64 word) = unat (word_of_nat b :: 64 word)" by simp
  then show ?thesis using assms(2,3)
    by (simp add: unat_of_nat take_bit_nat_eq_self usize_max_def)
qed

lemma marker_after_clear:
  assumes "64 dvd b"
  shows "\<not> small_block_is_marked_freed dbg (clear_small_free_metadata dbg m b) b"
  using small_free_marker_for_nonzero [OF assms]
  by (simp add: small_block_is_marked_freed_def clear_small_free_metadata_def clear_small_block_freed_def)

lemma marker_after_mark:
  "small_block_is_marked_freed dbg (mark_small_block_freed dbg m b) b = dbg"
  by (simp add: small_block_is_marked_freed_def mark_small_block_freed_def)

section \<open>Properties\<close>

text \<open>C32. A header written by \<open>write_small_to_block\<close> is read back from the user pointer with the
  class, the requested size, the payload as usable size and the owner it was written with.\<close>

theorem small_header_round_trip:
  assumes "0 < request" "request \<le> payload_size c" "64 dvd b" "b \<le> usize_max"
  shows "\<exists>m' h. write_small_to_block dbg m b c request ow = Some (Some (m', b)) \<and>
    read_from_user_ptr m' (user_ptr_from_block_start b) = Some (Inr (h, Small c)) \<and>
    header_requested_size h = request \<and> header_usable_size h = payload_size c \<and>
    small_owner_cache_id h = Some ow"
proof -
  let ?m = "write_encoded_fields m b Small_tag (size_class_to_index c) (word_of_nat request)
      (word_of_nat (payload_size c)) ow"
  have "write_small_to_block dbg m b c request ow = Some (Some (?m, b))"
    using assms request_u32 [OF assms(2)]
    by (simp add: write_small_to_block_def encode_small_fields_def header_defs HEADER_ALIGNMENT_def
        dvd_eq_mod_eq_0)
  moreover have "read_from_user_ptr ?m (user_ptr_from_block_start b) =
      Some (Inr (from_encoded_fields Small_tag (size_class_to_index c) (word_of_nat request)
        (word_of_nat (payload_size c)) ow, Small c))"
    using read_small_header [where m = ?m, OF assms(4) small_header_write_encoded _ assms(1,2)]
    by (simp add: write_encoded_fields_def)
  ultimately show ?thesis
    using request_u32(2) [OF assms(2)]
    by (simp add: header_requested_size_def header_usable_size_def small_owner_cache_id_def
        from_encoded_fields_def)
qed

theorem small_header_round_trip_witness:
  "\<exists>m' h. write_small_to_block True (\<lambda>_. from_encoded_fields Large_tag 0 0 0 0) 128 B256 100 7 =
      Some (Some (m', 128)) \<and>
    read_from_user_ptr m' (user_ptr_from_block_start 128) = Some (Inr (h, Small B256)) \<and>
    header_requested_size h = 100 \<and> header_usable_size h = 256 \<and> small_owner_cache_id h = Some 7"
  using small_header_round_trip [of 100 B256 128 True "\<lambda>_. from_encoded_fields Large_tag 0 0 0 0" 7]
  by (simp add: usize_max_def)

text \<open>Validating the header prefix, which is all that \<open>read_from_user_ptr\<close> reads, decides
  exactly what \<open>validate\<close> decides on the whole header.\<close>

lemma validate_prefix_agrees:
  "validate_prefix (AllocationHeaderPrefix.truncate h) = validate h"
  by (rule validate_prefix_truncate)

text \<open>The freed marker of a debug build: a marked block is recognised as freed, a cleared
  one is not, and neither changes what is recognised of any other block.\<close>

lemma freed_marker_correct:
  assumes "64 dvd b"
  shows "small_block_is_marked_freed True (mark_small_block_freed True m b) b \<and>
    \<not> small_block_is_marked_freed True (clear_small_free_metadata True m b) b \<and>
    (\<forall>a. a \<noteq> b \<longrightarrow>
      small_block_is_marked_freed True (mark_small_block_freed True m b) a =
        small_block_is_marked_freed True m a \<and>
      small_block_is_marked_freed True (clear_small_free_metadata True m b) a =
        small_block_is_marked_freed True m a)"
proof (intro conjI allI impI)
  show "small_block_is_marked_freed True (mark_small_block_freed True m b) b"
    by (simp add: marker_after_mark)
  show "\<not> small_block_is_marked_freed True (clear_small_free_metadata True m b) b"
    by (rule marker_after_clear [OF assms])
qed (simp_all add: small_block_is_marked_freed_def mark_small_block_freed_def
    clear_small_free_metadata_def clear_small_block_freed_def)

end
