(* ===== verification/Free_List.thy ===== *)
theory Free_List
  imports Header
begin

text \<open>
  \<^verbatim>\<open>src/src/free_list.rs\<close>: the intrusive LIFO list of free blocks and the detached batch
  used to move a chain of blocks between lists in constant time. The links live in the
  headers of the blocks, so every operation takes and returns the memory.

  \<open>fl_rep m l xs\<close> and \<open>batch_rep m b xs\<close> say that a list or batch represents the
  sequence of blocks \<open>xs\<close> in memory \<open>m\<close>. Each operation is shown to compute the
  corresponding operation on sequences, to return normally on represented lists, and to
  change nothing in memory but link words of the blocks it handles (\<open>link_frame\<close>). The
  interface the other components rely on is the locale \<open>block_list\<close>.
\<close>

section \<open>The data structures and their operations\<close>

record FreeList =
  fl_head :: "addr option"
  fl_len :: usize

record Batch =
  batch_head :: "addr option"
  batch_tail :: "addr option"
  batch_len :: usize

definition FreeList_new :: FreeList where
  "FreeList_new = \<lparr>fl_head = None, fl_len = 0\<rparr>"

definition FreeList_is_empty :: "FreeList \<Rightarrow> bool" where
  "FreeList_is_empty l \<longleftrightarrow> fl_head l = None"

definition push_block :: "heap \<Rightarrow> FreeList \<Rightarrow> addr \<Rightarrow> (heap \<times> FreeList) run" where
  "push_block m l block = do {
     n \<leftarrow> checked_add (fl_len l) 1;
     Some (write_small_free_list_next m block (fl_head l),
           l\<lparr>fl_head := Some block, fl_len := n\<rparr>) }"

definition pop_block_unchecked :: "bool \<Rightarrow> heap \<Rightarrow> FreeList \<Rightarrow> (addr \<times> FreeList) run" where
  "pop_block_unchecked dbg m l = do {
     debug_assert dbg (fl_len l \<noteq> 0);
     h \<leftarrow> fl_head l;
     n \<leftarrow> checked_sub (fl_len l) 1;
     Some (h, l\<lparr>fl_head := read_small_free_list_next m h, fl_len := n\<rparr>) }"

definition pop_block :: "bool \<Rightarrow> heap \<Rightarrow> FreeList \<Rightarrow> (addr option \<times> FreeList) run" where
  "pop_block dbg m l =
     (if fl_len l = 0 then Some (None, l)
      else do { (block, l') \<leftarrow> pop_block_unchecked dbg m l; Some (Some block, l') })"

definition Batch_empty :: Batch where
  "Batch_empty = \<lparr>batch_head = None, batch_tail = None, batch_len = 0\<rparr>"

definition Batch_is_empty :: "Batch \<Rightarrow> bool" where
  "Batch_is_empty b \<longleftrightarrow> batch_head b = None"

definition push_batch :: "bool \<Rightarrow> heap \<Rightarrow> FreeList \<Rightarrow> Batch \<Rightarrow> (heap \<times> FreeList) run" where
  "push_batch dbg m l b =
     (if batch_len b = 0 then Some (m, l)
      else do {
        debug_assert dbg (batch_head b \<noteq> None);
        debug_assert dbg (batch_tail b \<noteq> None);
        h \<leftarrow> batch_head b;
        t \<leftarrow> batch_tail b;
        n \<leftarrow> checked_add (fl_len l) (batch_len b);
        Some (write_small_free_list_next m t (fl_head l),
              l\<lparr>fl_head := Some h, fl_len := n\<rparr>) })"

text \<open>The loop \<open>for _ in 1..take\<close> that follows the links to the last block to detach.\<close>

fun walk_tail :: "heap \<Rightarrow> addr \<Rightarrow> nat \<Rightarrow> addr run" where
  "walk_tail m t 0 = Some t"
| "walk_tail m t (Suc k) = do { nxt \<leftarrow> read_small_free_list_next m t; walk_tail m nxt k }"

definition pop_batch_unchecked ::
    "bool \<Rightarrow> heap \<Rightarrow> FreeList \<Rightarrow> usize \<Rightarrow> (heap \<times> FreeList \<times> Batch) run" where
  "pop_batch_unchecked dbg m l mx = do {
     debug_assert dbg (mx \<noteq> 0);
     debug_assert dbg (fl_len l \<noteq> 0);
     let tk = min mx (fl_len l);
     debug_assert dbg (fl_head l \<noteq> None);
     h \<leftarrow> fl_head l;
     t \<leftarrow> walk_tail m h (tk - 1);
     let remainder = read_small_free_list_next m t;
     n \<leftarrow> checked_sub (fl_len l) tk;
     Some (write_small_free_list_next m t None,
           l\<lparr>fl_head := remainder, fl_len := n\<rparr>,
           \<lparr>batch_head = Some h, batch_tail = Some t, batch_len = tk\<rparr>) }"

definition pop_batch ::
    "bool \<Rightarrow> heap \<Rightarrow> FreeList \<Rightarrow> usize \<Rightarrow> (heap \<times> FreeList \<times> Batch) run" where
  "pop_batch dbg m l mx =
     (if mx = 0 \<or> fl_len l = 0 then Some (m, l, Batch_empty)
      else pop_batch_unchecked dbg m l mx)"

definition Batch_pop_block_unchecked :: "bool \<Rightarrow> heap \<Rightarrow> Batch \<Rightarrow> (addr \<times> Batch) run" where
  "Batch_pop_block_unchecked dbg m b = do {
     debug_assert dbg (batch_len b \<noteq> 0);
     h \<leftarrow> batch_head b;
     let nxt = read_small_free_list_next m h;
     n \<leftarrow> checked_sub (batch_len b) 1;
     Some (h, b\<lparr>batch_len := n, batch_head := nxt,
                 batch_tail := (if n = 0 then None else batch_tail b)\<rparr>) }"

definition Batch_from_single :: "heap \<Rightarrow> addr \<Rightarrow> heap \<times> Batch" where
  "Batch_from_single m block =
     (write_small_free_list_next m block None,
      \<lparr>batch_head = Some block, batch_tail = Some block, batch_len = 1\<rparr>)"

section \<open>Chains of links\<close>

text \<open>\<open>chain m p xs q\<close>: starting at \<open>p\<close> the links pass through \<open>xs\<close> and reach \<open>q\<close>.\<close>

fun chain :: "heap \<Rightarrow> addr option \<Rightarrow> addr list \<Rightarrow> addr option \<Rightarrow> bool" where
  "chain m p [] q \<longleftrightarrow> p = q"
| "chain m p (x # xs) q \<longleftrightarrow>
     p = Some x \<and> x \<noteq> 0 \<and> chain m (read_small_free_list_next m x) xs q"

definition fl_rep :: "heap \<Rightarrow> FreeList \<Rightarrow> addr list \<Rightarrow> bool" where
  "fl_rep m l xs \<longleftrightarrow> chain m (fl_head l) xs None \<and> fl_len l = length xs"

definition batch_rep :: "heap \<Rightarrow> Batch \<Rightarrow> addr list \<Rightarrow> bool" where
  "batch_rep m b xs \<longleftrightarrow> chain m (batch_head b) xs None \<and> batch_len b = length xs \<and>
     batch_tail b = (if xs = [] then None else Some (last xs))"

text \<open>The blocks of a list, read off the memory.\<close>

fun links :: "heap \<Rightarrow> addr option \<Rightarrow> nat \<Rightarrow> addr list" where
  "links m p 0 = []"
| "links m None (Suc n) = []"
| "links m (Some x) (Suc n) = x # links m (read_small_free_list_next m x) n"

definition fl_blocks :: "heap \<Rightarrow> FreeList \<Rightarrow> addr list" where
  "fl_blocks m l = links m (fl_head l) (fl_len l)"

definition link_frame :: "addr set \<Rightarrow> heap \<Rightarrow> heap \<Rightarrow> bool" where
  "link_frame S m m' \<longleftrightarrow>
     (\<forall>a. \<exists>k. m' a = (m a)\<lparr>free_list_link := k\<rparr>) \<and> (\<forall>a. a \<notin> S \<longrightarrow> m' a = m a)"

lemma header_link_self: "\<exists>k. h = h\<lparr>free_list_link := k\<rparr>" for h :: AllocationHeader
  by (rule exI [of _ "free_list_link h"]) simp

lemma link_frame_refl [simp]: "link_frame S m m"
  unfolding link_frame_def by (simp add: header_link_self)

lemma link_frame_trans:
  assumes "link_frame S m m'" "link_frame T m' m''" "S \<union> T \<subseteq> U"
  shows "link_frame U m m''"
proof -
  have "\<exists>k. m'' a = (m a)\<lparr>free_list_link := k\<rparr>" for a
  proof -
    obtain k k' where "m' a = (m a)\<lparr>free_list_link := k\<rparr>" "m'' a = (m' a)\<lparr>free_list_link := k'\<rparr>"
      using assms(1,2) unfolding link_frame_def by blast
    then have "m'' a = (m a)\<lparr>free_list_link := k'\<rparr>" by simp
    then show ?thesis ..
  qed
  moreover have "m'' a = m a" if "a \<notin> U" for a
    using assms that unfolding link_frame_def by (metis Un_iff subset_iff)
  ultimately show ?thesis unfolding link_frame_def by blast
qed

lemma link_frame_mono: "link_frame S m m' \<Longrightarrow> S \<subseteq> T \<Longrightarrow> link_frame T m m'"
  unfolding link_frame_def by blast

lemma link_frame_outside: "link_frame S m m' \<Longrightarrow> a \<notin> S \<Longrightarrow> m' a = m a"
  unfolding link_frame_def by blast

lemma link_frame_fields:
  assumes "link_frame S m m'"
  shows "small_header c (m' a) = small_header c (m a)"
    "requested_size (m' a) = requested_size (m a)"
    "owner_cache_id (m' a) = owner_cache_id (m a)"
    "small_free_marker (m' a) = small_free_marker (m a)"
    "kind (m' a) = kind (m a)"
    "usable_size (m' a) = usable_size (m a)"
proof -
  obtain k where "m' a = (m a)\<lparr>free_list_link := k\<rparr>" using assms unfolding link_frame_def by blast
  then show "small_header c (m' a) = small_header c (m a)"
    "requested_size (m' a) = requested_size (m a)"
    "owner_cache_id (m' a) = owner_cache_id (m a)"
    "small_free_marker (m' a) = small_free_marker (m a)"
    "kind (m' a) = kind (m a)"
    "usable_size (m' a) = usable_size (m a)" by simp_all
qed

lemma write_next_frame [simp]: "link_frame {b} m (write_small_free_list_next m b nxt)"
  unfolding link_frame_def write_small_free_list_next_def Let_def header_from_block_start_def
  by (auto simp: header_link_self)

lemma read_write_next:
  "nxt \<noteq> Some 0 \<Longrightarrow>
   read_small_free_list_next (write_small_free_list_next m b nxt) a =
     (if a = b then nxt else read_small_free_list_next m a)"
  by (simp add: read_small_free_list_next_def write_small_free_list_next_def header_defs Let_def
      split: option.split)

lemma chain_frame:
  assumes "\<And>a. a \<in> set xs \<Longrightarrow> m' a = m a"
  shows "chain m' p xs q = chain m p xs q"
  using assms
  by (induction xs arbitrary: p) (auto simp: read_small_free_list_next_def header_defs)

lemma write_next_other: "a \<noteq> b \<Longrightarrow> write_small_free_list_next m b nxt a = m a"
  by (simp add: write_small_free_list_next_def header_defs Let_def)

lemma chain_write [simp]:
  "b \<notin> set xs \<Longrightarrow> chain (write_small_free_list_next m b nxt) p xs q = chain m p xs q"
  by (rule chain_frame) (metis write_next_other)

lemma chain_append:
  "chain m p (xs @ ys) q \<longleftrightarrow> (\<exists>r. chain m p xs r \<and> chain m r ys q)"
  by (induction xs arbitrary: p) auto

lemma chain_unique:
  "chain m p xs None \<Longrightarrow> chain m p ys None \<Longrightarrow> xs = ys"
proof (induction xs arbitrary: p ys)
  case Nil
  then show ?case by (cases ys) auto
next
  case (Cons x xs)
  then show ?case by (cases ys) auto
qed

lemma chain_distinct: "chain m p xs None \<Longrightarrow> distinct xs"
proof (induction xs arbitrary: p)
  case (Cons x xs)
  have "x \<notin> set xs"
  proof
    assume "x \<in> set xs"
    then obtain us vs where xs: "xs = us @ x # vs" by (auto simp: in_set_conv_decomp)
    let ?n = "read_small_free_list_next m x"
    have a: "chain m ?n xs None" using Cons.prems by simp
    then have "chain m ?n vs None" unfolding xs by (auto simp: chain_append)
    with a have "xs = vs" by (rule chain_unique)
    then have "length xs = length vs" by simp
    with xs show False by simp
  qed
  with Cons show ?case by auto
qed simp

lemma chain_nonzero: "chain m p xs q \<Longrightarrow> x \<in> set xs \<Longrightarrow> x \<noteq> 0"
  by (induction xs arbitrary: p) auto

lemma chain_head_nonzero: "chain m p xs None \<Longrightarrow> p \<noteq> Some 0"
  by (cases xs) auto

section \<open>Operations on represented lists\<close>

lemma fl_rep_blocks: "fl_rep m l xs \<Longrightarrow> fl_blocks m l = xs"
proof -
  have "links m p (length xs) = xs" if "chain m p xs None" for p
    using that by (induction xs arbitrary: p) auto
  then show "fl_rep m l xs \<Longrightarrow> fl_blocks m l = xs" by (simp add: fl_rep_def fl_blocks_def)
qed

lemma fl_rep_unique: "fl_rep m l xs \<Longrightarrow> fl_rep m l ys \<Longrightarrow> xs = ys"
  by (metis fl_rep_blocks)

lemma fl_rep_distinct: "fl_rep m l xs \<Longrightarrow> distinct xs"
  by (auto simp: fl_rep_def dest: chain_distinct)

lemma fl_rep_nonzero: "fl_rep m l xs \<Longrightarrow> x \<in> set xs \<Longrightarrow> x \<noteq> 0"
  by (auto simp: fl_rep_def dest: chain_nonzero)

lemma fl_rep_frame: "fl_rep m l xs \<Longrightarrow> (\<And>a. a \<in> set xs \<Longrightarrow> m' a = m a) \<Longrightarrow> fl_rep m' l xs"
  unfolding fl_rep_def by (metis chain_frame)

lemma fl_rep_new [simp]: "fl_rep m FreeList_new xs \<longleftrightarrow> xs = []"
  by (auto simp: fl_rep_def FreeList_new_def)

lemma fl_rep_Nil_iff: "fl_rep m l [] \<longleftrightarrow> l = FreeList_new"
  by (auto simp: fl_rep_def FreeList_new_def)

lemma fl_rep_is_empty: "fl_rep m l xs \<Longrightarrow> FreeList_is_empty l \<longleftrightarrow> xs = []"
  by (cases xs) (auto simp: fl_rep_def FreeList_is_empty_def)

lemma fl_rep_len: "fl_rep m l xs \<Longrightarrow> fl_len l = length xs"
  by (simp add: fl_rep_def)

lemma push_block_rep:
  assumes "fl_rep m l xs" "b \<notin> set xs" "b \<noteq> 0" "length xs < usize_max"
  obtains m' l' where "push_block m l b = Some (m', l')" "fl_rep m' l' (b # xs)"
    "link_frame {b} m m'"
proof -
  let ?m = "write_small_free_list_next m b (fl_head l)"
  have head: "fl_head l \<noteq> Some 0" using assms(1) by (auto simp: fl_rep_def dest: chain_head_nonzero)
  have "chain ?m (fl_head l) xs None"
    using assms(1,2) by (simp add: fl_rep_def)
  then have "fl_rep ?m (l\<lparr>fl_head := Some b, fl_len := fl_len l + 1\<rparr>) (b # xs)"
    using assms(1,3) head by (simp add: fl_rep_def read_write_next)
  moreover have "push_block m l b = Some (?m, l\<lparr>fl_head := Some b, fl_len := fl_len l + 1\<rparr>)"
    using assms(1,4) by (simp add: push_block_def fl_rep_def checked_add_def)
  ultimately show ?thesis using that write_next_frame by blast
qed

lemma pop_block_unchecked_rep:
  assumes "fl_rep m l (b # xs)"
  obtains l' where "pop_block_unchecked dbg m l = Some (b, l')" "fl_rep m l' xs"
  using assms that [of "l\<lparr>fl_head := read_small_free_list_next m b, fl_len := length xs\<rparr>"]
  by (auto simp: pop_block_unchecked_def fl_rep_def checked_sub_def)

lemma pop_block_rep:
  assumes "fl_rep m l xs"
  shows "\<exists>l'. pop_block dbg m l = Some (case xs of [] \<Rightarrow> None | b # _ \<Rightarrow> Some b, l') \<and>
    fl_rep m l' (tl xs)"
proof (cases xs)
  case Nil
  with assms show ?thesis by (auto simp: pop_block_def fl_rep_def)
next
  case (Cons b ys)
  with assms obtain l' where "pop_block_unchecked dbg m l = Some (b, l')" "fl_rep m l' ys"
    using pop_block_unchecked_rep [of m l b ys dbg] by blast
  moreover have "fl_len l \<noteq> 0" using assms Cons by (simp add: fl_rep_def)
  ultimately show ?thesis using Cons by (auto simp: pop_block_def)
qed

lemma walk_tail_chain:
  assumes "chain m (Some x) (x # xs) q" "k \<le> length xs"
  shows "walk_tail m x k = Some ((x # xs) ! k)"
  using assms
proof (induction k arbitrary: x xs)
  case (Suc k)
  then obtain y ys where xs: "xs = y # ys" by (cases xs) auto
  then have "chain m (Some y) (y # ys) q" using Suc.prems(1) by auto
  then have "walk_tail m y k = Some ((y # ys) ! k)" using Suc xs by auto
  then show ?case using Suc.prems(1) xs by simp
qed simp

lemma pop_batch_unchecked_rep:
  assumes rep: "fl_rep m l xs" and "xs \<noteq> []" "0 < mx"
  obtains m' l' b where "pop_batch_unchecked dbg m l mx = Some (m', l', b)"
    "batch_rep m' b (take mx xs)" "fl_rep m' l' (drop mx xs)" "link_frame (set (take mx xs)) m m'"
proof -
  let ?k = "min mx (length xs)"
  let ?ys = "take mx xs" and ?zs = "drop mx xs"
  have ne: "?ys \<noteq> []" and k: "?k = length ?ys" "0 < ?k" using assms(2,3) by auto
  obtain us t where ys: "?ys = us @ [t]" using ne by (metis append_butlast_last_id)
  have dist: "distinct xs" using rep by (rule fl_rep_distinct)
  have split: "xs = us @ t # ?zs" using ys by (metis append.assoc append_Cons append_Nil append_take_drop_id)
  obtain x xs' where xs: "xs = x # xs'" using assms(2) by (cases xs) auto
  have head: "fl_head l = Some x" using rep xs by (auto simp: fl_rep_def)
  have last: "(x # xs') ! (?k - 1) = t"
    unfolding xs [symmetric] using split k(1) ys by (metis add_diff_cancel_right' length_append_singleton
        nth_append_length Suc_eq_plus1)
  have walk: "walk_tail m x (?k - 1) = Some t"
  proof -
    have "chain m (Some x) (x # xs') None" using rep xs by (auto simp: fl_rep_def)
    moreover have "?k - 1 \<le> length xs'" using xs by simp
    ultimately show ?thesis using walk_tail_chain last by metis
  qed
  obtain r where r1: "chain m (Some x) us r" and r2: "chain m r (t # ?zs) None"
    using rep head split unfolding fl_rep_def by (metis chain_append)
  let ?m = "write_small_free_list_next m t None"
  have notin: "t \<notin> set us" "t \<notin> set ?zs" using dist split by (metis distinct.simps(2) distinct_append
        not_distinct_conv_prefix, metis distinct.simps(2) distinct_append)
  have zs: "chain ?m (read_small_free_list_next m t) ?zs None"
    using r2 notin by simp
  have "chain ?m (Some x) us r" using r1 notin by simp
  then have "chain ?m (Some x) ?ys None"
    using r2 unfolding ys by (auto simp: chain_append read_write_next)
  then have b: "batch_rep ?m \<lparr>batch_head = Some x, batch_tail = Some t, batch_len = ?k\<rparr> ?ys"
    using k ne ys by (simp add: batch_rep_def)
  moreover have "fl_rep ?m (l\<lparr>fl_head := read_small_free_list_next m t, fl_len := length xs - ?k\<rparr>) ?zs"
    using zs by (simp add: fl_rep_def)
  moreover have "link_frame (set ?ys) m ?m"
    by (rule link_frame_mono [OF write_next_frame]) (simp add: ys)
  moreover have "pop_batch_unchecked dbg m l mx = Some (?m,
      l\<lparr>fl_head := read_small_free_list_next m t, fl_len := length xs - ?k\<rparr>,
      \<lparr>batch_head = Some x, batch_tail = Some t, batch_len = ?k\<rparr>)"
    using rep assms(2,3) head walk by (simp add: pop_batch_unchecked_def fl_rep_def checked_sub_def Let_def)
  ultimately show ?thesis using that by blast
qed

lemma push_batch_rep:
  assumes rep: "fl_rep m l xs" and bat: "batch_rep m b ys" and "set xs \<inter> set ys = {}"
    and "length xs + length ys \<le> usize_max"
  obtains m' l' where "push_batch dbg m l b = Some (m', l')" "fl_rep m' l' (ys @ xs)"
    "link_frame (set ys) m m'"
proof (cases "ys = []")
  case True
  then have "push_batch dbg m l b = Some (m, l)" using bat by (simp add: push_batch_def batch_rep_def)
  with True rep that show ?thesis by auto
next
  case False
  obtain us t where ys: "ys = us @ [t]" using False by (metis append_butlast_last_id)
  let ?m = "write_small_free_list_next m t (fl_head l)"
  let ?l = "l\<lparr>fl_head := batch_head b, fl_len := length xs + length ys\<rparr>"
  have dist: "distinct ys" using bat by (auto simp: batch_rep_def dest: chain_distinct)
  then have notin: "t \<notin> set us" "t \<notin> set xs" using ys assms(3) by auto
  obtain r where r: "chain m (batch_head b) us r" "chain m r [t] None"
    using bat ys by (auto simp: batch_rep_def chain_append)
  have "chain ?m (batch_head b) us r" using r(1) notin by simp
  moreover have "chain ?m (fl_head l) xs None"
    using rep notin by (simp add: fl_rep_def)
  moreover have "fl_head l \<noteq> Some 0" using rep by (auto simp: fl_rep_def dest: chain_head_nonzero)
  ultimately have "fl_rep ?m ?l (ys @ xs)"
    using r(2) ys by (auto simp: fl_rep_def chain_append read_write_next)
  moreover obtain h where "batch_head b = Some h" using r ys by (cases us) auto
  then have "push_batch dbg m l b = Some (?m, ?l)"
    using bat rep assms(4) ys by (simp add: push_batch_def batch_rep_def fl_rep_def checked_add_def)
  moreover have "link_frame (set ys) m ?m"
    by (rule link_frame_mono [OF write_next_frame]) (simp add: ys)
  ultimately show ?thesis using that by blast
qed

lemma batch_rep_blocks: "batch_rep m b xs \<Longrightarrow> batch_rep m b ys \<Longrightarrow> xs = ys"
  by (auto simp: batch_rep_def dest: chain_unique)

lemma batch_rep_frame:
  "batch_rep m b xs \<Longrightarrow> (\<And>a. a \<in> set xs \<Longrightarrow> m' a = m a) \<Longrightarrow> batch_rep m' b xs"
  unfolding batch_rep_def by (metis chain_frame)

lemma batch_rep_distinct: "batch_rep m b xs \<Longrightarrow> distinct xs"
  by (auto simp: batch_rep_def dest: chain_distinct)

lemma batch_rep_nonzero: "batch_rep m b xs \<Longrightarrow> x \<in> set xs \<Longrightarrow> x \<noteq> 0"
  by (auto simp: batch_rep_def dest: chain_nonzero)

lemma batch_rep_empty [simp]: "batch_rep m Batch_empty xs \<longleftrightarrow> xs = []"
  by (auto simp: batch_rep_def Batch_empty_def)

lemma batch_rep_is_empty: "batch_rep m b xs \<Longrightarrow> Batch_is_empty b \<longleftrightarrow> xs = []"
  by (cases xs) (auto simp: batch_rep_def Batch_is_empty_def)

lemma batch_rep_len: "batch_rep m b xs \<Longrightarrow> batch_len b = length xs"
  by (simp add: batch_rep_def)

lemma Batch_pop_rep:
  assumes "batch_rep m b (x # xs)"
  obtains b' where "Batch_pop_block_unchecked dbg m b = Some (x, b')" "batch_rep m b' xs"
proof -
  let ?b = "b\<lparr>batch_len := length xs, batch_head := read_small_free_list_next m x,
      batch_tail := (if length xs = 0 then None else batch_tail b)\<rparr>"
  have "Batch_pop_block_unchecked dbg m b = Some (x, ?b)" "batch_rep m ?b xs"
    using assms by (auto simp: Batch_pop_block_unchecked_def batch_rep_def checked_sub_def)
  then show ?thesis by (rule that)
qed

lemma Batch_from_single_rep:
  assumes "x \<noteq> 0"
  shows "batch_rep (fst (Batch_from_single m x)) (snd (Batch_from_single m x)) [x]"
    "link_frame {x} m (fst (Batch_from_single m x))"
  using assms by (auto simp: Batch_from_single_def batch_rep_def read_write_next)

section \<open>The interface of a block list\<close>

text \<open>
  What the caches and the central pool rely on: a list represents a sequence of distinct
  non-null blocks, pushing and popping work at its front, memory is changed at link words
  only, and memory outside the represented blocks does not matter. Loops over pushes and
  pops are verified once, for any loop function that satisfies the loop's equations.
\<close>

locale block_list =
  fixes rep :: "heap \<Rightarrow> 'l \<Rightarrow> addr list \<Rightarrow> bool"
    and new_list :: 'l
    and push :: "heap \<Rightarrow> 'l \<Rightarrow> addr \<Rightarrow> (heap \<times> 'l) run"
    and pop :: "heap \<Rightarrow> 'l \<Rightarrow> (addr \<times> 'l) run"
  assumes rep_new: "rep m new_list []"
    and rep_push: "rep m l xs \<Longrightarrow> b \<notin> set xs \<Longrightarrow> b \<noteq> 0 \<Longrightarrow> length xs < usize_max \<Longrightarrow>
      \<exists>m' l'. push m l b = Some (m', l') \<and> rep m' l' (b # xs) \<and> link_frame {b} m m'"
    and rep_pop: "rep m l (b # xs) \<Longrightarrow> \<exists>l'. pop m l = Some (b, l') \<and> rep m l' xs"
    and rep_frame: "rep m l xs \<Longrightarrow> (\<And>a. a \<in> set xs \<Longrightarrow> m' a = m a) \<Longrightarrow> rep m' l xs"
    and rep_distinct: "rep m l xs \<Longrightarrow> distinct xs"
    and rep_nonzero: "rep m l xs \<Longrightarrow> x \<in> set xs \<Longrightarrow> x \<noteq> 0"
begin

lemma push_then_pop:
  assumes "rep m l xs" "b \<notin> set xs" "b \<noteq> 0" "length xs < usize_max"
  shows "\<exists>m' l' l''. push m l b = Some (m', l') \<and> pop m' l' = Some (b, l'') \<and> rep m' l'' xs"
  using rep_push [OF assms] rep_pop by blast

text \<open>The loop that pops \<open>n\<close> blocks from one list and pushes each onto another.\<close>

lemma transfer_loop:
  assumes f0: "\<And>m src dst. f m src dst 0 = Some (m, src, dst)"
    and fS: "\<And>m src dst n. f m src dst (Suc n) = do {
        (b, src') \<leftarrow> pop m src; (m', dst') \<leftarrow> push m dst b; f m' src' dst' n }"
    and "rep m src xs" "rep m dst ys" "set xs \<inter> set ys = {}" "n \<le> length xs"
    and "length xs + length ys \<le> usize_max"
  shows "\<exists>m' src' dst'. f m src dst n = Some (m', src', dst') \<and> rep m' src' (drop n xs) \<and>
    rep m' dst' (rev (take n xs) @ ys) \<and> link_frame (set (take n xs)) m m'"
  using assms(3-)
proof (induction n arbitrary: m src dst xs ys)
  case 0
  then show ?case by (simp add: f0)
next
  case (Suc n)
  then obtain x zs where xs: "xs = x # zs" by (cases xs) auto
  obtain src' where pop: "pop m src = Some (x, src')" and src': "rep m src' zs"
    using rep_pop Suc.prems(1) xs by blast
  have "x \<notin> set zs" "x \<notin> set ys" "x \<noteq> 0"
    using rep_distinct [OF Suc.prems(1)] rep_nonzero [OF Suc.prems(1)] Suc.prems(3) xs by auto
  then obtain m1 dst' where push: "push m dst x = Some (m1, dst')" and dst': "rep m1 dst' (x # ys)"
    and fr: "link_frame {x} m m1"
    using rep_push [OF Suc.prems(2), of x] Suc.prems(5) xs by auto
  have src1: "rep m1 src' zs"
    by (rule rep_frame [OF src']) (metis link_frame_outside [OF fr] \<open>x \<notin> set zs\<close> singletonD)
  have "\<exists>m' s d. f m1 src' dst' n = Some (m', s, d) \<and> rep m' s (drop n zs) \<and>
      rep m' d (rev (take n zs) @ x # ys) \<and> link_frame (set (take n zs)) m1 m'"
  proof (rule Suc.IH [OF src1 dst'])
    show "set zs \<inter> set (x # ys) = {}" using Suc.prems(3) xs \<open>x \<notin> set zs\<close> by auto
    show "n \<le> length zs" "length zs + length (x # ys) \<le> usize_max" using Suc.prems(4,5) xs by auto
  qed
  then obtain m' s d where IH: "f m1 src' dst' n = Some (m', s, d)" "rep m' s (drop n zs)"
      "rep m' d (rev (take n zs) @ x # ys)" "link_frame (set (take n zs)) m1 m'" by blast
  have "link_frame (set (take (Suc n) xs)) m m'"
    by (rule link_frame_trans [OF fr IH(4)]) (auto simp: xs)
  moreover have "f m src dst (Suc n) = Some (m', s, d)" using fS pop push IH(1) by simp
  ultimately show ?case using IH(2,3) xs by auto
qed

end

interpretation fl: block_list fl_rep FreeList_new push_block "pop_block_unchecked dbg" for dbg
proof
  show "fl_rep m FreeList_new []" for m by simp
  show "\<exists>m' l'. push_block m l b = Some (m', l') \<and> fl_rep m' l' (b # xs) \<and> link_frame {b} m m'"
    if "fl_rep m l xs" "b \<notin> set xs" "b \<noteq> 0" "length xs < usize_max" for m l b xs
    using push_block_rep [OF that] by blast
  show "\<exists>l'. pop_block_unchecked dbg m l = Some (b, l') \<and> fl_rep m l' xs"
    if "fl_rep m l (b # xs)" for m l b xs
    using pop_block_unchecked_rep [OF that] by blast
  show "fl_rep m' l xs" if "fl_rep m l xs" "\<And>a. a \<in> set xs \<Longrightarrow> m' a = m a" for m m' l xs
    by (rule fl_rep_frame [OF that])
  show "distinct xs" if "fl_rep m l xs" for m l xs by (rule fl_rep_distinct [OF that])
  show "x \<noteq> 0" if "fl_rep m l xs" "x \<in> set xs" for m l xs x by (rule fl_rep_nonzero [OF that])
qed

section \<open>Properties\<close>

text \<open>C33. Detaching a batch takes exactly the first \<open>mx\<close> blocks of a list (all of them, if there are
  fewer) in order and leaves the rest; splicing it back restores the list. Neither step can
  fail, and only link words of the moved blocks change in memory.\<close>

theorem pop_batch_push_batch:
  assumes rep: "fl_rep m l xs" and len: "length xs \<le> usize_max"
  shows "\<exists>m1 l1 b m2 l2. pop_batch dbg m l mx = Some (m1, l1, b) \<and>
    batch_rep m1 b (take mx xs) \<and> fl_rep m1 l1 (drop mx xs) \<and>
    push_batch dbg m1 l1 b = Some (m2, l2) \<and> fl_rep m2 l2 xs \<and>
    link_frame (set (take mx xs)) m m2"
proof (cases "mx = 0 \<or> xs = []")
  case True
  then have "pop_batch dbg m l mx = Some (m, l, Batch_empty)"
    using rep by (auto simp: pop_batch_def fl_rep_def)
  moreover have "push_batch dbg m l Batch_empty = Some (m, l)"
    by (simp add: push_batch_def Batch_empty_def)
  ultimately show ?thesis using True rep by force
next
  case False
  then have "0 < mx" "xs \<noteq> []" by auto
  from pop_batch_unchecked_rep [OF rep this(2,1)]
  obtain m1 l1 b where pop: "pop_batch_unchecked dbg m l mx = Some (m1, l1, b)"
    "batch_rep m1 b (take mx xs)" "fl_rep m1 l1 (drop mx xs)" "link_frame (set (take mx xs)) m m1"
    by blast
  have disj: "set (drop mx xs) \<inter> set (take mx xs) = {}"
    using fl_rep_distinct [OF rep] by (metis append_take_drop_id distinct_append inf_commute)
  have "length (drop mx xs) + length (take mx xs) \<le> usize_max" using len by simp
  from push_batch_rep [OF pop(3,2) disj this]
  obtain m2 l2 where push: "push_batch dbg m1 l1 b = Some (m2, l2)"
    "fl_rep m2 l2 (take mx xs @ drop mx xs)" "link_frame (set (take mx xs)) m1 m2" by blast
  have "link_frame (set (take mx xs)) m m2" by (rule link_frame_trans [OF pop(4) push(3)]) simp
  moreover have "pop_batch dbg m l mx = Some (m1, l1, b)"
    using pop(1) False rep by (simp add: pop_batch_def fl_rep_def)
  ultimately show ?thesis using pop push by auto
qed

theorem pop_batch_push_batch_witness:
  "\<exists>m l m1 l1 b m2 l2. fl_rep m l [64, 128, 192] \<and> pop_batch True m l 2 = Some (m1, l1, b) \<and>
    batch_rep m1 b [64, 128] \<and> fl_rep m1 l1 [192] \<and> push_batch True m1 l1 b = Some (m2, l2) \<and>
    fl_rep m2 l2 [64, 128, 192]"
proof -
  define m where "m = write_small_free_list_next (write_small_free_list_next
     (\<lambda>_. from_encoded_fields Small_tag 0 0 0 0) 64 (Some 128)) 128 (Some 192)"
  define l where "l = \<lparr>fl_head = Some 64, fl_len = 3\<rparr>"
  have rep: "fl_rep m l [64, 128, 192]"
    by (simp add: m_def l_def fl_rep_def read_write_next)
      (simp add: read_small_free_list_next_def header_from_block_start_def from_encoded_fields_def)
  have "length [64, 128, 192 :: addr] \<le> usize_max" by (simp add: usize_max_def)
  from pop_batch_push_batch [OF rep this, of True 2] obtain m1 l1 b m2 l2 where
    "pop_batch True m l 2 = Some (m1, l1, b)" "batch_rep m1 b [64, 128]" "fl_rep m1 l1 [192]"
    "push_batch True m1 l1 b = Some (m2, l2)" "fl_rep m2 l2 [64, 128, 192]"
    unfolding take_Cons' drop_Cons' by auto
  with rep show ?thesis by blast
qed

text \<open>The list is a stack: pushing a block that is not in the list and popping it again
  returns that block and the former list.\<close>

lemma push_block_pop_block:
  assumes "fl_rep m l xs" "b \<notin> set xs" "b \<noteq> 0" "length xs < usize_max"
  shows "\<exists>m' l' l''. push_block m l b = Some (m', l') \<and>
    pop_block_unchecked dbg m' l' = Some (b, l'') \<and> fl_rep m' l'' xs"
  by (rule fl.push_then_pop [OF assms])

end
