(* ===== verification/Arena.thy ===== *)
theory Arena
  imports Header
begin

text \<open>
  \<^verbatim>\<open>src/src/arena.rs\<close>: the monotonic arena over one anonymous mapping, the reservation of
  spans, the ownership predicate of a block start, and the page arithmetic behind the
  \<open>MADV_FREE\<close> advice.

  The mapping primitive, \<open>sysconf\<close> and \<open>madvise\<close> are not code of the crate; they are
  the fields of the record \<open>os\<close>. A reservation loads the cursor, computes the span and
  publishes the new cursor with a compare-exchange that retries when another thread moved
  the cursor first (or spuriously). \<open>reserve_span\<close> and \<open>reserve_block_span\<close> are the loop
  when no attempt is disturbed; \<open>arena_step\<close> is the loop of any number of threads with
  every interleaving of loads and compare-exchanges.
\<close>

section \<open>The operating system\<close>

record os =
  sysconf_page_size :: int
  map_anon :: "usize \<Rightarrow> int + addr"
  madvise_free :: "addr \<Rightarrow> usize \<Rightarrow> heap \<Rightarrow> int \<times> heap"
  has_madvise :: bool

section \<open>State and helpers\<close>

record Arena =
  arena_base :: addr
  arena_len :: usize
  arena_next :: usize
  arena_alignment :: usize

record ReservedSpan =
  span_start :: addr
  span_size :: usize

definition validate_config :: "AllocatorConfig \<Rightarrow> InitError + unit" where
  "validate_config cfg =
     (if arena_size cfg = 0 then Inl (InvalidConfig ''arena size must be greater than zero'')
      else if alignment cfg = 0 then Inl (InvalidConfig ''alignment must be greater than zero'')
      else if \<not> is_power_of_two (alignment cfg)
      then Inl (InvalidConfig ''alignment must be a power of two'')
      else if arena_size cfg < alignment cfg
      then Inl (InvalidConfig ''arena size must be at least the alignment'')
      else Inr ())"

definition arena_align_up :: "usize \<Rightarrow> usize \<Rightarrow> usize option" where
  "arena_align_up v al =
     (let remainder = v mod al
      in if remainder = 0 then Some v else checked_add v (al - remainder))"

definition align_down :: "usize \<Rightarrow> usize \<Rightarrow> usize" where
  "align_down v al = v - v mod al"

definition Arena_new :: "os \<Rightarrow> AllocatorConfig \<Rightarrow> InitError + Arena" where
  "Arena_new sys cfg =
     (case validate_config cfg of
        Inl e \<Rightarrow> Inl e
      | Inr _ \<Rightarrow>
        (case checked_add (arena_size cfg) (alignment cfg - 1) of
           None \<Rightarrow> Inl (InvalidConfig ''arena mapping size overflowed'')
         | Some mapping_len \<Rightarrow>
           (case map_anon sys mapping_len of
              Inl err \<Rightarrow> Inl (MapFailed err)
            | Inr base_ptr \<Rightarrow>
              (case arena_align_up base_ptr (alignment cfg) of
                 None \<Rightarrow> Inl (InvalidConfig ''arena base alignment overflowed'')
               | Some aligned_addr \<Rightarrow>
                 if aligned_addr = 0 then Inl (InvalidConfig ''arena mapping returned null'')
                 else Inr \<lparr>arena_base = aligned_addr, arena_len = arena_size cfg,
                           arena_next = 0, arena_alignment = alignment cfg\<rparr>))))"

section \<open>Reservations\<close>

text \<open>
  One iteration of the loop of \<open>reserve_span\<close> for the loaded cursor \<open>current\<close>: either it
  returns an error, or it goes on to the compare-exchange of \<open>current\<close> by \<open>end\<close> with the
  span it will return on success.
\<close>

definition reserve_span_attempt ::
    "Arena \<Rightarrow> usize \<Rightarrow> usize \<Rightarrow> AllocError + (usize \<times> ReservedSpan)" where
  "reserve_span_attempt a sz current =
     (case arena_align_up current (arena_alignment a) of
        None \<Rightarrow> Inl (OutOfMemory sz (saturating_sub (arena_len a) current))
      | Some aligned \<Rightarrow>
        (case checked_add aligned sz of
           None \<Rightarrow> Inl (OutOfMemory sz (saturating_sub (arena_len a) current))
         | Some fin \<Rightarrow>
           if fin > arena_len a
           then Inl (OutOfMemory sz (saturating_sub (arena_len a) current))
           else Inr (fin, \<lparr>span_start = wrapping_add (arena_base a) aligned, span_size = sz\<rparr>)))"

definition reserve_span :: "Arena \<Rightarrow> usize \<Rightarrow> AllocError + (Arena \<times> ReservedSpan)" where
  "reserve_span a sz =
     (if sz = 0 then Inl ZeroSize
      else case reserve_span_attempt a sz (arena_next a) of
          Inl e \<Rightarrow> Inl e
        | Inr (fin, span) \<Rightarrow> Inr (a\<lparr>arena_next := fin\<rparr>, span))"

definition allocate_block :: "Arena \<Rightarrow> usize \<Rightarrow> AllocError + (Arena \<times> addr)" where
  "allocate_block a sz =
     (case reserve_span a sz of
        Inl e \<Rightarrow> Inl e
      | Inr (a', span) \<Rightarrow> Inr (a', span_start span))"

text \<open>One iteration of \<open>reserve_block_span\<close>; \<open>Inr None\<close> is the return \<open>Ok(None)\<close>.\<close>

definition reserve_block_span_attempt ::
    "Arena \<Rightarrow> usize \<Rightarrow> usize \<Rightarrow> usize \<Rightarrow> AllocError + (usize \<times> ReservedSpan) option" where
  "reserve_block_span_attempt a bs target current =
     (case arena_align_up current (arena_alignment a) of
        None \<Rightarrow> Inl (OutOfMemory bs (saturating_sub (arena_len a) current))
      | Some aligned \<Rightarrow>
        (let rem = saturating_sub (arena_len a) aligned;
             available_blocks = rem div bs;
             reserved_blocks = min target available_blocks
         in if reserved_blocks = 0 then Inr None
            else (case checked_mul reserved_blocks bs of
                None \<Rightarrow> Inl (OutOfMemory bs rem)
              | Some sz \<Rightarrow>
                (case checked_add aligned sz of
                   None \<Rightarrow> Inl (OutOfMemory sz rem)
                 | Some fin \<Rightarrow>
                   if fin > arena_len a then Inl (OutOfMemory sz rem)
                   else Inr (Some (fin,
                     \<lparr>span_start = wrapping_add (arena_base a) aligned, span_size = sz\<rparr>))))))"

definition reserve_block_span ::
    "Arena \<Rightarrow> usize \<Rightarrow> usize \<Rightarrow> AllocError + (Arena \<times> ReservedSpan) option" where
  "reserve_block_span a bs target =
     (if bs = 0 \<or> target = 0 then Inl ZeroSize
      else case reserve_block_span_attempt a bs target (arena_next a) of
          Inl e \<Rightarrow> Inl e
        | Inr None \<Rightarrow> Inr None
        | Inr (Some (fin, span)) \<Rightarrow> Inr (Some (a\<lparr>arena_next := fin\<rparr>, span)))"

definition arena_remaining_bytes :: "Arena \<Rightarrow> usize" where
  "arena_remaining_bytes a = saturating_sub (arena_len a) (arena_next a)"

definition contains_block_start :: "Arena \<Rightarrow> addr \<Rightarrow> bool run" where
  "contains_block_start a block_start = do {
     fin \<leftarrow> checked_add (arena_base a) (arena_len a);
     Some (block_start \<ge> arena_base a \<and> block_start < fin \<and>
       is_multiple_of (block_start - arena_base a) (arena_alignment a)) }"

section \<open>Pages\<close>

definition detect_system_page_size :: "os \<Rightarrow> usize option" where
  "detect_system_page_size sys =
     (if has_madvise sys
      then (if sysconf_page_size sys < 0 \<or> int usize_max < sysconf_page_size sys then None
            else let sz = nat (sysconf_page_size sys)
                 in if is_power_of_two sz then Some sz else None)
      else Some 4096)"

text \<open>
  \<open>system_page_size\<close> with the value of the static \<open>SYSTEM_PAGE_SIZE\<close> as its first argument;
  it returns the page size and the new value of the static.
\<close>

definition system_page_size :: "usize \<Rightarrow> os \<Rightarrow> usize \<times> usize" where
  "system_page_size cached sys =
     (if cached \<noteq> 0 then (cached, cached)
      else let detected = (case detect_system_page_size sys of None \<Rightarrow> 4096 | Some n \<Rightarrow> n)
           in (detected, detected))"

definition page_aligned_inner_range :: "os \<Rightarrow> addr \<Rightarrow> usize \<Rightarrow> (addr \<times> usize) option" where
  "page_aligned_inner_range sys start len =
     (if len = 0 then None
      else let page_size = fst (system_page_size 0 sys) in do {
        end_addr \<leftarrow> checked_add start len;
        aligned_start \<leftarrow> arena_align_up start page_size;
        let aligned_end = align_down end_addr page_size;
        if aligned_start \<ge> aligned_end then None
        else Some (aligned_start, aligned_end - aligned_start) })"

definition advise_free_impl :: "os \<Rightarrow> heap \<Rightarrow> addr \<Rightarrow> usize \<Rightarrow> heap \<times> (int + bool)" where
  "advise_free_impl sys m addr len =
     (if has_madvise sys
      then let (status, m') = madvise_free sys addr len m
           in (m', if status = 0 then Inr True else Inl status)
      else (m, Inr False))"

definition advise_free :: "os \<Rightarrow> heap \<Rightarrow> addr \<Rightarrow> usize \<Rightarrow> heap \<times> (int + bool)" where
  "advise_free sys m addr len =
     (if len = 0 then (m, Inr False) else advise_free_impl sys m addr len)"

section \<open>Well-formed arenas\<close>

interpretation arena_al: aligner arena_align_up
  by unfold_locales (simp add: arena_align_up_def Let_def)

definition arena_wf :: "Arena \<Rightarrow> bool" where
  "arena_wf a \<longleftrightarrow> is_power_of_two (arena_alignment a) \<and> arena_alignment a dvd arena_base a \<and>
     0 < arena_base a \<and> 0 < arena_len a \<and> arena_base a + arena_len a \<le> usize_max \<and>
     arena_next a \<le> arena_len a"

text \<open>
  What the crate relies on of the mapping primitive: a mapping of \<open>n\<close> bytes lies in the
  address space and does not contain the null address.
\<close>

definition mapping_ok :: "os \<Rightarrow> bool" where
  "mapping_ok sys \<longleftrightarrow> (\<forall>n p. map_anon sys n = Inr p \<longrightarrow> 0 < p \<and> p + n \<le> usize_max)"

lemma arena_wfD:
  assumes "arena_wf a"
  shows "0 < arena_alignment a" "arena_alignment a dvd arena_base a" "0 < arena_base a"
    "arena_base a + arena_len a \<le> usize_max" "arena_next a \<le> arena_len a"
  using assms by (auto simp: arena_wf_def dest: is_power_of_two_pos)

lemma Arena_new_wf:
  assumes "Arena_new sys cfg = Inr a" "mapping_ok sys"
  shows "arena_wf a" "arena_len a = arena_size cfg" "arena_next a = 0"
    "arena_alignment a = alignment cfg"
proof -
  from assms(1) obtain p where
    ok: "validate_config cfg = Inr ()" "map_anon sys (arena_size cfg + (alignment cfg - 1)) = Inr p"
      "arena_align_up p (alignment cfg) = Some (arena_base a)" "arena_base a \<noteq> 0"
    and a: "arena_len a = arena_size cfg" "arena_next a = 0" "arena_alignment a = alignment cfg"
    by (auto simp: Arena_new_def split: sum.splits option.splits if_splits)
  have cfg: "0 < arena_size cfg" "is_power_of_two (alignment cfg)"
    using ok(1) by (auto simp: validate_config_def split: if_splits)
  have al: "0 < alignment cfg" using cfg(2) by (rule is_power_of_two_pos)
  have "0 < p \<and> p + (arena_size cfg + (alignment cfg - 1)) \<le> usize_max"
    using assms(2) ok(2) unfolding mapping_ok_def by blast
  then have p: "p + arena_size cfg + alignment cfg \<le> usize_max + 1" using al by linarith
  note base = arena_al.round_up_SomeD [OF ok(3) al]
  have "arena_base a + arena_size cfg \<le> usize_max" using base(3) p by simp
  then show "arena_wf a" using a cfg ok(4) base(1) by (simp add: arena_wf_def)
  show "arena_len a = arena_size cfg" "arena_next a = 0" "arena_alignment a = alignment cfg"
    using a by auto
qed

lemma reserve_span_attempt_ok:
  assumes wf: "arena_wf a" and "current \<le> arena_len a"
    and att: "reserve_span_attempt a sz current = Inr (fin, span)"
  shows "current + sz \<le> fin" "fin \<le> arena_len a" "span_size span = sz"
    "span_start span + sz = arena_base a + fin" "arena_base a + current \<le> span_start span"
    "arena_alignment a dvd span_start span - arena_base a"
proof -
  obtain aligned where al: "arena_align_up current (arena_alignment a) = Some aligned"
    and fin: "fin = aligned + sz" "fin \<le> arena_len a"
    and span: "span = \<lparr>span_start = wrapping_add (arena_base a) aligned, span_size = sz\<rparr>"
    using att by (auto simp: reserve_span_attempt_def split: option.splits if_splits)
  note al' = arena_al.round_up_SomeD [OF al arena_wfD(1) [OF wf]]
  have "arena_base a + aligned \<le> usize_max" using fin arena_wfD(4) [OF wf] by simp
  then have "wrapping_add (arena_base a) aligned = arena_base a + aligned" by simp
  then show "current + sz \<le> fin" "fin \<le> arena_len a" "span_size span = sz"
    "span_start span + sz = arena_base a + fin" "arena_base a + current \<le> span_start span"
    "arena_alignment a dvd span_start span - arena_base a"
    using fin span al' by auto
qed

lemma reserve_span_attempt_fits:
  assumes wf: "arena_wf a" and "current \<le> arena_len a"
  shows "(\<exists>r. reserve_span_attempt a sz current = Inr r) \<longleftrightarrow>
    (\<exists>s. arena_alignment a dvd s \<and> current \<le> s \<and> s + sz \<le> arena_len a)"
proof
  assume "\<exists>r. reserve_span_attempt a sz current = Inr r"
  then obtain fin span where att: "reserve_span_attempt a sz current = Inr (fin, span)" by auto
  note ok = reserve_span_attempt_ok [OF assms att]
  show "\<exists>s. arena_alignment a dvd s \<and> current \<le> s \<and> s + sz \<le> arena_len a"
    using ok by (intro exI [of _ "span_start span - arena_base a"]) auto
next
  assume "\<exists>s. arena_alignment a dvd s \<and> current \<le> s \<and> s + sz \<le> arena_len a"
  then obtain s where s: "arena_alignment a dvd s" "current \<le> s" "s + sz \<le> arena_len a" by blast
  have lim: "arena_len a \<le> usize_max" using arena_wfD(4) [OF wf] by simp
  have "arena_align_up current (arena_alignment a) \<noteq> None"
    using arena_al.round_up_None_iff [of current "arena_alignment a"] assms(2) lim s
      arena_wfD(1) [OF wf] by fastforce
  then obtain w where w: "arena_align_up current (arena_alignment a) = Some w" by blast
  have "w \<le> s" using arena_al.round_up_least [OF w arena_wfD(1) [OF wf] s(1,2)] .
  then show "\<exists>r. reserve_span_attempt a sz current = Inr r"
    using w s(3) lim by (simp add: reserve_span_attempt_def checked_add_def)
qed

lemma reserve_span_ok:
  assumes wf: "arena_wf a" and ok: "reserve_span a sz = Inr (a', span)"
  shows "arena_wf a'" "arena_base a' = arena_base a" "arena_len a' = arena_len a"
    "arena_alignment a' = arena_alignment a" "span_size span = sz"
    "arena_base a + arena_next a \<le> span_start span"
    "span_start span + sz = arena_base a + arena_next a'"
    "arena_alignment a dvd span_start span"
proof -
  obtain fin where att: "reserve_span_attempt a sz (arena_next a) = Inr (fin, span)"
    and a': "a' = a\<lparr>arena_next := fin\<rparr>"
    using ok by (auto simp: reserve_span_def split: if_splits sum.splits)
  note sp = reserve_span_attempt_ok [OF wf arena_wfD(5) [OF wf] att]
  show "arena_wf a'" using wf sp(2) by (simp add: arena_wf_def a')
  show "arena_alignment a dvd span_start span"
    using sp(5,6) arena_wfD(2) [OF wf] by (metis add_leE dvd_diffD)
  show "arena_base a' = arena_base a" "arena_len a' = arena_len a"
    "arena_alignment a' = arena_alignment a" "span_size span = sz"
    "arena_base a + arena_next a \<le> span_start span"
    "span_start span + sz = arena_base a + arena_next a'"
    using sp a' by auto
qed

lemma reserve_block_span_attempt_ok:
  assumes wf: "arena_wf a" and "current \<le> arena_len a" and "0 < bs"
    and att: "reserve_block_span_attempt a bs target current = Inr (Some (fin, span))"
  obtains n where "0 < n" "n \<le> target" "span_size span = n * bs"
    "fin \<le> arena_len a" "span_start span + n * bs = arena_base a + fin"
    "arena_base a + current \<le> span_start span"
    "arena_alignment a dvd span_start span - arena_base a"
    "n = target \<or> arena_len a - fin < bs"
proof -
  obtain aligned where al: "arena_align_up current (arena_alignment a) = Some aligned"
    using att by (auto simp: reserve_block_span_attempt_def split: option.splits)
  let ?n = "min target ((arena_len a - aligned) div bs)"
  have n: "0 < ?n" and fin: "fin = aligned + ?n * bs" "fin \<le> arena_len a"
    and span: "span = \<lparr>span_start = wrapping_add (arena_base a) aligned, span_size = ?n * bs\<rparr>"
    using att al by (auto simp: reserve_block_span_attempt_def Let_def saturating_sub_def
        split: option.splits if_splits)
  note al' = arena_al.round_up_SomeD [OF al arena_wfD(1) [OF wf]]
  have "arena_base a + aligned \<le> usize_max" using fin arena_wfD(4) [OF wf] by simp
  then have w: "wrapping_add (arena_base a) aligned = arena_base a + aligned" by simp
  have last: "?n = target \<or> arena_len a - fin < bs"
  proof (cases "target \<le> (arena_len a - aligned) div bs")
    case False
    then have "?n = (arena_len a - aligned) div bs" by simp
    then have "arena_len a - fin = (arena_len a - aligned) mod bs"
      using fin(1) by (simp add: minus_div_mult_eq_mod [symmetric])
    then show ?thesis using assms(3) by simp
  qed simp
  show ?thesis
    using that [of ?n] n fin span w al'(1,2) last by auto
qed

lemma reserve_block_span_ok:
  assumes wf: "arena_wf a" and "0 < bs"
    and ok: "reserve_block_span a bs target = Inr (Some (a', span))"
  obtains n where "0 < n" "n \<le> target" "span_size span = n * bs" "span_size span div bs = n"
    "arena_wf a'" "arena_base a' = arena_base a" "arena_len a' = arena_len a"
    "arena_alignment a' = arena_alignment a" "arena_base a + arena_next a \<le> span_start span"
    "span_start span + n * bs = arena_base a + arena_next a'"
    "arena_alignment a dvd span_start span"
proof -
  obtain fin where att: "reserve_block_span_attempt a bs target (arena_next a) = Inr (Some (fin, span))"
    and a': "a' = a\<lparr>arena_next := fin\<rparr>"
    using ok by (auto simp: reserve_block_span_def split: if_splits sum.splits option.splits)
  from reserve_block_span_attempt_ok [OF wf arena_wfD(5) [OF wf] assms(2) att]
  obtain n where n: "0 < n" "n \<le> target" "span_size span = n * bs" "fin \<le> arena_len a"
    "span_start span + n * bs = arena_base a + fin" "arena_base a + arena_next a \<le> span_start span"
    "arena_alignment a dvd span_start span - arena_base a" by blast
  have "arena_alignment a dvd span_start span"
    using n(6,7) arena_wfD(2) [OF wf] by (metis add_leE dvd_diffD)
  then show ?thesis
    using that [of n] n a' wf assms(2) by (simp add: arena_wf_def)
qed

lemma arena_align_up_total:
  assumes wf: "arena_wf a" and "current \<le> arena_len a"
  shows "\<exists>w. arena_align_up current (arena_alignment a) = Some w"
proof -
  note al = arena_wfD(1) [OF wf]
  have "arena_alignment a \<le> arena_base a"
    using arena_wfD(2,3) [OF wf] by (rule dvd_imp_le)
  then have "current + (arena_alignment a - current mod arena_alignment a) \<le> usize_max"
    using assms(2) arena_wfD(4) [OF wf] by linarith
  then show ?thesis by (simp add: arena_align_up_def Let_def checked_add_def)
qed

text \<open>
  The base is a non-zero multiple of the alignment, so rounding the cursor up cannot
  overflow, and \<open>reserve_block_span\<close> on a well-formed arena never returns an error: it
  reserves at least one block, or \<open>None\<close> when not even one fits.
\<close>

text \<open>Alignment costs less than one alignment unit.\<close>

lemma reserve_block_span_padding:
  assumes wf: "arena_wf a" and ok: "reserve_block_span a bs target = Inr (Some (a', span))"
  shows "arena_next a' < arena_next a + arena_alignment a + span_size span"
proof -
  obtain w where w: "arena_align_up (arena_next a) (arena_alignment a) = Some w" "arena_next a' = w + span_size span"
    using ok by (auto simp: reserve_block_span_def reserve_block_span_attempt_def Let_def checked_add_def
        split: if_splits sum.splits option.splits)
  then show ?thesis using arena_al.round_up_SomeD(3) [OF w(1) arena_wfD(1) [OF wf]] by simp
qed

lemma reserve_span_padding:
  assumes wf: "arena_wf a" and ok: "reserve_span a sz = Inr (a', span)"
  shows "arena_next a' < arena_next a + arena_alignment a + sz"
proof -
  obtain w where w: "arena_align_up (arena_next a) (arena_alignment a) = Some w" "arena_next a' = w + sz"
    using ok by (auto simp: reserve_span_def reserve_span_attempt_def checked_add_def split: if_splits sum.splits option.splits)
  then show ?thesis using arena_al.round_up_SomeD(3) [OF w(1) arena_wfD(1) [OF wf]] by simp
qed

lemma reserve_block_span_total:
  assumes wf: "arena_wf a" and "0 < bs" "0 < target"
  shows "\<exists>r. reserve_block_span a bs target = Inr r"
proof -
  obtain w where w: "arena_align_up (arena_next a) (arena_alignment a) = Some w"
    using arena_align_up_total [OF wf arena_wfD(5) [OF wf]] by blast
  let ?n = "min target ((arena_len a - w) div bs)"
  have "?n * bs \<le> (arena_len a - w) div bs * bs" by simp
  also have "\<dots> \<le> arena_len a - w" by simp
  finally have le: "?n * bs \<le> arena_len a - w" .
  have len: "arena_len a \<le> usize_max" using arena_wfD(4) [OF wf] by simp
  have fit: "w + ?n * bs \<le> arena_len a" if "?n \<noteq> 0"
  proof -
    have "(arena_len a - w) div bs \<noteq> 0" using that by auto
    then have "w \<le> arena_len a" by (cases "w \<le> arena_len a") auto
    with le show ?thesis by simp
  qed
  have "\<exists>r. reserve_block_span_attempt a bs target (arena_next a) = Inr r"
    using w fit le len
    by (auto simp: reserve_block_span_attempt_def Let_def saturating_sub_def checked_mul_def checked_add_def)
  then show ?thesis
    using assms(2,3) by (auto simp: reserve_block_span_def split: option.splits)
qed

lemma reserve_block_span_None:
  assumes wf: "arena_wf a" and "reserve_block_span a bs target = Inr None"
  shows "\<not> (\<exists>s. arena_alignment a dvd s \<and> arena_next a \<le> s \<and> s + bs \<le> arena_len a)"
proof
  assume "\<exists>s. arena_alignment a dvd s \<and> arena_next a \<le> s \<and> s + bs \<le> arena_len a"
  then obtain s where s: "arena_alignment a dvd s" "arena_next a \<le> s" "s + bs \<le> arena_len a" by blast
  have pos: "0 < bs" "0 < target" using assms(2) by (auto simp: reserve_block_span_def split: if_splits)
  from assms(2) have att: "reserve_block_span_attempt a bs target (arena_next a) = Inr None"
    by (auto simp: reserve_block_span_def split: if_splits sum.splits option.splits)
  then obtain w where w: "arena_align_up (arena_next a) (arena_alignment a) = Some w"
    by (auto simp: reserve_block_span_attempt_def split: option.splits)
  have "w \<le> s" using arena_al.round_up_least [OF w arena_wfD(1) [OF wf] s(1,2)] .
  then have "bs \<le> arena_len a - w" using s(3) by simp
  then have "0 < (arena_len a - w) div bs" using pos(1) by (simp add: div_greater_zero_iff)
  then show False using att w pos
    by (auto simp: reserve_block_span_attempt_def Let_def saturating_sub_def split: option.splits if_splits)
qed

section \<open>Pages\<close>

lemma system_page_size_cached:
  "fst (system_page_size (snd (system_page_size 0 sys)) sys) = fst (system_page_size 0 sys)"
  by (simp add: system_page_size_def Let_def)

lemma system_page_size_pos: "0 < fst (system_page_size 0 sys)"
proof -
  have "0 < n" if "detect_system_page_size sys = Some n" for n
    using that by (auto simp: detect_system_page_size_def Let_def split: if_splits
        dest: is_power_of_two_pos)
  then show ?thesis by (auto simp: system_page_size_def Let_def split: option.splits)
qed

lemma page_aligned_inner_range_inside:
  assumes "page_aligned_inner_range sys start len = Some (p, n)"
  shows "start \<le> p" "p + n \<le> start + len" "0 < n"
    "fst (system_page_size 0 sys) dvd p" "fst (system_page_size 0 sys) dvd n"
proof -
  let ?pg = "fst (system_page_size 0 sys)"
  have al: "arena_align_up start ?pg = Some p"
    and n: "n = align_down (start + len) ?pg - p" "p < align_down (start + len) ?pg"
    using assms by (auto simp: page_aligned_inner_range_def Let_def Option.bind_eq_Some_conv
        split: if_splits)
  note up = arena_al.round_up_SomeD [OF al system_page_size_pos]
  show "start \<le> p" by (rule up(2))
  have le: "align_down (start + len) ?pg \<le> start + len" by (simp add: align_down_def)
  then show "p + n \<le> start + len" using n by simp
  show "0 < n" using n by simp
  show "?pg dvd p" by (rule up(1))
  have "?pg dvd align_down (start + len) ?pg" by (simp add: align_down_def dvd_minus_mod)
  then show "?pg dvd n" using n(1) up(1) by simp
qed

section \<open>Concurrent reservations\<close>

text \<open>
  Threads run \<open>reserve_span\<close> and \<open>reserve_block_span\<close> against one shared cursor. A thread
  in \<open>Loop\<close> is about to load the cursor; in \<open>Loaded\<close> it holds a loaded value and next
  returns an error, or performs its compare-exchange. The compare-exchange succeeds only
  if the cursor still has the loaded value, and being the weak form it may also fail then.
  \<open>reserved\<close> records the spans handed out.
\<close>

datatype span_request = Span usize | BlockSpan usize usize

datatype arena_pc = Idle | Loop span_request | Loaded span_request usize

record arena_sys =
  shared :: Arena
  pcs :: "nat \<Rightarrow> arena_pc"
  reserved_spans :: "ReservedSpan list"

fun request_valid :: "span_request \<Rightarrow> bool" where
  "request_valid (Span sz) \<longleftrightarrow> sz \<noteq> 0"
| "request_valid (BlockSpan bs target) \<longleftrightarrow> bs \<noteq> 0 \<and> target \<noteq> 0"

fun attempt :: "Arena \<Rightarrow> span_request \<Rightarrow> usize \<Rightarrow> AllocError + (usize \<times> ReservedSpan) option" where
  "attempt a (Span sz) current = map_sum id Some (reserve_span_attempt a sz current)"
| "attempt a (BlockSpan bs target) current = reserve_block_span_attempt a bs target current"

inductive arena_step :: "arena_sys \<Rightarrow> arena_sys \<Rightarrow> bool" where
  call: "pcs s t = Idle \<Longrightarrow> request_valid r \<Longrightarrow>
     arena_step s (s\<lparr>pcs := (pcs s)(t := Loop r)\<rparr>)"
| load: "pcs s t = Loop r \<Longrightarrow>
     arena_step s (s\<lparr>pcs := (pcs s)(t := Loaded r (arena_next (shared s)))\<rparr>)"
| give_up: "pcs s t = Loaded r current \<Longrightarrow>
     attempt (shared s) r current = Inl e \<or> attempt (shared s) r current = Inr None \<Longrightarrow>
     arena_step s (s\<lparr>pcs := (pcs s)(t := Idle)\<rparr>)"
| exchange: "pcs s t = Loaded r current \<Longrightarrow>
     attempt (shared s) r current = Inr (Some (fin, span)) \<Longrightarrow>
     arena_next (shared s) = current \<Longrightarrow>
     arena_step s (s\<lparr>shared := (shared s)\<lparr>arena_next := fin\<rparr>, pcs := (pcs s)(t := Idle),
        reserved_spans := span # reserved_spans s\<rparr>)"
| retry: "pcs s t = Loaded r current \<Longrightarrow>
     attempt (shared s) r current = Inr (Some (fin, span)) \<Longrightarrow>
     arena_step s (s\<lparr>pcs := (pcs s)(t := Loop r)\<rparr>)"

inductive arena_reachable :: "Arena \<Rightarrow> arena_sys \<Rightarrow> bool" for a where
  start: "arena_reachable a \<lparr>shared = a, pcs = (\<lambda>_. Idle), reserved_spans = []\<rparr>"
| step: "arena_reachable a s \<Longrightarrow> arena_step s s' \<Longrightarrow> arena_reachable a s'"

definition spans_disjoint :: "ReservedSpan \<Rightarrow> ReservedSpan \<Rightarrow> bool" where
  "spans_disjoint x y \<longleftrightarrow> span_start x + span_size x \<le> span_start y \<or>
     span_start y + span_size y \<le> span_start x"

definition pc_request_valid :: "arena_pc \<Rightarrow> bool" where
  "pc_request_valid pc \<longleftrightarrow>
     (case pc of Idle \<Rightarrow> True | Loop r \<Rightarrow> request_valid r | Loaded r _ \<Rightarrow> request_valid r)"

definition arena_sys_inv :: "Arena \<Rightarrow> arena_sys \<Rightarrow> bool" where
  "arena_sys_inv a s \<longleftrightarrow> arena_wf (shared s) \<and> arena_base (shared s) = arena_base a \<and>
     arena_len (shared s) = arena_len a \<and> arena_alignment (shared s) = arena_alignment a \<and>
     arena_next a \<le> arena_next (shared s) \<and>
     (\<forall>t. pc_request_valid (pcs s t)) \<and>
     (\<forall>x\<in>set (reserved_spans s). arena_base a + arena_next a \<le> span_start x \<and>
        span_start x + span_size x \<le> arena_base a + arena_next (shared s) \<and>
        0 < span_size x \<and> arena_alignment a dvd span_start x) \<and>
     sorted_wrt spans_disjoint (reserved_spans s)"

lemma attempt_ok:
  assumes wf: "arena_wf a" and "request_valid r" "current \<le> arena_len a"
    and "attempt a r current = Inr (Some (fin, span))"
  shows "fin \<le> arena_len a" "current \<le> fin" "0 < span_size span"
    "span_start span + span_size span = arena_base a + fin"
    "arena_base a + current \<le> span_start span" "arena_alignment a dvd span_start span"
proof -
  have "fin \<le> arena_len a \<and> 0 < span_size span \<and>
    span_start span + span_size span = arena_base a + fin \<and> arena_base a + current \<le> span_start span \<and>
    arena_alignment a dvd span_start span - arena_base a"
  proof (cases r)
    case (Span sz)
    then have att: "reserve_span_attempt a sz current = Inr (fin, span)"
      using assms(4) by (cases "reserve_span_attempt a sz current") auto
    show ?thesis using reserve_span_attempt_ok [OF wf assms(3) att] assms(2) Span by simp
  next
    case (BlockSpan bs target)
    then have att: "reserve_block_span_attempt a bs target current = Inr (Some (fin, span))"
      and bs: "0 < bs" using assms(2,4) by auto
    from reserve_block_span_attempt_ok [OF wf assms(3) bs att] show ?thesis
      using bs by (metis nat_0_less_mult_iff)
  qed
  then show "fin \<le> arena_len a" "current \<le> fin" "0 < span_size span"
    "span_start span + span_size span = arena_base a + fin"
    "arena_base a + current \<le> span_start span" "arena_alignment a dvd span_start span"
    using arena_wfD(2) [OF wf] by (auto intro: dvd_diffD)
qed

lemma arena_step_inv:
  assumes "arena_step s s'" "arena_sys_inv a s"
  shows "arena_sys_inv a s'"
  using assms
proof (induction rule: arena_step.induct)
  case (exchange s t r current fin span)
  note inv = exchange.prems [unfolded arena_sys_inv_def]
  have wf: "arena_wf (shared s)" using inv by blast
  have "pc_request_valid (pcs s t)" using inv by blast
  then have r: "request_valid r" using exchange.hyps(1) by (simp add: pc_request_valid_def)
  have cur: "current \<le> arena_len (shared s)" using exchange.hyps(3) arena_wfD(5) [OF wf] by simp
  note ok = attempt_ok [OF wf r cur exchange.hyps(2)]
  have "arena_wf ((shared s)\<lparr>arena_next := fin\<rparr>)" using wf ok(1) by (simp add: arena_wf_def)
  moreover have "spans_disjoint span x" if "x \<in> set (reserved_spans s)" for x
  proof -
    have "span_start x + span_size x \<le> arena_base a + arena_next (shared s)" using inv that by blast
    then show ?thesis using ok(5) exchange.hyps(3) inv by (simp add: spans_disjoint_def)
  qed
  moreover have "arena_base a + arena_next a \<le> span_start x \<and>
        span_start x + span_size x \<le> arena_base a + fin \<and> 0 < span_size x \<and>
        arena_alignment a dvd span_start x" if "x \<in> set (span # reserved_spans s)" for x
  proof (cases "x = span")
    case True
    then show ?thesis using ok inv exchange.hyps(3) by simp
  next
    case False
    with that inv have "arena_base a + arena_next a \<le> span_start x \<and>
        span_start x + span_size x \<le> arena_base a + arena_next (shared s) \<and> 0 < span_size x \<and>
        arena_alignment a dvd span_start x" by auto
    then show ?thesis using ok(2) exchange.hyps(3) by auto
  qed
  ultimately show ?case
    using inv ok(2) exchange.hyps(3)
    by (auto simp: arena_sys_inv_def pc_request_valid_def)
qed (auto simp: arena_sys_inv_def pc_request_valid_def split: arena_pc.splits)

lemma arena_reachable_inv:
  assumes "arena_reachable a s" "arena_wf a"
  shows "arena_sys_inv a s"
  using assms
proof (induction rule: arena_reachable.induct)
  case start
  then show ?case by (simp add: arena_sys_inv_def pc_request_valid_def)
next
  case (step s s')
  then show ?case using arena_step_inv by blast
qed

section \<open>Properties\<close>

text \<open>C40. An arena that \<open>Arena::new\<close> returns is aligned, non-null, inside the address space and
  empty, with the configured length, whatever address the mapping primitive chose.\<close>

theorem Arena_new_well_formed:
  assumes "Arena_new sys cfg = Inr a" "mapping_ok sys"
  shows "arena_wf a \<and> arena_len a = arena_size cfg \<and> arena_next a = 0 \<and>
    arena_alignment a = alignment cfg"
  using Arena_new_wf [OF assms] by blast

theorem Arena_new_well_formed_witness:
  "\<exists>sys a. mapping_ok sys \<and> Arena_new sys default_config = Inr a \<and> arena_wf a \<and>
    arena_base a = 4096 \<and> arena_len a = 2 ^ 30"
proof -
  define sys where "sys = \<lparr>sysconf_page_size = 4096,
    map_anon = (\<lambda>n. if n \<le> 2 ^ 40 then Inr 4095 else Inl 12),
    madvise_free = (\<lambda>_ _ m. (0, m)), has_madvise = True\<rparr>"
  have ok: "mapping_ok sys" by (auto simp: mapping_ok_def sys_def usize_max_def split: if_splits)
  have "is_power_of_two 64" unfolding is_power_of_two_iff by (rule exI [of _ 6]) simp
  then have new: "Arena_new sys default_config =
      Inr \<lparr>arena_base = 4096, arena_len = 2 ^ 30, arena_next = 0, arena_alignment = 64\<rparr>"
    by (simp add: Arena_new_def sys_def default_config_def validate_config_def BLOCK_ALIGNMENT_def
        checked_add_def usize_max_def arena_align_up_def)
  from Arena_new_well_formed [OF new ok] ok new show ?thesis by auto
qed

text \<open>C34. A reservation succeeds exactly when an aligned range of the requested size is left;
  then the span is aligned, has the requested size and lies between the old and the new
  cursor. Otherwise the error is \<open>OutOfMemory\<close> with the bytes that remain.\<close>

theorem reserve_span_correct:
  assumes wf: "arena_wf a" and "0 < sz"
  shows "case reserve_span a sz of
      Inr (a', span) \<Rightarrow> arena_wf a' \<and> span_size span = sz \<and> arena_alignment a dvd span_start span \<and>
        arena_base a + arena_next a \<le> span_start span \<and>
        span_start span + sz = arena_base a + arena_next a'
    | Inl e \<Rightarrow> e = OutOfMemory sz (arena_remaining_bytes a) \<and>
        \<not> (\<exists>s. arena_alignment a dvd s \<and> arena_next a \<le> s \<and> s + sz \<le> arena_len a)"
proof (cases "reserve_span a sz")
  case (Inl e)
  then have none: "\<nexists>r. reserve_span_attempt a sz (arena_next a) = Inr r"
    and "e = OutOfMemory sz (arena_remaining_bytes a)"
    using assms(2) by (auto simp: reserve_span_def reserve_span_attempt_def arena_remaining_bytes_def
        split: sum.splits option.splits if_splits)
  with Inl show ?thesis
    using reserve_span_attempt_fits [OF wf arena_wfD(5) [OF wf], of sz] by simp
next
  case (Inr r)
  moreover obtain a' span where r: "r = (a', span)" by force
  ultimately have ok: "reserve_span a sz = Inr (a', span)" by simp
  from reserve_span_ok [OF wf ok] show ?thesis by (simp add: ok)
qed

theorem reserve_span_correct_witness:
  "\<exists>a' span. reserve_span \<lparr>arena_base = 4096, arena_len = 1024, arena_next = 10, arena_alignment = 64\<rparr> 100
     = Inr (a', span) \<and> arena_wf a' \<and> span_size span = 100 \<and> 64 dvd span_start span"
proof -
  let ?a = "\<lparr>arena_base = 4096, arena_len = 1024, arena_next = 10, arena_alignment = 64\<rparr>"
  have "is_power_of_two 64" unfolding is_power_of_two_iff by (rule exI [of _ 6]) simp
  then have wf: "arena_wf ?a" by (simp add: arena_wf_def usize_max_def)
  have pos: "(0::usize) < 100" by simp
  have "reserve_span ?a 100 = Inr (?a\<lparr>arena_next := 164\<rparr>, \<lparr>span_start = 4160, span_size = 100\<rparr>)"
    by (simp add: reserve_span_def reserve_span_attempt_def arena_align_up_def checked_add_def
        usize_max_def)
  then show ?thesis using reserve_span_correct [OF wf pos] by auto
qed

text \<open>C35. \<open>reserve_block_span\<close> on a well-formed arena never fails. It reserves a positive number
  of whole blocks, at most the target, in fresh aligned space; it answers \<open>None\<close> only when
  not even one aligned block fits.\<close>

theorem reserve_block_span_correct:
  assumes wf: "arena_wf a" and "0 < bs" "0 < target"
  shows "\<exists>r. reserve_block_span a bs target = Inr r \<and>
    (case r of
       None \<Rightarrow> \<not> (\<exists>s. arena_alignment a dvd s \<and> arena_next a \<le> s \<and> s + bs \<le> arena_len a)
     | Some (a', span) \<Rightarrow> arena_wf a' \<and> (\<exists>n. 0 < n \<and> n \<le> target \<and> span_size span = n * bs) \<and>
         arena_alignment a dvd span_start span \<and> arena_base a + arena_next a \<le> span_start span \<and>
         span_start span + span_size span = arena_base a + arena_next a')"
proof -
  obtain r where r: "reserve_block_span a bs target = Inr r"
    using reserve_block_span_total [OF assms] by blast
  show ?thesis
  proof (cases r)
    case None
    with r show ?thesis using reserve_block_span_None [OF wf] by auto
  next
    case (Some x)
    obtain a' span where x: "x = (a', span)" by force
    from reserve_block_span_ok [OF wf assms(2) r [unfolded Some x]]
    obtain n where "0 < n" "n \<le> target" "span_size span = n * bs" "arena_wf a'"
      "arena_base a + arena_next a \<le> span_start span"
      "span_start span + n * bs = arena_base a + arena_next a'" "arena_alignment a dvd span_start span"
      by metis
    then show ?thesis using r Some x by auto
  qed
qed

theorem reserve_block_span_correct_witness:
  "\<exists>r. reserve_block_span
     \<lparr>arena_base = 4096, arena_len = 1024, arena_next = 0, arena_alignment = 64\<rparr> 128 100 = Inr r"
proof -
  let ?a = "\<lparr>arena_base = 4096, arena_len = 1024, arena_next = 0, arena_alignment = 64\<rparr>"
  have "is_power_of_two 64" unfolding is_power_of_two_iff by (rule exI [of _ 6]) simp
  then have wf: "arena_wf ?a" by (simp add: arena_wf_def usize_max_def)
  have pos: "(0::usize) < 128" "(0::usize) < 100" by simp_all
  from reserve_block_span_correct [OF wf pos] show ?thesis by blast
qed

text \<open>C26. Whatever the interleaving of threads that reserve spans, the spans handed out are
  pairwise disjoint, aligned, non-empty, and inside the arena.\<close>

theorem concurrent_spans_disjoint:
  assumes "arena_reachable a s" "arena_wf a"
  shows "sorted_wrt spans_disjoint (reserved_spans s) \<and>
    (\<forall>x\<in>set (reserved_spans s). arena_base a \<le> span_start x \<and> 0 < span_size x \<and>
       span_start x + span_size x \<le> arena_base a + arena_len a \<and> arena_alignment a dvd span_start x)"
proof -
  have inv: "arena_sys_inv a s" by (rule arena_reachable_inv [OF assms])
  then have "arena_next (shared s) \<le> arena_len a" by (auto simp: arena_sys_inv_def arena_wf_def)
  with inv show ?thesis unfolding arena_sys_inv_def by fastforce
qed

theorem concurrent_spans_disjoint_witness:
  "\<exists>a s. arena_reachable a s \<and> reserved_spans s = [\<lparr>span_start = 4096, span_size = 100\<rparr>] \<and>
     sorted_wrt spans_disjoint (reserved_spans s)"
proof -
  let ?a = "\<lparr>arena_base = 4096, arena_len = 1024, arena_next = 0, arena_alignment = 64\<rparr>"
  have "is_power_of_two 64" unfolding is_power_of_two_iff by (rule exI [of _ 6]) simp
  then have wf: "arena_wf ?a" by (simp add: arena_wf_def usize_max_def)
  define s0 where "s0 = \<lparr>shared = ?a, pcs = (\<lambda>_. Idle), reserved_spans = []\<rparr>"
  define s1 where "s1 = s0\<lparr>pcs := (pcs s0)(0 := Loop (Span 100))\<rparr>"
  define s2 where "s2 = s1\<lparr>pcs := (pcs s1)(0 := Loaded (Span 100) (arena_next (shared s1)))\<rparr>"
  let ?x = "\<lparr>span_start = 4096, span_size = 100\<rparr>"
  define s3 where "s3 = s2\<lparr>shared := (shared s2)\<lparr>arena_next := 100\<rparr>, pcs := (pcs s2)(0 := Idle),
     reserved_spans := ?x # reserved_spans s2\<rparr>"
  have r0: "arena_reachable ?a s0" unfolding s0_def by (rule arena_reachable.start)
  have "arena_step s0 s1" unfolding s1_def by (rule arena_step.call) (simp_all add: s0_def)
  with r0 have r1: "arena_reachable ?a s1" by (rule arena_reachable.step)
  have "arena_step s1 s2" unfolding s2_def by (rule arena_step.load) (simp add: s1_def)
  with r1 have r2: "arena_reachable ?a s2" by (rule arena_reachable.step)
  have "arena_step s2 s3" unfolding s3_def
    by (rule arena_step.exchange [where r = "Span 100" and current = 0])
      (simp_all add: s2_def s1_def s0_def reserve_span_attempt_def arena_align_up_def
        checked_add_def usize_max_def)
  with r2 have r: "arena_reachable ?a s3" by (rule arena_reachable.step)
  have "reserved_spans s3 = [?x]" by (simp add: s3_def s2_def s1_def s0_def)
  with concurrent_spans_disjoint [OF r wf] r show ?thesis by blast
qed

text \<open>The range given to \<open>madvise\<close> is non-empty, page aligned at both ends and inside the
  slab, so the advice never reaches memory outside it.\<close>

lemma page_aligned_inner_range_correct:
  assumes "page_aligned_inner_range sys start len = Some (p, n)"
  shows "start \<le> p \<and> p + n \<le> start + len \<and> 0 < n \<and>
    fst (system_page_size 0 sys) dvd p \<and> fst (system_page_size 0 sys) dvd n"
  using page_aligned_inner_range_inside [OF assms] by blast

end
