(* ===== verification/Slab_Registry.thy ===== *)
theory Slab_Registry
  imports Prelude
begin

text \<open>
  What the central pool and the thread cache share. Both keep their slabs in a vector of
  records addressed by dense ids, a second vector of ids sorted by slab start (searched by
  \<open>binary_search_by_key\<close> on insertion and by \<open>partition_point\<close> on lookup), and vectors of
  ids (\<^emph>\<open>buckets\<close>) with a back-pointer from each record to its slot, so that a record leaves
  its bucket by \<open>swap_remove\<close>.

  The theory holds the geometry of a slab, the invariant of the sorted index and of the
  buckets, and the lemmas on searching, inserting, pushing and removing. The locale
  \<open>slab_shape\<close> is what the index asks of a slab record; each registry interprets it.
\<close>

section \<open>Geometry of a slab\<close>

definition blocks_of :: "addr \<Rightarrow> usize \<Rightarrow> usize \<Rightarrow> addr list" where
  "blocks_of start bs cap = map (\<lambda>i. start + i * bs) [0..<cap]"

lemma length_blocks_of [simp]: "length (blocks_of start bs cap) = cap"
  by (simp add: blocks_of_def)

lemma distinct_blocks_of [simp]: "0 < bs \<Longrightarrow> distinct (blocks_of start bs cap)"
  by (auto simp: blocks_of_def distinct_map inj_on_def)

lemma in_blocks_of_iff:
  assumes "0 < bs"
  shows "b \<in> set (blocks_of start bs cap) \<longleftrightarrow>
    start \<le> b \<and> b < start + bs * cap \<and> bs dvd (b - start)"
proof
  assume "b \<in> set (blocks_of start bs cap)"
  then obtain i where i: "i < cap" "b = start + i * bs" by (auto simp: blocks_of_def)
  have "i * bs < cap * bs" using i(1) assms by simp
  then show "start \<le> b \<and> b < start + bs * cap \<and> bs dvd (b - start)"
    using i(2) by (simp add: mult.commute)
next
  assume b: "start \<le> b \<and> b < start + bs * cap \<and> bs dvd (b - start)"
  then obtain i where i: "b - start = bs * i" by (auto elim: dvdE)
  then have "bs * i < bs * cap" using b by linarith
  then have "i < cap" using assms by simp
  moreover have "b = start + i * bs" using b i by (metis le_add_diff_inverse mult.commute)
  ultimately show "b \<in> set (blocks_of start bs cap)" by (auto simp: blocks_of_def)
qed

lemma blocks_of_split:
  "k \<le> cap \<Longrightarrow> blocks_of start bs cap = blocks_of start bs k @ map (\<lambda>i. start + i * bs) [k..<cap]"
  using upt_add_eq_append [of 0 k "cap - k"] by (simp add: blocks_of_def flip: map_append)

section \<open>The index sorted by start\<close>

text \<open>
  The comparison closures index the vector of slabs. An id out of range would panic; the
  keys are collected first, and collecting fails if any id of the index is out of range.
\<close>

definition index_keys :: "('s \<Rightarrow> addr) \<Rightarrow> 's list \<Rightarrow> usize list \<Rightarrow> addr list run" where
  "index_keys st slabs order = those (map (\<lambda>i. map_option st (vec_get slabs i)) order)"

definition index_ok :: "('s \<Rightarrow> addr) \<Rightarrow> ('s \<Rightarrow> addr) \<Rightarrow> 's list \<Rightarrow> usize list \<Rightarrow> bool" where
  "index_ok st en slabs order \<longleftrightarrow> mset order = mset [0..<length slabs] \<and>
     (\<forall>s\<in>set slabs. st s < en s) \<and>
     sorted_wrt (\<lambda>i j. en (slabs ! i) \<le> st (slabs ! j)) order"

lemma those_map_Some: "(\<And>x. x \<in> set xs \<Longrightarrow> f x = Some (g x)) \<Longrightarrow> those (map f xs) = Some (map g xs)"
  by (induction xs) auto

lemma index_ok_set: "index_ok st en slabs order \<Longrightarrow> set order = {0..<length slabs}"
  unfolding index_ok_def by (metis atLeast_upt lessThan_atLeast0 set_mset_mset)

lemma index_ok_distinct: "index_ok st en slabs order \<Longrightarrow> distinct order"
  unfolding index_ok_def by (metis distinct_mset_eq distinct_upt)

lemma index_ok_length: "index_ok st en slabs order \<Longrightarrow> length order = length slabs"
  unfolding index_ok_def by (metis diff_zero length_upt size_mset)

lemma index_keys_eq:
  "index_ok st en slabs order \<Longrightarrow>
   index_keys st slabs order = Some (map (\<lambda>i. st (slabs ! i)) order)"
  unfolding index_keys_def using index_ok_set [of st en slabs order]
  by (intro those_map_Some) auto

lemma index_ok_Nil [simp]: "index_ok st en [] order \<longleftrightarrow> order = []"
  by (auto simp: index_ok_def)

lemma index_ok_update:
  assumes "index_ok st en slabs order" "i < length slabs" "st s = st (slabs ! i)" "en s = en (slabs ! i)"
  shows "index_ok st en (slabs[i := s]) order"
proof -
  have same: "st (slabs[i := s] ! j) = st (slabs ! j)" "en (slabs[i := s] ! j) = en (slabs ! j)" for j
    using assms(2-4) by (cases "i = j"; simp)+
  have "st s < en s" using assms nth_mem [OF assms(2)] unfolding index_ok_def by simp
  then show ?thesis
    using assms(1) set_update_subset_insert [of slabs i s] unfolding index_ok_def same by auto
qed

lemma index_ok_cong:
  assumes "length slabs' = length slabs" "\<And>i. i < length slabs \<Longrightarrow> st (slabs' ! i) = st (slabs ! i)"
    "\<And>i. i < length slabs \<Longrightarrow> en (slabs' ! i) = en (slabs ! i)" "index_ok st en slabs order"
  shows "index_ok st en slabs' order"
proof -
  have "sorted_wrt (\<lambda>i j. en (slabs' ! i) \<le> st (slabs' ! j)) order"
    by (rule sorted_wrt_mono_rel [of _ "\<lambda>i j. en (slabs ! i) \<le> st (slabs ! j)"])
      (use assms index_ok_set [OF assms(4)] in \<open>auto simp: index_ok_def\<close>)
  then show ?thesis
    using assms unfolding index_ok_def all_set_conv_all_nth by simp
qed

lemma index_ok_apart:
  assumes "index_ok st en slabs order" "i < length slabs" "j < length slabs" "i \<noteq> j"
  shows "en (slabs ! i) \<le> st (slabs ! j) \<or> en (slabs ! j) \<le> st (slabs ! i)"
proof -
  obtain p q where p: "p < length order" "order ! p = i" and q: "q < length order" "order ! q = j"
    using index_ok_set [OF assms(1)] assms(2,3) by (metis atLeastLessThan_iff in_set_conv_nth zero_le)
  have "p \<noteq> q" using p q assms(4) by auto
  then consider "p < q" | "q < p" by linarith
  then show ?thesis
    using assms(1) p q unfolding index_ok_def sorted_wrt_iff_nth_less by cases auto
qed

lemma index_ok_keys_sorted:
  assumes "index_ok st en slabs order"
  shows "sorted_wrt (<) (map (\<lambda>i. st (slabs ! i)) order)"
proof -
  have "st (slabs ! (order ! p)) < st (slabs ! (order ! q))" if pq: "p < q" "q < length order" for p q
  proof -
    have "order ! p \<in> {0..<length slabs}"
      using index_ok_set [OF assms] nth_mem [of p order] pq by simp
    then have "st (slabs ! (order ! p)) < en (slabs ! (order ! p))"
      using assms by (simp add: index_ok_def)
    also have "\<dots> \<le> st (slabs ! (order ! q))"
      using assms pq by (simp add: index_ok_def sorted_wrt_iff_nth_less)
    finally show ?thesis .
  qed
  then show ?thesis by (simp add: sorted_wrt_iff_nth_less)
qed

lemma index_lookup:
  assumes ok: "index_ok st en slabs order" and "i < length slabs"
    and range: "st (slabs ! i) \<le> a" "a < en (slabs ! i)"
  defines "k \<equiv> partition_point (\<lambda>s. s \<le> a) (map (\<lambda>i. st (slabs ! i)) order)"
  shows "0 < k" "k \<le> length order" "order ! (k - 1) = i"
proof -
  let ?ks = "map (\<lambda>i. st (slabs ! i)) order"
  obtain q where q: "q < length order" "order ! q = i"
    using index_ok_set [OF ok] assms(2) by (metis atLeastLessThan_iff in_set_conv_nth zero_le)
  have mono: "?ks ! p \<le> ?ks ! r" if "p \<le> r" "r < length ?ks" for p r
    using index_ok_keys_sorted [OF ok] that
    by (metis le_neq_implies_less less_imp_le order_refl sorted_wrt_iff_nth_less)
  have "k \<le> length ?ks \<and> (\<forall>p<k. ?ks ! p \<le> a) \<and> (\<forall>p. k \<le> p \<longrightarrow> p < length ?ks \<longrightarrow> \<not> ?ks ! p \<le> a)"
    unfolding k_def by (rule partition_point_spec) (use mono in \<open>blast intro: order_trans\<close>)
  then have k: "k \<le> length order" "\<And>p. p < k \<Longrightarrow> st (slabs ! (order ! p)) \<le> a"
    "\<And>p. k \<le> p \<Longrightarrow> p < length order \<Longrightarrow> a < st (slabs ! (order ! p))" by (auto simp: not_le)
  have "q < k" using k(3) [of q] q range(1) by (meson leD leI)
  moreover have "\<not> q < k - 1"
  proof
    assume lt: "q < k - 1"
    then have "en (slabs ! (order ! q)) \<le> st (slabs ! (order ! (k - 1)))"
      using ok k(1) unfolding index_ok_def sorted_wrt_iff_nth_less by simp
    also have "\<dots> \<le> a" using k(2) [of "k - 1"] lt by simp
    finally show False using q(2) range(2) by simp
  qed
  ultimately have "q = k - 1" "0 < k" by auto
  then show "0 < k" "k \<le> length order" "order ! (k - 1) = i" using k(1) q(2) by auto
qed

lemma index_search_hit:
  assumes ok: "index_ok st en slabs order"
    and "binary_search_by (\<lambda>s. cmp_usize s a) (map (\<lambda>i. st (slabs ! i)) order) = Inr k"
  shows "k < length order" "order ! k < length slabs" "st (slabs ! (order ! k)) = a"
proof -
  have "k < length order \<and> st (slabs ! (order ! k)) = a"
    using binary_search_by_key_spec [of id "map (\<lambda>i. st (slabs ! i)) order" a]
      index_ok_keys_sorted [OF ok] assms(2) by (auto simp: nth_map)
  then show "k < length order" "order ! k < length slabs" "st (slabs ! (order ! k)) = a"
    using index_ok_set [OF ok] nth_mem by fastforce+
qed

lemma index_search_known:
  assumes ok: "index_ok st en slabs order" and i: "i < length slabs" "st (slabs ! i) = a"
  obtains k where "binary_search_by (\<lambda>s. cmp_usize s a) (map (\<lambda>i. st (slabs ! i)) order) = Inr k"
    "k < length order" "order ! k = i"
proof -
  let ?ks = "map (\<lambda>i. st (slabs ! i)) order"
  obtain q where q: "q < length order" "order ! q = i"
    using index_ok_set [OF ok] i(1) by (metis atLeastLessThan_iff in_set_conv_nth zero_le)
  note spec = binary_search_by_key_spec [of id ?ks a] index_ok_keys_sorted [OF ok]
  show ?thesis
  proof (cases "binary_search_by (\<lambda>s. cmp_usize s a) ?ks")
    case (Inl k)
    then have "q < k \<Longrightarrow> ?ks ! q < a" "k \<le> q \<Longrightarrow> a < ?ks ! q" using spec q(1) by auto
    then have False using q i(2) by (cases "q < k") auto
    then show ?thesis ..
  next
    case (Inr k)
    note hit = index_search_hit [OF ok Inr]
    have "order ! k = i"
    proof (rule ccontr)
      assume "order ! k \<noteq> i"
      then have "en (slabs ! (order ! k)) \<le> st (slabs ! i) \<or> en (slabs ! i) \<le> st (slabs ! (order ! k))"
        by (rule index_ok_apart [OF ok hit(2) i(1)])
      moreover have "st (slabs ! i) < en (slabs ! i)" "st (slabs ! (order ! k)) < en (slabs ! (order ! k))"
        using ok i(1) hit(2) by (auto simp: index_ok_def)
      ultimately show False using hit(3) i(2) by simp
    qed
    with Inr hit(1) show ?thesis by (rule that)
  qed
qed

lemma index_insert:
  assumes ok: "index_ok st en slabs order" and "st s < en s"
    and apart: "\<And>t. t \<in> set slabs \<Longrightarrow> en t \<le> st s \<or> en s \<le> st t"
  obtains k where "binary_search_by (\<lambda>a. cmp_usize a (st s)) (map (\<lambda>i. st (slabs ! i)) order) = Inl k"
    "k \<le> length order" "index_ok st en (slabs @ [s]) (take k order @ length slabs # drop k order)"
proof -
  let ?ks = "map (\<lambda>i. st (slabs ! i)) order"
  note spec = binary_search_by_key_spec [of id ?ks "st s"] index_ok_keys_sorted [OF ok]
  have range: "order ! p < length slabs" "slabs ! (order ! p) \<in> set slabs" if "p < length order" for p
    using index_ok_set [OF ok] nth_mem [OF that] by auto
  have pos: "st t < en t" if "t \<in> set slabs" for t using ok that by (simp add: index_ok_def)
  show ?thesis
  proof (cases "binary_search_by (\<lambda>a. cmp_usize a (st s)) ?ks")
    case (Inr k)
    from index_search_hit [OF ok Inr] have "slabs ! (order ! k) \<in> set slabs"
      "st (slabs ! (order ! k)) = st s" by auto
    with apart pos assms(2) have False by fastforce
    then show ?thesis ..
  next
    case (Inl k)
    let ?o = "take k order @ length slabs # drop k order"
    have k: "k \<le> length order" "\<And>p. p < k \<Longrightarrow> st (slabs ! (order ! p)) < st s"
      "\<And>p. k \<le> p \<Longrightarrow> p < length order \<Longrightarrow> st s < st (slabs ! (order ! p))"
      using spec Inl by auto
    have before: "en (slabs ! i) \<le> st s" if "i \<in> set (take k order)" for i
    proof -
      from that obtain p where "p < k" "p < length order" "i = order ! p"
        by (auto simp: in_set_conv_nth)
      then show ?thesis using apart [of "slabs ! i"] k(2) [of p] range [of p] assms(2) by fastforce
    qed
    have after: "en s \<le> st (slabs ! i)" if "i \<in> set (drop k order)" for i
    proof -
      from that obtain p where p: "k + p < length order" "i = order ! (k + p)"
        by (metis in_set_conv_nth length_drop less_diff_conv add.commute nth_drop k(1))
      then show ?thesis using apart [of "slabs ! i"] k(3) [of "k + p"] range [of "k + p"] pos by fastforce
    qed
    have at: "(slabs @ [s]) ! i = slabs ! i" if "i \<in> set order" for i
      using that index_ok_set [OF ok] by (simp add: nth_append)
    have "sorted_wrt (\<lambda>i j. en (slabs ! i) \<le> st (slabs ! j)) (take k order @ drop k order)"
      using ok by (simp add: index_ok_def)
    then have "sorted_wrt (\<lambda>i j. en ((slabs @ [s]) ! i) \<le> st ((slabs @ [s]) ! j)) (take k order)"
      "sorted_wrt (\<lambda>i j. en ((slabs @ [s]) ! i) \<le> st ((slabs @ [s]) ! j)) (drop k order)"
      "\<forall>i\<in>set (take k order). \<forall>j\<in>set (drop k order). en (slabs ! i) \<le> st (slabs ! j)"
      unfolding sorted_wrt_append
      by (auto elim!: sorted_wrt_mono_rel [rotated] simp: at [OF in_set_takeD] at [OF in_set_dropD])
    then have "sorted_wrt (\<lambda>i j. en ((slabs @ [s]) ! i) \<le> st ((slabs @ [s]) ! j)) ?o"
      using before after
      by (auto simp: sorted_wrt_append at [OF in_set_takeD] at [OF in_set_dropD])
    moreover have "mset ?o = add_mset (length slabs) (mset order)"
      by (metis append_take_drop_id mset.simps(2) mset_append union_mset_add_mset_right)
    ultimately have "index_ok st en (slabs @ [s]) ?o"
      using ok assms(2) unfolding index_ok_def by auto
    with Inl k(1) show ?thesis by (rule that)
  qed
qed

section \<open>Buckets with back-pointers\<close>

text \<open>
  \<open>bucket_ok b M slot\<close>: the vector \<open>b\<close> lists exactly the ids in \<open>M\<close>, once each, and
  \<open>slot\<close> knows the position of each.
\<close>

definition bucket_ok :: "usize list \<Rightarrow> (usize \<Rightarrow> bool) \<Rightarrow> (usize \<Rightarrow> usize option) \<Rightarrow> bool" where
  "bucket_ok b M slot \<longleftrightarrow> (\<forall>k<length b. M (b ! k) \<and> slot (b ! k) = Some k) \<and>
     (\<forall>i. M i \<longrightarrow> (\<exists>k<length b. slot i = Some k \<and> b ! k = i))"

lemma bucket_ok_cong:
  "bucket_ok b M slot \<Longrightarrow> (\<And>i. M' i = M i) \<Longrightarrow> (\<And>i. M i \<Longrightarrow> slot' i = slot i) \<Longrightarrow> bucket_ok b M' slot'"
  unfolding bucket_ok_def by metis

lemma bucket_ok_member: "bucket_ok b M slot \<Longrightarrow> i \<in> set b \<longleftrightarrow> M i"
  unfolding bucket_ok_def by (metis in_set_conv_nth)

lemma bucket_ok_last: "bucket_ok b M slot \<Longrightarrow> b \<noteq> [] \<Longrightarrow> M (last b)"
  using bucket_ok_member last_in_set by metis

lemma bucket_ok_Nil: "bucket_ok [] M slot \<longleftrightarrow> (\<forall>i. \<not> M i)"
  by (simp add: bucket_ok_def)

lemma bucket_ok_slot:
  "bucket_ok b M slot \<Longrightarrow> M i \<Longrightarrow> \<exists>k<length b. slot i = Some k \<and> b ! k = i"
  by (auto simp: bucket_ok_def)

lemma bucket_push:
  assumes ok: "bucket_ok b M slot" and "\<not> M i"
  shows "bucket_ok (b @ [i]) (\<lambda>j. M j \<or> j = i) (slot(i := Some (length b)))"
  unfolding bucket_ok_def
proof (intro conjI allI impI)
  fix k assume k: "k < length (b @ [i])"
  have ne: "b ! k \<noteq> i" if "k < length b" using ok assms(2) that by (auto simp: bucket_ok_def)
  show "M ((b @ [i]) ! k) \<or> (b @ [i]) ! k = i" "(slot(i := Some (length b))) ((b @ [i]) ! k) = Some k"
    using k ne ok by (auto simp: nth_append bucket_ok_def less_Suc_eq)
next
  fix j assume "M j \<or> j = i"
  then show "\<exists>k<length (b @ [i]). (slot(i := Some (length b))) j = Some k \<and> (b @ [i]) ! k = j"
    using ok assms(2) by (cases "j = i") (auto simp: bucket_ok_def nth_append less_Suc_eq)
qed

text \<open>\<open>swap_remove\<close> of the slot of \<open>i\<close> with the back-pointer of the moved id repaired.\<close>

lemma bucket_swap_remove:
  assumes ok: "bucket_ok b M slot" and "M i" "slot i = Some k"
  defines "b' \<equiv> butlast (b[k := last b])"
  shows "swap_remove b k = Some (i, b')" "length b' = length b - 1"
    "k < length b' \<Longrightarrow> M (b' ! k) \<and> b' ! k \<noteq> i"
    "bucket_ok b' (\<lambda>j. M j \<and> j \<noteq> i) (if k < length b' then slot(b' ! k := Some k) else slot)"
proof -
  have k: "k < length b" "b ! k = i" using ok assms(2,3) by (auto simp: bucket_ok_def)
  show "swap_remove b k = Some (i, b')" using k by (simp add: swap_remove_def b'_def)
  show len: "length b' = length b - 1" by (simp add: b'_def)
  have nth: "b' ! j = (if j = k then last b else b ! j)" if "j < length b'" for j
    unfolding b'_def by (rule swap_remove_nth) (use k that len in auto)
  have b_nth: "M (b ! j)" "slot (b ! j) = Some j" if "j < length b" for j
    using ok that by (auto simp: bucket_ok_def)
  have last: "last b = b ! (length b - 1)" using k by (intro last_conv_nth) auto
  have last_slot: "slot (last b) = Some (length b - 1)" "M (last b)" using b_nth k(1) last by auto
  show moved: "M (b' ! k) \<and> b' ! k \<noteq> i" if "k < length b'"
    using nth [OF that] last_slot assms(3) that len by auto
  let ?slot = "if k < length b' then slot(b' ! k := Some k) else slot"
  show "bucket_ok b' (\<lambda>j. M j \<and> j \<noteq> i) ?slot"
    unfolding bucket_ok_def
  proof (intro conjI allI impI)
    fix j assume j: "j < length b'"
    show "M (b' ! j)" using nth [OF j] b_nth last_slot j len by auto
    show "b' ! j \<noteq> i"
    proof (cases "j = k")
      case True
      then show ?thesis using nth [OF j] last_slot(1) assms(3) j len by auto
    next
      case False
      have "slot (b ! j) = Some j" using b_nth(2) j len by simp
      then show ?thesis using nth [OF j] False assms(3) by auto
    qed
    have "j < length b" using j len by simp
    then show "?slot (b' ! j) = Some j"
      using nth [OF j] nth [of k] last_slot b_nth [of j] j len by (cases "j = k") auto
  next
    fix j assume j: "M j \<and> j \<noteq> i"
    then obtain q where q: "q < length b" "slot j = Some q" "b ! q = j" using ok by (auto simp: bucket_ok_def)
    have "q \<noteq> k" using q(3) k(2) j by auto
    show "\<exists>p<length b'. ?slot j = Some p \<and> b' ! p = j"
    proof (cases "q = length b - 1")
      case True
      then have "j = last b" "k < length b'" using q last \<open>q \<noteq> k\<close> k(1) len by auto
      then show ?thesis using nth [of k] by auto
    next
      case False
      then have lt: "q < length b'" using q(1) len by simp
      moreover have "j \<noteq> last b" using q(2) False last_slot by auto
      ultimately show ?thesis using nth [OF lt] nth [of k] q \<open>q \<noteq> k\<close> by (auto split: if_splits)
    qed
  qed
qed

section \<open>The shape of a slab record\<close>

text \<open>
  What the registries rely on of \<open>contains\<close>: it accepts every block of the slab and nothing
  outside the slab's range. (The central pool also checks the distance to the start; the
  thread cache does so only in a debug build.)
\<close>

locale slab_shape =
  fixes sstart :: "'s \<Rightarrow> addr" and send :: "'s \<Rightarrow> addr" and sblocks :: "'s \<Rightarrow> addr list"
    and contains :: "'s \<Rightarrow> addr \<Rightarrow> bool" and shape :: "'s \<Rightarrow> bool"
  assumes contains_range: "contains s b \<Longrightarrow> sstart s \<le> b \<and> b < send s"
    and contains_block: "shape s \<Longrightarrow> b \<in> set (sblocks s) \<Longrightarrow> contains s b"
    and shape_distinct: "shape s \<Longrightarrow> distinct (sblocks s)"
begin

lemma block_range: "shape s \<Longrightarrow> b \<in> set (sblocks s) \<Longrightarrow> sstart s \<le> b \<and> b < send s"
  using contains_block contains_range by blast

lemma contains_unique:
  assumes "index_ok sstart send slabs order" "i < length slabs" "j < length slabs"
    and "contains (slabs ! i) b" "contains (slabs ! j) b"
  shows "i = j"
proof (rule ccontr)
  assume "i \<noteq> j"
  from index_ok_apart [OF assms(1-3) this] contains_range [OF assms(4)] contains_range [OF assms(5)]
  show False by auto
qed

text \<open>Blocks of different slabs are different.\<close>

lemma distinct_all_blocks:
  assumes ok: "index_ok sstart send slabs order" and shape: "\<And>s. s \<in> set slabs \<Longrightarrow> shape s"
  shows "distinct (concat (map sblocks slabs))"
proof -
  have "set (sblocks (slabs ! i)) \<inter> set (sblocks (slabs ! j)) = {}"
    if ij: "i < length slabs" "j < length slabs" "i \<noteq> j" for i j
  proof -
    have "b \<notin> set (sblocks (slabs ! j))" if b: "b \<in> set (sblocks (slabs ! i))" for b
      using index_ok_apart [OF ok ij] block_range [OF shape [OF nth_mem [OF ij(1)]] b]
        block_range [OF shape [OF nth_mem [OF ij(2)]], of b] by force
    then show ?thesis by blast
  qed
  then show ?thesis using shape shape_distinct
  proof (induction slabs)
    case (Cons s slabs)
    have "set (sblocks s) \<inter> set (sblocks t) = {}" if t: "t \<in> set slabs" for t
    proof -
      obtain j where "j < length slabs" "slabs ! j = t" using t by (auto simp: in_set_conv_nth)
      then show ?thesis using Cons.prems(1) [of 0 "Suc j"] by simp
    qed
    moreover have "distinct (concat (map sblocks slabs))"
    proof (rule Cons.IH)
      show "set (sblocks (slabs ! i)) \<inter> set (sblocks (slabs ! j)) = {}"
        if "i < length slabs" "j < length slabs" "i \<noteq> j" for i j
        using Cons.prems(1) [of "Suc i" "Suc j"] that by simp
    qed (use Cons.prems in auto)
    ultimately show ?case using Cons.prems(2,3) by auto
  qed simp
qed

end

end
