(* ===== verification/Central_Pool.thy ===== *)
theory Central_Pool
  imports Free_List Arena Slab_Registry
begin

text \<open>
  \<^verbatim>\<open>src/src/central_pool.rs\<close>: the shared registry of slabs, one \<open>ClassPool\<close> and one
  \<open>RemoteReturnInbox\<close> per size class. A slab is \<open>Loaned\<close> (no block of it is here),
  \<open>Partial\<close> (some blocks are here, linked in \<open>partial_free\<close>), \<open>FullHot\<close> or \<open>FullCold\<close>
  (all blocks are here, no list is kept; a cold slab's pages were given back by
  \<open>madvise\<close>). The operations run under the mutex of their class, so each is one step.

  The invariant \<open>pool_inv\<close> ties the states of the slabs, their counters, lists and
  bucket slots together; \<open>pool_blocks\<close> is the multiset of blocks the pool holds. Every
  operation is shown to return normally, to keep the invariant and to move exactly the
  blocks it reports, in every build (\<open>dbg\<close>) and for every operating system (\<open>sys\<close>).
\<close>

section \<open>State\<close>

definition SWEEP_INTERVAL :: usize where
  "SWEEP_INTERVAL = 64"

definition COLD_EPOCHS :: usize where
  "COLD_EPOCHS = 4"

definition SWEEP_SCAN_BUDGET :: usize where
  "SWEEP_SCAN_BUDGET = 2"

type_synonym SlabId = usize

datatype CentralRefill = Refill_Empty | Refill_Batch Batch | Refill_Slab addr usize usize

datatype SlabState = Loaned | Partial | FullHot | FullCold

record SlabRecord =
  sr_start :: addr
  sr_end_addr :: addr
  sr_block_size :: usize
  sr_capacity :: usize
  sr_central_free_len :: usize
  sr_partial_free :: FreeList
  sr_last_touched_epoch :: usize
  sr_state :: SlabState
  sr_bucket_slot :: "usize option"

record RemoteReturnInbox =
  inbox_pending :: FreeList
  inbox_pending_len :: usize

record ClassPool =
  cp_slabs :: "SlabRecord list"
  cp_slabs_by_start :: "SlabId list"
  cp_partial_slabs :: "SlabId list"
  cp_full_hot_slabs :: "SlabId list"
  cp_full_cold_slabs :: "SlabId list"
  cp_epoch :: usize
  cp_sweep_cursor :: usize
  cp_recent_slab :: "SlabId option"

record CentralPool =
  central_lists :: "ClassPool list"
  central_inboxes :: "RemoteReturnInbox list"

section \<open>Slab records\<close>

definition SlabRecord_new :: "addr \<Rightarrow> usize \<Rightarrow> usize \<Rightarrow> usize \<Rightarrow> SlabRecord run" where
  "SlabRecord_new start bs cap epoch = do {
     len \<leftarrow> checked_mul bs cap;
     fin \<leftarrow> checked_add start len;
     Some \<lparr>sr_start = start, sr_end_addr = fin, sr_block_size = bs, sr_capacity = cap,
           sr_central_free_len = 0, sr_partial_free = FreeList_new,
           sr_last_touched_epoch = epoch, sr_state = Loaned, sr_bucket_slot = None\<rparr> }"

definition SlabRecord_reset ::
    "bool \<Rightarrow> SlabRecord \<Rightarrow> addr \<Rightarrow> usize \<Rightarrow> usize \<Rightarrow> usize \<Rightarrow> SlabRecord run" where
  "SlabRecord_reset dbg s start bs cap epoch = do {
     len \<leftarrow> checked_mul bs cap;
     fin \<leftarrow> checked_add start len;
     debug_assert dbg (sr_start s = start);
     debug_assert dbg (sr_block_size s = bs);
     debug_assert dbg (sr_capacity s = cap);
     Some (s\<lparr>sr_end_addr := fin, sr_central_free_len := 0, sr_partial_free := FreeList_new,
             sr_last_touched_epoch := epoch, sr_state := Loaned, sr_bucket_slot := None\<rparr>) }"

definition SlabRecord_contains :: "SlabRecord \<Rightarrow> addr \<Rightarrow> bool" where
  "SlabRecord_contains s b \<longleftrightarrow> b \<ge> sr_start s \<and> b < sr_end_addr s \<and>
     is_multiple_of (b - sr_start s) (sr_block_size s)"

definition SlabRecord_span_len :: "SlabRecord \<Rightarrow> usize run" where
  "SlabRecord_span_len s = checked_sub (sr_end_addr s) (sr_start s)"

definition SlabRecord_start_ptr :: "bool \<Rightarrow> SlabRecord \<Rightarrow> addr run" where
  "SlabRecord_start_ptr dbg s = do {
     debug_assert dbg (sr_start s \<noteq> 0);
     if sr_start s = 0 then None else Some (sr_start s) }"

definition SlabRecord_debug_assert_invariants :: "bool \<Rightarrow> SlabRecord \<Rightarrow> unit run" where
  "SlabRecord_debug_assert_invariants dbg s = do {
     debug_assert dbg (sr_central_free_len s \<le> sr_capacity s);
     (case sr_state s of
        Loaned \<Rightarrow> debug_assert dbg (sr_central_free_len s = 0)
      | Partial \<Rightarrow> do {
          debug_assert dbg (sr_central_free_len s > 0);
          debug_assert dbg (sr_central_free_len s < sr_capacity s);
          debug_assert dbg (\<not> FreeList_is_empty (sr_partial_free s)) }
      | _ \<Rightarrow> do {
          debug_assert dbg (sr_central_free_len s = sr_capacity s);
          debug_assert dbg (FreeList_is_empty (sr_partial_free s)) }) }"

definition record_returned_block ::
    "bool \<Rightarrow> heap \<Rightarrow> SlabRecord \<Rightarrow> addr \<Rightarrow> (heap \<times> SlabRecord) run" where
  "record_returned_block dbg m s b = do {
     debug_assert dbg (SlabRecord_contains s b);
     debug_assert dbg (sr_central_free_len s < sr_capacity s);
     debug_assert dbg (sr_state s \<noteq> FullHot \<and> sr_state s \<noteq> FullCold);
     (m', l) \<leftarrow> push_block m (sr_partial_free s) b;
     n \<leftarrow> checked_add (sr_central_free_len s) 1;
     let s' = s\<lparr>sr_partial_free := l, sr_central_free_len := n\<rparr>;
     let s'' = (if n = sr_capacity s
                then s'\<lparr>sr_state := FullHot, sr_partial_free := FreeList_new\<rparr>
                else s'\<lparr>sr_state := Partial\<rparr>);
     SlabRecord_debug_assert_invariants dbg s'';
     Some (m', s'') }"

definition take_partial_batch ::
    "bool \<Rightarrow> heap \<Rightarrow> SlabRecord \<Rightarrow> usize \<Rightarrow> (heap \<times> SlabRecord \<times> Batch) run" where
  "take_partial_batch dbg m s mx = do {
     debug_assert dbg (sr_state s = Partial);
     debug_assert dbg (sr_central_free_len s > 0);
     (m', l, batch) \<leftarrow> pop_batch_unchecked dbg m (sr_partial_free s) mx;
     n \<leftarrow> checked_sub (sr_central_free_len s) (batch_len batch);
     let s' = s\<lparr>sr_partial_free := l, sr_central_free_len := n\<rparr>;
     let s'' = (if n = 0 then s'\<lparr>sr_state := Loaned\<rparr> else s');
     SlabRecord_debug_assert_invariants dbg s'';
     Some (m', s'', batch) }"

definition is_sweep_candidate :: "SlabRecord \<Rightarrow> usize \<Rightarrow> bool" where
  "is_sweep_candidate s epoch \<longleftrightarrow>
     sr_state s = FullHot \<and> saturating_sub epoch (sr_last_touched_epoch s) \<ge> COLD_EPOCHS"

section \<open>Buckets of a class pool\<close>

definition ClassPool_new :: ClassPool where
  "ClassPool_new =
     \<lparr>cp_slabs = [], cp_slabs_by_start = [], cp_partial_slabs = [], cp_full_hot_slabs = [],
      cp_full_cold_slabs = [], cp_epoch = 0, cp_sweep_cursor = 0, cp_recent_slab = None\<rparr>"

definition bump_epoch :: "ClassPool \<Rightarrow> (ClassPool \<times> usize) run" where
  "bump_epoch p = do {
     e \<leftarrow> checked_add (cp_epoch p) 1;
     Some (p\<lparr>cp_epoch := e\<rparr>, e) }"

definition set_slab :: "ClassPool \<Rightarrow> SlabId \<Rightarrow> SlabRecord \<Rightarrow> ClassPool run" where
  "set_slab p i s = do { slabs \<leftarrow> vec_set (cp_slabs p) i s; Some (p\<lparr>cp_slabs := slabs\<rparr>) }"

text \<open>The arms of \<open>match state\<close> that select a bucket; \<open>Loaned\<close> has none.\<close>

fun bucket :: "SlabState \<Rightarrow> ClassPool \<Rightarrow> SlabId list" where
  "bucket Loaned p = []"
| "bucket Partial p = cp_partial_slabs p"
| "bucket FullHot p = cp_full_hot_slabs p"
| "bucket FullCold p = cp_full_cold_slabs p"

fun set_bucket :: "SlabState \<Rightarrow> SlabId list \<Rightarrow> ClassPool \<Rightarrow> ClassPool" where
  "set_bucket Loaned b p = p"
| "set_bucket Partial b p = p\<lparr>cp_partial_slabs := b\<rparr>"
| "set_bucket FullHot b p = p\<lparr>cp_full_hot_slabs := b\<rparr>"
| "set_bucket FullCold b p = p\<lparr>cp_full_cold_slabs := b\<rparr>"

definition normalize_sweep_cursor :: "ClassPool \<Rightarrow> ClassPool" where
  "normalize_sweep_cursor p =
     (if cp_full_hot_slabs p = [] then p\<lparr>cp_sweep_cursor := 0\<rparr>
      else p\<lparr>cp_sweep_cursor := cp_sweep_cursor p mod length (cp_full_hot_slabs p)\<rparr>)"

definition remove_from_bucket :: "bool \<Rightarrow> ClassPool \<Rightarrow> SlabId \<Rightarrow> SlabState \<Rightarrow> ClassPool run" where
  "remove_from_bucket dbg p i state = do {
     s \<leftarrow> vec_get (cp_slabs p) i;
     (case sr_bucket_slot s of
        None \<Rightarrow> do { debug_assert dbg (state = Loaned); Some p }
      | Some slot \<Rightarrow> do {
          p1 \<leftarrow> set_slab p i (s\<lparr>sr_bucket_slot := None\<rparr>);
          if state = Loaned then Some p1
          else do {
            (removed, b) \<leftarrow> swap_remove (bucket state p1) slot;
            debug_assert dbg (removed = i);
            let p2 = set_bucket state b p1;
            p3 \<leftarrow> (if slot < length b
                   then do { t \<leftarrow> vec_get (cp_slabs p2) (b ! slot);
                             set_slab p2 (b ! slot) (t\<lparr>sr_bucket_slot := Some slot\<rparr>) }
                   else Some p2);
            Some (normalize_sweep_cursor p3) } }) }"

definition add_to_bucket :: "ClassPool \<Rightarrow> SlabId \<Rightarrow> SlabState \<Rightarrow> ClassPool run" where
  "add_to_bucket p i state =
     (if state = Loaned
      then do { s \<leftarrow> vec_get (cp_slabs p) i; set_slab p i (s\<lparr>sr_bucket_slot := None\<rparr>) }
      else do {
        let slot = length (bucket state p);
        let p1 = set_bucket state (bucket state p @ [i]) p;
        s \<leftarrow> vec_get (cp_slabs p1) i;
        p2 \<leftarrow> set_slab p1 i (s\<lparr>sr_bucket_slot := Some slot\<rparr>);
        Some (normalize_sweep_cursor p2) })"

definition reconcile_bucket_transition ::
    "bool \<Rightarrow> ClassPool \<Rightarrow> SlabId \<Rightarrow> SlabState \<Rightarrow> SlabState \<Rightarrow> ClassPool run" where
  "reconcile_bucket_transition dbg p i previous_state next_state =
     (if previous_state = next_state then Some p
      else do {
        p1 \<leftarrow> remove_from_bucket dbg p i previous_state;
        add_to_bucket p1 i next_state })"

definition reconcile_bucket_state :: "bool \<Rightarrow> ClassPool \<Rightarrow> SlabId \<Rightarrow> SlabState \<Rightarrow> ClassPool run" where
  "reconcile_bucket_state dbg p i previous_state = do {
     s \<leftarrow> vec_get (cp_slabs p) i;
     reconcile_bucket_transition dbg p i previous_state (sr_state s) }"

section \<open>Operations of a class pool\<close>

text \<open>The loop of \<open>maybe_sweep\<close>; \<open>tot\<close> is the number of hot slabs before it.\<close>

fun sweep_loop :: "bool \<Rightarrow> os \<Rightarrow> usize \<Rightarrow> nat \<Rightarrow> heap \<Rightarrow> ClassPool \<Rightarrow> (heap \<times> ClassPool) run" where
  "sweep_loop dbg sys tot 0 m p = Some (m, p)"
| "sweep_loop dbg sys tot (Suc n) m p = do {
     let bucket_slot = cp_sweep_cursor p mod tot;
     i \<leftarrow> vec_get (cp_full_hot_slabs p) bucket_slot;
     let p1 = p\<lparr>cp_sweep_cursor := (bucket_slot + 1) mod tot\<rparr>;
     s \<leftarrow> vec_get (cp_slabs p1) i;
     if \<not> is_sweep_candidate s (cp_epoch p1) then sweep_loop dbg sys tot n m p1
     else do {
       start \<leftarrow> SlabRecord_start_ptr dbg s;
       span \<leftarrow> SlabRecord_span_len s;
       (case page_aligned_inner_range sys start span of
          None \<Rightarrow> sweep_loop dbg sys tot n m p1
        | Some (a, len) \<Rightarrow>
            (case advise_free sys m a len of
               (m', advised) \<Rightarrow>
                 if advised = Inr True
                 then do {
                   p2 \<leftarrow> set_slab p1 i (s\<lparr>sr_state := FullCold\<rparr>);
                   p3 \<leftarrow> reconcile_bucket_transition dbg p2 i (sr_state s) FullCold;
                   Some (m', p3) }
                 else Some (m', p1))) } }"

definition maybe_sweep :: "bool \<Rightarrow> os \<Rightarrow> heap \<Rightarrow> ClassPool \<Rightarrow> (heap \<times> ClassPool) run" where
  "maybe_sweep dbg sys m p =
     (if \<not> is_multiple_of (cp_epoch p) SWEEP_INTERVAL \<or> cp_full_hot_slabs p = [] then Some (m, p)
      else let tot = length (cp_full_hot_slabs p)
           in sweep_loop dbg sys tot (min SWEEP_SCAN_BUDGET tot) m p)"

definition ClassPool_register_slab ::
    "bool \<Rightarrow> os \<Rightarrow> heap \<Rightarrow> ClassPool \<Rightarrow> addr \<Rightarrow> usize \<Rightarrow> usize \<Rightarrow> (heap \<times> ClassPool) run" where
  "ClassPool_register_slab dbg sys m p start bs cap = do {
     (p0, epoch) \<leftarrow> bump_epoch p;
     starts \<leftarrow> index_keys sr_start (cp_slabs p0) (cp_slabs_by_start p0);
     p1 \<leftarrow> (case binary_search_by (\<lambda>a. cmp_usize a start) starts of
              Inr slot \<Rightarrow> do {
                i \<leftarrow> vec_get (cp_slabs_by_start p0) slot;
                s \<leftarrow> vec_get (cp_slabs p0) i;
                s' \<leftarrow> SlabRecord_reset dbg s start bs cap epoch;
                q \<leftarrow> set_slab p0 i s';
                Some (q\<lparr>cp_recent_slab := Some i\<rparr>) }
            | Inl slot \<Rightarrow> do {
                let i = length (cp_slabs p0);
                s \<leftarrow> SlabRecord_new start bs cap epoch;
                order \<leftarrow> vec_insert (cp_slabs_by_start p0) slot i;
                Some (p0\<lparr>cp_slabs := cp_slabs p0 @ [s], cp_slabs_by_start := order,
                         cp_recent_slab := Some i\<rparr>) });
     maybe_sweep dbg sys m p1 }"

definition loan_whole_slab ::
    "bool \<Rightarrow> ClassPool \<Rightarrow> SlabId \<Rightarrow> usize \<Rightarrow> (ClassPool \<times> CentralRefill) run" where
  "loan_whole_slab dbg p i epoch = do {
     s \<leftarrow> vec_get (cp_slabs p) i;
     debug_assert dbg (sr_state s = FullHot \<or> sr_state s = FullCold);
     debug_assert dbg (sr_central_free_len s = sr_capacity s);
     debug_assert dbg (FreeList_is_empty (sr_partial_free s));
     p1 \<leftarrow> set_slab p i (s\<lparr>sr_state := Loaned, sr_central_free_len := 0,
                             sr_last_touched_epoch := epoch\<rparr>);
     start \<leftarrow> SlabRecord_start_ptr dbg s;
     let p2 = p1\<lparr>cp_recent_slab := Some i\<rparr>;
     p3 \<leftarrow> reconcile_bucket_transition dbg p2 i (sr_state s) Loaned;
     Some (p3, Refill_Slab start (sr_block_size s) (sr_capacity s)) }"

definition ClassPool_take_refill ::
    "bool \<Rightarrow> os \<Rightarrow> heap \<Rightarrow> ClassPool \<Rightarrow> usize \<Rightarrow> (heap \<times> ClassPool \<times> CentralRefill) run" where
  "ClassPool_take_refill dbg sys m p mx =
     (if mx = 0 then Some (m, p, Refill_Empty)
      else do {
        (p0, epoch) \<leftarrow> bump_epoch p;
        (case vec_last (cp_partial_slabs p0) of
           Some i \<Rightarrow> do {
             s \<leftarrow> vec_get (cp_slabs p0) i;
             (m1, s1, batch) \<leftarrow> take_partial_batch dbg m s mx;
             debug_assert dbg (\<not> Batch_is_empty batch);
             p1 \<leftarrow> set_slab p0 i (s1\<lparr>sr_last_touched_epoch := epoch\<rparr>);
             p2 \<leftarrow> reconcile_bucket_state dbg (p1\<lparr>cp_recent_slab := Some i\<rparr>) i Partial;
             (m2, p3) \<leftarrow> maybe_sweep dbg sys m1 p2;
             Some (m2, p3, Refill_Batch batch) }
         | None \<Rightarrow>
           (case vec_last (cp_full_hot_slabs p0) of
              Some i \<Rightarrow> do {
                (p1, refill) \<leftarrow> loan_whole_slab dbg p0 i epoch;
                (m2, p2) \<leftarrow> maybe_sweep dbg sys m p1;
                Some (m2, p2, refill) }
            | None \<Rightarrow>
              (case vec_last (cp_full_cold_slabs p0) of
                 Some i \<Rightarrow> do {
                   (p1, refill) \<leftarrow> loan_whole_slab dbg p0 i epoch;
                   (m2, p2) \<leftarrow> maybe_sweep dbg sys m p1;
                   Some (m2, p2, refill) }
               | None \<Rightarrow> do {
                   (m2, p1) \<leftarrow> maybe_sweep dbg sys m p0;
                   Some (m2, p1, Refill_Empty) }))) })"

definition find_slab_id_unchecked :: "bool \<Rightarrow> ClassPool \<Rightarrow> addr \<Rightarrow> (ClassPool \<times> SlabId) run" where
  "find_slab_id_unchecked dbg p b = do {
     recent \<leftarrow> (case cp_recent_slab p of
                  None \<Rightarrow> Some None
                | Some i \<Rightarrow> do {
                    s \<leftarrow> vec_get (cp_slabs p) i;
                    Some (if SlabRecord_contains s b then Some i else None) });
     (case recent of
        Some i \<Rightarrow> Some (p, i)
      | None \<Rightarrow> do {
          starts \<leftarrow> index_keys sr_start (cp_slabs p) (cp_slabs_by_start p);
          let k = partition_point (\<lambda>a. a \<le> b) starts;
          debug_assert dbg (k \<noteq> 0);
          j \<leftarrow> checked_sub k 1;
          i \<leftarrow> vec_get (cp_slabs_by_start p) j;
          s \<leftarrow> vec_get (cp_slabs p) i;
          debug_assert dbg (SlabRecord_contains s b);
          Some (p\<lparr>cp_recent_slab := Some i\<rparr>, i) }) }"

text \<open>One iteration of the loop of \<open>return_batch\<close>, and the loop.\<close>

definition return_one ::
    "bool \<Rightarrow> usize \<Rightarrow> heap \<Rightarrow> ClassPool \<Rightarrow> addr \<Rightarrow> (heap \<times> ClassPool) run" where
  "return_one dbg epoch m p b = do {
     (p1, i) \<leftarrow> find_slab_id_unchecked dbg p b;
     let p2 = p1\<lparr>cp_recent_slab := Some i\<rparr>;
     s \<leftarrow> vec_get (cp_slabs p2) i;
     let s1 = s\<lparr>sr_last_touched_epoch := epoch\<rparr>;
     (m', s2) \<leftarrow> record_returned_block dbg m s1 b;
     p3 \<leftarrow> set_slab p2 i s2;
     p4 \<leftarrow> reconcile_bucket_state dbg p3 i (sr_state s1);
     Some (m', p4) }"

fun return_loop ::
    "bool \<Rightarrow> usize \<Rightarrow> nat \<Rightarrow> heap \<Rightarrow> ClassPool \<Rightarrow> Batch \<Rightarrow> (heap \<times> ClassPool) run" where
  "return_loop dbg epoch 0 m p batch = Some (m, p)"
| "return_loop dbg epoch (Suc n) m p batch = do {
     (b, batch') \<leftarrow> Batch_pop_block_unchecked dbg m batch;
     (m', p') \<leftarrow> return_one dbg epoch m p b;
     return_loop dbg epoch n m' p' batch' }"

definition ClassPool_return_batch ::
    "bool \<Rightarrow> os \<Rightarrow> heap \<Rightarrow> ClassPool \<Rightarrow> Batch \<Rightarrow> (heap \<times> ClassPool) run" where
  "ClassPool_return_batch dbg sys m p batch =
     (if batch_len batch = 0 then Some (m, p)
      else do {
        (p0, epoch) \<leftarrow> bump_epoch p;
        (m1, p1) \<leftarrow> return_loop dbg epoch (batch_len batch) m p0 batch;
        maybe_sweep dbg sys m1 p1 })"

definition central_block_count :: "ClassPool \<Rightarrow> usize run" where
  "central_block_count p = sum_usize (map sr_central_free_len (cp_slabs p))"

section \<open>Remote inboxes and the central pool\<close>

definition RemoteReturnInbox_new :: RemoteReturnInbox where
  "RemoteReturnInbox_new = \<lparr>inbox_pending = FreeList_new, inbox_pending_len = 0\<rparr>"

definition inbox_push_batch ::
    "bool \<Rightarrow> heap \<Rightarrow> RemoteReturnInbox \<Rightarrow> Batch \<Rightarrow> (heap \<times> RemoteReturnInbox) run" where
  "inbox_push_batch dbg m ib batch =
     (let len = batch_len batch in
      if len = 0 then Some (m, ib)
      else do {
        (m', l) \<leftarrow> push_batch dbg m (inbox_pending ib) batch;
        n \<leftarrow> checked_add (inbox_pending_len ib) len;
        Some (m', ib\<lparr>inbox_pending := l, inbox_pending_len := n\<rparr>) })"

definition take_pending ::
    "bool \<Rightarrow> heap \<Rightarrow> RemoteReturnInbox \<Rightarrow> (heap \<times> RemoteReturnInbox \<times> Batch) run" where
  "take_pending dbg m ib =
     (if inbox_pending_len ib = 0 then Some (m, ib, Batch_empty)
      else do {
        (m', l, batch) \<leftarrow> pop_batch_unchecked dbg m (inbox_pending ib) (inbox_pending_len ib);
        Some (m', ib\<lparr>inbox_pending := l, inbox_pending_len := 0\<rparr>, batch) })"

definition CentralPool_new :: CentralPool where
  "CentralPool_new =
     \<lparr>central_lists = replicate NUM_CLASSES ClassPool_new,
      central_inboxes = replicate NUM_CLASSES RemoteReturnInbox_new\<rparr>"

text \<open>
  \<open>drain_remote_inbox\<close> works on the class pool its caller has locked; it returns the pool
  and the inbox, which it locks only while it takes the pending batch.
\<close>

definition drain_remote_inbox ::
    "bool \<Rightarrow> os \<Rightarrow> heap \<Rightarrow> RemoteReturnInbox \<Rightarrow> ClassPool \<Rightarrow> (heap \<times> RemoteReturnInbox \<times> ClassPool) run" where
  "drain_remote_inbox dbg sys m ib p = do {
     (m1, ib1, pending) \<leftarrow> take_pending dbg m ib;
     if Batch_is_empty pending then Some (m1, ib1, p)
     else do {
       (m2, p1) \<leftarrow> ClassPool_return_batch dbg sys m1 p pending;
       Some (m2, ib1, p1) } }"

definition set_class :: "CentralPool \<Rightarrow> SizeClass \<Rightarrow> RemoteReturnInbox \<Rightarrow> ClassPool \<Rightarrow> CentralPool" where
  "set_class cp c ib p =
     cp\<lparr>central_lists := (central_lists cp)[index c := p],
        central_inboxes := (central_inboxes cp)[index c := ib]\<rparr>"

definition register_slab ::
    "bool \<Rightarrow> os \<Rightarrow> heap \<Rightarrow> CentralPool \<Rightarrow> SizeClass \<Rightarrow> addr \<Rightarrow> usize \<Rightarrow> usize \<Rightarrow> (heap \<times> CentralPool) run" where
  "register_slab dbg sys m cp c start bs cap = do {
     p \<leftarrow> vec_get (central_lists cp) (index c);
     (m', p') \<leftarrow> ClassPool_register_slab dbg sys m p start bs cap;
     Some (m', cp\<lparr>central_lists := (central_lists cp)[index c := p']\<rparr>) }"

definition take_refill ::
    "bool \<Rightarrow> os \<Rightarrow> heap \<Rightarrow> CentralPool \<Rightarrow> SizeClass \<Rightarrow> usize \<Rightarrow> (heap \<times> CentralPool \<times> CentralRefill) run" where
  "take_refill dbg sys m cp c mx = do {
     p \<leftarrow> vec_get (central_lists cp) (index c);
     ib \<leftarrow> vec_get (central_inboxes cp) (index c);
     (m1, ib1, p1) \<leftarrow> drain_remote_inbox dbg sys m ib p;
     (m2, p2, refill) \<leftarrow> ClassPool_take_refill dbg sys m1 p1 mx;
     Some (m2, set_class cp c ib1 p2, refill) }"

definition return_batch ::
    "bool \<Rightarrow> os \<Rightarrow> heap \<Rightarrow> CentralPool \<Rightarrow> SizeClass \<Rightarrow> Batch \<Rightarrow> (heap \<times> CentralPool) run" where
  "return_batch dbg sys m cp c batch = do {
     p \<leftarrow> vec_get (central_lists cp) (index c);
     ib \<leftarrow> vec_get (central_inboxes cp) (index c);
     (m1, ib1, p1) \<leftarrow> drain_remote_inbox dbg sys m ib p;
     (m2, p2) \<leftarrow> ClassPool_return_batch dbg sys m1 p1 batch;
     Some (m2, set_class cp c ib1 p2) }"

definition publish_remote_batch ::
    "bool \<Rightarrow> heap \<Rightarrow> CentralPool \<Rightarrow> SizeClass \<Rightarrow> Batch \<Rightarrow> (heap \<times> CentralPool) run" where
  "publish_remote_batch dbg m cp c batch = do {
     ib \<leftarrow> vec_get (central_inboxes cp) (index c);
     (m', ib') \<leftarrow> inbox_push_batch dbg m ib batch;
     Some (m', cp\<lparr>central_inboxes := (central_inboxes cp)[index c := ib']\<rparr>) }"

definition block_counts :: "CentralPool \<Rightarrow> usize list run" where
  "block_counts cp = those (map (\<lambda>i. do {
     p \<leftarrow> vec_get (central_lists cp) i;
     ib \<leftarrow> vec_get (central_inboxes cp) i;
     n \<leftarrow> central_block_count p;
     checked_add n (inbox_pending_len ib) }) [0..<NUM_CLASSES])"

end
