(* ===== verification/Thread_Cache.thy ===== *)
theory Thread_Cache
  imports Central_Pool
begin

text \<open>
  \<^verbatim>\<open>src/src/thread_cache.rs\<close>: the cache of one thread. For each class it keeps a hot block,
  slabs it owns (a bump cursor over never used blocks and a list of reclaimed ones), and a
  list of blocks received in batches from the central pool; blocks freed for other caches
  wait in a remote-return list. A cache belongs to one thread, so its operations need no
  lock; those that exchange blocks with the central pool take and return the pool's state.
  The assignment of fresh cache ids (the static \<open>NEXT_CACHE_ID\<close>) is explicit.
\<close>

section \<open>State\<close>

datatype BlockReuse =
  HotReuseRequestedOnly | NeedsOwnerAndRequestedSizeRefresh | NeedsHeaderRewrite

record LocalSlab =
  ls_start :: addr
  ls_end_addr :: addr
  ls_block_size :: usize
  ls_capacity :: usize
  ls_next_fresh :: usize
  ls_free :: FreeList
  ls_available_slot :: "usize option"

record LocalClassCache =
  lc_hot_block :: "addr option"
  lc_slabs :: "LocalSlab list"
  lc_slabs_by_start :: "SlabId list"
  lc_available_slabs :: "SlabId list"
  lc_recent_slab :: "SlabId option"
  lc_shared :: FreeList
  lc_shared_len :: usize
  lc_total_len :: usize

record ClassCacheConfig =
  cc_refill_count :: usize
  cc_local_limit :: usize
  cc_drain_count :: usize

record RemoteReturnCache =
  rr_pending :: FreeList
  rr_pending_len :: usize

record ThreadCache =
  tc_config :: AllocatorConfig
  tc_class_config :: "ClassCacheConfig list"
  tc_owner :: "usize option"
  tc_cache_id :: u32
  tc_classes :: "LocalClassCache list"
  tc_remote_returns :: "RemoteReturnCache list"

definition class_config_table :: "AllocatorConfig \<Rightarrow> ClassCacheConfig list" where
  "class_config_table cfg = map (\<lambda>i. let c = ALL_classes ! i in
     \<lparr>cc_refill_count = refill_count cfg c, cc_local_limit = local_limit cfg c,
      cc_drain_count = drain_count cfg c\<rparr>) [0..<NUM_CLASSES]"

section \<open>Local slabs\<close>

definition LocalSlab_new :: "addr \<Rightarrow> usize \<Rightarrow> usize \<Rightarrow> LocalSlab run" where
  "LocalSlab_new start bs cap = do {
     bytes \<leftarrow> checked_mul bs cap;
     fin \<leftarrow> checked_add start bytes;
     Some \<lparr>ls_start = start, ls_end_addr = fin, ls_block_size = bs, ls_capacity = cap,
           ls_next_fresh = 0, ls_free = FreeList_new, ls_available_slot = None\<rparr> }"

definition LocalSlab_reset :: "bool \<Rightarrow> LocalSlab \<Rightarrow> addr \<Rightarrow> usize \<Rightarrow> usize \<Rightarrow> LocalSlab run" where
  "LocalSlab_reset dbg s start bs cap = do {
     debug_assert dbg (ls_start s = start);
     debug_assert dbg (ls_block_size s = bs);
     debug_assert dbg (ls_capacity s = cap);
     Some (s\<lparr>ls_next_fresh := 0, ls_free := FreeList_new, ls_available_slot := None\<rparr>) }"

definition has_available_blocks :: "LocalSlab \<Rightarrow> bool" where
  "has_available_blocks s \<longleftrightarrow> ls_next_fresh s < ls_capacity s \<or> \<not> FreeList_is_empty (ls_free s)"

definition slab_addr_alignment_matches :: "bool \<Rightarrow> addr \<Rightarrow> addr \<Rightarrow> usize \<Rightarrow> bool" where
  "slab_addr_alignment_matches dbg a start bs = (if dbg then is_multiple_of (a - start) bs else True)"

definition LocalSlab_contains :: "bool \<Rightarrow> LocalSlab \<Rightarrow> addr \<Rightarrow> bool" where
  "LocalSlab_contains dbg s b \<longleftrightarrow> b \<ge> ls_start s \<and> b < ls_end_addr s \<and>
     slab_addr_alignment_matches dbg b (ls_start s) (ls_block_size s)"

definition LocalSlab_pop_block_unchecked ::
    "bool \<Rightarrow> heap \<Rightarrow> LocalSlab \<Rightarrow> (addr \<times> BlockReuse \<times> LocalSlab) run" where
  "LocalSlab_pop_block_unchecked dbg m s = do {
     debug_assert dbg (has_available_blocks s);
     if \<not> FreeList_is_empty (ls_free s)
     then do {
       (b, l) \<leftarrow> pop_block_unchecked dbg m (ls_free s);
       Some (b, HotReuseRequestedOnly, s\<lparr>ls_free := l\<rparr>) }
     else do {
       debug_assert dbg (ls_next_fresh s < ls_capacity s);
       offset \<leftarrow> checked_mul (ls_next_fresh s) (ls_block_size s);
       n \<leftarrow> checked_add (ls_next_fresh s) 1;
       let block = wrapping_add (ls_start s) offset;
       if block = 0 then None
       else Some (block, NeedsHeaderRewrite, s\<lparr>ls_next_fresh := n\<rparr>) } }"

definition LocalSlab_push_block :: "bool \<Rightarrow> heap \<Rightarrow> LocalSlab \<Rightarrow> addr \<Rightarrow> (heap \<times> LocalSlab) run" where
  "LocalSlab_push_block dbg m s b = do {
     debug_assert dbg (LocalSlab_contains dbg s b);
     (m', l) \<leftarrow> push_block m (ls_free s) b;
     Some (m', s\<lparr>ls_free := l\<rparr>) }"

text \<open>The two loops of \<open>LocalSlab::pop_batch\<close>: reclaimed blocks, then fresh ones.\<close>

fun reclaim_loop :: "bool \<Rightarrow> heap \<Rightarrow> FreeList \<Rightarrow> FreeList \<Rightarrow> nat \<Rightarrow> (heap \<times> FreeList \<times> FreeList) run" where
  "reclaim_loop dbg m src dst 0 = Some (m, src, dst)"
| "reclaim_loop dbg m src dst (Suc n) = do {
     (b, src') \<leftarrow> pop_block_unchecked dbg m src;
     (m', dst') \<leftarrow> push_block m dst b;
     reclaim_loop dbg m' src' dst' n }"

fun fresh_loop :: "bool \<Rightarrow> SizeClass \<Rightarrow> usize \<Rightarrow> heap \<Rightarrow> addr \<Rightarrow> FreeList \<Rightarrow> nat \<Rightarrow> (heap \<times> FreeList) run" where
  "fresh_loop dbg c bs m block dst 0 = Some (m, dst)"
| "fresh_loop dbg c bs m block dst (Suc n) =
     (if block = 0 then None
      else do {
        m1 \<leftarrow> initialize_small_to_block_unchecked dbg m block c;
        (m2, dst') \<leftarrow> push_block m1 dst block;
        fresh_loop dbg c bs m2 (wrapping_add block bs) dst' n })"

definition LocalSlab_pop_batch ::
    "bool \<Rightarrow> heap \<Rightarrow> LocalSlab \<Rightarrow> usize \<Rightarrow> SizeClass \<Rightarrow> (heap \<times> LocalSlab \<times> Batch) run" where
  "LocalSlab_pop_batch dbg m s mx c = do {
     debug_assert dbg (mx \<noteq> 0);
     debug_assert dbg (has_available_blocks s);
     let reclaimed = min (fl_len (ls_free s)) mx;
     (m1, free', list1) \<leftarrow> reclaim_loop dbg m (ls_free s) FreeList_new reclaimed;
     left \<leftarrow> checked_sub mx reclaimed;
     unused \<leftarrow> checked_sub (ls_capacity s) (ls_next_fresh s);
     let fresh = min left unused;
     let fresh_start = ls_next_fresh s;
     n \<leftarrow> checked_add (ls_next_fresh s) fresh;
     offset \<leftarrow> checked_mul fresh_start (ls_block_size s);
     (m2, list2) \<leftarrow> fresh_loop dbg c (ls_block_size s) m1 (wrapping_add (ls_start s) offset) list1 fresh;
     taken \<leftarrow> checked_add reclaimed fresh;
     debug_assert dbg (taken \<noteq> 0);
     (m3, _, batch) \<leftarrow> pop_batch_unchecked dbg m2 list2 taken;
     Some (m3, s\<lparr>ls_free := free', ls_next_fresh := n\<rparr>, batch) }"

section \<open>The cache of one class\<close>

definition LocalClassCache_new :: LocalClassCache where
  "LocalClassCache_new =
     \<lparr>lc_hot_block = None, lc_slabs = [], lc_slabs_by_start = [], lc_available_slabs = [],
      lc_recent_slab = None, lc_shared = FreeList_new, lc_shared_len = 0, lc_total_len = 0\<rparr>"

definition lc_set_slab :: "LocalClassCache \<Rightarrow> SlabId \<Rightarrow> LocalSlab \<Rightarrow> LocalClassCache run" where
  "lc_set_slab lc i s = do { slabs \<leftarrow> vec_set (lc_slabs lc) i s; Some (lc\<lparr>lc_slabs := slabs\<rparr>) }"

definition mark_slab_available :: "LocalClassCache \<Rightarrow> SlabId \<Rightarrow> LocalClassCache run" where
  "mark_slab_available lc i = do {
     s \<leftarrow> vec_get (lc_slabs lc) i;
     if ls_available_slot s \<noteq> None then Some lc
     else do {
       let slot = length (lc_available_slabs lc);
       lc' \<leftarrow> lc_set_slab lc i (s\<lparr>ls_available_slot := Some slot\<rparr>);
       Some (lc'\<lparr>lc_available_slabs := lc_available_slabs lc @ [i]\<rparr>) } }"

definition mark_slab_unavailable :: "bool \<Rightarrow> LocalClassCache \<Rightarrow> SlabId \<Rightarrow> LocalClassCache run" where
  "mark_slab_unavailable dbg lc i = do {
     s \<leftarrow> vec_get (lc_slabs lc) i;
     (case ls_available_slot s of
        None \<Rightarrow> Some lc
      | Some slot \<Rightarrow> do {
          lc1 \<leftarrow> lc_set_slab lc i (s\<lparr>ls_available_slot := None\<rparr>);
          (removed, b) \<leftarrow> swap_remove (lc_available_slabs lc1) slot;
          debug_assert dbg (removed = i);
          let lc2 = lc1\<lparr>lc_available_slabs := b\<rparr>;
          if slot < length b
          then do { t \<leftarrow> vec_get (lc_slabs lc2) (b ! slot);
                    lc_set_slab lc2 (b ! slot) (t\<lparr>ls_available_slot := Some slot\<rparr>) }
          else Some lc2 }) }"

definition lc_push_owned_slab ::
    "bool \<Rightarrow> LocalClassCache \<Rightarrow> addr \<Rightarrow> usize \<Rightarrow> usize \<Rightarrow> LocalClassCache run" where
  "lc_push_owned_slab dbg lc start bs cap = do {
     starts \<leftarrow> index_keys ls_start (lc_slabs lc) (lc_slabs_by_start lc);
     (lc1, i) \<leftarrow> (case binary_search_by (\<lambda>a. cmp_usize a start) starts of
         Inr slot \<Rightarrow> do {
           i \<leftarrow> vec_get (lc_slabs_by_start lc) slot;
           q \<leftarrow> mark_slab_unavailable dbg lc i;
           s \<leftarrow> vec_get (lc_slabs q) i;
           s' \<leftarrow> LocalSlab_reset dbg s start bs cap;
           q' \<leftarrow> lc_set_slab q i s';
           Some (q', i) }
       | Inl slot \<Rightarrow> do {
           let i = length (lc_slabs lc);
           s \<leftarrow> LocalSlab_new start bs cap;
           order \<leftarrow> vec_insert (lc_slabs_by_start lc) slot i;
           Some (lc\<lparr>lc_slabs := lc_slabs lc @ [s], lc_slabs_by_start := order\<rparr>, i) });
     lc2 \<leftarrow> mark_slab_available lc1 i;
     n \<leftarrow> checked_add (lc_total_len lc2) cap;
     Some (lc2\<lparr>lc_recent_slab := Some i, lc_total_len := n\<rparr>) }"

definition lc_pop_block_unchecked ::
    "bool \<Rightarrow> heap \<Rightarrow> LocalClassCache \<Rightarrow> (addr \<times> BlockReuse \<times> LocalClassCache) run" where
  "lc_pop_block_unchecked dbg m lc = do {
     debug_assert dbg (lc_total_len lc \<noteq> 0);
     (case lc_hot_block lc of
        Some b \<Rightarrow> do {
          n \<leftarrow> checked_sub (lc_total_len lc) 1;
          Some (b, HotReuseRequestedOnly, lc\<lparr>lc_hot_block := None, lc_total_len := n\<rparr>) }
      | None \<Rightarrow>
        (case vec_last (lc_available_slabs lc) of
           Some i \<Rightarrow> do {
             s \<leftarrow> vec_get (lc_slabs lc) i;
             debug_assert dbg (has_available_blocks s);
             (b, reuse, s') \<leftarrow> LocalSlab_pop_block_unchecked dbg m s;
             lc1 \<leftarrow> lc_set_slab lc i s';
             n \<leftarrow> checked_sub (lc_total_len lc1) 1;
             let lc2 = lc1\<lparr>lc_recent_slab := Some i, lc_total_len := n\<rparr>;
             lc3 \<leftarrow> (if \<not> has_available_blocks s' then mark_slab_unavailable dbg lc2 i else Some lc2);
             Some (b, reuse, lc3) }
         | None \<Rightarrow> do {
             debug_assert dbg (lc_shared_len lc \<noteq> 0);
             (b, l) \<leftarrow> pop_block_unchecked dbg m (lc_shared lc);
             k \<leftarrow> checked_sub (lc_shared_len lc) 1;
             n \<leftarrow> checked_sub (lc_total_len lc) 1;
             Some (b, NeedsOwnerAndRequestedSizeRefresh,
                   lc\<lparr>lc_shared := l, lc_shared_len := k, lc_total_len := n\<rparr>) })) }"

definition find_slab :: "bool \<Rightarrow> LocalClassCache \<Rightarrow> addr \<Rightarrow> SlabId option run" where
  "find_slab dbg lc b = do {
     starts \<leftarrow> index_keys ls_start (lc_slabs lc) (lc_slabs_by_start lc);
     let k = partition_point (\<lambda>a. a \<le> b) starts;
     if k = 0 then Some None
     else do {
       i \<leftarrow> vec_get (lc_slabs_by_start lc) (k - 1);
       s \<leftarrow> vec_get (lc_slabs lc) i;
       Some (if LocalSlab_contains dbg s b then Some i else None) } }"

text \<open>The common tail of the two arms of \<open>push_spilled_block\<close> that found a slab.\<close>

definition push_to_slab ::
    "bool \<Rightarrow> heap \<Rightarrow> LocalClassCache \<Rightarrow> SlabId \<Rightarrow> addr \<Rightarrow> (heap \<times> LocalClassCache) run" where
  "push_to_slab dbg m lc i b = do {
     s \<leftarrow> vec_get (lc_slabs lc) i;
     let was_empty = (\<not> has_available_blocks s);
     (m', s') \<leftarrow> LocalSlab_push_block dbg m s b;
     lc1 \<leftarrow> lc_set_slab lc i s';
     lc2 \<leftarrow> (if was_empty then mark_slab_available lc1 i else Some lc1);
     Some (m', lc2) }"

definition push_spilled_block ::
    "bool \<Rightarrow> heap \<Rightarrow> LocalClassCache \<Rightarrow> addr \<Rightarrow> (heap \<times> LocalClassCache) run" where
  "push_spilled_block dbg m lc b = do {
     recent \<leftarrow> (case lc_recent_slab lc of
                  None \<Rightarrow> Some None
                | Some i \<Rightarrow> do {
                    s \<leftarrow> vec_get (lc_slabs lc) i;
                    Some (if LocalSlab_contains dbg s b then Some i else None) });
     (case recent of
        Some i \<Rightarrow> push_to_slab dbg m lc i b
      | None \<Rightarrow> do {
          found \<leftarrow> find_slab dbg lc b;
          (case found of
             Some i \<Rightarrow> push_to_slab dbg m (lc\<lparr>lc_recent_slab := Some i\<rparr>) i b
           | None \<Rightarrow> do {
               (m', l) \<leftarrow> push_block m (lc_shared lc) b;
               k \<leftarrow> checked_add (lc_shared_len lc) 1;
               Some (m', lc\<lparr>lc_shared := l, lc_shared_len := k\<rparr>) }) }) }"

definition lc_push_block ::
    "bool \<Rightarrow> heap \<Rightarrow> LocalClassCache \<Rightarrow> addr \<Rightarrow> (heap \<times> LocalClassCache) run" where
  "lc_push_block dbg m lc b = do {
     n \<leftarrow> checked_add (lc_total_len lc) 1;
     let lc1 = lc\<lparr>lc_hot_block := Some b, lc_total_len := n\<rparr>;
     (case lc_hot_block lc of
        Some previous_hot \<Rightarrow> push_spilled_block dbg m lc1 previous_hot
      | None \<Rightarrow> Some (m, lc1)) }"

definition push_shared_batch ::
    "bool \<Rightarrow> heap \<Rightarrow> LocalClassCache \<Rightarrow> Batch \<Rightarrow> (heap \<times> LocalClassCache) run" where
  "push_shared_batch dbg m lc batch = do {
     let len = batch_len batch;
     (m', l) \<leftarrow> push_batch dbg m (lc_shared lc) batch;
     k \<leftarrow> checked_add (lc_shared_len lc) len;
     n \<leftarrow> checked_add (lc_total_len lc) len;
     Some (m', lc\<lparr>lc_shared := l, lc_shared_len := k, lc_total_len := n\<rparr>) }"

definition lc_pop_batch ::
    "bool \<Rightarrow> heap \<Rightarrow> LocalClassCache \<Rightarrow> usize \<Rightarrow> SizeClass \<Rightarrow> (heap \<times> LocalClassCache \<times> Batch) run" where
  "lc_pop_batch dbg m lc mx c = do {
     debug_assert dbg (mx \<noteq> 0);
     debug_assert dbg (lc_total_len lc \<noteq> 0);
     if lc_shared_len lc \<noteq> 0
     then do {
       (m', l, batch) \<leftarrow> pop_batch_unchecked dbg m (lc_shared lc) mx;
       k \<leftarrow> checked_sub (lc_shared_len lc) (batch_len batch);
       n \<leftarrow> checked_sub (lc_total_len lc) (batch_len batch);
       Some (m', lc\<lparr>lc_shared := l, lc_shared_len := k, lc_total_len := n\<rparr>, batch) }
     else (case vec_last (lc_available_slabs lc) of
        Some i \<Rightarrow> do {
          s \<leftarrow> vec_get (lc_slabs lc) i;
          debug_assert dbg (has_available_blocks s);
          (m', s', batch) \<leftarrow> LocalSlab_pop_batch dbg m s mx c;
          debug_assert dbg (batch_len batch \<noteq> 0);
          lc1 \<leftarrow> lc_set_slab lc i s';
          n \<leftarrow> checked_sub (lc_total_len lc1) (batch_len batch);
          let lc2 = lc1\<lparr>lc_total_len := n\<rparr>;
          lc3 \<leftarrow> (if \<not> has_available_blocks s' then mark_slab_unavailable dbg lc2 i else Some lc2);
          Some (m', lc3, batch) }
      | None \<Rightarrow>
        (case lc_hot_block lc of
           Some b \<Rightarrow> do {
             (m1, l) \<leftarrow> push_block m FreeList_new b;
             n \<leftarrow> checked_sub (lc_total_len lc) 1;
             (m2, _, batch) \<leftarrow> pop_batch_unchecked dbg m1 l 1;
             Some (m2, lc\<lparr>lc_hot_block := None, lc_total_len := n\<rparr>, batch) }
         | None \<Rightarrow> do {
             debug_assert dbg (lc_total_len lc = 0);
             Some (m, lc, Batch_empty) })) }"

section \<open>Remote returns\<close>

definition RemoteReturnCache_new :: RemoteReturnCache where
  "RemoteReturnCache_new = \<lparr>rr_pending = FreeList_new, rr_pending_len = 0\<rparr>"

definition rr_push_block :: "heap \<Rightarrow> RemoteReturnCache \<Rightarrow> addr \<Rightarrow> (heap \<times> RemoteReturnCache) run" where
  "rr_push_block m rr b = do {
     (m', l) \<leftarrow> push_block m (rr_pending rr) b;
     n \<leftarrow> checked_add (rr_pending_len rr) 1;
     Some (m', rr\<lparr>rr_pending := l, rr_pending_len := n\<rparr>) }"

definition take_all_unchecked ::
    "bool \<Rightarrow> heap \<Rightarrow> RemoteReturnCache \<Rightarrow> (heap \<times> RemoteReturnCache \<times> Batch) run" where
  "take_all_unchecked dbg m rr = do {
     debug_assert dbg (rr_pending_len rr \<noteq> 0);
     (m', l, batch) \<leftarrow> pop_batch_unchecked dbg m (rr_pending rr) (rr_pending_len rr);
     Some (m', rr\<lparr>rr_pending := l, rr_pending_len := 0\<rparr>, batch) }"

section \<open>The thread cache\<close>

text \<open>\<open>next_id\<close> is the value of \<open>NEXT_CACHE_ID\<close>, which wraps at \<open>2 ^ 32\<close>.\<close>

definition ThreadCache_new :: "AllocatorConfig \<Rightarrow> u32 \<Rightarrow> ThreadCache \<times> u32" where
  "ThreadCache_new cfg next_id =
     (\<lparr>tc_config = cfg, tc_class_config = class_config_table cfg, tc_owner = None,
       tc_cache_id = next_id, tc_classes = replicate NUM_CLASSES LocalClassCache_new,
       tc_remote_returns = replicate NUM_CLASSES RemoteReturnCache_new\<rparr>, next_id + 1)"

definition ThreadCache_is_empty :: "ThreadCache \<Rightarrow> bool" where
  "ThreadCache_is_empty tc \<longleftrightarrow> list_all (\<lambda>lc. lc_total_len lc = 0) (tc_classes tc) \<and>
     list_all (\<lambda>rr. rr_pending_len rr = 0) (tc_remote_returns tc)"

definition reset_for_rebind :: "ThreadCache \<Rightarrow> ThreadCache" where
  "reset_for_rebind tc = tc\<lparr>tc_classes := replicate NUM_CLASSES LocalClassCache_new,
     tc_remote_returns := replicate NUM_CLASSES RemoteReturnCache_new\<rparr>"

text \<open>\<open>bind_to_allocator\<close> reads the id and the configuration of the allocator.\<close>

definition bind_to_allocator :: "ThreadCache \<Rightarrow> usize \<Rightarrow> AllocatorConfig \<Rightarrow> ThreadCache run" where
  "bind_to_allocator tc owner cfg =
     (if tc_owner tc = Some owner then Some tc
      else do {
        assert_that (ThreadCache_is_empty tc);
        Some ((reset_for_rebind tc)\<lparr>tc_config := cfg, tc_class_config := class_config_table cfg,
                tc_owner := Some owner\<rparr>) })"

definition tc_set_class :: "ThreadCache \<Rightarrow> SizeClass \<Rightarrow> LocalClassCache \<Rightarrow> ThreadCache" where
  "tc_set_class tc c lc = tc\<lparr>tc_classes := (tc_classes tc)[index c := lc]\<rparr>"

definition tc_set_remote :: "ThreadCache \<Rightarrow> SizeClass \<Rightarrow> RemoteReturnCache \<Rightarrow> ThreadCache" where
  "tc_set_remote tc c rr = tc\<lparr>tc_remote_returns := (tc_remote_returns tc)[index c := rr]\<rparr>"

definition pop_available_unchecked ::
    "bool \<Rightarrow> heap \<Rightarrow> ThreadCache \<Rightarrow> SizeClass \<Rightarrow> (addr \<times> BlockReuse \<times> ThreadCache) run" where
  "pop_available_unchecked dbg m tc c = do {
     lc \<leftarrow> vec_get (tc_classes tc) (index c);
     (b, reuse, lc') \<leftarrow> lc_pop_block_unchecked dbg m lc;
     Some (b, reuse, tc_set_class tc c lc') }"

definition tc_push :: "bool \<Rightarrow> heap \<Rightarrow> ThreadCache \<Rightarrow> SizeClass \<Rightarrow> addr \<Rightarrow> (heap \<times> ThreadCache) run" where
  "tc_push dbg m tc c b = do {
     lc \<leftarrow> vec_get (tc_classes tc) (index c);
     (m', lc') \<leftarrow> lc_push_block dbg m lc b;
     Some (m', tc_set_class tc c lc') }"

definition push_and_should_drain ::
    "bool \<Rightarrow> heap \<Rightarrow> ThreadCache \<Rightarrow> SizeClass \<Rightarrow> addr \<Rightarrow> (heap \<times> ThreadCache \<times> bool) run" where
  "push_and_should_drain dbg m tc c b = do {
     lc \<leftarrow> vec_get (tc_classes tc) (index c);
     (m', lc') \<leftarrow> lc_push_block dbg m lc b;
     cc \<leftarrow> vec_get (tc_class_config tc) (index c);
     Some (m', tc_set_class tc c lc', lc_total_len lc' > cc_local_limit cc) }"

definition push_remote_return ::
    "heap \<Rightarrow> ThreadCache \<Rightarrow> SizeClass \<Rightarrow> addr \<Rightarrow> (heap \<times> ThreadCache) run" where
  "push_remote_return m tc c b = do {
     rr \<leftarrow> vec_get (tc_remote_returns tc) (index c);
     (m', rr') \<leftarrow> rr_push_block m rr b;
     Some (m', tc_set_remote tc c rr') }"

definition should_flush_remote_returns :: "ThreadCache \<Rightarrow> SizeClass \<Rightarrow> bool run" where
  "should_flush_remote_returns tc c = do {
     rr \<leftarrow> vec_get (tc_remote_returns tc) (index c);
     cc \<leftarrow> vec_get (tc_class_config tc) (index c);
     Some (rr_pending_len rr \<ge> cc_drain_count cc) }"

definition flush_remote_returns_for_class ::
    "bool \<Rightarrow> heap \<Rightarrow> ThreadCache \<Rightarrow> SizeClass \<Rightarrow> CentralPool \<Rightarrow> (heap \<times> ThreadCache \<times> CentralPool \<times> usize) run" where
  "flush_remote_returns_for_class dbg m tc c cp = do {
     rr \<leftarrow> vec_get (tc_remote_returns tc) (index c);
     if rr_pending_len rr = 0 then Some (m, tc, cp, 0)
     else do {
       (m1, rr', batch) \<leftarrow> take_all_unchecked dbg m rr;
       let moved = batch_len batch;
       (m2, cp') \<leftarrow> publish_remote_batch dbg m1 cp c batch;
       Some (m2, tc_set_remote tc c rr', cp', moved) } }"

fun flush_classes ::
    "bool \<Rightarrow> SizeClass list \<Rightarrow> heap \<Rightarrow> ThreadCache \<Rightarrow> CentralPool \<Rightarrow> (heap \<times> ThreadCache \<times> CentralPool) run" where
  "flush_classes dbg [] m tc cp = Some (m, tc, cp)"
| "flush_classes dbg (c # cs) m tc cp = do {
     (m1, tc1, cp1, _) \<leftarrow> flush_remote_returns_for_class dbg m tc c cp;
     flush_classes dbg cs m1 tc1 cp1 }"

definition flush_all_remote_returns ::
    "bool \<Rightarrow> heap \<Rightarrow> ThreadCache \<Rightarrow> CentralPool \<Rightarrow> (heap \<times> ThreadCache \<times> CentralPool) run" where
  "flush_all_remote_returns dbg m tc cp = flush_classes dbg ALL_classes m tc cp"

definition needs_refill :: "ThreadCache \<Rightarrow> SizeClass \<Rightarrow> bool run" where
  "needs_refill tc c = do {
     lc \<leftarrow> vec_get (tc_classes tc) (index c);
     Some (lc_total_len lc = 0) }"

definition refill_from_central ::
    "bool \<Rightarrow> os \<Rightarrow> heap \<Rightarrow> ThreadCache \<Rightarrow> SizeClass \<Rightarrow> CentralPool \<Rightarrow>
     (heap \<times> ThreadCache \<times> CentralPool \<times> usize) run" where
  "refill_from_central dbg sys m tc c cp = do {
     cc \<leftarrow> vec_get (tc_class_config tc) (index c);
     (m1, cp', refill) \<leftarrow> take_refill dbg sys m cp c (cc_refill_count cc);
     lc \<leftarrow> vec_get (tc_classes tc) (index c);
     (case refill of
        Refill_Empty \<Rightarrow> Some (m1, tc, cp', 0)
      | Refill_Batch batch \<Rightarrow> do {
          (m2, lc') \<leftarrow> push_shared_batch dbg m1 lc batch;
          Some (m2, tc_set_class tc c lc', cp', batch_len batch) }
      | Refill_Slab start bs cap \<Rightarrow> do {
          lc' \<leftarrow> lc_push_owned_slab dbg lc start bs cap;
          Some (m1, tc_set_class tc c lc', cp', cap) }) }"

definition should_drain :: "ThreadCache \<Rightarrow> SizeClass \<Rightarrow> bool run" where
  "should_drain tc c = do {
     lc \<leftarrow> vec_get (tc_classes tc) (index c);
     cc \<leftarrow> vec_get (tc_class_config tc) (index c);
     Some (lc_total_len lc > cc_local_limit cc) }"

definition push_owned_slab ::
    "bool \<Rightarrow> ThreadCache \<Rightarrow> SizeClass \<Rightarrow> addr \<Rightarrow> usize \<Rightarrow> usize \<Rightarrow> ThreadCache run" where
  "push_owned_slab dbg tc c start bs cap = do {
     lc \<leftarrow> vec_get (tc_classes tc) (index c);
     lc' \<leftarrow> lc_push_owned_slab dbg lc start bs cap;
     Some (tc_set_class tc c lc') }"

definition drain_excess_to_central ::
    "bool \<Rightarrow> os \<Rightarrow> heap \<Rightarrow> ThreadCache \<Rightarrow> SizeClass \<Rightarrow> CentralPool \<Rightarrow>
     (heap \<times> ThreadCache \<times> CentralPool \<times> usize) run" where
  "drain_excess_to_central dbg sys m tc c cp = do {
     sd \<leftarrow> should_drain tc c;
     debug_assert dbg sd;
     lc \<leftarrow> vec_get (tc_classes tc) (index c);
     cc \<leftarrow> vec_get (tc_class_config tc) (index c);
     (m1, lc', batch) \<leftarrow> lc_pop_batch dbg m lc (cc_drain_count cc) c;
     let moved = batch_len batch;
     (m2, cp') \<leftarrow> return_batch dbg sys m1 cp c batch;
     Some (m2, tc_set_class tc c lc', cp', moved) }"

text \<open>
  The loop that empties one class. It runs until the class reports no blocks; not returning
  is \<open>None\<close>, and that it returns is proved later.
\<close>

partial_function (option) drain_class_loop ::
    "bool \<Rightarrow> os \<Rightarrow> SizeClass \<Rightarrow> heap \<Rightarrow> LocalClassCache \<Rightarrow> CentralPool \<Rightarrow>
     (heap \<times> LocalClassCache \<times> CentralPool) option" where
  "drain_class_loop dbg sys c m lc cp =
     (if lc_total_len lc = 0 then Some (m, lc, cp)
      else Option.bind (lc_pop_batch dbg m lc (lc_total_len lc) c) (\<lambda>(m1, lc1, batch).
           Option.bind (return_batch dbg sys m1 cp c batch) (\<lambda>(m2, cp2).
           drain_class_loop dbg sys c m2 lc1 cp2)))"

fun drain_classes ::
    "bool \<Rightarrow> os \<Rightarrow> SizeClass list \<Rightarrow> heap \<Rightarrow> ThreadCache \<Rightarrow> CentralPool \<Rightarrow> (heap \<times> ThreadCache \<times> CentralPool) run" where
  "drain_classes dbg sys [] m tc cp = Some (m, tc, cp)"
| "drain_classes dbg sys (c # cs) m tc cp = do {
     lc \<leftarrow> vec_get (tc_classes tc) (index c);
     (m1, lc1, cp1) \<leftarrow> drain_class_loop dbg sys c m lc cp;
     drain_classes dbg sys cs m1 (tc_set_class tc c lc1) cp1 }"

definition drain_all_to_central ::
    "bool \<Rightarrow> os \<Rightarrow> heap \<Rightarrow> ThreadCache \<Rightarrow> CentralPool \<Rightarrow> (heap \<times> ThreadCache \<times> CentralPool) run" where
  "drain_all_to_central dbg sys m tc cp = do {
     (m1, tc1, cp1) \<leftarrow> flush_all_remote_returns dbg m tc cp;
     drain_classes dbg sys ALL_classes m1 tc1 cp1 }"

definition ThreadCache_stats :: "ThreadCache \<Rightarrow> ThreadCacheStats run" where
  "ThreadCache_stats tc = do {
     local_counts \<leftarrow> those (map (\<lambda>i. do {
       lc \<leftarrow> vec_get (tc_classes tc) i;
       bytes \<leftarrow> checked_mul (lc_total_len lc) (class_block_size (tc_config tc) (ALL_classes ! i));
       Some \<lparr>stats_class = ALL_classes ! i, stats_blocks = lc_total_len lc, stats_bytes = bytes\<rparr> })
       [0..<NUM_CLASSES]);
     Some \<lparr>is_bound = (tc_owner tc \<noteq> None), local_stats = local_counts\<rparr> }"

end
