(* ===== verification/Large_Object.thy ===== *)
theory Large_Object
  imports Header
begin

text \<open>
  \<^verbatim>\<open>src/src/large_object.rs\<close>: the registry of live large allocations and the pool of
  reusable large blocks.

  The \<open>HashMap\<close> of live records is an association list with distinct keys; the
  \<open>BTreeMap\<close> of free buckets is an association list sorted by its keys, on which
  \<open>btree_push\<close>, \<open>btree_remove\<close>, \<open>btree_insert\<close> and \<open>btree_first_from\<close> are the map
  operations the code uses. The operations run under the registry's mutex, so each is one
  step on the state. The lemmas show that the four counters always equal what they count,
  that a reused block is a best fit, and that no block is lost or duplicated by the pool.
\<close>

section \<open>State\<close>

record LargeObjectStats =
  stat_live_allocations :: usize
  stat_live_bytes :: usize
  stat_free_blocks :: usize
  stat_free_bytes :: usize

record LargeAllocationRecord =
  rec_block_addr :: addr
  rec_block_size :: usize
  rec_requested_size :: usize
  rec_usable_size :: usize

record FreeLargeBlock =
  free_block_addr :: addr
  free_block_size :: usize

definition FreeLargeBlock_usable_size :: "FreeLargeBlock \<Rightarrow> usize run" where
  "FreeLargeBlock_usable_size b = checked_sub (free_block_size b) HEADER_SIZE"

definition FreeLargeBlock_block_start :: "FreeLargeBlock \<Rightarrow> addr run" where
  "FreeLargeBlock_block_start b =
     (if free_block_addr b = 0 then None else Some (free_block_addr b))"

type_synonym free_buckets = "(usize \<times> FreeLargeBlock list) list"

record LargeObjectState =
  live :: "(addr \<times> LargeAllocationRecord) list"
  live_bytes :: usize
  free_map :: free_buckets
  free_blocks :: usize
  free_bytes :: usize

section \<open>Ordered map of free buckets\<close>

fun btree_insert :: "usize \<Rightarrow> 'v \<Rightarrow> (usize \<times> 'v) list \<Rightarrow> (usize \<times> 'v) list" where
  "btree_insert k v [] = [(k, v)]"
| "btree_insert k v ((j, w) # rest) =
     (if k < j then (k, v) # (j, w) # rest
      else if k = j then (k, v) # rest
      else (j, w) # btree_insert k v rest)"

fun btree_remove :: "usize \<Rightarrow> (usize \<times> 'v) list \<Rightarrow> (usize \<times> 'v) list" where
  "btree_remove k [] = []"
| "btree_remove k ((j, w) # rest) = (if k = j then rest else (j, w) # btree_remove k rest)"

definition btree_push :: "usize \<Rightarrow> 'v \<Rightarrow> (usize \<times> 'v list) list \<Rightarrow> (usize \<times> 'v list) list" where
  "btree_push k v t =
     btree_insert k ((case map_of t k of None \<Rightarrow> [] | Some vs \<Rightarrow> vs) @ [v]) t"

definition btree_first_from :: "usize \<Rightarrow> (usize \<times> 'v) list \<Rightarrow> (usize \<times> 'v) option" where
  "btree_first_from lo t = List.find (\<lambda>(k, _). lo \<le> k) t"

section \<open>Operations\<close>

definition LargeObjectState_default :: LargeObjectState where
  "LargeObjectState_default =
     \<lparr>live = [], live_bytes = 0, free_map = [], free_blocks = 0, free_bytes = 0\<rparr>"

definition insert_free_block :: "LargeObjectState \<Rightarrow> FreeLargeBlock \<Rightarrow> LargeObjectState run" where
  "insert_free_block st b = do {
     n \<leftarrow> checked_add (free_blocks st) 1;
     bytes \<leftarrow> checked_add (free_bytes st) (free_block_size b);
     Some (st\<lparr>free_map := btree_push (free_block_size b) b (free_map st),
              free_blocks := n, free_bytes := bytes\<rparr>) }"

definition take_best_fit_block ::
    "bool \<Rightarrow> LargeObjectState \<Rightarrow> usize \<Rightarrow> (LargeObjectState \<times> FreeLargeBlock option) run" where
  "take_best_fit_block dbg st minimum_block_size =
     (case btree_first_from minimum_block_size (free_map st) of
        None \<Rightarrow> Some (st, None)
      | Some (bucket_size, _) \<Rightarrow> do {
          blocks \<leftarrow> map_of (free_map st) bucket_size;
          let rest = btree_remove bucket_size (free_map st);
          block \<leftarrow> vec_last blocks;
          let blocks' = butlast blocks;
          debug_assert dbg (blocks' = [] \<or> map_of rest bucket_size = None);
          let free' = (if blocks' = [] then rest else btree_insert bucket_size blocks' rest);
          n \<leftarrow> checked_sub (free_blocks st) 1;
          bytes \<leftarrow> checked_sub (free_bytes st) (free_block_size block);
          Some (st\<lparr>free_map := free', free_blocks := n, free_bytes := bytes\<rparr>, Some block) })"

definition take_reusable_block ::
    "bool \<Rightarrow> LargeObjectState \<Rightarrow> usize \<Rightarrow> (LargeObjectState \<times> FreeLargeBlock option) run" where
  "take_reusable_block dbg st minimum_block_size = take_best_fit_block dbg st minimum_block_size"

definition LargeObject_stats :: "LargeObjectState \<Rightarrow> LargeObjectStats" where
  "LargeObject_stats st =
     \<lparr>stat_live_allocations = length (live st), stat_live_bytes = live_bytes st,
      stat_free_blocks = free_blocks st, stat_free_bytes = free_bytes st\<rparr>"

definition record_live_allocation ::
    "bool \<Rightarrow> LargeObjectState \<Rightarrow> addr \<Rightarrow> addr \<Rightarrow> usize \<Rightarrow> usize \<Rightarrow> usize \<Rightarrow> LargeObjectState run" where
  "record_live_allocation dbg st user_ptr block_start bsize request usable = do {
     debug_assert dbg (request > 0);
     debug_assert dbg (usable \<ge> request);
     let record = \<lparr>rec_block_addr = block_start, rec_block_size = bsize,
                   rec_requested_size = request, rec_usable_size = usable\<rparr>;
     assert_that (map_of (live st) user_ptr = None);
     bytes \<leftarrow> checked_add (live_bytes st) bsize;
     Some (st\<lparr>live := (user_ptr, record) # live st, live_bytes := bytes\<rparr>) }"

definition validate_and_release_live_allocation ::
    "LargeObjectState \<Rightarrow> addr \<Rightarrow> usize \<Rightarrow> usize \<Rightarrow> (LargeObjectState \<times> (FreeError + unit)) run" where
  "validate_and_release_live_allocation st user_ptr request usable =
     (case map_of (live st) user_ptr of
        None \<Rightarrow> Some (st, Inl AlreadyFreedOrUnknownLarge)
      | Some r \<Rightarrow>
        if rec_requested_size r \<noteq> request \<or> rec_usable_size r \<noteq> usable
        then Some (st, Inl CorruptHeader)
        else do {
          bytes \<leftarrow> checked_sub (live_bytes st) (rec_block_size r);
          st' \<leftarrow> insert_free_block
                   (st\<lparr>live := filter (\<lambda>(k, _). k \<noteq> user_ptr) (live st), live_bytes := bytes\<rparr>)
                   \<lparr>free_block_addr = rec_block_addr r, free_block_size = rec_block_size r\<rparr>;
          Some (st', Inr ()) })"

section \<open>The ordered map\<close>

abbreviation keys :: "(usize \<times> 'v) list \<Rightarrow> usize list" where
  "keys t \<equiv> map fst t"

definition btree_ok :: "(usize \<times> 'v) list \<Rightarrow> bool" where
  "btree_ok t \<longleftrightarrow> sorted_wrt (<) (keys t)"

lemma set_keys_insert [simp]: "set (keys (btree_insert k v t)) = insert k (set (keys t))"
  by (induction k v t rule: btree_insert.induct) auto

lemma btree_ok_insert: "btree_ok t \<Longrightarrow> btree_ok (btree_insert k v t)"
proof (induction k v t rule: btree_insert.induct)
  case (2 k v j w rest)
  have "\<forall>x\<in>set (keys (btree_insert k v rest)). j < x" if "j < k"
    using 2(2) that unfolding set_keys_insert by (auto simp: btree_ok_def)
  with 2 show ?case by (auto simp: btree_ok_def)
qed (simp add: btree_ok_def)

lemma map_of_btree_insert: "map_of (btree_insert k v t) = (map_of t)(k \<mapsto> v)"
  by (induction k v t rule: btree_insert.induct) (auto simp: fun_eq_iff)

lemma set_keys_remove: "btree_ok t \<Longrightarrow> set (keys (btree_remove k t)) = set (keys t) - {k}"
  by (induction k t rule: btree_remove.induct) (auto simp: btree_ok_def)

lemma btree_ok_remove: "btree_ok t \<Longrightarrow> btree_ok (btree_remove k t)"
proof (induction k t rule: btree_remove.induct)
  case (2 k j w rest)
  then have ok: "btree_ok rest" by (simp add: btree_ok_def)
  with 2 show ?case using set_keys_remove [OF ok, of k] by (auto simp: btree_ok_def)
qed simp

lemma map_of_btree_remove: "btree_ok t \<Longrightarrow> map_of (btree_remove k t) = (map_of t)(k := None)"
proof (induction k t rule: btree_remove.induct)
  case (2 k j w rest)
  have "map_of rest j = None" using 2(2) by (auto simp: btree_ok_def map_of_eq_None_iff)
  with 2 show ?case by (auto simp: btree_ok_def fun_eq_iff)
qed simp

lemma btree_first_from_SomeD:
  assumes "btree_ok t" "btree_first_from lo t = Some (k, v)"
  shows "lo \<le> k" "map_of t k = Some v" "\<And>j. j \<in> set (keys t) \<Longrightarrow> lo \<le> j \<Longrightarrow> k \<le> j"
proof -
  have "lo \<le> k \<and> map_of t k = Some v \<and> (\<forall>j\<in>set (keys t). lo \<le> j \<longrightarrow> k \<le> j)"
    using assms
  proof (induction t)
    case (Cons x t)
    show ?case
    proof (cases "lo \<le> fst x")
      case True
      then show ?thesis using Cons.prems by (cases x) (auto simp: btree_ok_def btree_first_from_def)
    next
      case False
      then have "lo \<le> k \<and> map_of t k = Some v \<and> (\<forall>j\<in>set (keys t). lo \<le> j \<longrightarrow> k \<le> j)"
        using Cons by (cases x) (auto simp: btree_ok_def btree_first_from_def)
      then show ?thesis using False by (cases x) auto
    qed
  qed (simp add: btree_first_from_def)
  then show "lo \<le> k" "map_of t k = Some v" "\<And>j. j \<in> set (keys t) \<Longrightarrow> lo \<le> j \<Longrightarrow> k \<le> j"
    by auto
qed

lemma btree_first_from_None:
  "btree_first_from lo t = None \<longleftrightarrow> (\<forall>k\<in>set (keys t). k < lo)"
  by (auto simp: btree_first_from_def find_None_iff not_le)

text \<open>Values of a map whose values are vectors, all together.\<close>

definition btree_values :: "(usize \<times> 'v list) list \<Rightarrow> 'v multiset" where
  "btree_values t = mset (concat (map snd t))"

lemma btree_values_insert:
  assumes "btree_ok t"
  shows "btree_values (btree_insert k vs t) + mset (case map_of t k of None \<Rightarrow> [] | Some ws \<Rightarrow> ws) =
    btree_values t + mset vs"
  using assms
proof (induction k vs t rule: btree_insert.induct)
  case (2 k vs j ws rest)
  have none: "map_of rest k = None" if "k \<le> j"
    using 2(2) that by (auto simp: btree_ok_def map_of_eq_None_iff)
  show ?case
    using 2 none by (auto simp: btree_values_def btree_ok_def ac_simps split: option.splits)
qed (simp add: btree_values_def)

lemma btree_values_remove:
  "map_of t k = Some vs \<Longrightarrow> btree_values (btree_remove k t) + mset vs = btree_values t"
  by (induction k t rule: btree_remove.induct) (auto simp: btree_values_def split: if_splits)

lemma btree_values_push:
  assumes "btree_ok t"
  shows "btree_values (btree_push k v t) = add_mset v (btree_values t)"
proof -
  let ?ws = "case map_of t k of None \<Rightarrow> [] | Some ws \<Rightarrow> ws"
  have "btree_values (btree_push k v t) + mset ?ws = btree_values t + mset (?ws @ [v])"
    unfolding btree_push_def by (rule btree_values_insert [OF assms])
  then have "btree_values (btree_push k v t) + mset ?ws = add_mset v (btree_values t) + mset ?ws"
    by simp
  then show ?thesis by (rule add_right_imp_eq)
qed

section \<open>The registry's invariant\<close>

definition large_free :: "LargeObjectState \<Rightarrow> FreeLargeBlock multiset" where
  "large_free st = btree_values (free_map st)"

definition buckets_ok :: "free_buckets \<Rightarrow> bool" where
  "buckets_ok t \<longleftrightarrow> btree_ok t \<and>
     (\<forall>(k, bs)\<in>set t. bs \<noteq> [] \<and> (\<forall>b\<in>set bs. free_block_size b = k))"

definition large_inv :: "LargeObjectState \<Rightarrow> bool" where
  "large_inv st \<longleftrightarrow> distinct (map fst (live st)) \<and>
     live_bytes st = sum_list (map (rec_block_size \<circ> snd) (live st)) \<and>
     buckets_ok (free_map st) \<and> free_blocks st = size (large_free st) \<and>
     free_bytes st = sum_mset (image_mset free_block_size (large_free st))"

lemma buckets_okD:
  assumes "buckets_ok t" "map_of t k = Some bs"
  shows "bs \<noteq> []" "\<And>b. b \<in> set bs \<Longrightarrow> free_block_size b = k"
  using assms map_of_SomeD [OF assms(2)] by (auto simp: buckets_ok_def)

lemma buckets_ok_member:
  assumes "buckets_ok t" "b \<in># btree_values t"
  shows "free_block_size b \<in> set (keys t)"
proof -
  from assms(2) obtain k bs where "(k, bs) \<in> set t" "b \<in> set bs"
    by (auto simp: btree_values_def)
  with assms(1) show ?thesis by (force simp: buckets_ok_def)
qed

lemma buckets_ok_insert:
  assumes "buckets_ok t" "bs \<noteq> []" "\<And>b. b \<in> set bs \<Longrightarrow> free_block_size b = k"
  shows "buckets_ok (btree_insert k bs t)"
proof -
  have "set (btree_insert k bs t) \<subseteq> insert (k, bs) (set t)"
    by (induction k bs t rule: btree_insert.induct) auto
  then show ?thesis using assms by (fastforce simp: buckets_ok_def btree_ok_insert)
qed

lemma buckets_ok_remove: "buckets_ok t \<Longrightarrow> buckets_ok (btree_remove k t)"
proof -
  have "set (btree_remove k t) \<subseteq> set t"
    by (induction k t rule: btree_remove.induct) auto
  then show "buckets_ok t \<Longrightarrow> buckets_ok (btree_remove k t)"
    by (fastforce simp: buckets_ok_def btree_ok_remove)
qed

lemma buckets_ok_push:
  assumes "buckets_ok t"
  shows "buckets_ok (btree_push (free_block_size b) b t)"
  unfolding btree_push_def using assms
  by (cases "map_of t (free_block_size b)"; intro buckets_ok_insert)
    (auto dest: buckets_okD [OF assms])

lemma insert_free_block_spec:
  assumes inv: "large_inv st" and fit: "free_blocks st < usize_max"
    "free_bytes st + free_block_size b \<le> usize_max"
  obtains st' where "insert_free_block st b = Some st'" "large_inv st'" "live st' = live st"
    "live_bytes st' = live_bytes st" "large_free st' = add_mset b (large_free st)"
proof -
  let ?st = "st\<lparr>free_map := btree_push (free_block_size b) b (free_map st),
      free_blocks := free_blocks st + 1, free_bytes := free_bytes st + free_block_size b\<rparr>"
  have ok: "buckets_ok (free_map st)" "btree_ok (free_map st)"
    using inv by (auto simp: large_inv_def buckets_ok_def)
  have free: "large_free ?st = add_mset b (large_free st)"
    by (simp add: large_free_def btree_values_push [OF ok(2)])
  have "large_inv ?st"
    using inv free buckets_ok_push [OF ok(1)] by (simp add: large_inv_def)
  moreover have "insert_free_block st b = Some ?st"
    using fit by (simp add: insert_free_block_def checked_add_def)
  ultimately show ?thesis using that [of ?st] free by simp
qed

lemma take_best_fit_block_spec:
  assumes inv: "large_inv st"
  obtains st' r where "take_best_fit_block dbg st lo = Some (st', r)" "large_inv st'"
    "live st' = live st" "live_bytes st' = live_bytes st"
    "case r of None \<Rightarrow> st' = st \<and> (\<forall>b. b \<in># large_free st \<longrightarrow> free_block_size b < lo)
     | Some b \<Rightarrow> large_free st = add_mset b (large_free st') \<and> lo \<le> free_block_size b \<and>
        (\<forall>c. c \<in># large_free st \<longrightarrow> lo \<le> free_block_size c \<longrightarrow> free_block_size b \<le> free_block_size c)"
proof -
  let ?t = "free_map st"
  have ok: "buckets_ok ?t" "btree_ok ?t" using inv by (auto simp: large_inv_def buckets_ok_def)
  have counts: "free_blocks st = size (large_free st)"
    "free_bytes st = sum_mset (image_mset free_block_size (large_free st))"
    using inv by (auto simp: large_inv_def)
  show ?thesis
  proof (cases "btree_first_from lo ?t")
    case None
    then have "free_block_size b < lo" if "b \<in># large_free st" for b
      using buckets_ok_member [OF ok(1), of b] that
      unfolding btree_first_from_None by (auto simp: large_free_def)
    then show ?thesis
      using that [of st None] None inv by (simp add: take_best_fit_block_def)
  next
    case (Some kv)
    obtain k bs where kv: "kv = (k, bs)" by force
    note first = btree_first_from_SomeD [OF ok(2) Some [unfolded kv]]
    note bs = buckets_okD [OF ok(1) first(2)]
    let ?b = "last bs" and ?rest = "btree_remove k ?t"
    let ?t' = "if butlast bs = [] then ?rest else btree_insert k (butlast bs) ?rest"
    have bsz: "free_block_size ?b = k" using bs by simp
    have gone: "map_of ?rest k = None" by (simp add: map_of_btree_remove [OF ok(2)])
    have ok': "buckets_ok ?t'"
      using buckets_ok_remove [OF ok(1)] bs by (auto intro!: buckets_ok_insert dest: in_set_butlastD)
    have "btree_values ?t' = btree_values ?rest + mset (butlast bs)"
      using btree_values_insert [OF btree_ok_remove [OF ok(2)], of k "butlast bs" k] gone by simp
    moreover have "mset bs = add_mset ?b (mset (butlast bs))"
      using bs(1) by (cases bs rule: rev_cases) auto
    ultimately have vals: "btree_values ?t = add_mset ?b (btree_values ?t')"
      using btree_values_remove [OF first(2)] by simp
    let ?st = "st\<lparr>free_map := ?t', free_blocks := free_blocks st - 1, free_bytes := free_bytes st - k\<rparr>"
    define F where "F = btree_values ?t'"
    have free: "large_free st = add_mset ?b F" and free': "large_free ?st = F"
      using vals by (simp_all add: large_free_def F_def)
    have n: "free_blocks st = Suc (size F)"
      and bytes: "free_bytes st = k + sum_mset (image_mset free_block_size F)"
      using counts bsz unfolding free by simp_all
    have "distinct (map fst (live st))"
      "live_bytes st = sum_list (map (rec_block_size \<circ> snd) (live st))"
      using inv by (simp_all add: large_inv_def)
    then have inv': "large_inv ?st"
      using ok' n bytes unfolding large_inv_def free' by simp
    have "take_best_fit_block dbg st lo = Some (?st, Some ?b)"
      using Some kv first(2) bs(1) gone n bytes bsz
      by (simp add: take_best_fit_block_def vec_last_def checked_sub_def Let_def)
    moreover have "free_block_size ?b \<le> free_block_size c"
      if "c \<in># large_free st" "lo \<le> free_block_size c" for c
      using first(3) buckets_ok_member [OF ok(1), of c] that bsz by (simp add: large_free_def)
    ultimately show ?thesis
      using that [of ?st "Some ?b"] inv' free free' bsz first(1) by simp
  qed
qed

lemma record_live_allocation_spec:
  assumes inv: "large_inv st" and fresh: "map_of (live st) user_ptr = None"
    and sizes: "0 < request" "request \<le> usable" and fit: "live_bytes st + bsize \<le> usize_max"
  obtains st' where
    "record_live_allocation dbg st user_ptr block_start bsize request usable = Some st'"
    "large_inv st'" "large_free st' = large_free st" "live_bytes st' = live_bytes st + bsize"
    "live st' = (user_ptr, \<lparr>rec_block_addr = block_start, rec_block_size = bsize,
        rec_requested_size = request, rec_usable_size = usable\<rparr>) # live st"
proof -
  let ?r = "\<lparr>rec_block_addr = block_start, rec_block_size = bsize,
      rec_requested_size = request, rec_usable_size = usable\<rparr>"
  let ?st = "st\<lparr>live := (user_ptr, ?r) # live st, live_bytes := live_bytes st + bsize\<rparr>"
  have "large_inv ?st"
    using inv fresh by (auto simp: large_inv_def large_free_def map_of_eq_None_iff)
  moreover have "record_live_allocation dbg st user_ptr block_start bsize request usable = Some ?st"
    using fresh sizes fit by (simp add: record_live_allocation_def checked_add_def)
  ultimately show ?thesis using that [of ?st] by (simp add: large_free_def)
qed

lemma sum_image_mset: "sum_mset (image_mset f (mset xs)) = sum_list (map f xs)"
  by (induction xs) auto

lemma live_remove:
  assumes "distinct (map fst xs)" "map_of xs k = Some r"
  shows "mset xs = add_mset (k, r) (mset (filter (\<lambda>(j, _). j \<noteq> k) xs))"
  using assms
proof (induction xs)
  case (Cons x xs)
  show ?case
  proof (cases "fst x = k")
    case True
    then have "filter (\<lambda>(j, _). j \<noteq> k) xs = xs"
      using Cons.prems(1) by (intro filter_True) (force simp: image_iff)
    then show ?thesis using True Cons.prems(2) by (cases x) auto
  next
    case False
    then show ?thesis using Cons by (cases x) auto
  qed
qed simp

lemma release_spec:
  assumes inv: "large_inv st" and r: "map_of (live st) user_ptr = Some r"
    and sizes: "rec_requested_size r = request" "rec_usable_size r = usable"
    and fit: "free_blocks st < usize_max" "free_bytes st + rec_block_size r \<le> usize_max"
  obtains st' where
    "validate_and_release_live_allocation st user_ptr request usable = Some (st', Inr ())"
    "large_inv st'" "live st' = filter (\<lambda>(k, _). k \<noteq> user_ptr) (live st)"
    "live_bytes st' + rec_block_size r = live_bytes st"
    "large_free st' = add_mset \<lparr>free_block_addr = rec_block_addr r, free_block_size = rec_block_size r\<rparr>
       (large_free st)"
proof -
  let ?live = "filter (\<lambda>(k, _). k \<noteq> user_ptr) (live st)"
  let ?b = "\<lparr>free_block_addr = rec_block_addr r, free_block_size = rec_block_size r\<rparr>"
  have dist: "distinct (map fst (live st))" using inv by (simp add: large_inv_def)
  have m: "mset (live st) = add_mset (user_ptr, r) (mset ?live)" by (rule live_remove [OF dist r])
  have "sum_mset (image_mset (rec_block_size \<circ> snd) (mset (live st))) =
      rec_block_size r + sum_mset (image_mset (rec_block_size \<circ> snd) (mset ?live))"
    using arg_cong [OF m, of "\<lambda>M. sum_mset (image_mset (rec_block_size \<circ> snd) M)"]
    by (simp del: mset_filter)
  then have bytes: "live_bytes st = rec_block_size r + sum_list (map (rec_block_size \<circ> snd) ?live)"
    using inv unfolding sum_image_mset large_inv_def by simp
  let ?st = "st\<lparr>live := ?live, live_bytes := live_bytes st - rec_block_size r\<rparr>"
  have inv1: "large_inv ?st"
    using inv bytes dist by (auto simp: large_inv_def large_free_def distinct_map_filter)
  have "free_blocks ?st < usize_max" "free_bytes ?st + free_block_size ?b \<le> usize_max" using fit by simp_all
  from insert_free_block_spec [OF inv1 this]
  obtain st' where st': "insert_free_block ?st ?b = Some st'" "large_inv st'" "live st' = live ?st"
    "live_bytes st' = live_bytes ?st" "large_free st' = add_mset ?b (large_free ?st)" by blast
  have "validate_and_release_live_allocation st user_ptr request usable = Some (st', Inr ())"
    using r sizes bytes st'(1) by (simp add: validate_and_release_live_allocation_def checked_sub_def)
  then show ?thesis using that st' bytes by (simp add: large_free_def)
qed

section \<open>Properties\<close>

text \<open>C30. Taking a reusable block never panics, keeps the registry consistent, and returns a best
  fit: a pooled block that is large enough and no larger than any other pooled block that is
  large enough. It answers \<open>None\<close> only if no pooled block is large enough.\<close>

theorem take_reusable_block_best_fit:
  assumes "large_inv st"
  shows "\<exists>st' r. take_reusable_block dbg st lo = Some (st', r) \<and> large_inv st' \<and> live st' = live st \<and>
    (case r of None \<Rightarrow> st' = st \<and> (\<forall>b. b \<in># large_free st \<longrightarrow> free_block_size b < lo)
     | Some b \<Rightarrow> large_free st = add_mset b (large_free st') \<and> lo \<le> free_block_size b \<and>
        (\<forall>c. c \<in># large_free st \<longrightarrow> lo \<le> free_block_size c \<longrightarrow>
           free_block_size b \<le> free_block_size c))"
proof -
  from take_best_fit_block_spec [OF assms, of dbg lo] obtain st' r where
    "take_best_fit_block dbg st lo = Some (st', r)" "large_inv st'" "live st' = live st"
    "case r of None \<Rightarrow> st' = st \<and> (\<forall>b. b \<in># large_free st \<longrightarrow> free_block_size b < lo)
     | Some b \<Rightarrow> large_free st = add_mset b (large_free st') \<and> lo \<le> free_block_size b \<and>
        (\<forall>c. c \<in># large_free st \<longrightarrow> lo \<le> free_block_size c \<longrightarrow>
           free_block_size b \<le> free_block_size c)" .
  then show ?thesis unfolding take_reusable_block_def by blast
qed

theorem take_reusable_block_best_fit_witness:
  "\<exists>st b st'. large_inv st \<and> take_reusable_block True st 150 = Some (st', Some b) \<and>
    free_block_size b = 200 \<and> large_inv st'"
proof -
  define st where "st = LargeObjectState_default\<lparr>
    free_map := [(100, [\<lparr>free_block_addr = 64, free_block_size = 100\<rparr>]),
      (200, [\<lparr>free_block_addr = 256, free_block_size = 200\<rparr>]),
      (300, [\<lparr>free_block_addr = 512, free_block_size = 300\<rparr>])],
    free_blocks := 3, free_bytes := 600\<rparr>"
  have inv: "large_inv st"
    by (simp add: st_def large_inv_def LargeObjectState_default_def buckets_ok_def btree_ok_def
        large_free_def btree_values_def)
  have run: "take_reusable_block True st 150 =
    Some (st\<lparr>free_map := [(100, [\<lparr>free_block_addr = 64, free_block_size = 100\<rparr>]),
      (300, [\<lparr>free_block_addr = 512, free_block_size = 300\<rparr>])],
      free_blocks := 2, free_bytes := 400\<rparr>, Some \<lparr>free_block_addr = 256, free_block_size = 200\<rparr>)"
    by (simp add: st_def take_reusable_block_def take_best_fit_block_def btree_first_from_def
        vec_last_def checked_sub_def LargeObjectState_default_def)
  from take_reusable_block_best_fit [OF inv, of True 150] show ?thesis
    using inv run by auto
qed

text \<open>C31. Releasing a live large allocation removes exactly that record, adds its block to the pool
  and keeps all counters equal to what they count. A pointer that is not live is reported as
  freed or unknown and a header that disagrees with the record as corrupt, and then the
  registry is unchanged; so a second release of the same pointer always fails.\<close>

theorem release_live_allocation_correct:
  assumes inv: "large_inv st"
    and fit: "free_blocks st < usize_max" "free_bytes st + live_bytes st \<le> usize_max"
  shows "case map_of (live st) user_ptr of
      None \<Rightarrow> validate_and_release_live_allocation st user_ptr request usable =
        Some (st, Inl AlreadyFreedOrUnknownLarge)
    | Some r \<Rightarrow>
        if rec_requested_size r = request \<and> rec_usable_size r = usable
        then \<exists>st'. validate_and_release_live_allocation st user_ptr request usable = Some (st', Inr ()) \<and>
          large_inv st' \<and> mset (live st) = add_mset (user_ptr, r) (mset (live st')) \<and>
          large_free st' = add_mset
            \<lparr>free_block_addr = rec_block_addr r, free_block_size = rec_block_size r\<rparr> (large_free st) \<and>
          validate_and_release_live_allocation st' user_ptr request usable =
            Some (st', Inl AlreadyFreedOrUnknownLarge)
        else validate_and_release_live_allocation st user_ptr request usable =
          Some (st, Inl CorruptHeader)"
proof (cases "map_of (live st) user_ptr")
  case None
  then show ?thesis by (simp add: validate_and_release_live_allocation_def)
next
  case (Some r)
  show ?thesis
  proof (cases "rec_requested_size r = request \<and> rec_usable_size r = usable")
    case True
    have "rec_block_size r \<in> set (map (rec_block_size \<circ> snd) (live st))"
      using map_of_SomeD [OF Some] by force
    then have "rec_block_size r \<le> live_bytes st"
      using inv member_le_sum_list unfolding large_inv_def by fastforce
    then have "free_bytes st + rec_block_size r \<le> usize_max" using fit(2) by simp
    from release_spec [OF inv Some _ _ fit(1) this] True
    obtain st' where st': "validate_and_release_live_allocation st user_ptr request usable = Some (st', Inr ())"
      "large_inv st'" "live st' = filter (\<lambda>(k, _). k \<noteq> user_ptr) (live st)"
      "large_free st' = add_mset
         \<lparr>free_block_addr = rec_block_addr r, free_block_size = rec_block_size r\<rparr> (large_free st)"
      by metis
    have "map_of (live st') user_ptr = None" unfolding st'(3) by (auto simp: map_of_eq_None_iff)
    then have "validate_and_release_live_allocation st' user_ptr request usable =
        Some (st', Inl AlreadyFreedOrUnknownLarge)"
      by (simp add: validate_and_release_live_allocation_def)
    moreover have "mset (live st) = add_mset (user_ptr, r) (mset (live st'))"
      using live_remove [OF _ Some] inv unfolding st'(3) large_inv_def by blast
    ultimately show ?thesis using st' Some True by auto
  next
    case False
    with Some show ?thesis by (auto simp: validate_and_release_live_allocation_def)
  qed
qed

theorem release_live_allocation_correct_witness:
  "\<exists>st st'. large_inv st \<and> validate_and_release_live_allocation st 128 5000 8000 = Some (st', Inr ()) \<and>
    validate_and_release_live_allocation st' 128 5000 8000 = Some (st', Inl AlreadyFreedOrUnknownLarge)"
proof -
  define st where "st = LargeObjectState_default\<lparr>live := [(128, \<lparr>rec_block_addr = 64,
    rec_block_size = 8064, rec_requested_size = 5000, rec_usable_size = 8000\<rparr>)], live_bytes := 8064\<rparr>"
  have inv: "large_inv st"
    by (simp add: st_def large_inv_def LargeObjectState_default_def buckets_ok_def btree_ok_def
        large_free_def btree_values_def)
  have fit: "free_blocks st < usize_max" "free_bytes st + live_bytes st \<le> usize_max"
    by (simp_all add: st_def LargeObjectState_default_def usize_max_def)
  have look: "map_of (live st) 128 = Some \<lparr>rec_block_addr = 64, rec_block_size = 8064,
    rec_requested_size = 5000, rec_usable_size = 8000\<rparr>" by (simp add: st_def)
  from release_live_allocation_correct [OF inv fit, of 128 5000 8000] look inv show ?thesis by auto
qed

end
