(* ===== verification/Allocator.thy ===== *)
theory Allocator
  imports Thread_Cache Large_Object
begin

text \<open>
  \<^verbatim>\<open>src/src/allocator.rs\<close>: the allocator that joins arena, central pool, large-object
  registry and the caller's thread cache, with its allocation and deallocation entry
  points, and the owning handle of a thread cache from \<^verbatim>\<open>src/src/thread_cache.rs\<close>.

  Every operation takes the memory, the shared allocator and the calling thread's cache and
  returns them updated together with the Rust result. The counter \<open>NEXT_ALLOCATOR_ID\<close> is
  an argument and a result of \<open>Allocator_new\<close>.
\<close>

section \<open>State and construction\<close>

record Allocator =
  al_id :: usize
  al_config :: AllocatorConfig
  al_arena :: Arena
  al_central :: CentralPool
  al_large :: LargeObjectState

definition validate_allocator_config :: "AllocatorConfig \<Rightarrow> InitError + unit" where
  "validate_allocator_config cfg =
     (if alignment cfg < HEADER_ALIGNMENT
      then Inl (InvalidConfig ''allocator alignment must be at least 64 bytes'')
      else Inr ())"

definition Allocator_new :: "os \<Rightarrow> AllocatorConfig \<Rightarrow> usize \<Rightarrow> (InitError + Allocator) \<times> usize" where
  "Allocator_new sys cfg next_id =
     (case validate_allocator_config cfg of
        Inl e \<Rightarrow> (Inl e, next_id)
      | Inr _ \<Rightarrow>
        (case Arena_new sys cfg of
           Inl e \<Rightarrow> (Inl e, next_id)
         | Inr arena \<Rightarrow>
           (Inr \<lparr>al_id = next_id, al_config = cfg, al_arena = arena, al_central = CentralPool_new,
                 al_large = LargeObjectState_default\<rparr>, wrapping_add next_id 1)))"

definition align_up_checked :: "usize \<Rightarrow> usize \<Rightarrow> usize option" where
  "align_up_checked v al =
     (let remainder = v mod al
      in if remainder = 0 then Some v else checked_add v (al - remainder))"

interpretation alloc_al: aligner align_up_checked
  by unfold_locales (simp add: align_up_checked_def Let_def)

text \<open>The closure that replaces the size in an arena error by the caller's request.\<close>

definition with_request :: "usize \<Rightarrow> AllocError \<Rightarrow> AllocError" where
  "with_request n e = (case e of OutOfMemory _ rem \<Rightarrow> OutOfMemory n rem | other \<Rightarrow> other)"

definition out_of_memory :: "Allocator \<Rightarrow> usize \<Rightarrow> AllocError" where
  "out_of_memory al n = OutOfMemory n (arena_remaining_bytes (al_arena al))"

section \<open>Allocation\<close>

definition refill_cache_from_arena ::
    "bool \<Rightarrow> os \<Rightarrow> heap \<Rightarrow> Allocator \<Rightarrow> ThreadCache \<Rightarrow> SizeClass \<Rightarrow> usize \<Rightarrow>
     (heap \<times> Allocator \<times> ThreadCache \<times> (AllocError + usize)) run" where
  "refill_cache_from_arena dbg sys m al tc c request =
     (let bs = block_size_for_alignment c (alignment (al_config al));
          target = refill_count (al_config al) c
      in case reserve_block_span (al_arena al) bs target of
          Inl e \<Rightarrow> Some (m, al, tc, Inl (with_request request e))
        | Inr None \<Rightarrow> Some (m, al, tc, Inl (out_of_memory al request))
        | Inr (Some (arena, span)) \<Rightarrow> do {
            let carved = span_size span div bs;
            (m1, central) \<leftarrow> register_slab dbg sys m (al_central al) c (span_start span) bs carved;
            tc1 \<leftarrow> push_owned_slab dbg tc c (span_start span) bs carved;
            Some (m1, al\<lparr>al_arena := arena, al_central := central\<rparr>, tc1, Inr carved) })"

text \<open>The refill step of \<open>allocate_small_with_cache\<close>: \<open>Inr ()\<close> when a block is available.\<close>

definition ensure_available ::
    "bool \<Rightarrow> os \<Rightarrow> heap \<Rightarrow> Allocator \<Rightarrow> ThreadCache \<Rightarrow> SizeClass \<Rightarrow> usize \<Rightarrow>
     (heap \<times> Allocator \<times> ThreadCache \<times> (AllocError + unit)) run" where
  "ensure_available dbg sys m al tc c request = do {
     need \<leftarrow> needs_refill tc c;
     if \<not> need then Some (m, al, tc, Inr ())
     else do {
       (m1, tc1, central, moved) \<leftarrow> refill_from_central dbg sys m tc c (al_central al);
       let al1 = al\<lparr>al_central := central\<rparr>;
       if moved \<noteq> 0 then Some (m1, al1, tc1, Inr ())
       else do {
         (m2, al2, tc2, r) \<leftarrow> refill_cache_from_arena dbg sys m1 al1 tc1 c request;
         Some (m2, al2, tc2,
           (case r of Inl e \<Rightarrow> Inl e
            | Inr carved \<Rightarrow> if carved = 0 then Inl (out_of_memory al2 request) else Inr ())) } } }"

text \<open>The header update of \<open>allocate_small_with_cache\<close>, by the way the block is reused.\<close>

definition prepare_header ::
    "bool \<Rightarrow> heap \<Rightarrow> addr \<Rightarrow> BlockReuse \<Rightarrow> SizeClass \<Rightarrow> usize \<Rightarrow> u32 \<Rightarrow> heap run" where
  "prepare_header dbg m b reuse c request ow =
     (case reuse of
        HotReuseRequestedOnly \<Rightarrow> refresh_small_requested_size_unchecked dbg m b request
      | NeedsOwnerAndRequestedSizeRefresh \<Rightarrow>
          refresh_small_requested_size_and_owner_unchecked dbg m b request ow
      | NeedsHeaderRewrite \<Rightarrow> write_small_to_block_unchecked dbg m b c request ow)"

definition allocate_small_with_cache ::
    "bool \<Rightarrow> os \<Rightarrow> heap \<Rightarrow> Allocator \<Rightarrow> ThreadCache \<Rightarrow> SizeClass \<Rightarrow> usize \<Rightarrow>
     (heap \<times> Allocator \<times> ThreadCache \<times> (AllocError + addr)) run" where
  "allocate_small_with_cache dbg sys m al tc c request = do {
     (m1, al1, tc1, r) \<leftarrow> ensure_available dbg sys m al tc c request;
     (case r of
        Inl e \<Rightarrow> Some (m1, al1, tc1, Inl e)
      | Inr _ \<Rightarrow> do {
          (b, reuse, tc2) \<leftarrow> pop_available_unchecked dbg m1 tc1 c;
          let m2 = clear_small_free_metadata dbg m1 b;
          m3 \<leftarrow> prepare_header dbg m2 b reuse c request (tc_cache_id tc2);
          Some (m3, al1, tc2, Inr (user_ptr_from_block_start b)) }) }"

text \<open>
  The block of a large allocation: a free large block that fits, or new arena space.
  The result is the block start, its size and its usable size.
\<close>

definition large_block ::
    "bool \<Rightarrow> Allocator \<Rightarrow> usize \<Rightarrow> usize \<Rightarrow> usize \<Rightarrow> (Allocator \<times> (AllocError + addr \<times> usize \<times> usize)) run" where
  "large_block dbg al request bs usable = do {
     (large, reused) \<leftarrow> take_reusable_block dbg (al_large al) bs;
     (case reused of
        Some block \<Rightarrow> do {
          b \<leftarrow> FreeLargeBlock_block_start block;
          u \<leftarrow> FreeLargeBlock_usable_size block;
          Some (al\<lparr>al_large := large\<rparr>, Inr (b, free_block_size block, u)) }
      | None \<Rightarrow>
        (case allocate_block (al_arena al) bs of
           Inl e \<Rightarrow> Some (al\<lparr>al_large := large\<rparr>, Inl (with_request request e))
         | Inr (arena, b) \<Rightarrow> Some (al\<lparr>al_large := large, al_arena := arena\<rparr>, Inr (b, bs, usable)))) }"

definition allocate_large ::
    "bool \<Rightarrow> heap \<Rightarrow> Allocator \<Rightarrow> usize \<Rightarrow> (heap \<times> Allocator \<times> (AllocError + addr)) run" where
  "allocate_large dbg m al request =
     (case checked_add HEADER_SIZE request of
        None \<Rightarrow> Some (m, al, Inl (out_of_memory al request))
      | Some total_size \<Rightarrow>
        (case align_up_checked total_size (alignment (al_config al)) of
           None \<Rightarrow> Some (m, al, Inl (out_of_memory al request))
         | Some bs \<Rightarrow>
           (case checked_sub bs HEADER_SIZE of
              None \<Rightarrow> Some (m, al, Inl (out_of_memory al request))
            | Some usable \<Rightarrow> do {
                (al1, r) \<leftarrow> large_block dbg al request bs usable;
                (case r of
                   Inl e \<Rightarrow> Some (m, al1, Inl e)
                 | Inr (b, actual, usable') \<Rightarrow> do {
                     w \<leftarrow> write_large_to_block dbg m b request usable';
                     (case w of
                        None \<Rightarrow> Some (m, al1, Inl (out_of_memory al1 request))
                      | Some (m1, _) \<Rightarrow> do {
                          let user = user_ptr_from_block_start b;
                          large \<leftarrow> record_live_allocation dbg (al_large al1) user b actual request usable';
                          Some (m1, al1\<lparr>al_large := large\<rparr>, Inr user) }) }) })))"

definition allocate_with_cache ::
    "bool \<Rightarrow> os \<Rightarrow> heap \<Rightarrow> Allocator \<Rightarrow> ThreadCache \<Rightarrow> usize \<Rightarrow>
     (heap \<times> Allocator \<times> ThreadCache \<times> (AllocError + addr)) run" where
  "allocate_with_cache dbg sys m al tc request = do {
     tc0 \<leftarrow> bind_to_allocator tc (al_id al) (al_config al);
     if request = 0 then Some (m, al, tc0, Inl ZeroSize)
     else (case from_request request of
         None \<Rightarrow> do {
           (m1, al1, r) \<leftarrow> allocate_large dbg m al request;
           Some (m1, al1, tc0, r) }
       | Some c \<Rightarrow> allocate_small_with_cache dbg sys m al tc0 c request) }"

section \<open>Deallocation\<close>

definition decode_header :: "heap \<Rightarrow> addr \<Rightarrow> (FreeError + AllocationHeader \<times> AllocationKind) run" where
  "decode_header m user_ptr =
     (case checked_sub user_ptr HEADER_SIZE of
        None \<Rightarrow> Some (Inl CorruptHeader)
      | Some header_addr \<Rightarrow>
        if \<not> is_multiple_of header_addr HEADER_ALIGNMENT then Some (Inl CorruptHeader)
        else read_from_user_ptr m user_ptr)"

definition validate_expected_size :: "AllocationHeader \<Rightarrow> usize \<Rightarrow> FreeError + unit" where
  "validate_expected_size h expected =
     (let rec_size = header_requested_size h
      in if expected \<noteq> rec_size then Inl (SizeMismatch expected rec_size) else Inr ())"

definition validate_small_block_for_free ::
    "bool \<Rightarrow> heap \<Rightarrow> Allocator \<Rightarrow> addr \<Rightarrow> (FreeError + addr) run" where
  "validate_small_block_for_free dbg m al user_ptr = do {
     let b = block_start_from_user_ptr user_ptr;
     owned \<leftarrow> contains_block_start (al_arena al) b;
     Some (if \<not> owned then Inl ForeignPointer
           else if small_block_is_marked_freed dbg m b then Inl DoubleFree
           else Inr b) }"

definition route_small_freed_block ::
    "bool \<Rightarrow> os \<Rightarrow> heap \<Rightarrow> Allocator \<Rightarrow> ThreadCache \<Rightarrow> SizeClass \<Rightarrow> addr \<Rightarrow> u32 \<Rightarrow>
     (heap \<times> Allocator \<times> ThreadCache) run" where
  "route_small_freed_block dbg sys m al tc c b ow =
     (if ow = tc_cache_id tc
      then do {
        (m1, tc1, drain) \<leftarrow> push_and_should_drain dbg m tc c b;
        if drain
        then do {
          (m2, tc2, central, _) \<leftarrow> drain_excess_to_central dbg sys m1 tc1 c (al_central al);
          Some (m2, al\<lparr>al_central := central\<rparr>, tc2) }
        else Some (m1, al, tc1) }
      else do {
        (m1, tc1) \<leftarrow> push_remote_return m tc c b;
        flush \<leftarrow> should_flush_remote_returns tc1 c;
        if flush
        then do {
          (m2, tc2, central, _) \<leftarrow> flush_remote_returns_for_class dbg m1 tc1 c (al_central al);
          Some (m2, al\<lparr>al_central := central\<rparr>, tc2) }
        else Some (m1, al, tc1) })"

definition finish_small_free ::
    "bool \<Rightarrow> os \<Rightarrow> heap \<Rightarrow> Allocator \<Rightarrow> ThreadCache \<Rightarrow> SizeClass \<Rightarrow> addr \<Rightarrow> AllocationHeader \<Rightarrow>
     (heap \<times> Allocator \<times> ThreadCache) run" where
  "finish_small_free dbg sys m al tc c b h = do {
     let m1 = mark_small_block_freed dbg m b;
     ow \<leftarrow> small_owner_cache_id_after_kind_decode dbg h;
     route_small_freed_block dbg sys m1 al tc c b ow }"

definition release_large ::
    "Allocator \<Rightarrow> addr \<Rightarrow> AllocationHeader \<Rightarrow> (Allocator \<times> (FreeError + unit)) run" where
  "release_large al user_ptr h = do {
     (large, r) \<leftarrow> validate_and_release_live_allocation (al_large al) user_ptr
                     (header_requested_size h) (header_usable_size h);
     Some (al\<lparr>al_large := large\<rparr>, r) }"

definition deallocate_decoded ::
    "bool \<Rightarrow> os \<Rightarrow> heap \<Rightarrow> Allocator \<Rightarrow> ThreadCache \<Rightarrow> addr \<Rightarrow> AllocationHeader \<Rightarrow> AllocationKind \<Rightarrow>
     (heap \<times> Allocator \<times> ThreadCache \<times> (FreeError + unit)) run" where
  "deallocate_decoded dbg sys m al tc user_ptr h k =
     (case k of
        Small c \<Rightarrow> do {
          v \<leftarrow> validate_small_block_for_free dbg m al user_ptr;
          (case v of
             Inl e \<Rightarrow> Some (m, al, tc, Inl e)
           | Inr b \<Rightarrow> do {
               (m1, al1, tc1) \<leftarrow> finish_small_free dbg sys m al tc c b h;
               Some (m1, al1, tc1, Inr ()) }) }
      | Large \<Rightarrow> do {
          (al1, r) \<leftarrow> release_large al user_ptr h;
          Some (m, al1, tc, r) })"

definition deallocate_decoded_with_expected_size ::
    "bool \<Rightarrow> os \<Rightarrow> heap \<Rightarrow> Allocator \<Rightarrow> ThreadCache \<Rightarrow> addr \<Rightarrow> AllocationHeader \<Rightarrow> AllocationKind \<Rightarrow> usize \<Rightarrow>
     (heap \<times> Allocator \<times> ThreadCache \<times> (FreeError + unit)) run" where
  "deallocate_decoded_with_expected_size dbg sys m al tc user_ptr h k expected =
     (case k of
        Small c \<Rightarrow> do {
          v \<leftarrow> validate_small_block_for_free dbg m al user_ptr;
          (case v of
             Inl e \<Rightarrow> Some (m, al, tc, Inl e)
           | Inr b \<Rightarrow>
             (case validate_expected_size h expected of
                Inl e \<Rightarrow> Some (m, al, tc, Inl e)
              | Inr _ \<Rightarrow> do {
                  (m1, al1, tc1) \<leftarrow> finish_small_free dbg sys m al tc c b h;
                  Some (m1, al1, tc1, Inr ()) })) }
      | Large \<Rightarrow>
        (case validate_expected_size h expected of
           Inl e \<Rightarrow> Some (m, al, tc, Inl e)
         | Inr _ \<Rightarrow> do {
             (al1, r) \<leftarrow> release_large al user_ptr h;
             Some (m, al1, tc, r) }))"

definition deallocate_with_cache ::
    "bool \<Rightarrow> os \<Rightarrow> heap \<Rightarrow> Allocator \<Rightarrow> ThreadCache \<Rightarrow> addr \<Rightarrow>
     (heap \<times> Allocator \<times> ThreadCache \<times> (FreeError + unit)) run" where
  "deallocate_with_cache dbg sys m al tc user_ptr = do {
     tc0 \<leftarrow> bind_to_allocator tc (al_id al) (al_config al);
     d \<leftarrow> decode_header m user_ptr;
     (case d of
        Inl e \<Rightarrow> Some (m, al, tc0, Inl e)
      | Inr (h, k) \<Rightarrow> deallocate_decoded dbg sys m al tc0 user_ptr h k) }"

definition deallocate_with_size_checked ::
    "bool \<Rightarrow> os \<Rightarrow> heap \<Rightarrow> Allocator \<Rightarrow> ThreadCache \<Rightarrow> addr \<Rightarrow> usize \<Rightarrow>
     (heap \<times> Allocator \<times> ThreadCache \<times> (FreeError + unit)) run" where
  "deallocate_with_size_checked dbg sys m al tc user_ptr expected = do {
     tc0 \<leftarrow> bind_to_allocator tc (al_id al) (al_config al);
     d \<leftarrow> decode_header m user_ptr;
     (case d of
        Inl e \<Rightarrow> Some (m, al, tc0, Inl e)
      | Inr (h, k) \<Rightarrow> deallocate_decoded_with_expected_size dbg sys m al tc0 user_ptr h k expected) }"

section \<open>Draining, statistics and the cache handle\<close>

definition drain_thread_cache ::
    "bool \<Rightarrow> os \<Rightarrow> heap \<Rightarrow> Allocator \<Rightarrow> ThreadCache \<Rightarrow> (heap \<times> Allocator \<times> ThreadCache) run" where
  "drain_thread_cache dbg sys m al tc = do {
     tc0 \<leftarrow> bind_to_allocator tc (al_id al) (al_config al);
     (m1, tc1, central) \<leftarrow> drain_all_to_central dbg sys m tc0 (al_central al);
     Some (m1, al\<lparr>al_central := central\<rparr>, tc1) }"

definition Allocator_stats :: "Allocator \<Rightarrow> AllocatorStats run" where
  "Allocator_stats al = do {
     counts \<leftarrow> block_counts (al_central al);
     small \<leftarrow> those (map (\<lambda>i. do {
       blocks \<leftarrow> vec_get counts i;
       bytes \<leftarrow> checked_mul blocks (class_block_size (al_config al) (ALL_classes ! i));
       Some \<lparr>stats_class = ALL_classes ! i, stats_blocks = blocks, stats_bytes = bytes\<rparr> })
       [0..<NUM_CLASSES]);
     let large = LargeObject_stats (al_large al);
     Some \<lparr>arena_capacity = arena_len (al_arena al), arena_remaining = arena_remaining_bytes (al_arena al),
           small_central = small, large_live_allocations = stat_live_allocations large,
           large_live_bytes = stat_live_bytes large, large_free_blocks = stat_free_blocks large,
           large_free_bytes = stat_free_bytes large\<rparr> }"

text \<open>
  The handle of the process-global API holds the thread's cache; its \<open>owner\<close> is the one
  global allocator, which is passed explicitly here.
\<close>

record ThreadCacheHandle =
  th_cache :: ThreadCache

definition ThreadCacheHandle_new :: "Allocator \<Rightarrow> u32 \<Rightarrow> ThreadCacheHandle \<times> u32" where
  "ThreadCacheHandle_new al next_id =
     (let (tc, next_id') = ThreadCache_new (al_config al) next_id in (\<lparr>th_cache = tc\<rparr>, next_id'))"

definition with_parts ::
    "(heap \<Rightarrow> Allocator \<Rightarrow> ThreadCache \<Rightarrow> (heap \<times> Allocator \<times> ThreadCache \<times> 'r) run) \<Rightarrow>
     heap \<Rightarrow> Allocator \<Rightarrow> ThreadCacheHandle \<Rightarrow> (heap \<times> Allocator \<times> ThreadCacheHandle \<times> 'r) run" where
  "with_parts f m al h = do {
     (m1, al1, tc1, r) \<leftarrow> f m al (th_cache h);
     Some (m1, al1, h\<lparr>th_cache := tc1\<rparr>, r) }"

definition ThreadCacheHandle_drop ::
    "bool \<Rightarrow> os \<Rightarrow> heap \<Rightarrow> Allocator \<Rightarrow> ThreadCacheHandle \<Rightarrow> (heap \<times> Allocator) run" where
  "ThreadCacheHandle_drop dbg sys m al h = do {
     (m1, al1, _) \<leftarrow> drain_thread_cache dbg sys m al (th_cache h);
     Some (m1, al1) }"

end
