(* ===== verification/Class_Pool_Inv.thy ===== *)
theory Class_Pool_Inv
  imports Central_Pool
begin

text \<open>
  The invariant of one class pool of \<^verbatim>\<open>src/src/central_pool.rs\<close> and its preservation by
  every operation, with the exact account of the blocks that enter and leave.

  \<open>H b h\<close> is what the owner of the pool demands of the header \<open>h\<close> of a block \<open>b\<close> that is
  linked in a list (that it is an initialised header of the class, for instance); the pool
  rewrites link words only, so any \<open>H\<close> that does not read the link word is kept.
\<close>

section \<open>Slabs\<close>

definition slab_blocks :: "SlabRecord \<Rightarrow> addr list" where
  "slab_blocks s = blocks_of (sr_start s) (sr_block_size s) (sr_capacity s)"

definition slab_geometry :: "SlabRecord \<Rightarrow> addr \<times> addr \<times> usize \<times> usize" where
  "slab_geometry s = (sr_start s, sr_end_addr s, sr_block_size s, sr_capacity s)"

definition slab_shape_ok :: "SlabRecord \<Rightarrow> bool" where
  "slab_shape_ok s \<longleftrightarrow> 0 < sr_start s \<and> HEADER_SIZE \<le> sr_block_size s \<and> 0 < sr_capacity s \<and>
     sr_end_addr s = sr_start s + sr_block_size s * sr_capacity s \<and> sr_end_addr s \<le> usize_max"

text \<open>The blocks of a slab that are in the pool, and those among them that are linked.\<close>

definition slab_linked :: "heap \<Rightarrow> SlabRecord \<Rightarrow> addr list" where
  "slab_linked m s = (if sr_state s = Partial then fl_blocks m (sr_partial_free s) else [])"

definition slab_held :: "heap \<Rightarrow> SlabRecord \<Rightarrow> addr list" where
  "slab_held m s = (case sr_state s of
      Loaned \<Rightarrow> [] | Partial \<Rightarrow> fl_blocks m (sr_partial_free s) | _ \<Rightarrow> slab_blocks s)"

definition slab_ok :: "(addr \<Rightarrow> AllocationHeader \<Rightarrow> bool) \<Rightarrow> heap \<Rightarrow> SlabRecord \<Rightarrow> bool" where
  "slab_ok H m s \<longleftrightarrow> slab_shape_ok s \<and> sr_central_free_len s = length (slab_held m s) \<and>
     (if sr_state s = Partial
      then fl_rep m (sr_partial_free s) (slab_linked m s) \<and> slab_linked m s \<noteq> [] \<and>
        length (slab_linked m s) < sr_capacity s \<and> set (slab_linked m s) \<subseteq> set (slab_blocks s) \<and>
        (\<forall>b\<in>set (slab_linked m s). H b (m b))
      else sr_partial_free s = FreeList_new)"

definition link_insensitive :: "(addr \<Rightarrow> AllocationHeader \<Rightarrow> bool) \<Rightarrow> bool" where
  "link_insensitive H \<longleftrightarrow> (\<forall>b h k. H b (h\<lparr>free_list_link := k\<rparr>) = H b h)"

lemma link_frame_H:
  assumes "link_frame S m m'" "link_insensitive H"
  shows "H b (m' b) = H b (m b)"
proof -
  obtain k where "m' b = (m b)\<lparr>free_list_link := k\<rparr>" using assms(1) unfolding link_frame_def by blast
  then show ?thesis using assms(2) by (simp add: link_insensitive_def)
qed

lemma slab_shape_pos: "slab_shape_ok s \<Longrightarrow> 0 < sr_block_size s"
  by (simp add: slab_shape_ok_def HEADER_SIZE_def)

interpretation central_slab: slab_shape sr_start sr_end_addr slab_blocks SlabRecord_contains slab_shape_ok
proof
  show "sr_start s \<le> b \<and> b < sr_end_addr s" if "SlabRecord_contains s b" for s b
    using that by (simp add: SlabRecord_contains_def)
  show "SlabRecord_contains s b" if "slab_shape_ok s" "b \<in> set (slab_blocks s)" for s b
    using that in_blocks_of_iff [OF slab_shape_pos [OF that(1)]]
    by (simp add: SlabRecord_contains_def slab_blocks_def slab_shape_ok_def)
  show "distinct (slab_blocks s)" if "slab_shape_ok s" for s
    using slab_shape_pos [OF that] by (simp add: slab_blocks_def)
qed

lemma contains_in_blocks:
  "slab_shape_ok s \<Longrightarrow> SlabRecord_contains s b \<longleftrightarrow> b \<in> set (slab_blocks s)"
  using in_blocks_of_iff [OF slab_shape_pos, of s b "sr_start s" "sr_capacity s"]
  by (simp add: SlabRecord_contains_def slab_blocks_def slab_shape_ok_def)

lemma slab_block_fits:
  assumes "slab_shape_ok s" "b \<in> set (slab_blocks s)"
  shows "0 < b" "b + HEADER_SIZE \<le> sr_end_addr s" "b + sr_block_size s \<le> sr_end_addr s"
    "b \<le> usize_max"
proof -
  obtain i where i: "i < sr_capacity s" "b = sr_start s + i * sr_block_size s"
    using assms(2) by (auto simp: slab_blocks_def blocks_of_def)
  have "(i + 1) * sr_block_size s \<le> sr_capacity s * sr_block_size s" using i(1) by (intro mult_right_mono) auto
  then show fit: "b + sr_block_size s \<le> sr_end_addr s"
    using i assms(1) by (simp add: slab_shape_ok_def mult.commute)
  then show "b + HEADER_SIZE \<le> sr_end_addr s" "b \<le> usize_max" "0 < b"
    using i assms(1) by (auto simp: slab_shape_ok_def)
qed

lemma slab_held_update [simp]:
  "slab_held m (s\<lparr>sr_bucket_slot := k\<rparr>) = slab_held m s"
  "slab_held m (s\<lparr>sr_last_touched_epoch := e\<rparr>) = slab_held m s"
  "slab_linked m (s\<lparr>sr_bucket_slot := k\<rparr>) = slab_linked m s"
  "slab_linked m (s\<lparr>sr_last_touched_epoch := e\<rparr>) = slab_linked m s"
  "slab_blocks (s\<lparr>sr_bucket_slot := k\<rparr>) = slab_blocks s"
  "slab_blocks (s\<lparr>sr_last_touched_epoch := e\<rparr>) = slab_blocks s"
  "slab_ok H m (s\<lparr>sr_bucket_slot := k\<rparr>) = slab_ok H m s"
  "slab_ok H m (s\<lparr>sr_last_touched_epoch := e\<rparr>) = slab_ok H m s"
  by (simp_all add: slab_held_def slab_linked_def slab_blocks_def slab_ok_def slab_shape_ok_def
      split: SlabState.split)

lemma slab_held_subset: "slab_ok H m s \<Longrightarrow> set (slab_held m s) \<subseteq> set (slab_blocks s)"
  by (cases "sr_state s") (auto simp: slab_ok_def slab_held_def slab_linked_def)

lemma slab_held_distinct: "slab_ok H m s \<Longrightarrow> distinct (slab_held m s)"
  using central_slab.shape_distinct [of s] fl_rep_distinct
  by (cases "sr_state s") (auto simp: slab_ok_def slab_held_def slab_linked_def)

lemma slab_linked_held: "set (slab_linked m s) \<subseteq> set (slab_held m s)"
  by (cases "sr_state s") (simp_all add: slab_linked_def slab_held_def)

lemma slab_ok_frame:
  assumes ok: "slab_ok H m s" and same: "\<And>b. b \<in> set (slab_linked m s) \<Longrightarrow> m' b = m b"
  shows "slab_ok H m' s" "slab_held m' s = slab_held m s" "slab_linked m' s = slab_linked m s"
proof -
  have linked: "slab_linked m' s = slab_linked m s"
  proof (cases "sr_state s = Partial")
    case True
    then have "fl_rep m (sr_partial_free s) (slab_linked m s)" using ok by (simp add: slab_ok_def)
    then have "fl_rep m' (sr_partial_free s) (slab_linked m s)" by (rule fl_rep_frame) (rule same)
    then show ?thesis using True fl_rep_blocks by (auto simp: slab_linked_def)
  qed (simp add: slab_linked_def)
  moreover from this show held: "slab_held m' s = slab_held m s"
    by (cases "sr_state s") (auto simp: slab_linked_def slab_held_def)
  moreover have "fl_rep m' (sr_partial_free s) (slab_linked m s)" if "sr_state s = Partial"
    by (rule fl_rep_frame [OF _ same]) (use ok that in \<open>simp add: slab_ok_def\<close>)
  ultimately show "slab_ok H m' s" using ok same by (auto simp: slab_ok_def)
  show "slab_linked m' s = slab_linked m s" by (rule linked)
qed

lemma subset_full:
  assumes "distinct xs" "distinct ys" "set xs \<subseteq> set ys" "length xs = length ys"
  shows "mset xs = mset ys"
proof -
  have "card (set xs) = card (set ys)" using assms by (simp add: distinct_card)
  then have "set xs = set ys" using assms(3) by (intro card_subset_eq) auto
  then show ?thesis using assms(1,2) by (simp add: set_eq_iff_mset_eq_distinct)
qed

lemma take_partial_batch_spec:
  assumes ok: "slab_ok H m s" and st: "sr_state s = Partial" and mx: "0 < mx" and H: "link_insensitive H"
  obtains m' s' b xs where "take_partial_batch dbg m s mx = Some (m', s', b)" "batch_rep m' b xs"
    "xs \<noteq> []" "length xs \<le> mx" "slab_held m s = xs @ slab_held m' s'" "slab_ok H m' s'"
    "link_frame (set xs) m m'" "slab_geometry s' = slab_geometry s" "\<forall>x\<in>set xs. H x (m' x)"
    "sr_state s' = Partial \<or> sr_state s' = Loaned" "sr_bucket_slot s' = sr_bucket_slot s"
proof -
  let ?xs = "slab_linked m s"
  have rep: "fl_rep m (sr_partial_free s) ?xs" and ne: "?xs \<noteq> []" and len: "length ?xs < sr_capacity s"
    and sub: "set ?xs \<subseteq> set (slab_blocks s)" and Hx: "\<forall>b\<in>set ?xs. H b (m b)"
    and shape: "slab_shape_ok s" and n: "sr_central_free_len s = length ?xs"
    using ok st by (auto simp: slab_ok_def slab_held_def slab_linked_def)
  from pop_batch_unchecked_rep [OF rep ne mx]
  obtain m' l b where pop: "pop_batch_unchecked dbg m (sr_partial_free s) mx = Some (m', l, b)"
    "batch_rep m' b (take mx ?xs)" "fl_rep m' l (drop mx ?xs)" "link_frame (set (take mx ?xs)) m m'"
    by blast
  have blen: "batch_len b = min mx (length ?xs)" using pop(2) by (auto simp: batch_rep_def)
  define s' where "s' = s\<lparr>sr_partial_free := l, sr_central_free_len := length ?xs - min mx (length ?xs)\<rparr>"
  define s'' where "s'' = (if length ?xs \<le> mx then s'\<lparr>sr_state := Loaned\<rparr> else s')"
  have linked: "slab_linked m' s'' = (if length ?xs \<le> mx then [] else drop mx ?xs)"
    "slab_held m' s'' = drop mx ?xs"
    using st fl_rep_blocks [OF pop(3)] by (auto simp: s''_def s'_def slab_linked_def slab_held_def)
  have Hx': "\<forall>x\<in>set ?xs. H x (m' x)" using Hx link_frame_H [OF pop(4) H] by simp
  have ok': "slab_ok H m' s''"
  proof (cases "length ?xs \<le> mx")
    case True
    then have "l = FreeList_new" using pop(3) by (simp add: fl_rep_Nil_iff)
    then show ?thesis using True shape linked
      by (auto simp: slab_ok_def s''_def s'_def slab_shape_ok_def)
  next
    case False
    then show ?thesis using shape linked pop(3) st len sub Hx'
      by (auto simp: slab_ok_def s''_def s'_def slab_shape_ok_def slab_blocks_def dest!: in_set_dropD)
  qed
  have "SlabRecord_debug_assert_invariants dbg s'' = Some ()"
    using ok' fl_rep_is_empty [OF pop(3)] st len linked
    by (auto simp: SlabRecord_debug_assert_invariants_def s''_def s'_def slab_ok_def FreeList_is_empty_def)
  then have "take_partial_batch dbg m s mx = Some (m', s'', b)"
    using st n ne pop(1) blen
    by (cases "length ?xs \<le> mx") (simp_all add: take_partial_batch_def s''_def s'_def checked_sub_def Let_def)
  moreover have "slab_held m s = take mx ?xs @ slab_held m' s''"
    using st linked by (simp add: slab_held_def slab_linked_def)
  moreover have "slab_geometry s'' = slab_geometry s" "sr_bucket_slot s'' = sr_bucket_slot s"
    "sr_state s'' = Partial \<or> sr_state s'' = Loaned"
    using st by (simp_all add: s''_def s'_def slab_geometry_def)
  moreover have "\<forall>x\<in>set (take mx ?xs). H x (m' x)" using Hx' by (auto dest: in_set_takeD)
  ultimately show ?thesis
    using that [of m' s'' b "take mx ?xs"] pop(2,4) ok' ne mx by simp
qed

lemma record_returned_block_spec:
  assumes ok: "slab_ok H m s" and b: "b \<in> set (slab_blocks s)" "b \<notin> set (slab_held m s)" "H b (m b)"
    and H: "link_insensitive H"
  obtains m' s' where "record_returned_block dbg m s b = Some (m', s')" "slab_ok H m' s'"
    "mset (slab_held m' s') = add_mset b (mset (slab_held m s))" "link_frame {b} m m'"
    "slab_geometry s' = slab_geometry s" "sr_bucket_slot s' = sr_bucket_slot s"
proof -
  let ?xs = "slab_held m s"
  have shape: "slab_shape_ok s" and n: "sr_central_free_len s = length ?xs"
    using ok by (auto simp: slab_ok_def)
  have notfull: "sr_state s = Loaned \<or> sr_state s = Partial"
    using b by (cases "sr_state s") (auto simp: slab_held_def)
  have rep: "fl_rep m (sr_partial_free s) ?xs"
    using ok notfull by (auto simp: slab_ok_def slab_held_def slab_linked_def)
  have Hx: "\<forall>x\<in>set ?xs. H x (m x)"
    using ok notfull by (auto simp: slab_ok_def slab_held_def slab_linked_def)
  have dist: "distinct (b # ?xs)" using slab_held_distinct [OF ok] b(2) by simp
  have sub: "set (b # ?xs) \<subseteq> set (slab_blocks s)" using b(1) slab_held_subset [OF ok] by simp
  have dist': "distinct (slab_blocks s)" by (rule central_slab.shape_distinct [OF shape])
  have caplen: "length (slab_blocks s) = sr_capacity s" by (simp add: slab_blocks_def)
  have "length (b # ?xs) \<le> sr_capacity s"
    using card_mono [OF _ sub] dist dist' caplen by (metis List.finite_set distinct_card)
  then have lt: "length ?xs < sr_capacity s" by simp
  note fits = slab_block_fits [OF shape b(1)]
  have "sr_capacity s \<le> usize_max"
    using distinct_addrs_length [OF dist'] slab_block_fits [OF shape] caplen by auto
  then have max: "length ?xs < usize_max" using lt by simp
  from push_block_rep [OF rep b(2) _ max] fits(1)
  obtain m' l where push: "push_block m (sr_partial_free s) b = Some (m', l)" "fl_rep m' l (b # ?xs)"
    "link_frame {b} m m'" by blast
  have Hx': "\<forall>x\<in>set (b # ?xs). H x (m' x)" using Hx b(3) link_frame_H [OF push(3) H] by simp
  define s' where "s' = s\<lparr>sr_partial_free := l, sr_central_free_len := length ?xs + 1\<rparr>"
  define s'' where "s'' = (if length ?xs + 1 = sr_capacity s
      then s'\<lparr>sr_state := FullHot, sr_partial_free := FreeList_new\<rparr> else s'\<lparr>sr_state := Partial\<rparr>)"
  have ok': "slab_ok H m' s''" and held: "mset (slab_held m' s'') = mset (b # ?xs)"
  proof -
    have "slab_ok H m' s'' \<and> mset (slab_held m' s'') = mset (b # ?xs)"
    proof (cases "length ?xs + 1 = sr_capacity s")
      case True
      have "slab_held m' s'' = slab_blocks s" using True
        by (simp add: s''_def s'_def slab_held_def slab_blocks_def)
      moreover have "mset (b # ?xs) = mset (slab_blocks s)"
        by (rule subset_full [OF dist dist' sub]) (use True caplen in simp)
      ultimately show ?thesis
        using True shape caplen by (auto simp: slab_ok_def s''_def s'_def slab_shape_ok_def slab_blocks_def)
    next
      case False
      then have linked: "slab_linked m' s'' = b # ?xs" "slab_held m' s'' = b # ?xs"
        using fl_rep_blocks [OF push(2)] by (auto simp: s''_def s'_def slab_linked_def slab_held_def)
      show ?thesis unfolding slab_ok_def linked using False shape push(2) lt sub Hx'
        by (auto simp: s''_def s'_def slab_shape_ok_def slab_blocks_def)
    qed
    then show "slab_ok H m' s''" "mset (slab_held m' s'') = mset (b # ?xs)" by auto
  qed
  have "SlabRecord_debug_assert_invariants dbg s'' = Some ()"
    using fl_rep_is_empty [OF push(2)] lt
    by (auto simp: SlabRecord_debug_assert_invariants_def s''_def s'_def FreeList_is_empty_def FreeList_new_def)
  then have "record_returned_block dbg m s b = Some (m', s'')"
    using notfull n lt push(1) max contains_in_blocks [OF shape] b(1)
    by (auto simp: record_returned_block_def s''_def s'_def checked_add_def Let_def)
  then show ?thesis
    by (rule that [OF _ ok' _ push(3)]) (use held in \<open>auto simp: s''_def s'_def slab_geometry_def\<close>)
qed

section \<open>The invariant of a pool\<close>

definition pool_blocks :: "heap \<Rightarrow> ClassPool \<Rightarrow> addr multiset" where
  "pool_blocks m p = mset (concat (map (slab_held m) (cp_slabs p)))"

definition pool_all :: "ClassPool \<Rightarrow> addr list" where
  "pool_all p = concat (map slab_blocks (cp_slabs p))"

text \<open>Everything but the buckets.\<close>

definition pool_core :: "(addr \<Rightarrow> AllocationHeader \<Rightarrow> bool) \<Rightarrow> heap \<Rightarrow> ClassPool \<Rightarrow> bool" where
  "pool_core H m p \<longleftrightarrow> (\<forall>s\<in>set (cp_slabs p). slab_ok H m s) \<and>
     index_ok sr_start sr_end_addr (cp_slabs p) (cp_slabs_by_start p) \<and>
     (\<forall>i. cp_recent_slab p = Some i \<longrightarrow> i < length (cp_slabs p))"

text \<open>
  The buckets list the slabs of each state, where the state of slab \<open>i\<close> is \<open>stf i\<close>: inside
  an operation the record of one slab may already have its next state while its bucket
  still is that of the previous one.
\<close>

definition buckets_inv :: "(SlabId \<Rightarrow> SlabState) \<Rightarrow> ClassPool \<Rightarrow> bool" where
  "buckets_inv stf p \<longleftrightarrow>
     (\<forall>st. st \<noteq> Loaned \<longrightarrow>
        bucket_ok (bucket st p) (\<lambda>i. i < length (cp_slabs p) \<and> stf i = st)
          (\<lambda>i. sr_bucket_slot (cp_slabs p ! i))) \<and>
     (\<forall>i<length (cp_slabs p). stf i = Loaned \<longrightarrow> sr_bucket_slot (cp_slabs p ! i) = None)"

abbreviation state_of :: "ClassPool \<Rightarrow> SlabId \<Rightarrow> SlabState" where
  "state_of p \<equiv> (\<lambda>i. sr_state (cp_slabs p ! i))"

definition pool_inv :: "(addr \<Rightarrow> AllocationHeader \<Rightarrow> bool) \<Rightarrow> heap \<Rightarrow> ClassPool \<Rightarrow> bool" where
  "pool_inv H m p \<longleftrightarrow> pool_core H m p \<and> buckets_inv (state_of p) p"

lemma pool_inv_new [simp]: "pool_inv H m ClassPool_new" "pool_blocks m ClassPool_new = {#}"
  "pool_all ClassPool_new = []"
proof -
  have "bucket st ClassPool_new = []" for st by (cases st) (simp_all add: ClassPool_new_def)
  then show "pool_inv H m ClassPool_new"
    by (simp add: pool_inv_def pool_core_def buckets_inv_def bucket_ok_Nil) (simp add: ClassPool_new_def)
qed (simp_all add: pool_blocks_def pool_all_def ClassPool_new_def)

lemma pool_coreD:
  assumes "pool_core H m p" "i < length (cp_slabs p)"
  shows "slab_ok H m (cp_slabs p ! i)" "slab_shape_ok (cp_slabs p ! i)"
proof -
  show ok: "slab_ok H m (cp_slabs p ! i)" using assms by (simp add: pool_core_def)
  then show "slab_shape_ok (cp_slabs p ! i)" by (simp add: slab_ok_def)
qed

lemma distinct_pool_all: "pool_core H m p \<Longrightarrow> distinct (pool_all p)"
  unfolding pool_all_def pool_core_def
  by (rule central_slab.distinct_all_blocks) (auto simp: slab_ok_def)

lemma pool_blocks_subset:
  assumes "pool_core H m p"
  shows "pool_blocks m p \<subseteq># mset (pool_all p)"
proof -
  have "mset (slab_held m s) \<subseteq># mset (slab_blocks s)" if "slab_ok H m s" for s
    using slab_held_subset [OF that] slab_held_distinct [OF that]
    by (simp add: mset_set_set [symmetric] subset_imp_msubset_mset_set
        central_slab.shape_distinct that [unfolded slab_ok_def])
  then have "\<forall>s\<in>set (cp_slabs p). mset (slab_held m s) \<subseteq># mset (slab_blocks s)"
    using assms by (auto simp: pool_core_def)
  moreover have "mset (concat (map (slab_held m) slabs)) \<subseteq># mset (concat (map slab_blocks slabs))"
    if "\<forall>s\<in>set slabs. mset (slab_held m s) \<subseteq># mset (slab_blocks s)" for slabs
    using that by (induction slabs) (auto intro: subset_mset.add_mono)
  ultimately show ?thesis unfolding pool_blocks_def pool_all_def by blast
qed

text \<open>Replacing the record of one slab.\<close>

lemma pool_core_update:
  assumes core: "pool_core H m p" and i: "i < length (cp_slabs p)" and ok: "slab_ok H m' s"
    and geo: "slab_geometry s = slab_geometry (cp_slabs p ! i)"
    and frame: "\<And>b. b \<notin> set (slab_blocks s) \<Longrightarrow> m' b = m b"
  defines "p' \<equiv> p\<lparr>cp_slabs := (cp_slabs p)[i := s]\<rparr>"
  shows "pool_core H m' p'" "pool_all p' = pool_all p"
    "pool_blocks m' p' + mset (slab_held m (cp_slabs p ! i)) = pool_blocks m p + mset (slab_held m' s)"
proof -
  have blocks: "slab_blocks s = slab_blocks (cp_slabs p ! i)"
    using geo by (simp add: slab_geometry_def slab_blocks_def)
  have idx: "index_ok sr_start sr_end_addr (cp_slabs p) (cp_slabs_by_start p)"
    using core by (simp add: pool_core_def)
  have other: "m' b = m b" if j: "j < length (cp_slabs p)" "j \<noteq> i" and b: "b \<in> set (slab_linked m (cp_slabs p ! j))"
    for j b
  proof (rule frame)
    note okj = pool_coreD [OF core j(1)]
    have "b \<in> set (slab_blocks (cp_slabs p ! j))"
      using b slab_linked_held slab_held_subset [OF okj(1)] by blast
    then have "SlabRecord_contains (cp_slabs p ! j) b" by (rule central_slab.contains_block [OF okj(2)])
    with central_slab.contains_unique [OF idx j(1) i] central_slab.contains_block [OF pool_coreD(2) [OF core i]] j(2)
    show "b \<notin> set (slab_blocks s)" unfolding blocks by blast
  qed
  have frame_j: "slab_ok H m' (cp_slabs p ! j)" "slab_held m' (cp_slabs p ! j) = slab_held m (cp_slabs p ! j)"
    if j: "j < length (cp_slabs p)" "j \<noteq> i" for j
    using slab_ok_frame [where m' = m', OF pool_coreD(1) [OF core j(1)]] other [OF j] by auto
  have "slab_ok H m' ((cp_slabs p)[i := s] ! j)" if "j < length (cp_slabs p)" for j
    using that ok frame_j by (cases "j = i") auto
  then show "pool_core H m' p'"
    using core index_ok_update [OF idx i, of s] geo
    by (auto simp: pool_core_def p'_def slab_geometry_def all_set_conv_all_nth)
  have "map slab_blocks ((cp_slabs p)[i := s]) = map slab_blocks (cp_slabs p)"
    using blocks i by (simp add: map_update list_update_same_conv)
  then show "pool_all p' = pool_all p" by (simp add: pool_all_def p'_def)
  have held: "map (slab_held m') ((cp_slabs p)[i := s]) = (map (slab_held m) (cp_slabs p))[i := slab_held m' s]"
    using i frame_j by (intro nth_equalityI) (auto simp: nth_list_update)
  have "mset (concat (map id ((map (slab_held m) (cp_slabs p))[i := slab_held m' s]))) +
      mset (id (map (slab_held m) (cp_slabs p) ! i)) =
    mset (concat (map id (map (slab_held m) (cp_slabs p)))) + mset (id (slab_held m' s))"
    by (rule mset_concat_map_update) (use i in simp)
  then show "pool_blocks m' p' + mset (slab_held m (cp_slabs p ! i)) = pool_blocks m p + mset (slab_held m' s)"
    using i unfolding pool_blocks_def p'_def by (simp add: held)
qed

text \<open>Memory that holds no linked block does not matter.\<close>

lemma pool_core_frame:
  assumes "pool_core H m p"
    and "\<And>s b. s \<in> set (cp_slabs p) \<Longrightarrow> b \<in> set (slab_linked m s) \<Longrightarrow> m' b = m b"
  shows "pool_core H m' p" "pool_blocks m' p = pool_blocks m p"
proof -
  have "slab_ok H m' s \<and> slab_held m' s = slab_held m s" if "s \<in> set (cp_slabs p)" for s
    using slab_ok_frame [of H m s m'] assms that by (auto simp: pool_core_def)
  then have eq: "map (slab_held m') (cp_slabs p) = map (slab_held m) (cp_slabs p)"
    and ok: "\<forall>s\<in>set (cp_slabs p). slab_ok H m' s" by simp_all
  show "pool_core H m' p" using assms(1) ok by (simp add: pool_core_def)
  show "pool_blocks m' p = pool_blocks m p" unfolding pool_blocks_def eq ..
qed

section \<open>Buckets\<close>

text \<open>\<open>p'\<close> differs from \<open>p\<close> in bucket slots, buckets and the sweep cursor only.\<close>

definition core_eq :: "ClassPool \<Rightarrow> ClassPool \<Rightarrow> bool" where
  "core_eq p p' \<longleftrightarrow>
     map (sr_bucket_slot_update (\<lambda>_. None)) (cp_slabs p') =
       map (sr_bucket_slot_update (\<lambda>_. None)) (cp_slabs p) \<and>
     cp_slabs_by_start p' = cp_slabs_by_start p \<and> cp_epoch p' = cp_epoch p \<and>
     cp_recent_slab p' = cp_recent_slab p"

lemma core_eq_refl [simp]: "core_eq p p"
  by (simp add: core_eq_def)

lemma core_eq_trans: "core_eq p q \<Longrightarrow> core_eq q r \<Longrightarrow> core_eq p r"
  by (simp add: core_eq_def)

lemma core_eq_length: "core_eq p p' \<Longrightarrow> length (cp_slabs p') = length (cp_slabs p)"
  unfolding core_eq_def by (metis length_map)

lemma core_eq_nth:
  assumes "core_eq p p'" "i < length (cp_slabs p)"
  obtains k where "cp_slabs p' ! i = (cp_slabs p ! i)\<lparr>sr_bucket_slot := k\<rparr>"
proof -
  have "(cp_slabs p' ! i)\<lparr>sr_bucket_slot := None\<rparr> = (cp_slabs p ! i)\<lparr>sr_bucket_slot := None\<rparr>"
    using assms core_eq_length [OF assms(1)] unfolding core_eq_def by (metis nth_map)
  then have "(cp_slabs p' ! i)\<lparr>sr_bucket_slot := None\<rparr>\<lparr>sr_bucket_slot := sr_bucket_slot (cp_slabs p' ! i)\<rparr> =
    (cp_slabs p ! i)\<lparr>sr_bucket_slot := None\<rparr>\<lparr>sr_bucket_slot := sr_bucket_slot (cp_slabs p' ! i)\<rparr>"
    by (rule arg_cong)
  then have "cp_slabs p' ! i = (cp_slabs p ! i)\<lparr>sr_bucket_slot := sr_bucket_slot (cp_slabs p' ! i)\<rparr>" by simp
  then show ?thesis by (rule that)
qed

lemma core_eq_map:
  assumes "core_eq p p'" "\<And>s k. f (s\<lparr>sr_bucket_slot := k\<rparr>) = f s"
  shows "map f (cp_slabs p') = map f (cp_slabs p)"
proof (rule nth_equalityI)
  show "length (map f (cp_slabs p')) = length (map f (cp_slabs p))"
    using core_eq_length [OF assms(1)] by simp
  fix i assume "i < length (map f (cp_slabs p'))"
  then have i: "i < length (cp_slabs p)" using core_eq_length [OF assms(1)] by simp
  obtain k where "cp_slabs p' ! i = (cp_slabs p ! i)\<lparr>sr_bucket_slot := k\<rparr>"
    by (rule core_eq_nth [OF assms(1) i])
  then show "map f (cp_slabs p') ! i = map f (cp_slabs p) ! i"
    using i core_eq_length [OF assms(1)] assms(2) by simp
qed

lemma core_eq_pool:
  assumes eq: "core_eq p p'"
  shows "pool_core H m p' = pool_core H m p" "pool_blocks m p' = pool_blocks m p"
    "pool_all p' = pool_all p" "map slab_geometry (cp_slabs p') = map slab_geometry (cp_slabs p)"
    "i < length (cp_slabs p) \<Longrightarrow> state_of p' i = state_of p i"
proof -
  note len = core_eq_length [OF eq]
  have ok: "map (slab_ok H m) (cp_slabs p') = map (slab_ok H m) (cp_slabs p)"
    by (rule core_eq_map [OF eq]) simp
  have keys: "map sr_start (cp_slabs p') = map sr_start (cp_slabs p)"
    "map sr_end_addr (cp_slabs p') = map sr_end_addr (cp_slabs p)"
    "map sr_state (cp_slabs p') = map sr_state (cp_slabs p)"
    by (rule core_eq_map [OF eq]; simp)+
  have nth: "sr_start (cp_slabs p' ! i) = sr_start (cp_slabs p ! i)"
    "sr_end_addr (cp_slabs p' ! i) = sr_end_addr (cp_slabs p ! i)"
    "sr_state (cp_slabs p' ! i) = sr_state (cp_slabs p ! i)" if "i < length (cp_slabs p)" for i
    using keys len that by (metis nth_map)+
  have idx: "index_ok sr_start sr_end_addr (cp_slabs p') o1 = index_ok sr_start sr_end_addr (cp_slabs p) o1" for o1
    using index_ok_cong [of "cp_slabs p'" "cp_slabs p" sr_start sr_end_addr o1]
      index_ok_cong [of "cp_slabs p" "cp_slabs p'" sr_start sr_end_addr o1] len nth by auto
  have "(\<forall>s\<in>set (cp_slabs p'). slab_ok H m s) = (\<forall>s\<in>set (cp_slabs p). slab_ok H m s)"
    using ok len unfolding all_set_conv_all_nth by (metis nth_map)
  then show "pool_core H m p' = pool_core H m p"
    unfolding pool_core_def using idx eq len by (simp add: core_eq_def)
  have "map (slab_held m) (cp_slabs p') = map (slab_held m) (cp_slabs p)"
    "map slab_blocks (cp_slabs p') = map slab_blocks (cp_slabs p)"
    by (rule core_eq_map [OF eq]; simp)+
  then show "pool_blocks m p' = pool_blocks m p" "pool_all p' = pool_all p"
    by (simp_all only: pool_blocks_def pool_all_def)
  show "map slab_geometry (cp_slabs p') = map slab_geometry (cp_slabs p)"
    by (rule core_eq_map [OF eq]) (simp add: slab_geometry_def)
  show "i < length (cp_slabs p) \<Longrightarrow> state_of p' i = state_of p i" by (rule nth(3))
qed

lemma normalize_sweep_cursor_simps [simp]:
  "cp_slabs (normalize_sweep_cursor p) = cp_slabs p"
  "bucket st (normalize_sweep_cursor p) = bucket st p"
  "core_eq q (normalize_sweep_cursor p) = core_eq q p"
  "buckets_inv stf (normalize_sweep_cursor p) = buckets_inv stf p"
proof -
  show b: "bucket st (normalize_sweep_cursor p) = bucket st p" for st
    by (cases st) (simp_all add: normalize_sweep_cursor_def)
  show s: "cp_slabs (normalize_sweep_cursor p) = cp_slabs p"
    "core_eq q (normalize_sweep_cursor p) = core_eq q p"
    by (simp_all add: normalize_sweep_cursor_def core_eq_def)
  show "buckets_inv stf (normalize_sweep_cursor p) = buckets_inv stf p"
    by (simp add: buckets_inv_def b s(1))
qed

lemma set_bucket_simps [simp]:
  "cp_slabs (set_bucket st b p) = cp_slabs p"
  "core_eq q (set_bucket st b p) = core_eq q p"
  "st \<noteq> Loaned \<Longrightarrow> bucket st (set_bucket st b p) = b"
  "st \<noteq> st' \<Longrightarrow> bucket st' (set_bucket st b p) = bucket st' p"
  by (cases st; cases st'; simp add: core_eq_def)+

lemma bucket_slabs [simp]: "bucket st (p\<lparr>cp_slabs := x\<rparr>) = bucket st p"
  by (cases st) simp_all

lemma core_eq_slot:
  "i < length (cp_slabs q) \<Longrightarrow>
   core_eq p (q\<lparr>cp_slabs := (cp_slabs q)[i := (cp_slabs q ! i)\<lparr>sr_bucket_slot := k\<rparr>]\<rparr>) = core_eq p q"
proof -
  assume i: "i < length (cp_slabs q)"
  have "map (sr_bucket_slot_update (\<lambda>_. None)) ((cp_slabs q)[i := (cp_slabs q ! i)\<lparr>sr_bucket_slot := k\<rparr>]) =
      map (sr_bucket_slot_update (\<lambda>_. None)) (cp_slabs q)"
    using i by (simp add: map_update list_update_same_conv)
  then show ?thesis by (simp add: core_eq_def)
qed

lemma slot_update:
  "i < length xs \<Longrightarrow> (\<lambda>j. sr_bucket_slot (xs[i := (xs ! i)\<lparr>sr_bucket_slot := k\<rparr>] ! j)) =
    (\<lambda>j. sr_bucket_slot (xs ! j))(i := k)"
  by (auto simp: nth_list_update fun_eq_iff)

lemma buckets_invD:
  assumes "buckets_inv stf p" "st \<noteq> Loaned"
  shows "bucket_ok (bucket st p) (\<lambda>i. i < length (cp_slabs p) \<and> stf i = st)
    (\<lambda>i. sr_bucket_slot (cp_slabs p ! i))"
  using assms by (simp add: buckets_inv_def)

text \<open>Removing a slab from its bucket leaves the buckets as if the slab were loaned.\<close>

lemma remove_from_bucket_spec:
  assumes inv: "buckets_inv stf p" and i: "i < length (cp_slabs p)" and st: "stf i = st"
  obtains p' where "remove_from_bucket dbg p i st = Some p'" "buckets_inv (stf(i := Loaned)) p'"
    "core_eq p p'"
proof (cases "st = Loaned")
  case True
  then have "sr_bucket_slot (cp_slabs p ! i) = None" using inv i st by (simp add: buckets_inv_def)
  then have "remove_from_bucket dbg p i st = Some p"
    using True i by (simp add: remove_from_bucket_def)
  moreover have "stf(i := Loaned) = stf" using st True by auto
  ultimately show ?thesis using that inv by simp
next
  case False
  let ?slot = "\<lambda>i. sr_bucket_slot (cp_slabs p ! i)"
  note ok = buckets_invD [OF inv False]
  obtain k where k: "?slot i = Some k" using bucket_ok_slot [OF ok, of i] i st by auto
  define b where "b = butlast ((bucket st p)[k := last (bucket st p)])"
  have M: "i < length (cp_slabs p) \<and> stf i = st" using i st by simp
  note sw = bucket_swap_remove [OF ok M k, folded b_def]
  define p1 where "p1 = p\<lparr>cp_slabs := (cp_slabs p)[i := (cp_slabs p ! i)\<lparr>sr_bucket_slot := None\<rparr>]\<rparr>"
  define p2 where "p2 = set_bucket st b p1"
  define p3 where "p3 = (if k < length b
    then p2\<lparr>cp_slabs := (cp_slabs p2)[b ! k := (cp_slabs p2 ! (b ! k))\<lparr>sr_bucket_slot := Some k\<rparr>]\<rparr> else p2)"
  have slabs2: "cp_slabs p2 = cp_slabs p1" "length (cp_slabs p1) = length (cp_slabs p)"
    by (simp_all add: p2_def p1_def)
  have moved: "k < length b \<Longrightarrow> b ! k < length (cp_slabs p2)" using sw(3) slabs2 by simp
  have run: "remove_from_bucket dbg p i st = Some (normalize_sweep_cursor p3)"
    using i k False sw(1) moved
    by (simp add: remove_from_bucket_def set_slab_def p3_def p2_def p1_def Let_def)
  have slots: "(\<lambda>j. sr_bucket_slot (cp_slabs p3 ! j)) =
      (if k < length b then (?slot(i := None))(b ! k := Some k) else ?slot(i := None))"
    using slot_update [OF i, of None] slot_update [OF moved, of "Some k"]
    by (cases "k < length b") (simp_all add: p3_def slabs2 p1_def)
  have len3: "length (cp_slabs p3) = length (cp_slabs p)" by (simp add: p3_def slabs2)
  have bk: "bucket st' p3 = (if st' = st then b else bucket st' p)" for st'
    using False by (cases st'; cases st) (simp_all add: p3_def p2_def p1_def)
  have "buckets_inv (stf(i := Loaned)) p3"
    unfolding buckets_inv_def slots len3
  proof (intro conjI allI impI)
    fix st' :: SlabState assume st': "st' \<noteq> Loaned"
    show "bucket_ok (bucket st' p3) (\<lambda>j. j < length (cp_slabs p) \<and> (stf(i := Loaned)) j = st')
      (if k < length b then (?slot(i := None))(b ! k := Some k) else ?slot(i := None))"
    proof (cases "st' = st")
      case True
      then have "bucket st' p3 = b" by (simp add: bk)
      then show ?thesis
        by (simp only:) (rule bucket_ok_cong [OF sw(4)]; use True False in auto)
    next
      case ne: False
      have "b ! k \<noteq> j" if "k < length b" "stf j = st'" for j using sw(3) that ne by auto
      moreover have "i \<noteq> j" if "stf j = st'" for j using st that ne by auto
      moreover have "bucket st' p3 = bucket st' p" using ne by (simp add: bk)
      ultimately show ?thesis
        by (simp only:) (rule bucket_ok_cong [OF buckets_invD [OF inv st']]; use st st' ne in auto)
    qed
  next
    fix j assume j: "j < length (cp_slabs p)" "(stf(i := Loaned)) j = Loaned"
    have "b ! k \<noteq> j" if "k < length b" using sw(3) [OF that] j(2) False by auto
    then show "sr_bucket_slot (cp_slabs p3 ! j) = None"
      using inv j fun_cong [OF slots, of j] by (auto simp: buckets_inv_def split: if_splits)
  qed
  moreover have "core_eq p p3"
  proof -
    have "core_eq p p1" unfolding p1_def using core_eq_slot [OF i, of p] by simp
    then have "core_eq p p2" by (simp add: p2_def)
    then show ?thesis using core_eq_slot [OF moved, of p] by (simp add: p3_def)
  qed
  ultimately show ?thesis using that run by simp
qed

lemma add_to_bucket_spec:
  assumes inv: "buckets_inv stf p" and i: "i < length (cp_slabs p)" and old: "stf i = Loaned"
  obtains p' where "add_to_bucket p i st = Some p'" "buckets_inv (stf(i := st)) p'" "core_eq p p'"
proof (cases "st = Loaned")
  case True
  have none: "sr_bucket_slot (cp_slabs p ! i) = None" using inv i old by (simp add: buckets_inv_def)
  then have same: "(cp_slabs p)[i := (cp_slabs p ! i)\<lparr>sr_bucket_slot := None\<rparr>] = cp_slabs p"
    by (metis SlabRecord.surjective SlabRecord.update_convs(9) list_update_id)
  have "add_to_bucket p i st = Some p"
    using True i same by (simp add: add_to_bucket_def set_slab_def)
  moreover have "stf(i := st) = stf" using old True by auto
  ultimately show ?thesis using that inv by simp
next
  case False
  let ?slot = "\<lambda>i. sr_bucket_slot (cp_slabs p ! i)"
  define b where "b = bucket st p @ [i]"
  define p1 where "p1 = set_bucket st b p"
  define p2 where "p2 = p1\<lparr>cp_slabs := (cp_slabs p1)[i := (cp_slabs p1 ! i)\<lparr>sr_bucket_slot :=
      Some (length (bucket st p))\<rparr>]\<rparr>"
  have slabs1: "cp_slabs p1 = cp_slabs p" by (simp add: p1_def)
  have run: "add_to_bucket p i st = Some (normalize_sweep_cursor p2)"
    using False i by (simp add: add_to_bucket_def set_slab_def p2_def p1_def b_def Let_def)
  have slots: "(\<lambda>j. sr_bucket_slot (cp_slabs p2 ! j)) = ?slot(i := Some (length (bucket st p)))"
    using slot_update [OF i] by (simp add: p2_def slabs1)
  have len2: "length (cp_slabs p2) = length (cp_slabs p)" by (simp add: p2_def slabs1)
  have bk: "bucket st' p2 = (if st' = st then b else bucket st' p)" for st'
    using False by (cases st'; cases st) (simp_all add: p2_def p1_def)
  have "buckets_inv (stf(i := st)) p2"
    unfolding buckets_inv_def slots len2
  proof (intro conjI allI impI)
    fix st' :: SlabState assume st': "st' \<noteq> Loaned"
    show "bucket_ok (bucket st' p2) (\<lambda>j. j < length (cp_slabs p) \<and> (stf(i := st)) j = st')
      (?slot(i := Some (length (bucket st p))))"
    proof (cases "st' = st")
      case True
      have "bucket_ok (bucket st p @ [i]) (\<lambda>j. (j < length (cp_slabs p) \<and> stf j = st) \<or> j = i)
          (?slot(i := Some (length (bucket st p))))"
        by (rule bucket_push [OF buckets_invD [OF inv False]]) (use old False in auto)
      then show ?thesis unfolding bk b_def using True i by (auto elim!: bucket_ok_cong)
    next
      case ne: False
      then show ?thesis unfolding bk using st' old
        by (auto intro: bucket_ok_cong [OF buckets_invD [OF inv st']])
    qed
  next
    fix j assume "j < length (cp_slabs p)" "(stf(i := st)) j = Loaned"
    then show "sr_bucket_slot (cp_slabs p2 ! j) = None"
      using inv False fun_cong [OF slots, of j] by (auto simp: buckets_inv_def split: if_splits)
  qed
  moreover have "core_eq p p2" unfolding p2_def using core_eq_slot [of i p1 p] i slabs1
    by (simp add: p1_def)
  ultimately show ?thesis using that run by simp
qed

lemma reconcile_spec:
  assumes "buckets_inv stf p" "i < length (cp_slabs p)" "stf i = prev"
  obtains p' where "reconcile_bucket_transition dbg p i prev nxt = Some p'"
    "buckets_inv (stf(i := nxt)) p'" "core_eq p p'"
proof (cases "prev = nxt")
  case True
  have "stf(i := nxt) = stf" using assms(3) True by auto
  then show ?thesis using that [of p] True assms(1) by (simp add: reconcile_bucket_transition_def)
next
  case False
  obtain p1 where p1: "remove_from_bucket dbg p i prev = Some p1" "buckets_inv (stf(i := Loaned)) p1"
    "core_eq p p1" by (rule remove_from_bucket_spec [OF assms])
  have i1: "i < length (cp_slabs p1)" using assms(2) core_eq_length [OF p1(3)] by simp
  obtain p2 where p2: "add_to_bucket p1 i nxt = Some p2" "buckets_inv ((stf(i := Loaned))(i := nxt)) p2"
    "core_eq p1 p2" using add_to_bucket_spec [OF p1(2) i1, of nxt] by auto
  have "reconcile_bucket_transition dbg p i prev nxt = Some p2"
    using False p1(1) p2(1) by (simp add: reconcile_bucket_transition_def)
  then show ?thesis using that p2(2) core_eq_trans [OF p1(3) p2(3)] by simp
qed

end
