(* ===== verification/Local_Cache_Inv.thy ===== *)
theory Local_Cache_Inv
  imports Thread_Cache Class_Pool_Inv
begin

text \<open>
  The invariant of one class of a thread cache (\<open>LocalClassCache\<close> of
  \<^verbatim>\<open>src/src/thread_cache.rs\<close>) and the behaviour of its slabs and of its list of available
  slabs. \<open>lc_blocks m lc\<close> is the multiset of blocks the class holds: the hot block, the
  reclaimed and the never used blocks of its slabs, and the shared list.
\<close>

section \<open>Multisets without repetition\<close>

definition dset :: "'a multiset \<Rightarrow> bool" where
  "dset M \<longleftrightarrow> (\<forall>x. count M x \<le> 1)"

lemma dset_empty [simp]: "dset {#}"
  by (simp add: dset_def)

lemma dset_add_mset [simp]: "dset (add_mset b M) \<longleftrightarrow> b \<notin># M \<and> dset M"
proof
  assume a: "dset (add_mset b M)"
  then have "count (add_mset b M) b \<le> 1" unfolding dset_def by blast
  then have "count M b = 0" by simp
  moreover have "count M x \<le> 1" for x
    using a unfolding dset_def by (metis count_add_mset le_SucI not_less_eq_eq)
  ultimately show "b \<notin># M \<and> dset M" by (simp add: dset_def not_in_iff)
next
  assume "b \<notin># M \<and> dset M"
  then show "dset (add_mset b M)" by (auto simp: dset_def not_in_iff)
qed

lemma dset_subset: "dset M \<Longrightarrow> N \<subseteq># M \<Longrightarrow> dset N"
  unfolding dset_def by (meson mset_subset_eq_count order_trans)

lemma dset_union:
  "dset (M + N) \<longleftrightarrow> dset M \<and> dset N \<and> (\<forall>x. x \<in># M \<longrightarrow> x \<notin># N)"
proof
  assume a: "dset (M + N)"
  have "x \<notin># N" if "x \<in># M" for x
  proof
    assume "x \<in># N"
    with that have "1 \<le> count M x" "1 \<le> count N x" unfolding count_greater_eq_one_iff by blast+
    then have "2 \<le> count (M + N) x" unfolding count_union by linarith
    moreover have "count (M + N) x \<le> 1" using a unfolding dset_def by blast
    ultimately show False by linarith
  qed
  then show "dset M \<and> dset N \<and> (\<forall>x. x \<in># M \<longrightarrow> x \<notin># N)"
    using a dset_subset [of "M + N"] by simp
next
  assume a: "dset M \<and> dset N \<and> (\<forall>x. x \<in># M \<longrightarrow> x \<notin># N)"
  show "dset (M + N)" unfolding dset_def
  proof
    fix x
    show "count (M + N) x \<le> 1"
    proof (cases "x \<in># M")
      case True
      then have "count N x = 0" using a by (simp add: not_in_iff)
      then show ?thesis using a unfolding dset_def by (metis add_0_right count_union)
    next
      case False
      then have "count M x = 0" by (simp add: not_in_iff)
      then show ?thesis using a unfolding dset_def by (metis add_0 count_union)
    qed
  qed
qed

lemma dset_mset [simp]: "dset (mset xs) \<longleftrightarrow> distinct xs"
  by (induction xs) auto

lemma dset_size:
  assumes "dset M" "\<And>x. x \<in># M \<Longrightarrow> 0 < x \<and> x \<le> usize_max"
  shows "size M \<le> usize_max"
proof -
  obtain xs where xs: "mset xs = M" using ex_mset by blast
  then have "distinct xs" "set xs = set_mset M" using assms(1) by auto
  then have "length xs \<le> usize_max" using assms(2) by (intro distinct_addrs_length) auto
  then show ?thesis using xs by auto
qed

section \<open>Headers of idle blocks\<close>

text \<open>
  A block that is linked in some list has an initialised header of its class. In a debug
  build it also carries the freed marker, or it was never allocated since it was
  initialised. The blocks a cache reuses without rewriting the owner carry its own id.
\<close>

definition idle_header :: "bool \<Rightarrow> SizeClass \<Rightarrow> addr \<Rightarrow> AllocationHeader \<Rightarrow> bool" where
  "idle_header dbg c b h \<longleftrightarrow> small_header c h \<and>
     (dbg \<longrightarrow> small_free_marker h = small_free_marker_for b \<or> requested_size h = 0)"

definition local_header :: "bool \<Rightarrow> SizeClass \<Rightarrow> u32 \<Rightarrow> addr \<Rightarrow> AllocationHeader \<Rightarrow> bool" where
  "local_header dbg c ow b h \<longleftrightarrow> idle_header dbg c b h \<and> owner_cache_id h = ow"

lemma idle_link_insensitive [simp]: "link_insensitive (idle_header dbg c)"
  by (simp add: link_insensitive_def idle_header_def)

lemma local_link_insensitive [simp]: "link_insensitive (local_header dbg c ow)"
  by (simp add: link_insensitive_def idle_header_def local_header_def)

lemma local_idle: "local_header dbg c ow b h \<Longrightarrow> idle_header dbg c b h"
  by (simp add: local_header_def)

lemma initialize_small_spec:
  assumes "64 dvd b"
  obtains m' where "initialize_small_to_block_unchecked dbg m b c = Some m'"
    "idle_header dbg' c b (m' b)" "\<And>x. x \<noteq> b \<Longrightarrow> m' x = m x"
proof -
  let ?m = "write_encoded_fields m b Small_tag (size_class_to_index c) 0 (word_of_nat (payload_size c)) 0"
  have "initialize_small_to_block_unchecked dbg m b c = Some ?m"
    using assms by (simp add: initialize_small_to_block_unchecked_def write_small_prefix_def header_defs
        HEADER_ALIGNMENT_def dvd_eq_mod_eq_0)
  moreover have "idle_header dbg' c b (?m b)"
    using small_header_write_encoded [of c m b 0 0] by (simp add: idle_header_def write_encoded_fields_def)
  ultimately show ?thesis by (rule that) (simp add: write_encoded_fields_def)
qed

section \<open>Slab geometries\<close>

text \<open>The slabs of a class, as the central pool registers them.\<close>

type_synonym geometry = "addr \<times> addr \<times> usize \<times> usize"

definition geo_shape :: "geometry \<Rightarrow> bool" where
  "geo_shape g \<longleftrightarrow> (case g of (start, fin, bs, cap) \<Rightarrow>
     0 < start \<and> 64 dvd start \<and> 64 dvd bs \<and> HEADER_SIZE \<le> bs \<and> 0 < cap \<and>
     fin = start + bs * cap \<and> fin \<le> usize_max)"

definition geo_block_list :: "geometry \<Rightarrow> addr list" where
  "geo_block_list g = (case g of (start, _, bs, cap) \<Rightarrow> blocks_of start bs cap)"

definition geo_blocks :: "geometry set \<Rightarrow> addr set" where
  "geo_blocks gs = (\<Union>g\<in>gs. set (geo_block_list g))"

definition geos_ok :: "geometry set \<Rightarrow> bool" where
  "geos_ok gs \<longleftrightarrow> (\<forall>g\<in>gs. geo_shape g) \<and>
     (\<forall>g\<in>gs. \<forall>h\<in>gs. g = h \<or> fst (snd g) \<le> fst h \<or> fst (snd h) \<le> fst g)"

lemma geo_block_props:
  assumes "geo_shape g" "b \<in> set (geo_block_list g)"
  shows "fst g \<le> b" "b + HEADER_SIZE \<le> fst (snd g)" "0 < b" "b \<le> usize_max" "64 dvd b"
proof -
  obtain start fin bs cap where g: "g = (start, fin, bs, cap)" by (cases g) auto
  obtain i where i: "i < cap" "b = start + i * bs"
    using assms(2) by (auto simp: g geo_block_list_def blocks_of_def)
  have "(i + 1) * bs \<le> cap * bs" using i(1) by (intro mult_right_mono) auto
  then have "b + bs \<le> fin" using i assms(1) by (simp add: g geo_shape_def mult.commute)
  then show "fst g \<le> b" "b + HEADER_SIZE \<le> fst (snd g)" "0 < b" "b \<le> usize_max" "64 dvd b"
    using i assms(1) by (auto simp: g geo_shape_def)
qed

lemma geo_blocks_props:
  assumes "geos_ok gs" "b \<in> geo_blocks gs"
  shows "0 < b" "b \<le> usize_max" "64 dvd b"
proof -
  obtain g where "g \<in> gs" "b \<in> set (geo_block_list g)" using assms(2) by (auto simp: geo_blocks_def)
  then show "0 < b" "b \<le> usize_max" "64 dvd b"
    using geo_block_props [of g b] assms(1) by (auto simp: geos_ok_def)
qed

lemma geo_block_owner:
  assumes ok: "geos_ok gs" and b: "b \<in> geo_blocks gs" and g: "g \<in> gs" "fst g \<le> b" "b < fst (snd g)"
  shows "b \<in> set (geo_block_list g)"
proof -
  obtain h where h: "h \<in> gs" "b \<in> set (geo_block_list h)" using b by (auto simp: geo_blocks_def)
  have "geo_shape h" using ok h(1) by (simp add: geos_ok_def)
  note range = geo_block_props [OF this h(2)]
  have "g = h \<or> fst (snd g) \<le> fst h \<or> fst (snd h) \<le> fst g" using ok g(1) h(1) by (auto simp: geos_ok_def)
  then show ?thesis using range g(2,3) h(2) by (auto simp: HEADER_SIZE_def)
qed

section \<open>Local slabs\<close>

definition ls_geometry :: "LocalSlab \<Rightarrow> geometry" where
  "ls_geometry s = (ls_start s, ls_end_addr s, ls_block_size s, ls_capacity s)"

abbreviation ls_blocks :: "LocalSlab \<Rightarrow> addr list" where
  "ls_blocks s \<equiv> geo_block_list (ls_geometry s)"

definition ls_fresh :: "LocalSlab \<Rightarrow> addr list" where
  "ls_fresh s = map (\<lambda>i. ls_start s + i * ls_block_size s) [ls_next_fresh s..<ls_capacity s]"

definition ls_linked :: "heap \<Rightarrow> LocalSlab \<Rightarrow> addr list" where
  "ls_linked m s = fl_blocks m (ls_free s)"

definition ls_held :: "heap \<Rightarrow> LocalSlab \<Rightarrow> addr multiset" where
  "ls_held m s = mset (ls_linked m s) + mset (ls_fresh s)"

definition ls_ok :: "(addr \<Rightarrow> AllocationHeader \<Rightarrow> bool) \<Rightarrow> heap \<Rightarrow> LocalSlab \<Rightarrow> bool" where
  "ls_ok L m s \<longleftrightarrow> geo_shape (ls_geometry s) \<and> ls_next_fresh s \<le> ls_capacity s \<and>
     fl_rep m (ls_free s) (ls_linked m s) \<and> set (ls_linked m s) \<subseteq> set (ls_blocks s) \<and>
     (\<forall>b\<in>set (ls_linked m s). L b (m b))"

interpretation local_slab: slab_shape ls_start ls_end_addr ls_blocks "LocalSlab_contains dbg" "\<lambda>s. geo_shape (ls_geometry s)"
  for dbg
proof
  show "ls_start s \<le> b \<and> b < ls_end_addr s" if "LocalSlab_contains dbg s b" for s b
    using that by (simp add: LocalSlab_contains_def)
  show "LocalSlab_contains dbg s b" if "geo_shape (ls_geometry s)" "b \<in> set (ls_blocks s)" for s b
  proof -
    have "0 < ls_block_size s" using that(1) by (simp add: geo_shape_def ls_geometry_def HEADER_SIZE_def)
    from in_blocks_of_iff [OF this, of b "ls_start s" "ls_capacity s"] show ?thesis
      using that by (simp add: LocalSlab_contains_def slab_addr_alignment_matches_def geo_block_list_def
          geo_shape_def ls_geometry_def)
  qed
  show "distinct (ls_blocks s)" if "geo_shape (ls_geometry s)" for s
    using that by (simp add: geo_block_list_def ls_geometry_def geo_shape_def HEADER_SIZE_def)
qed

lemma ls_fresh_blocks: "set (ls_fresh s) \<subseteq> set (ls_blocks s)"
  by (auto simp: ls_fresh_def geo_block_list_def ls_geometry_def blocks_of_def)

lemma ls_held_blocks: "ls_ok L m s \<Longrightarrow> b \<in># ls_held m s \<Longrightarrow> b \<in> set (ls_blocks s)"
  using ls_fresh_blocks by (auto simp: ls_ok_def ls_held_def)

lemma ls_fresh_Cons:
  "ls_next_fresh s < ls_capacity s \<Longrightarrow>
   ls_fresh s = (ls_start s + ls_next_fresh s * ls_block_size s) # ls_fresh (s\<lparr>ls_next_fresh := ls_next_fresh s + 1\<rparr>)"
  by (simp add: ls_fresh_def upt_conv_Cons)

lemma ls_fresh_Nil: "ls_fresh s = [] \<longleftrightarrow> ls_capacity s \<le> ls_next_fresh s"
  by (auto simp: ls_fresh_def)

lemma has_available_iff:
  assumes "ls_ok L m s"
  shows "has_available_blocks s \<longleftrightarrow> ls_held m s \<noteq> {#}"
proof -
  have "FreeList_is_empty (ls_free s) \<longleftrightarrow> ls_linked m s = []"
    using assms fl_rep_is_empty by (auto simp: ls_ok_def)
  then show ?thesis using ls_fresh_Nil [of s] by (auto simp: has_available_blocks_def ls_held_def)
qed

lemma ls_update_simps [simp]:
  "ls_geometry (s\<lparr>ls_available_slot := k\<rparr>) = ls_geometry s"
  "ls_geometry (s\<lparr>ls_free := l\<rparr>) = ls_geometry s"
  "ls_geometry (s\<lparr>ls_next_fresh := n\<rparr>) = ls_geometry s"
  "ls_fresh (s\<lparr>ls_available_slot := k\<rparr>) = ls_fresh s"
  "ls_fresh (s\<lparr>ls_free := l\<rparr>) = ls_fresh s"
  "ls_linked m (s\<lparr>ls_available_slot := k\<rparr>) = ls_linked m s"
  "ls_linked m (s\<lparr>ls_next_fresh := n\<rparr>) = ls_linked m s"
  "ls_held m (s\<lparr>ls_available_slot := k\<rparr>) = ls_held m s"
  "ls_ok L m (s\<lparr>ls_available_slot := k\<rparr>) = ls_ok L m s"
  "has_available_blocks (s\<lparr>ls_available_slot := k\<rparr>) = has_available_blocks s"
  by (simp_all add: ls_geometry_def ls_fresh_def ls_linked_def ls_held_def ls_ok_def has_available_blocks_def)

lemma ls_ok_frame:
  assumes ok: "ls_ok L m s" and same: "\<And>b. b \<in> set (ls_linked m s) \<Longrightarrow> m' b = m b"
  shows "ls_ok L m' s" "ls_held m' s = ls_held m s" "ls_linked m' s = ls_linked m s"
proof -
  have rep: "fl_rep m' (ls_free s) (ls_linked m s)"
    by (rule fl_rep_frame [OF _ same]) (use ok in \<open>simp add: ls_ok_def\<close>)
  then show l: "ls_linked m' s = ls_linked m s" by (simp add: ls_linked_def fl_rep_blocks)
  show "ls_held m' s = ls_held m s" by (simp add: ls_held_def l)
  show "ls_ok L m' s" using ok rep same by (auto simp: ls_ok_def l)
qed

lemma LocalSlab_pop_block_spec:
  assumes ok: "ls_ok L m s" and ne: "ls_held m s \<noteq> {#}"
  obtains b reuse s' where "LocalSlab_pop_block_unchecked dbg m s = Some (b, reuse, s')" "ls_ok L m s'"
    "ls_held m s = add_mset b (ls_held m s')" "ls_geometry s' = ls_geometry s"
    "ls_available_slot s' = ls_available_slot s"
    "reuse = HotReuseRequestedOnly \<and> L b (m b) \<or> reuse = NeedsHeaderRewrite"
proof -
  have av: "has_available_blocks s" using has_available_iff [OF ok] ne by simp
  have rep: "fl_rep m (ls_free s) (ls_linked m s)" using ok by (simp add: ls_ok_def)
  show ?thesis
  proof (cases "ls_linked m s")
    case (Cons b xs)
    obtain l where pop: "pop_block_unchecked dbg m (ls_free s) = Some (b, l)" "fl_rep m l xs"
      by (rule pop_block_unchecked_rep [OF rep [unfolded Cons]])
    let ?s = "s\<lparr>ls_free := l\<rparr>"
    have linked: "ls_linked m ?s = xs" using fl_rep_blocks [OF pop(2)] by (simp add: ls_linked_def)
    have "\<not> FreeList_is_empty (ls_free s)" using fl_rep_is_empty [OF rep] Cons by simp
    then have run: "LocalSlab_pop_block_unchecked dbg m s = Some (b, HotReuseRequestedOnly, ?s)"
      using av pop(1) by (simp add: LocalSlab_pop_block_unchecked_def)
    have "ls_ok L m ?s" using ok pop(2) Cons linked by (auto simp: ls_ok_def)
    moreover have "ls_held m s = add_mset b (ls_held m ?s)" using linked Cons by (simp add: ls_held_def)
    moreover have "L b (m b)" using ok Cons by (simp add: ls_ok_def)
    ultimately show ?thesis using that [OF run] by simp
  next
    case Nil
    then have lt: "ls_next_fresh s < ls_capacity s"
      using ne ls_fresh_Nil [of s] by (auto simp: ls_held_def)
    let ?b = "ls_start s + ls_next_fresh s * ls_block_size s" and ?s = "s\<lparr>ls_next_fresh := ls_next_fresh s + 1\<rparr>"
    have shape: "geo_shape (ls_geometry s)" using ok by (simp add: ls_ok_def)
    have in_s: "?b \<in> set (ls_blocks s)" using ls_fresh_Cons [OF lt] ls_fresh_blocks [of s] by auto
    note props = geo_block_props [OF shape in_s]
    have cap: "ls_capacity s \<le> ls_block_size s * ls_capacity s"
      using shape by (simp add: geo_shape_def ls_geometry_def HEADER_SIZE_def)
    moreover have "ls_start s + ls_block_size s * ls_capacity s \<le> usize_max"
      using shape by (simp add: geo_shape_def ls_geometry_def)
    ultimately have "ls_next_fresh s + 1 \<le> usize_max" using lt by linarith
    moreover have "FreeList_is_empty (ls_free s)" using fl_rep_is_empty [OF rep] Nil by simp
    ultimately have run: "LocalSlab_pop_block_unchecked dbg m s = Some (?b, NeedsHeaderRewrite, ?s)"
      using av lt props(3,4)
      by (simp add: LocalSlab_pop_block_unchecked_def checked_mul_def checked_add_def Let_def)
    have "ls_ok L m ?s" using ok lt by (simp add: ls_ok_def)
    moreover have "ls_held m s = add_mset ?b (ls_held m ?s)"
      using ls_fresh_Cons [OF lt] by (simp add: ls_held_def)
    ultimately show ?thesis using that [OF run] by simp
  qed
qed

lemma LocalSlab_push_block_spec:
  assumes ok: "ls_ok L m s" and b: "b \<in> set (ls_blocks s)" "b \<notin># ls_held m s" "L b (m b)"
    and L: "link_insensitive L"
  obtains m' s' where "LocalSlab_push_block dbg m s b = Some (m', s')" "ls_ok L m' s'"
    "ls_held m' s' = add_mset b (ls_held m s)" "link_frame {b} m m'"
    "ls_geometry s' = ls_geometry s" "ls_available_slot s' = ls_available_slot s"
proof -
  let ?xs = "ls_linked m s"
  have rep: "fl_rep m (ls_free s) ?xs" and shape: "geo_shape (ls_geometry s)" using ok by (simp_all add: ls_ok_def)
  have nb: "b \<notin> set ?xs" using b(2) by (simp add: ls_held_def)
  note props = geo_block_props [OF shape b(1)]
  have "length (b # ?xs) \<le> usize_max"
  proof (rule distinct_addrs_length)
    show "distinct (b # ?xs)" using nb fl_rep_distinct [OF rep] by simp
    fix x assume "x \<in> set (b # ?xs)"
    then have "x \<in> set (ls_blocks s)" using b(1) ok by (auto simp: ls_ok_def)
    then show "0 < x \<and> x \<le> usize_max" using geo_block_props [OF shape] by blast
  qed
  then have len: "length ?xs < usize_max" by simp
  obtain m' l where push: "push_block m (ls_free s) b = Some (m', l)" "fl_rep m' l (b # ?xs)" "link_frame {b} m m'"
    by (rule push_block_rep [OF rep nb _ len]) (use props in auto)
  let ?s = "s\<lparr>ls_free := l\<rparr>"
  have linked: "ls_linked m' ?s = b # ?xs" using fl_rep_blocks [OF push(2)] by (simp add: ls_linked_def)
  have "ls_ok L m' ?s"
    using ok push(2) b(1,3) link_frame_H [OF push(3) L] unfolding ls_ok_def linked by auto
  moreover have "LocalSlab_push_block dbg m s b = Some (m', ?s)"
    using push(1) local_slab.contains_block [OF shape b(1)] by (simp add: LocalSlab_push_block_def)
  moreover have "ls_held m' ?s = add_mset b (ls_held m s)" by (simp add: ls_held_def linked)
  ultimately show ?thesis using that push(3) by simp
qed

subsection \<open>Detaching a batch from a slab\<close>

lemma reclaim_loop_spec:
  assumes "fl_rep m src xs" "n \<le> length xs" "length xs \<le> usize_max"
  obtains m' src' dst' where "reclaim_loop dbg m src FreeList_new n = Some (m', src', dst')"
    "fl_rep m' src' (drop n xs)" "fl_rep m' dst' (rev (take n xs))" "link_frame (set (take n xs)) m m'"
  using fl.transfer_loop [of "reclaim_loop dbg" dbg m src xs FreeList_new "[]" n] assms by auto

lemma fresh_loop_spec:
  assumes "fl_rep m dst ys" "\<And>i. i < n \<Longrightarrow> 0 < a + i * bs \<and> 64 dvd a + i * bs \<and> a + i * bs + bs \<le> usize_max"
    and "0 < bs" "\<And>i. i < n \<Longrightarrow> a + i * bs \<notin> set ys" "length ys + n \<le> usize_max"
  shows "\<exists>m' dst'. fresh_loop dbg c bs m a dst n = Some (m', dst') \<and>
    fl_rep m' dst' (rev (blocks_of a bs n) @ ys) \<and> (\<forall>x. x \<notin> set (blocks_of a bs n) \<longrightarrow> m' x = m x) \<and>
    (\<forall>x\<in>set (blocks_of a bs n). idle_header dbg' c x (m' x))"
  using assms
proof (induction n arbitrary: m a dst ys)
  case 0
  then show ?case by (simp add: blocks_of_def)
next
  case (Suc n)
  have a: "0 < a" "64 dvd a" "a + bs \<le> usize_max" "a \<notin> set ys" using Suc.prems(2) [of 0] Suc.prems(4) [of 0] by auto
  have split: "blocks_of a bs (Suc n) = a # blocks_of (a + bs) bs n"
    by (simp add: blocks_of_def upt_conv_Cons map_Suc_upt [symmetric] add.assoc del: upt_Suc)
  obtain m1 where init: "initialize_small_to_block_unchecked dbg m a c = Some m1" "idle_header dbg' c a (m1 a)"
    "\<And>x. x \<noteq> a \<Longrightarrow> m1 x = m x"
    by (rule initialize_small_spec [OF a(2), where dbg = dbg and m = m and c = c and dbg' = dbg']) blast
  have rep1: "fl_rep m1 dst ys" by (rule fl_rep_frame [OF Suc.prems(1)]) (use init(3) a(4) in metis)
  have len: "length ys < usize_max" using Suc.prems(5) by simp
  obtain m2 dst2 where push: "push_block m1 dst a = Some (m2, dst2)" "fl_rep m2 dst2 (a # ys)" "link_frame {a} m1 m2"
    by (rule push_block_rep [OF rep1 a(4) _ len]) (use a(1) in auto)
  have step: "a + bs + i * bs = a + Suc i * bs" for i by simp
  have notin: "a + bs + i * bs \<notin> set (a # ys)" if "i < n" for i
    unfolding step using Suc.prems(3) Suc.prems(4) [of "Suc i"] that by simp
  have "\<exists>m' dst'. fresh_loop dbg c bs m2 (a + bs) dst2 n = Some (m', dst') \<and>
    fl_rep m' dst' (rev (blocks_of (a + bs) bs n) @ a # ys) \<and>
    (\<forall>x. x \<notin> set (blocks_of (a + bs) bs n) \<longrightarrow> m' x = m2 x) \<and>
    (\<forall>x\<in>set (blocks_of (a + bs) bs n). idle_header dbg' c x (m' x))"
  proof (rule Suc.IH [OF push(2) _ Suc.prems(3) notin])
    show "0 < a + bs + i * bs \<and> 64 dvd a + bs + i * bs \<and> a + bs + i * bs + bs \<le> usize_max" if "i < n" for i
      unfolding step using Suc.prems(2) [of "Suc i"] that by simp
    show "length (a # ys) + n \<le> usize_max" using Suc.prems(5) by simp
  qed
  then obtain m' dst' where IH: "fresh_loop dbg c bs m2 (a + bs) dst2 n = Some (m', dst')"
    "fl_rep m' dst' (rev (blocks_of (a + bs) bs n) @ a # ys)"
    "\<And>x. x \<notin> set (blocks_of (a + bs) bs n) \<Longrightarrow> m' x = m2 x"
    "\<And>x. x \<in> set (blocks_of (a + bs) bs n) \<Longrightarrow> idle_header dbg' c x (m' x)" by blast
  have a_out: "a \<notin> set (blocks_of (a + bs) bs n)" using Suc.prems(3) by (auto simp: blocks_of_def)
  have "idle_header dbg' c a (m' a)"
    using IH(3) [OF a_out] link_frame_H [OF push(3) idle_link_insensitive] init(2) by simp
  moreover have "m' x = m x" if "x \<noteq> a" "x \<notin> set (blocks_of (a + bs) bs n)" for x
    using IH(3) [OF that(2)] link_frame_outside [OF push(3), of x] init(3) that(1) by simp
  moreover have "fresh_loop dbg c bs m a dst (Suc n) = Some (m', dst')"
    using a init(1) push(1) IH(1) by simp
  ultimately show ?case using IH(2,4) unfolding split by auto
qed

lemma ls_fresh_take:
  assumes "k \<le> ls_capacity s - ls_next_fresh s" "ls_next_fresh s \<le> ls_capacity s"
  shows "ls_fresh s = blocks_of (ls_start s + ls_next_fresh s * ls_block_size s) (ls_block_size s) k @
    ls_fresh (s\<lparr>ls_next_fresh := ls_next_fresh s + k\<rparr>)"
proof -
  have "[ls_next_fresh s..<ls_capacity s] = map (\<lambda>i. i + ls_next_fresh s) [0..<k] @ [ls_next_fresh s + k..<ls_capacity s]"
    using assms upt_add_eq_append [of "ls_next_fresh s" "ls_next_fresh s + k" "ls_capacity s - (ls_next_fresh s + k)"]
    by (simp add: map_add_upt add.commute)
  then show ?thesis by (simp add: ls_fresh_def blocks_of_def comp_def algebra_simps)
qed

lemma LocalSlab_pop_batch_spec:
  assumes ok: "ls_ok (local_header dbg' c ow) m s"
    and ne: "ls_held m s \<noteq> {#}" and d: "dset (ls_held m s)" and mx: "0 < mx"
  obtains m' s' batch xs where "LocalSlab_pop_batch dbg m s mx c = Some (m', s', batch)"
    "ls_ok (local_header dbg' c ow) m' s'"
    "batch_rep m' batch xs" "ls_held m s = mset xs + ls_held m' s'" "xs \<noteq> []" "length xs = min mx (size (ls_held m s))"
    "\<And>x. x \<in> set xs \<Longrightarrow> idle_header dbg' c x (m' x)" "\<And>x. x \<notin> set xs \<Longrightarrow> m' x = m x"
    "ls_geometry s' = ls_geometry s" "ls_available_slot s' = ls_available_slot s"
proof -
  let ?xs = "ls_linked m s" and ?bs = "ls_block_size s" and ?nf = "ls_next_fresh s"
  have rep: "fl_rep m (ls_free s) ?xs" and shape: "geo_shape (ls_geometry s)" and nf: "?nf \<le> ls_capacity s"
    and sub: "set ?xs \<subseteq> set (ls_blocks s)" and Lx: "\<forall>b\<in>set ?xs. local_header dbg' c ow b (m b)" using ok by (simp_all add: ls_ok_def)
  have av: "has_available_blocks s" using has_available_iff [OF ok] ne by simp
  have size_max: "size (ls_held m s) \<le> usize_max"
    by (rule dset_size [OF d]) (use ls_held_blocks [OF ok] geo_block_props [OF shape] in blast)
  then have lens: "length ?xs + (ls_capacity s - ?nf) \<le> usize_max" by (simp add: ls_held_def ls_fresh_def)
  define r where "r = min (length ?xs) mx"
  define k where "k = min (mx - r) (ls_capacity s - ?nf)"
  obtain m1 free' list1 where rl: "reclaim_loop dbg m (ls_free s) FreeList_new r = Some (m1, free', list1)"
    "fl_rep m1 free' (drop r ?xs)" "fl_rep m1 list1 (rev (take r ?xs))" "link_frame (set (take r ?xs)) m m1"
    by (rule reclaim_loop_spec [OF rep, of r]) (use lens in \<open>auto simp: r_def\<close>)
  let ?a = "ls_start s + ?nf * ?bs"
  let ?zs = "blocks_of ?a ?bs k"
  note fr_split = ls_fresh_take [of k s, OF _ nf]
  have kle: "k \<le> ls_capacity s - ?nf" by (simp add: k_def)
  have zs_held: "set ?zs \<subseteq> set (ls_fresh s)" using fr_split kle by simp
  have disj: "x \<notin> set ?xs" if "x \<in> set (ls_fresh s)" for x
    using d that unfolding ls_held_def dset_union by auto
  have dist: "distinct ?xs" by (rule fl_rep_distinct [OF rep])
  have bs: "0 < ?bs" using shape by (simp add: geo_shape_def ls_geometry_def HEADER_SIZE_def)
  have z: "0 < ?a + i * ?bs \<and> 64 dvd ?a + i * ?bs \<and> ?a + i * ?bs + ?bs \<le> usize_max" if "i < k" for i
  proof -
    have "?nf + i < ls_capacity s" using that kle by simp
    then have "(?nf + i + 1) * ?bs \<le> ls_capacity s * ?bs" by (intro mult_right_mono) auto
    then have "?a + i * ?bs + ?bs \<le> ls_start s + ?bs * ls_capacity s" by (simp add: algebra_simps)
    then show ?thesis using shape by (auto simp: geo_shape_def ls_geometry_def)
  qed
  have zi: "?a + i * ?bs \<in> set ?zs" if "i < k" for i using that by (auto simp: blocks_of_def)
  have "\<exists>m' dst'. fresh_loop dbg c ?bs m1 ?a list1 k = Some (m', dst') \<and>
    fl_rep m' dst' (rev ?zs @ rev (take r ?xs)) \<and> (\<forall>x. x \<notin> set ?zs \<longrightarrow> m' x = m1 x) \<and>
    (\<forall>x\<in>set ?zs. idle_header dbg' c x (m' x))"
  proof (rule fresh_loop_spec [OF rl(3) z bs])
    show "?a + i * ?bs \<notin> set (rev (take r ?xs))" if "i < k" for i
      using disj zs_held zi [OF that] by (auto dest: in_set_takeD)
    show "length (rev (take r ?xs)) + k \<le> usize_max" using lens by (auto simp: r_def k_def)
  qed
  then obtain m2 list2 where fl2: "fresh_loop dbg c ?bs m1 ?a list1 k = Some (m2, list2)"
    "fl_rep m2 list2 (rev ?zs @ rev (take r ?xs))" "\<And>x. x \<notin> set ?zs \<Longrightarrow> m2 x = m1 x"
    "\<And>x. x \<in> set ?zs \<Longrightarrow> idle_header dbg' c x (m2 x)" by blast
  let ?ys = "rev ?zs @ rev (take r ?xs)"
  have len: "length ?ys = r + k" by (simp add: r_def)
  have sizeh: "size (ls_held m s) = length ?xs + (ls_capacity s - ?nf)" by (simp add: ls_held_def ls_fresh_def)
  have rk: "r + k = min mx (size (ls_held m s))" unfolding sizeh r_def k_def by auto
  have pos: "0 < r + k" unfolding rk using mx ne by (simp add: nonempty_has_size)
  then have yne: "?ys \<noteq> []" using len by (metis length_greater_0_conv)
  obtain m3 l3 batch where pb: "pop_batch_unchecked dbg m2 list2 (r + k) = Some (m3, l3, batch)"
    "batch_rep m3 batch (take (r + k) ?ys)" "link_frame (set (take (r + k) ?ys)) m2 m3"
    by (rule pop_batch_unchecked_rep [OF fl2(2) yne pos]) blast
  have tk: "take (r + k) ?ys = ?ys" using len by simp
  define s' where "s' = s\<lparr>ls_free := free', ls_next_fresh := ?nf + k\<rparr>"
  have frame: "m3 x = m x" if "x \<notin> set ?ys" for x
    using that link_frame_outside [OF pb(3), of x] fl2(3) [of x] link_frame_outside [OF rl(4), of x] tk by simp
  have dx: "set (drop r ?xs) \<inter> set ?ys = {}"
    using dist disj zs_held set_take_disj_set_drop_if_distinct [OF dist, of r r] by (auto dest: in_set_dropD)
  have "fl_rep m3 free' (drop r ?xs)"
  proof (rule fl_rep_frame [OF rl(2)])
    fix x assume "x \<in> set (drop r ?xs)"
    then have x: "x \<notin> set ?ys" using dx by blast
    then show "m3 x = m1 x" using link_frame_outside [OF pb(3), of x] fl2(3) [of x] tk by simp
  qed
  moreover from this have linked: "ls_linked m3 s' = drop r ?xs" using fl_rep_blocks by (simp add: s'_def ls_linked_def)
  moreover have "\<forall>b\<in>set (drop r ?xs). local_header dbg' c ow b (m3 b)"
    using Lx frame dx by (metis IntI empty_iff in_set_dropD)
  ultimately have ok': "ls_ok (local_header dbg' c ow) m3 s'"
    using shape sub kle nf unfolding ls_ok_def linked by (auto simp: s'_def dest!: in_set_dropD)
  have held: "ls_held m s = mset ?ys + ls_held m3 s'"
  proof -
    have "mset (ls_fresh s) = mset ?zs + mset (ls_fresh s')"
      using fr_split kle by (simp add: s'_def ls_fresh_def)
    moreover have "mset ?xs = mset (take r ?xs) + mset (drop r ?xs)"
      by (metis append_take_drop_id mset_append)
    ultimately show ?thesis unfolding ls_held_def linked by (simp add: ac_simps)
  qed
  have hdr: "idle_header dbg' c x (m3 x)" if "x \<in> set ?ys" for x
  proof -
    have "idle_header dbg' c x (m2 x)"
    proof (cases "x \<in> set ?zs")
      case False
      then have x: "x \<in> set (take r ?xs)" using that by simp
      then have "local_header dbg' c ow x (m x)" using Lx by (auto dest: in_set_takeD)
      then have "local_header dbg' c ow x (m1 x)" using link_frame_H [OF rl(4) local_link_insensitive] by simp
      then show ?thesis using local_idle fl2(3) [OF False] by simp
    qed (rule fl2(4))
    then show ?thesis using link_frame_H [OF pb(3) idle_link_insensitive] by simp
  qed
  have "ls_start s + ls_capacity s * ?bs \<le> usize_max"
    using shape by (simp add: geo_shape_def ls_geometry_def mult.commute)
  moreover have "?nf * ?bs \<le> ls_capacity s * ?bs" using nf by (rule mult_right_mono) simp
  ultimately have "?nf * ?bs \<le> usize_max" "?a \<le> usize_max" by linarith+
  moreover from this(2) have "wrapping_add (ls_start s) (?nf * ?bs) = ?a" by simp
  moreover have "?nf + k \<le> usize_max" "r + k \<le> usize_max"
  proof -
    have "ls_capacity s * 1 \<le> ls_capacity s * ?bs" using bs by (intro mult_left_mono) auto
    moreover have "ls_start s + ls_capacity s * ?bs \<le> usize_max"
      using shape by (simp add: geo_shape_def ls_geometry_def mult.commute)
    moreover have "?nf + k \<le> ls_capacity s" using kle nf by simp
    ultimately show "?nf + k \<le> usize_max" by linarith
    show "r + k \<le> usize_max" unfolding rk using size_max by simp
  qed
  ultimately have "LocalSlab_pop_batch dbg m s mx c = Some (m3, s', batch)"
    using mx av rl(1) fl2(1) pb(1) pos nf fl_rep_len [OF rep]
    by (simp add: LocalSlab_pop_batch_def s'_def r_def [symmetric] k_def [symmetric] checked_sub_def
        checked_add_def checked_mul_def Let_def) (simp add: r_def)
  moreover have "ls_geometry s' = ls_geometry s" "ls_available_slot s' = ls_available_slot s"
    by (simp_all add: s'_def)
  ultimately show ?thesis
    using that ok' pb(2) tk held yne len rk hdr frame by metis
qed

end
