(* ===== verification/Local_Cache_Ops.thy ===== *)
theory Local_Cache_Ops
  imports Local_Cache_Inv
begin

text \<open>
  The cache of one class (\<open>LocalClassCache\<close> of \<^verbatim>\<open>src/src/thread_cache.rs\<close>): its invariant and
  what each of its operations does to the multiset \<open>lc_blocks m lc\<close> of blocks it holds (the
  hot block, the reclaimed and the never used blocks of its slabs, and the shared list).
  \<open>geos\<close> are the slabs the central pool has registered for the class, and \<open>ow\<close> is the id of
  the cache, which the blocks reused without an owner update already carry.
\<close>

section \<open>The invariant\<close>

definition lc_slab_blocks :: "heap \<Rightarrow> LocalClassCache \<Rightarrow> addr multiset" where
  "lc_slab_blocks m lc = sum_list (map (ls_held m) (lc_slabs lc))"

definition lc_shared_blocks :: "heap \<Rightarrow> LocalClassCache \<Rightarrow> addr list" where
  "lc_shared_blocks m lc = fl_blocks m (lc_shared lc)"

definition lc_hot :: "LocalClassCache \<Rightarrow> addr multiset" where
  "lc_hot lc = (case lc_hot_block lc of None \<Rightarrow> {#} | Some b \<Rightarrow> {#b#})"

definition lc_blocks :: "heap \<Rightarrow> LocalClassCache \<Rightarrow> addr multiset" where
  "lc_blocks m lc = lc_hot lc + lc_slab_blocks m lc + mset (lc_shared_blocks m lc)"

definition lc_parts :: "bool \<Rightarrow> SizeClass \<Rightarrow> u32 \<Rightarrow> geometry set \<Rightarrow> heap \<Rightarrow> LocalClassCache \<Rightarrow> bool" where
  "lc_parts dbg c ow geos m lc \<longleftrightarrow>
     index_ok ls_start ls_end_addr (lc_slabs lc) (lc_slabs_by_start lc) \<and>
     (\<forall>s\<in>set (lc_slabs lc). ls_ok (local_header dbg c ow) m s \<and> ls_geometry s \<in> geos) \<and>
     (\<forall>i. lc_recent_slab lc = Some i \<longrightarrow> i < length (lc_slabs lc)) \<and>
     fl_rep m (lc_shared lc) (lc_shared_blocks m lc) \<and> lc_shared_len lc = length (lc_shared_blocks m lc) \<and>
     (\<forall>b\<in>set (lc_shared_blocks m lc). idle_header dbg c b (m b)) \<and>
     (\<forall>b. lc_hot_block lc = Some b \<longrightarrow> local_header dbg c ow b (m b))"

text \<open>The list of available slabs; \<open>av\<close> says which slabs it should hold.\<close>

definition avail_inv :: "(SlabId \<Rightarrow> bool) \<Rightarrow> LocalClassCache \<Rightarrow> bool" where
  "avail_inv av lc \<longleftrightarrow>
     bucket_ok (lc_available_slabs lc) (\<lambda>i. i < length (lc_slabs lc) \<and> av i)
       (\<lambda>i. ls_available_slot (lc_slabs lc ! i)) \<and>
     (\<forall>i<length (lc_slabs lc). \<not> av i \<longrightarrow> ls_available_slot (lc_slabs lc ! i) = None)"

abbreviation avail :: "LocalClassCache \<Rightarrow> SlabId \<Rightarrow> bool" where
  "avail lc i \<equiv> has_available_blocks (lc_slabs lc ! i)"

definition lc_inv :: "bool \<Rightarrow> SizeClass \<Rightarrow> u32 \<Rightarrow> geometry set \<Rightarrow> heap \<Rightarrow> LocalClassCache \<Rightarrow> bool" where
  "lc_inv dbg c ow geos m lc \<longleftrightarrow> lc_parts dbg c ow geos m lc \<and> avail_inv (avail lc) lc \<and>
     lc_total_len lc = size (lc_blocks m lc) \<and> dset (lc_blocks m lc) \<and>
     set_mset (lc_blocks m lc) \<subseteq> geo_blocks geos"

lemma lc_invD:
  assumes "lc_inv dbg c ow geos m lc"
  shows "lc_parts dbg c ow geos m lc" "avail_inv (avail lc) lc" "lc_total_len lc = size (lc_blocks m lc)"
    "dset (lc_blocks m lc)" "set_mset (lc_blocks m lc) \<subseteq> geo_blocks geos"
  using assms by (auto simp: lc_inv_def)

lemma lc_partsD:
  assumes "lc_parts dbg c ow geos m lc"
  shows "index_ok ls_start ls_end_addr (lc_slabs lc) (lc_slabs_by_start lc)"
    "\<And>i. i < length (lc_slabs lc) \<Longrightarrow> ls_ok (local_header dbg c ow) m (lc_slabs lc ! i)"
    "\<And>i. i < length (lc_slabs lc) \<Longrightarrow> ls_geometry (lc_slabs lc ! i) \<in> geos"
    "\<And>i. i < length (lc_slabs lc) \<Longrightarrow> geo_shape (ls_geometry (lc_slabs lc ! i))"
    "\<And>i. lc_recent_slab lc = Some i \<Longrightarrow> i < length (lc_slabs lc)"
    "fl_rep m (lc_shared lc) (lc_shared_blocks m lc)" "lc_shared_len lc = length (lc_shared_blocks m lc)"
    "\<And>b. b \<in> set (lc_shared_blocks m lc) \<Longrightarrow> idle_header dbg c b (m b)"
    "\<And>b. lc_hot_block lc = Some b \<Longrightarrow> local_header dbg c ow b (m b)"
  using assms by (auto simp: lc_parts_def ls_ok_def)

lemma lc_inv_new [simp]:
  "lc_inv dbg c ow geos m LocalClassCache_new" "lc_blocks m LocalClassCache_new = {#}"
proof -
  have sh: "lc_shared_blocks m LocalClassCache_new = []"
    using fl_rep_blocks [of m FreeList_new "[]"] by (simp add: lc_shared_blocks_def LocalClassCache_new_def)
  show b: "lc_blocks m LocalClassCache_new = {#}" unfolding lc_blocks_def sh
    by (simp add: lc_hot_def lc_slab_blocks_def LocalClassCache_new_def)
  show "lc_inv dbg c ow geos m LocalClassCache_new"
    unfolding lc_inv_def b lc_parts_def sh
    by (simp add: LocalClassCache_new_def avail_inv_def bucket_ok_Nil)
qed

lemma lc_inv_mono: "lc_inv dbg c ow geos m lc \<Longrightarrow> geos \<subseteq> geos' \<Longrightarrow> lc_inv dbg c ow geos' m lc"
  unfolding lc_inv_def lc_parts_def geo_blocks_def by blast

lemma in_lc_slab_blocks:
  "i < length (lc_slabs lc) \<Longrightarrow> b \<in># ls_held m (lc_slabs lc ! i) \<Longrightarrow> b \<in># lc_slab_blocks m lc"
  by (auto simp: lc_slab_blocks_def intro!: bexI [OF _ nth_mem])

lemma in_lc_blocks:
  "b \<in># lc_blocks m lc \<longleftrightarrow> lc_hot_block lc = Some b \<or>
     (\<exists>i<length (lc_slabs lc). b \<in># ls_held m (lc_slabs lc ! i)) \<or> b \<in> set (lc_shared_blocks m lc)"
proof -
  have "b \<in># lc_slab_blocks m lc \<longleftrightarrow> (\<exists>i<length (lc_slabs lc). b \<in># ls_held m (lc_slabs lc ! i))"
    by (simp add: lc_slab_blocks_def) (metis in_set_conv_nth)
  then show ?thesis by (auto simp: lc_blocks_def lc_hot_def split: option.split)
qed

section \<open>Changes of memory and of one slab\<close>

lemma lc_parts_frame:
  assumes parts: "lc_parts dbg c ow geos m lc" and same: "\<And>b. b \<in># lc_blocks m lc \<Longrightarrow> m' b = m b"
  shows "lc_parts dbg c ow geos m' lc" "lc_slab_blocks m' lc = lc_slab_blocks m lc"
    "lc_shared_blocks m' lc = lc_shared_blocks m lc" "lc_blocks m' lc = lc_blocks m lc"
proof -
  note P = lc_partsD [OF parts]
  have linked: "m' b = m b" if "i < length (lc_slabs lc)" "b \<in> set (ls_linked m (lc_slabs lc ! i))" for i b
    by (rule same) (use that in \<open>auto simp: in_lc_blocks ls_held_def\<close>)
  have ok: "ls_ok (local_header dbg c ow) m' (lc_slabs lc ! i)"
    "ls_held m' (lc_slabs lc ! i) = ls_held m (lc_slabs lc ! i)" if "i < length (lc_slabs lc)" for i
    using ls_ok_frame [OF P(2) [OF that] linked [OF that]] by simp_all
  have "map (ls_held m') (lc_slabs lc) = map (ls_held m) (lc_slabs lc)"
    using ok(2) by (intro nth_equalityI) simp_all
  then show sl: "lc_slab_blocks m' lc = lc_slab_blocks m lc" by (simp only: lc_slab_blocks_def)
  have shared: "m' b = m b" if "b \<in> set (lc_shared_blocks m lc)" for b
    by (rule same) (use that in \<open>simp add: in_lc_blocks\<close>)
  have rep: "fl_rep m' (lc_shared lc) (lc_shared_blocks m lc)" by (rule fl_rep_frame [OF P(6) shared])
  then show sh: "lc_shared_blocks m' lc = lc_shared_blocks m lc" by (simp add: lc_shared_blocks_def fl_rep_blocks)
  show "lc_blocks m' lc = lc_blocks m lc" by (simp add: lc_blocks_def sl sh)
  have hot: "local_header dbg c ow b (m' b)" if "lc_hot_block lc = Some b" for b
    using P(9) [OF that] same [of b] that by (simp add: in_lc_blocks)
  have slabs: "ls_ok (local_header dbg c ow) m' s \<and> ls_geometry s \<in> geos" if "s \<in> set (lc_slabs lc)" for s
    using ok(1) P(3) that by (metis in_set_conv_nth)
  show "lc_parts dbg c ow geos m' lc"
    unfolding lc_parts_def sh using P(1,5,7) P(8) shared rep hot slabs by simp
qed

lemma lc_inv_frame:
  assumes inv: "lc_inv dbg c ow geos m lc" and same: "\<And>b. b \<in># lc_blocks m lc \<Longrightarrow> m' b = m b"
  shows "lc_inv dbg c ow geos m' lc" "lc_blocks m' lc = lc_blocks m lc"
  using lc_parts_frame [OF lc_invD(1) [OF inv] same] inv by (simp_all add: lc_inv_def)

text \<open>
  Replacing the record of one slab, when memory changes only outside the blocks that the
  class holds elsewhere.
\<close>

lemma lc_parts_set_slab:
  assumes parts: "lc_parts dbg c ow geos m lc" and i: "i < length (lc_slabs lc)"
    and ok: "ls_ok (local_header dbg c ow) m' s" and geo: "ls_geometry s = ls_geometry (lc_slabs lc ! i)"
    and d: "dset (lc_blocks m lc)"
    and same: "\<And>b. b \<in># lc_blocks m lc \<Longrightarrow> b \<notin># ls_held m (lc_slabs lc ! i) \<Longrightarrow> m' b = m b"
  defines "lc' \<equiv> lc\<lparr>lc_slabs := (lc_slabs lc)[i := s]\<rparr>"
  shows "lc_parts dbg c ow geos m' lc'"
    "lc_blocks m' lc' + ls_held m (lc_slabs lc ! i) = lc_blocks m lc + ls_held m' s"
proof -
  note P = lc_partsD [OF parts]
  let ?f = "ls_held m" and ?xs = "lc_slabs lc"
  have split: "lc_blocks m lc = ls_held m (?xs ! i) +
      (lc_hot lc + sum_list (map ?f (?xs[i := s\<lparr>ls_free := FreeList_new, ls_next_fresh := ls_capacity s\<rparr>])) +
       mset (lc_shared_blocks m lc))" 
  proof -
    let ?e = "s\<lparr>ls_free := FreeList_new, ls_next_fresh := ls_capacity s\<rparr>"
    have "ls_held m ?e = {#}"
      using fl_rep_blocks [of m FreeList_new "[]"] by (simp add: ls_held_def ls_linked_def ls_fresh_def)
    then have "sum_list (map ?f (?xs[i := ?e])) + ?f (?xs ! i) = sum_list (map ?f ?xs)"
      using sum_list_map_update [OF i, of ?f ?e] by simp
    then show ?thesis by (simp add: lc_blocks_def lc_slab_blocks_def ac_simps)
  qed
  have apart: "b \<notin># ls_held m (?xs ! i)" if "lc_hot_block lc = Some b \<or> b \<in> set (lc_shared_blocks m lc) \<or>
      (\<exists>j<length ?xs. j \<noteq> i \<and> b \<in># ls_held m (?xs ! j))" for b
  proof -
    have "b \<in># lc_hot lc + sum_list (map ?f (?xs[i := s\<lparr>ls_free := FreeList_new, ls_next_fresh := ls_capacity s\<rparr>])) +
       mset (lc_shared_blocks m lc)"
      using that i by (auto simp: lc_hot_def set_conv_nth nth_list_update)
    then show ?thesis using d unfolding split dset_union by blast
  qed
  have linked: "m' b = m b" if j: "j < length ?xs" "j \<noteq> i" and b: "b \<in> set (ls_linked m (?xs ! j))" for j b
  proof (rule same)
    have held: "b \<in># ls_held m (?xs ! j)" using b by (simp add: ls_held_def)
    then show "b \<in># lc_blocks m lc" using j(1) by (auto simp: in_lc_blocks)
    show "b \<notin># ls_held m (?xs ! i)" by (rule apart) (use held j in blast)
  qed
  have okj: "ls_ok (local_header dbg c ow) m' (?xs ! j)" "ls_held m' (?xs ! j) = ls_held m (?xs ! j)"
    if "j < length ?xs" "j \<noteq> i" for j
    using ls_ok_frame [OF P(2) [OF that(1)] linked [OF that]] by simp_all
  have shared: "m' b = m b" if "b \<in> set (lc_shared_blocks m lc)" for b
    by (rule same) (use that apart in \<open>auto simp: in_lc_blocks\<close>)
  have rep: "fl_rep m' (lc_shared lc) (lc_shared_blocks m lc)" by (rule fl_rep_frame [OF P(6) shared])
  then have sh: "lc_shared_blocks m' lc' = lc_shared_blocks m lc"
    by (simp add: lc_shared_blocks_def lc'_def fl_rep_blocks)
  have hot: "local_header dbg c ow b (m' b)" if "lc_hot_block lc = Some b" for b
    using P(9) [OF that] same [of b] apart that by (simp add: in_lc_blocks)
  have "ls_ok (local_header dbg c ow) m' (?xs[i := s] ! j) \<and> ls_geometry (?xs[i := s] ! j) \<in> geos"
    if "j < length ?xs" for j
    using that ok okj(1) geo P(3) by (cases "j = i") auto
  then have slabs: "\<forall>t\<in>set (?xs[i := s]). ls_ok (local_header dbg c ow) m' t \<and> ls_geometry t \<in> geos"
    by (simp add: all_set_conv_all_nth)
  have idx: "index_ok ls_start ls_end_addr (?xs[i := s]) (lc_slabs_by_start lc)"
    by (rule index_ok_update [OF P(1) i]) (use geo in \<open>simp_all add: ls_geometry_def\<close>)
  show "lc_parts dbg c ow geos m' lc'"
    unfolding lc_parts_def sh using idx slabs P(5,7) P(8) shared rep hot by (simp add: lc'_def)
  have "map (ls_held m') (?xs[i := s]) = (map ?f ?xs)[i := ls_held m' s]"
    using okj(2) i by (intro nth_equalityI) (auto simp: nth_list_update)
  then have "lc_slab_blocks m' lc' + ls_held m (?xs ! i) = lc_slab_blocks m lc + ls_held m' s"
    using sum_list_map_update [of i "map ?f ?xs" id "ls_held m' s"] i by (simp add: lc_slab_blocks_def lc'_def)
  then show "lc_blocks m' lc' + ls_held m (?xs ! i) = lc_blocks m lc + ls_held m' s"
    unfolding lc_blocks_def sh by (simp add: lc'_def lc_hot_def ac_simps)
qed

section \<open>The list of available slabs\<close>

text \<open>\<open>lc'\<close> differs from \<open>lc\<close> in the list of available slabs and its back-pointers only.\<close>

definition slot_eq :: "LocalClassCache \<Rightarrow> LocalClassCache \<Rightarrow> bool" where
  "slot_eq lc lc' \<longleftrightarrow>
     map (ls_available_slot_update (\<lambda>_. None)) (lc_slabs lc') =
       map (ls_available_slot_update (\<lambda>_. None)) (lc_slabs lc) \<and>
     lc'\<lparr>lc_slabs := [], lc_available_slabs := []\<rparr> = lc\<lparr>lc_slabs := [], lc_available_slabs := []\<rparr>"

lemma slot_eq_refl [simp]: "slot_eq lc lc"
  by (simp add: slot_eq_def)

lemma slot_eq_fields:
  assumes "slot_eq lc lc'"
  shows "lc_hot_block lc' = lc_hot_block lc" "lc_slabs_by_start lc' = lc_slabs_by_start lc"
    "lc_recent_slab lc' = lc_recent_slab lc" "lc_shared lc' = lc_shared lc"
    "lc_shared_len lc' = lc_shared_len lc" "lc_total_len lc' = lc_total_len lc"
    "length (lc_slabs lc') = length (lc_slabs lc)"
proof -
  have "f (lc'\<lparr>lc_slabs := [], lc_available_slabs := []\<rparr>) = f (lc\<lparr>lc_slabs := [], lc_available_slabs := []\<rparr>)"
    for f :: "LocalClassCache \<Rightarrow> 'x" using assms by (simp add: slot_eq_def)
  from this [of lc_hot_block] this [of lc_slabs_by_start] this [of lc_recent_slab] this [of lc_shared]
    this [of lc_shared_len] this [of lc_total_len]
  show "lc_hot_block lc' = lc_hot_block lc" "lc_slabs_by_start lc' = lc_slabs_by_start lc"
    "lc_recent_slab lc' = lc_recent_slab lc" "lc_shared lc' = lc_shared lc"
    "lc_shared_len lc' = lc_shared_len lc" "lc_total_len lc' = lc_total_len lc" by simp_all
  show "length (lc_slabs lc') = length (lc_slabs lc)" using assms unfolding slot_eq_def by (metis length_map)
qed

lemma slot_eq_nth:
  assumes "slot_eq lc lc'" "i < length (lc_slabs lc)"
  obtains k where "lc_slabs lc' ! i = (lc_slabs lc ! i)\<lparr>ls_available_slot := k\<rparr>"
proof -
  have "(lc_slabs lc' ! i)\<lparr>ls_available_slot := None\<rparr> = (lc_slabs lc ! i)\<lparr>ls_available_slot := None\<rparr>"
    using assms slot_eq_fields(7) [OF assms(1)] unfolding slot_eq_def by (metis nth_map)
  then have "(lc_slabs lc' ! i)\<lparr>ls_available_slot := None\<rparr>\<lparr>ls_available_slot := ls_available_slot (lc_slabs lc' ! i)\<rparr> =
    (lc_slabs lc ! i)\<lparr>ls_available_slot := None\<rparr>\<lparr>ls_available_slot := ls_available_slot (lc_slabs lc' ! i)\<rparr>"
    by (rule arg_cong)
  then have "lc_slabs lc' ! i = (lc_slabs lc ! i)\<lparr>ls_available_slot := ls_available_slot (lc_slabs lc' ! i)\<rparr>" by simp
  then show ?thesis by (rule that)
qed

lemma slot_eq_map:
  assumes "slot_eq lc lc'" "\<And>s k. f (s\<lparr>ls_available_slot := k\<rparr>) = f s"
  shows "map f (lc_slabs lc') = map f (lc_slabs lc)"
proof (rule nth_equalityI)
  note len = slot_eq_fields(7) [OF assms(1)]
  show "length (map f (lc_slabs lc')) = length (map f (lc_slabs lc))" using len by simp
  fix i assume "i < length (map f (lc_slabs lc'))"
  then have i: "i < length (lc_slabs lc)" using len by simp
  obtain k where "lc_slabs lc' ! i = (lc_slabs lc ! i)\<lparr>ls_available_slot := k\<rparr>" by (rule slot_eq_nth [OF assms(1) i])
  then show "map f (lc_slabs lc') ! i = map f (lc_slabs lc) ! i" using i len assms(2) by simp
qed

lemma slot_eq_parts:
  assumes eq: "slot_eq lc lc'"
  shows "lc_parts dbg c ow geos m lc' = lc_parts dbg c ow geos m lc" "lc_blocks m lc' = lc_blocks m lc"
    "i < length (lc_slabs lc) \<Longrightarrow> avail lc' i = avail lc i"
proof -
  note F = slot_eq_fields [OF eq]
  have nth: "f (lc_slabs lc' ! i) = f (lc_slabs lc ! i)"
    if "i < length (lc_slabs lc)" "\<And>s k. f (s\<lparr>ls_available_slot := k\<rparr>) = f s" for f :: "LocalSlab \<Rightarrow> 'x" and i
    using slot_eq_nth [OF eq that(1)] that(2) by metis
  show "i < length (lc_slabs lc) \<Longrightarrow> avail lc' i = avail lc i" by (rule nth) simp_all
  have "map (ls_held m) (lc_slabs lc') = map (ls_held m) (lc_slabs lc)" by (rule slot_eq_map [OF eq]) simp
  then have sl: "lc_slab_blocks m lc' = lc_slab_blocks m lc" by (simp only: lc_slab_blocks_def)
  have sh: "lc_shared_blocks m lc' = lc_shared_blocks m lc" by (simp add: lc_shared_blocks_def F)
  show "lc_blocks m lc' = lc_blocks m lc" by (simp add: lc_blocks_def lc_hot_def sl sh F)
  have "map (\<lambda>s. ls_ok (local_header dbg c ow) m s \<and> ls_geometry s \<in> geos) (lc_slabs lc') =
      map (\<lambda>s. ls_ok (local_header dbg c ow) m s \<and> ls_geometry s \<in> geos) (lc_slabs lc)"
    by (rule slot_eq_map [OF eq]) simp
  then have "list_all id (map (\<lambda>s. ls_ok (local_header dbg c ow) m s \<and> ls_geometry s \<in> geos) (lc_slabs lc')) =
      list_all id (map (\<lambda>s. ls_ok (local_header dbg c ow) m s \<and> ls_geometry s \<in> geos) (lc_slabs lc))" by (rule arg_cong)
  then have slabs: "(\<forall>s\<in>set (lc_slabs lc'). ls_ok (local_header dbg c ow) m s \<and> ls_geometry s \<in> geos) =
      (\<forall>s\<in>set (lc_slabs lc). ls_ok (local_header dbg c ow) m s \<and> ls_geometry s \<in> geos)"
    by (simp add: list_all_iff)
  have "ls_start (lc_slabs lc' ! i) = ls_start (lc_slabs lc ! i)"
    "ls_end_addr (lc_slabs lc' ! i) = ls_end_addr (lc_slabs lc ! i)" if "i < length (lc_slabs lc)" for i
    by (rule nth [OF that], simp)+
  then have idx: "index_ok ls_start ls_end_addr (lc_slabs lc') o1 = index_ok ls_start ls_end_addr (lc_slabs lc) o1" for o1
    using index_ok_cong [of "lc_slabs lc'" "lc_slabs lc" ls_start ls_end_addr o1]
      index_ok_cong [of "lc_slabs lc" "lc_slabs lc'" ls_start ls_end_addr o1] F(7) by auto
  show "lc_parts dbg c ow geos m lc' = lc_parts dbg c ow geos m lc"
    unfolding lc_parts_def idx slabs sh F ..
qed

lemma avail_cong:
  assumes "avail_inv av lc" "\<And>i. i < length (lc_slabs lc) \<Longrightarrow> av' i = av i"
  shows "avail_inv av' lc"
proof -
  have ok: "bucket_ok (lc_available_slabs lc) (\<lambda>i. i < length (lc_slabs lc) \<and> av i)
       (\<lambda>i. ls_available_slot (lc_slabs lc ! i))" using assms(1) by (simp add: avail_inv_def)
  have "bucket_ok (lc_available_slabs lc) (\<lambda>i. i < length (lc_slabs lc) \<and> av' i)
       (\<lambda>i. ls_available_slot (lc_slabs lc ! i))"
    by (rule bucket_ok_cong [OF ok]) (use assms(2) in auto)
  then show ?thesis using assms by (simp add: avail_inv_def)
qed

lemma slot_eq_slot:
  "i < length (lc_slabs q) \<Longrightarrow>
   slot_eq lc (q\<lparr>lc_slabs := (lc_slabs q)[i := (lc_slabs q ! i)\<lparr>ls_available_slot := k\<rparr>]\<rparr>) = slot_eq lc q"
proof -
  assume i: "i < length (lc_slabs q)"
  have "map (ls_available_slot_update (\<lambda>_. None)) ((lc_slabs q)[i := (lc_slabs q ! i)\<lparr>ls_available_slot := k\<rparr>]) =
      map (ls_available_slot_update (\<lambda>_. None)) (lc_slabs q)"
    using i by (simp add: map_update list_update_same_conv)
  then show ?thesis by (simp add: slot_eq_def)
qed

lemma slot_eq_available [simp]: "slot_eq lc (q\<lparr>lc_available_slabs := b\<rparr>) = slot_eq lc q"
proof -
  have "q\<lparr>lc_available_slabs := b, lc_slabs := [], lc_available_slabs := []\<rparr> =
      q\<lparr>lc_slabs := [], lc_available_slabs := []\<rparr>" by simp
  then show ?thesis by (simp add: slot_eq_def)
qed

lemma ls_slot_update:
  "i < length xs \<Longrightarrow> (\<lambda>j. ls_available_slot (xs[i := (xs ! i)\<lparr>ls_available_slot := k\<rparr>] ! j)) =
    (\<lambda>j. ls_available_slot (xs ! j))(i := k)"
  by (auto simp: nth_list_update fun_eq_iff)

lemma mark_available_spec:
  assumes inv: "avail_inv av lc" and i: "i < length (lc_slabs lc)"
  obtains lc' where "mark_slab_available lc i = Some lc'" "avail_inv (av(i := True)) lc'" "slot_eq lc lc'"
proof (cases "av i")
  case True
  then have "ls_available_slot (lc_slabs lc ! i) \<noteq> None"
    using inv i bucket_ok_slot [of _ _ _ i] by (auto simp: avail_inv_def dest: bucket_ok_slot [of _ _ _ i])
  then have "mark_slab_available lc i = Some lc" using i by (simp add: mark_slab_available_def)
  moreover have "av(i := True) = av" using True by (auto simp: fun_eq_iff)
  ultimately show ?thesis using that inv by simp
next
  case False
  let ?slot = "\<lambda>i. ls_available_slot (lc_slabs lc ! i)" and ?k = "length (lc_available_slabs lc)"
  define lc1 where "lc1 = lc\<lparr>lc_slabs := (lc_slabs lc)[i := (lc_slabs lc ! i)\<lparr>ls_available_slot := Some ?k\<rparr>]\<rparr>"
  define lc2 where "lc2 = lc1\<lparr>lc_available_slabs := lc_available_slabs lc @ [i]\<rparr>"
  have "?slot i = None" using inv i False by (simp add: avail_inv_def)
  then have run: "mark_slab_available lc i = Some lc2"
    using i by (simp add: mark_slab_available_def lc_set_slab_def lc1_def lc2_def Let_def)
  have slots: "(\<lambda>j. ls_available_slot (lc_slabs lc2 ! j)) = ?slot(i := Some ?k)"
    using ls_slot_update [OF i] by (simp add: lc1_def lc2_def)
  have len: "length (lc_slabs lc2) = length (lc_slabs lc)" by (simp add: lc1_def lc2_def)
  have ok: "bucket_ok (lc_available_slabs lc) (\<lambda>i. i < length (lc_slabs lc) \<and> av i) ?slot"
    using inv by (simp add: avail_inv_def)
  have b2: "lc_available_slabs lc2 = lc_available_slabs lc @ [i]" by (simp add: lc2_def)
  have pushed: "bucket_ok (lc_available_slabs lc @ [i]) (\<lambda>j. (j < length (lc_slabs lc) \<and> av j) \<or> j = i)
      (?slot(i := Some ?k))"
    by (rule bucket_push [OF ok]) (use False in simp)
  have "bucket_ok (lc_available_slabs lc2) (\<lambda>j. j < length (lc_slabs lc2) \<and> (av(i := True)) j)
      (\<lambda>j. ls_available_slot (lc_slabs lc2 ! j))"
    unfolding slots len b2 by (rule bucket_ok_cong [OF pushed]) (use i in auto)
  moreover have "ls_available_slot (lc_slabs lc2 ! j) = None" if "j < length (lc_slabs lc)" "\<not> (av(i := True)) j" for j
    using fun_cong [OF slots, of j] that inv by (auto simp: avail_inv_def split: if_splits)
  ultimately have "avail_inv (av(i := True)) lc2" unfolding avail_inv_def len by blast
  moreover have "slot_eq lc lc2" using slot_eq_slot [OF i, of lc] by (simp add: lc2_def lc1_def)
  ultimately show ?thesis using that run by simp
qed

lemma mark_unavailable_spec:
  assumes inv: "avail_inv av lc" and i: "i < length (lc_slabs lc)"
  obtains lc' where "mark_slab_unavailable dbg lc i = Some lc'" "avail_inv (av(i := False)) lc'" "slot_eq lc lc'"
proof (cases "av i")
  case False
  then have "ls_available_slot (lc_slabs lc ! i) = None" using inv i by (simp add: avail_inv_def)
  then have "mark_slab_unavailable dbg lc i = Some lc" using i by (simp add: mark_slab_unavailable_def)
  moreover have "av(i := False) = av" using False by (auto simp: fun_eq_iff)
  ultimately show ?thesis using that inv by simp
next
  case True
  let ?slot = "\<lambda>i. ls_available_slot (lc_slabs lc ! i)"
  have ok: "bucket_ok (lc_available_slabs lc) (\<lambda>i. i < length (lc_slabs lc) \<and> av i) ?slot"
    using inv by (simp add: avail_inv_def)
  have M: "i < length (lc_slabs lc) \<and> av i" using i True by simp
  obtain k where k: "?slot i = Some k" using bucket_ok_slot [OF ok M] by auto
  define b where "b = butlast ((lc_available_slabs lc)[k := last (lc_available_slabs lc)])"
  note sw = bucket_swap_remove [OF ok M k, folded b_def]
  define lc1 where "lc1 = lc\<lparr>lc_slabs := (lc_slabs lc)[i := (lc_slabs lc ! i)\<lparr>ls_available_slot := None\<rparr>]\<rparr>"
  define lc2 where "lc2 = lc1\<lparr>lc_available_slabs := b\<rparr>"
  define lc3 where "lc3 = (if k < length b
    then lc2\<lparr>lc_slabs := (lc_slabs lc2)[b ! k := (lc_slabs lc2 ! (b ! k))\<lparr>ls_available_slot := Some k\<rparr>]\<rparr> else lc2)"
  have len2: "length (lc_slabs lc2) = length (lc_slabs lc)" by (simp add: lc1_def lc2_def)
  have moved: "k < length b \<Longrightarrow> b ! k < length (lc_slabs lc2)" using sw(3) len2 by simp
  have run: "mark_slab_unavailable dbg lc i = Some lc3"
    using i k sw(1) moved
    by (simp add: mark_slab_unavailable_def lc_set_slab_def lc3_def lc2_def lc1_def Let_def)
  have slots: "(\<lambda>j. ls_available_slot (lc_slabs lc3 ! j)) =
      (if k < length b then (?slot(i := None))(b ! k := Some k) else ?slot(i := None))"
    using ls_slot_update [OF i, of None] ls_slot_update [OF moved, of "Some k"]
    by (cases "k < length b") (simp_all add: lc3_def lc2_def lc1_def)
  have len3: "length (lc_slabs lc3) = length (lc_slabs lc)" by (simp add: lc3_def len2)
  have b3: "lc_available_slabs lc3 = b" by (simp add: lc3_def lc2_def)
  have "bucket_ok b (\<lambda>j. j < length (lc_slabs lc) \<and> (av(i := False)) j)
      (if k < length b then (?slot(i := None))(b ! k := Some k) else ?slot(i := None))"
    by (rule bucket_ok_cong [OF sw(4)]) auto
  moreover have "ls_available_slot (lc_slabs lc3 ! j) = None" if j: "j < length (lc_slabs lc)" "\<not> (av(i := False)) j" for j
  proof -
    have "b ! k \<noteq> j" if "k < length b" using sw(3) [OF that] j(2) by auto
    then show ?thesis using inv j fun_cong [OF slots, of j] by (auto simp: avail_inv_def split: if_splits)
  qed
  ultimately have "avail_inv (av(i := False)) lc3" unfolding avail_inv_def slots len3 b3 by simp
  moreover have "slot_eq lc lc3"
  proof -
    have "slot_eq lc lc1" unfolding lc1_def using slot_eq_slot [OF i, of lc] by simp
    then have "slot_eq lc lc2" by (simp add: lc2_def)
    then show ?thesis using slot_eq_slot [OF moved, of lc] by (simp add: lc3_def)
  qed
  ultimately show ?thesis using that run by simp
qed

section \<open>Taking a block\<close>

text \<open>How a block may be reused, by the kind of reuse the cache reports.\<close>

definition reuse_ok :: "bool \<Rightarrow> SizeClass \<Rightarrow> u32 \<Rightarrow> BlockReuse \<Rightarrow> addr \<Rightarrow> AllocationHeader \<Rightarrow> bool" where
  "reuse_ok dbg c ow reuse b h \<longleftrightarrow> (case reuse of
      HotReuseRequestedOnly \<Rightarrow> local_header dbg c ow b h
    | NeedsOwnerAndRequestedSizeRefresh \<Rightarrow> idle_header dbg c b h
    | NeedsHeaderRewrite \<Rightarrow> True)"

text \<open>A slab that a step has just changed enters or leaves the list of available slabs.\<close>

lemma settle_slab:
  assumes parts: "lc_parts dbg c ow geos m lc" and i: "i < length (lc_slabs lc)"
    and inv: "avail_inv ((avail lc)(i := old)) lc"
    and acct: "lc_total_len lc = size (lc_blocks m lc)" "dset (lc_blocks m lc)" "set_mset (lc_blocks m lc) \<subseteq> geo_blocks geos"
  shows "avail lc i \<Longrightarrow> \<exists>lc'. mark_slab_available lc i = Some lc' \<and> lc_inv dbg c ow geos m lc' \<and>
      lc_blocks m lc' = lc_blocks m lc \<and> slot_eq lc lc'"
    "\<not> avail lc i \<Longrightarrow> \<exists>lc'. mark_slab_unavailable dbg lc i = Some lc' \<and> lc_inv dbg c ow geos m lc' \<and>
      lc_blocks m lc' = lc_blocks m lc \<and> slot_eq lc lc'"
    "avail lc i = old \<Longrightarrow> lc_inv dbg c ow geos m lc"
proof -
  have fin: "lc_inv dbg c ow geos m lc'" if eq: "slot_eq lc lc'" and av: "avail_inv (avail lc) lc'" for lc'
  proof -
    note S = slot_eq_parts [OF eq] and F = slot_eq_fields [OF eq]
    have "avail_inv (avail lc') lc'" by (rule avail_cong [OF av]) (use S(3) F(7) in simp)
    then show ?thesis unfolding lc_inv_def S(1,2) F(6) using parts acct by blast
  qed
  have upd: "((avail lc)(i := old))(i := v) = avail lc" if "avail lc i = v" for v using that by (auto simp: fun_eq_iff)
  show "\<exists>lc'. mark_slab_available lc i = Some lc' \<and> lc_inv dbg c ow geos m lc' \<and>
      lc_blocks m lc' = lc_blocks m lc \<and> slot_eq lc lc'" if a: "avail lc i"
  proof -
    obtain lc' where l: "mark_slab_available lc i = Some lc'" "avail_inv (((avail lc)(i := old))(i := True)) lc'" "slot_eq lc lc'"
      by (rule mark_available_spec [OF inv i])
    then show ?thesis using upd [of True] a fin slot_eq_parts(2) [OF l(3)] by auto
  qed
  show "\<exists>lc'. mark_slab_unavailable dbg lc i = Some lc' \<and> lc_inv dbg c ow geos m lc' \<and>
      lc_blocks m lc' = lc_blocks m lc \<and> slot_eq lc lc'" if a: "\<not> avail lc i"
  proof -
    obtain lc' where l: "mark_slab_unavailable dbg lc i = Some lc'" "avail_inv (((avail lc)(i := old))(i := False)) lc'" "slot_eq lc lc'"
      by (rule mark_unavailable_spec [OF inv i])
    then show ?thesis using upd [of False] a fin slot_eq_parts(2) [OF l(3)] by auto
  qed
  show "lc_inv dbg c ow geos m lc" if a: "avail lc i = old"
    using fin [of lc] inv fun_upd_triv [of "avail lc" i] a by simp
qed

text \<open>The available list of a cache with one slab replaced by \<open>s\<close>, which keeps its slot.\<close>

lemma avail_set_slab:
  assumes "avail_inv (avail lc) lc" "i < length (lc_slabs lc)"
    "ls_available_slot s = ls_available_slot (lc_slabs lc ! i)"
  defines "lc' \<equiv> lc\<lparr>lc_slabs := (lc_slabs lc)[i := s]\<rparr>"
  shows "avail_inv ((avail lc')(i := avail lc i)) lc'"
proof -
  have slots: "(\<lambda>j. ls_available_slot (lc_slabs lc' ! j)) = (\<lambda>j. ls_available_slot (lc_slabs lc ! j))"
    using assms(2,3) by (auto simp: lc'_def nth_list_update fun_eq_iff)
  have av: "(avail lc')(i := avail lc i) = avail lc"
    using assms(2) by (auto simp: lc'_def nth_list_update fun_eq_iff)
  have "lc_available_slabs lc' = lc_available_slabs lc" "length (lc_slabs lc') = length (lc_slabs lc)"
    by (simp_all add: lc'_def)
  then show ?thesis using assms(1) fun_cong [OF slots] unfolding avail_inv_def av slots by simp
qed

lemma lc_update_simps [simp]:
  "lc_blocks m (lc\<lparr>lc_total_len := n\<rparr>) = lc_blocks m lc"
  "lc_blocks m (lc\<lparr>lc_recent_slab := r\<rparr>) = lc_blocks m lc"
  "lc_parts dbg c ow geos m (lc\<lparr>lc_total_len := n\<rparr>) = lc_parts dbg c ow geos m lc"
  "avail_inv av (lc\<lparr>lc_total_len := n\<rparr>) = avail_inv av lc"
  "avail_inv av (lc\<lparr>lc_recent_slab := r\<rparr>) = avail_inv av lc"
  "avail_inv av (lc\<lparr>lc_hot_block := h\<rparr>) = avail_inv av lc"
  "avail_inv av (lc\<lparr>lc_shared := l\<rparr>) = avail_inv av lc"
  "avail_inv av (lc\<lparr>lc_shared_len := k\<rparr>) = avail_inv av lc"
  by (simp_all add: lc_blocks_def lc_hot_def lc_slab_blocks_def lc_shared_blocks_def lc_parts_def avail_inv_def)

lemma lc_parts_recent:
  "lc_parts dbg c ow geos m lc \<Longrightarrow> i < length (lc_slabs lc) \<Longrightarrow>
   lc_parts dbg c ow geos m (lc\<lparr>lc_recent_slab := Some i\<rparr>)"
  by (simp add: lc_parts_def lc_shared_blocks_def)

lemma lc_parts_hot:
  assumes "lc_parts dbg c ow geos m lc" "\<And>b. h = Some b \<Longrightarrow> local_header dbg c ow b (m b)"
  shows "lc_parts dbg c ow geos m (lc\<lparr>lc_hot_block := h\<rparr>)"
    "lc_blocks m (lc\<lparr>lc_hot_block := h\<rparr>) + lc_hot lc = lc_blocks m lc + (case h of None \<Rightarrow> {#} | Some b \<Rightarrow> {#b#})"
  using assms by (simp_all add: lc_parts_def lc_shared_blocks_def lc_blocks_def lc_hot_def lc_slab_blocks_def ac_simps)

lemma lc_parts_shared:
  assumes parts: "lc_parts dbg c ow geos m lc" and rep: "fl_rep m l xs"
    and xs: "\<And>b. b \<in> set xs \<Longrightarrow> idle_header dbg c b (m b)"
  defines "lc' \<equiv> lc\<lparr>lc_shared := l, lc_shared_len := length xs\<rparr>"
  shows "lc_parts dbg c ow geos m lc'"
    "lc_blocks m lc' + mset (lc_shared_blocks m lc) = lc_blocks m lc + mset xs" "lc_shared_blocks m lc' = xs"
proof -
  show sh: "lc_shared_blocks m lc' = xs" by (simp add: lc_shared_blocks_def lc'_def fl_rep_blocks [OF rep])
  show "lc_parts dbg c ow geos m lc'" unfolding lc_parts_def sh using parts rep xs by (simp add: lc'_def lc_parts_def)
  show "lc_blocks m lc' + mset (lc_shared_blocks m lc) = lc_blocks m lc + mset xs"
    unfolding lc_blocks_def sh by (simp add: lc'_def lc_hot_def lc_slab_blocks_def ac_simps)
qed

lemma lc_inv_less:
  assumes "lc_inv dbg c ow geos m lc" "lc_blocks m lc = N + lc_blocks m' lc'"
  shows "dset (lc_blocks m' lc')" "set_mset (lc_blocks m' lc') \<subseteq> geo_blocks geos"
    "lc_total_len lc = size N + size (lc_blocks m' lc')"
  using assms by (auto simp: lc_inv_def dset_union)

lemma avail_Nil:
  assumes "lc_inv dbg c ow geos m lc" "lc_available_slabs lc = []"
  shows "lc_slab_blocks m lc = {#}"
proof -
  note P = lc_partsD [OF lc_invD(1) [OF assms(1)]]
  have "ls_held m (lc_slabs lc ! i) = {#}" if "i < length (lc_slabs lc)" for i
    using assms that has_available_iff [OF P(2) [OF that]] by (simp add: lc_inv_def avail_inv_def bucket_ok_Nil)
  then have "b \<notin># lc_slab_blocks m lc" for b by (auto simp: lc_slab_blocks_def set_conv_nth)
  then show ?thesis by (metis multiset_nonemptyE)
qed

lemma avail_last:
  assumes "lc_inv dbg c ow geos m lc" "lc_available_slabs lc \<noteq> []"
  shows "last (lc_available_slabs lc) < length (lc_slabs lc)" "avail lc (last (lc_available_slabs lc))"
    "ls_held m (lc_slabs lc ! last (lc_available_slabs lc)) \<noteq> {#}"
proof -
  let ?i = "last (lc_available_slabs lc)"
  have "?i < length (lc_slabs lc) \<and> avail lc ?i"
    using assms by (auto simp: lc_inv_def avail_inv_def dest: bucket_ok_last)
  then show "?i < length (lc_slabs lc)" "avail lc ?i" by auto
  then show "ls_held m (lc_slabs lc ! ?i) \<noteq> {#}"
    using has_available_iff [OF lc_partsD(2) [OF lc_invD(1) [OF assms(1)]]] by blast
qed

lemma lc_pop_block_spec:
  assumes inv: "lc_inv dbg c ow geos m lc" and ne: "lc_blocks m lc \<noteq> {#}"
  obtains b reuse lc' where "lc_pop_block_unchecked dbg m lc = Some (b, reuse, lc')" "lc_inv dbg c ow geos m lc'"
    "lc_blocks m lc = add_mset b (lc_blocks m lc')" "reuse_ok dbg c ow reuse b (m b)"
proof -
  note I = lc_invD [OF inv]
  note P = lc_partsD [OF I(1)]
  have pos: "0 < lc_total_len lc" using I(3) ne by (simp add: nonempty_has_size)
  let ?n = "lc_total_len lc - 1"
  have fin: "lc_inv dbg c ow geos m (lc'\<lparr>lc_total_len := ?n\<rparr>)"
    if "lc_blocks m lc = add_mset b (lc_blocks m lc')" "lc_parts dbg c ow geos m lc'" "avail_inv (avail lc') lc'" for lc' b
    using lc_inv_less [OF inv, of "{#b#}" m lc'] that by (simp add: lc_inv_def)
  show ?thesis
  proof (cases "lc_hot_block lc")
    case (Some b)
    let ?lc = "lc\<lparr>lc_hot_block := None\<rparr>"
    have acct: "lc_blocks m lc = add_mset b (lc_blocks m ?lc)"
      using lc_parts_hot(2) [OF I(1), of None] Some by (simp add: lc_hot_def)
    have "lc_inv dbg c ow geos m (?lc\<lparr>lc_total_len := ?n\<rparr>)"
      by (rule fin [OF acct lc_parts_hot(1) [OF I(1)]]) (use I(2) in simp_all)
    moreover have "lc_pop_block_unchecked dbg m lc = Some (b, HotReuseRequestedOnly, ?lc\<lparr>lc_total_len := ?n\<rparr>)"
      using Some pos by (simp add: lc_pop_block_unchecked_def checked_sub_def)
    ultimately show ?thesis using that acct P(9) [OF Some] by (simp add: reuse_ok_def)
  next
    case hot: None
    show ?thesis
    proof (cases "lc_available_slabs lc = []")
      case True
      have "lc_slab_blocks m lc = {#}" by (rule avail_Nil [OF inv True])
      then have "lc_shared_blocks m lc \<noteq> []" using ne hot by (simp add: lc_blocks_def lc_hot_def)
      then obtain b xs where xs: "lc_shared_blocks m lc = b # xs" by (cases "lc_shared_blocks m lc") auto
      obtain l where pop: "pop_block_unchecked dbg m (lc_shared lc) = Some (b, l)" "fl_rep m l xs"
        by (rule pop_block_unchecked_rep [OF P(6) [unfolded xs]])
      let ?lc = "lc\<lparr>lc_shared := l, lc_shared_len := length xs\<rparr>"
      have sh: "lc_parts dbg c ow geos m ?lc" "lc_blocks m ?lc + mset (b # xs) = lc_blocks m lc + mset xs"
        using lc_parts_shared [OF I(1) pop(2)] P(8) xs by simp_all
      have acct: "lc_blocks m lc = add_mset b (lc_blocks m ?lc)" using sh(2) by simp
      have "lc_inv dbg c ow geos m (?lc\<lparr>lc_total_len := ?n\<rparr>)"
        by (rule fin [OF acct sh(1)]) (use I(2) in simp)
      moreover have "lc_pop_block_unchecked dbg m lc =
          Some (b, NeedsOwnerAndRequestedSizeRefresh, ?lc\<lparr>lc_total_len := ?n\<rparr>)"
        using hot True pos pop(1) P(7) xs by (simp add: lc_pop_block_unchecked_def vec_last_def checked_sub_def)
      ultimately show ?thesis using that acct P(8) [of b] xs by (simp add: reuse_ok_def)
    next
      case False
      define i where "i = last (lc_available_slabs lc)"
      note L = avail_last [OF inv False, folded i_def]
      have last: "vec_last (lc_available_slabs lc) = Some i" using False by (simp add: vec_last_def i_def)
      obtain b reuse s where s: "LocalSlab_pop_block_unchecked dbg m (lc_slabs lc ! i) = Some (b, reuse, s)"
        "ls_ok (local_header dbg c ow) m s" "ls_held m (lc_slabs lc ! i) = add_mset b (ls_held m s)"
        "ls_geometry s = ls_geometry (lc_slabs lc ! i)" "ls_available_slot s = ls_available_slot (lc_slabs lc ! i)"
        "reuse = HotReuseRequestedOnly \<and> local_header dbg c ow b (m b) \<or> reuse = NeedsHeaderRewrite"
        by (rule LocalSlab_pop_block_spec [OF P(2) [OF L(1)] L(3)])
      let ?lc = "lc\<lparr>lc_slabs := (lc_slabs lc)[i := s]\<rparr>"
      have parts: "lc_parts dbg c ow geos m ?lc" "lc_blocks m ?lc + ls_held m (lc_slabs lc ! i) = lc_blocks m lc + ls_held m s"
        by (rule lc_parts_set_slab [OF I(1) L(1) s(2,4) I(4)], simp)+
      have acct: "lc_blocks m lc = add_mset b (lc_blocks m ?lc)" using parts(2) s(3) by simp
      let ?lc2 = "?lc\<lparr>lc_recent_slab := Some i, lc_total_len := ?n\<rparr>"
      have i2: "i < length (lc_slabs ?lc2)" using L(1) by simp
      have parts2: "lc_parts dbg c ow geos m ?lc2"
        using lc_parts_recent [OF parts(1), of i] L(1) by simp
      have av: "avail_inv ((avail ?lc2)(i := True)) ?lc2"
        using avail_set_slab [OF I(2) L(1) s(5)] L(2) by simp
      note less = lc_inv_less [OF inv, of "{#b#}" m ?lc]
      have acct2: "lc_total_len ?lc2 = size (lc_blocks m ?lc2)" "dset (lc_blocks m ?lc2)"
        "set_mset (lc_blocks m ?lc2) \<subseteq> geo_blocks geos"
        using less acct by simp_all
      note settle = settle_slab [OF parts2 i2 av acct2]
      have s2: "avail ?lc2 i = has_available_blocks s" using L(1) by simp
      have reuse: "reuse_ok dbg c ow reuse b (m b)" using s(6) by (auto simp: reuse_ok_def)
      have run: "lc_pop_block_unchecked dbg m lc = do {
          lc3 \<leftarrow> (if \<not> has_available_blocks s then mark_slab_unavailable dbg ?lc2 i else Some ?lc2);
          Some (b, reuse, lc3) }"
        using hot last L(1,2) s(1) pos by (simp add: lc_pop_block_unchecked_def lc_set_slab_def checked_sub_def Let_def)
      show ?thesis
      proof (cases "has_available_blocks s")
        case True
        then show ?thesis using that [of b reuse ?lc2] run settle(3) s2 acct reuse by simp
      next
        case False
        then obtain lc3 where lc3: "mark_slab_unavailable dbg ?lc2 i = Some lc3" "lc_inv dbg c ow geos m lc3"
          "lc_blocks m lc3 = lc_blocks m ?lc2" using settle(2) s2 by metis
        then show ?thesis using that [of b reuse lc3] run False acct reuse by simp
      qed
    qed
  qed
qed

section \<open>Giving blocks back\<close>

text \<open>A block of a registered slab lies in the local slab whose range contains it.\<close>

lemma contains_block_of_slab:
  assumes "geos_ok geos" "b \<in> geo_blocks geos" "ls_geometry s \<in> geos" "LocalSlab_contains dbg s b"
  shows "b \<in> set (ls_blocks s)"
  by (rule geo_block_owner [OF assms(1-3)])
    (use assms(4) in \<open>simp_all add: LocalSlab_contains_def ls_geometry_def\<close>)

lemma push_to_slab_spec:
  assumes parts: "lc_parts dbg c ow geos m lc" and av: "avail_inv (avail lc) lc" and i: "i < length (lc_slabs lc)"
    and b: "b \<in> set (ls_blocks (lc_slabs lc ! i))" "b \<notin># lc_blocks m lc" "local_header dbg c ow b (m b)"
    and d: "dset (lc_blocks m lc)" and sub: "set_mset (lc_blocks m lc) \<subseteq> geo_blocks geos"
    and len: "lc_total_len lc = size (lc_blocks m lc) + 1"
  obtains m' lc' where "push_to_slab dbg m lc i b = Some (m', lc')" "lc_inv dbg c ow geos m' lc'"
    "lc_blocks m' lc' = add_mset b (lc_blocks m lc)" "link_frame {b} m m'"
    "lc_hot_block lc' = lc_hot_block lc"
proof -
  note P = lc_partsD [OF parts]
  let ?s = "lc_slabs lc ! i"
  have nb: "b \<notin># ls_held m ?s" using b(2) i by (auto simp: in_lc_blocks)
  obtain m' s where s: "LocalSlab_push_block dbg m ?s b = Some (m', s)" "ls_ok (local_header dbg c ow) m' s"
    "ls_held m' s = add_mset b (ls_held m ?s)" "link_frame {b} m m'" "ls_geometry s = ls_geometry ?s"
    "ls_available_slot s = ls_available_slot ?s"
    by (rule LocalSlab_push_block_spec [OF P(2) [OF i] b(1) nb b(3) local_link_insensitive])
  let ?lc = "lc\<lparr>lc_slabs := (lc_slabs lc)[i := s]\<rparr>"
  have same: "m' x = m x" if "x \<in># lc_blocks m lc" for x
    by (rule link_frame_outside [OF s(4)]) (use that b(2) in auto)
  have p: "lc_parts dbg c ow geos m' ?lc" "lc_blocks m' ?lc + ls_held m ?s = lc_blocks m lc + ls_held m' s"
    by (rule lc_parts_set_slab [OF parts i s(2,5) d], erule same)+
  have acct: "lc_blocks m' ?lc = add_mset b (lc_blocks m lc)" using p(2) s(3) by simp
  have i2: "i < length (lc_slabs ?lc)" using i by simp
  have geo: "b \<in> geo_blocks geos" using b(1) P(3) [OF i] by (auto simp: geo_blocks_def)
  have acct2: "lc_total_len ?lc = size (lc_blocks m' ?lc)" "dset (lc_blocks m' ?lc)"
    "set_mset (lc_blocks m' ?lc) \<subseteq> geo_blocks geos"
    unfolding acct using len d b(2) sub geo by simp_all
  note settle = settle_slab [OF p(1) i2 avail_set_slab [OF av i s(6)] acct2]
  have now: "avail ?lc i" using i has_available_iff [OF s(2)] s(3) by simp
  have run: "push_to_slab dbg m lc i b = do {
      lc2 \<leftarrow> (if \<not> avail lc i then mark_slab_available ?lc i else Some ?lc); Some (m', lc2) }"
    using i s(1) by (simp add: push_to_slab_def lc_set_slab_def Let_def)
  show ?thesis
  proof (cases "avail lc i")
    case True
    then show ?thesis using that [of m' ?lc] run settle(3) now acct s(4) by simp
  next
    case False
    obtain lc2 where lc2: "mark_slab_available ?lc i = Some lc2" "lc_inv dbg c ow geos m' lc2"
      "lc_blocks m' lc2 = lc_blocks m' ?lc" "slot_eq ?lc lc2" using settle(1) [OF now] by blast
    then show ?thesis using that [of m' lc2] run False acct s(4) slot_eq_fields(1) [OF lc2(4)] by simp
  qed
qed

lemma find_slab_spec:
  assumes parts: "lc_parts dbg c ow geos m lc"
  obtains r where "find_slab dbg lc b = Some r"
    "\<And>i. r = Some i \<Longrightarrow> i < length (lc_slabs lc) \<and> LocalSlab_contains dbg (lc_slabs lc ! i) b"
    "\<And>i. i < length (lc_slabs lc) \<Longrightarrow> b \<in> set (ls_blocks (lc_slabs lc ! i)) \<Longrightarrow> r = Some i"
proof -
  note P = lc_partsD [OF parts]
  let ?ks = "map (\<lambda>i. ls_start (lc_slabs lc ! i)) (lc_slabs_by_start lc)"
  let ?k = "partition_point (\<lambda>a. a \<le> b) ?ks"
  have keys: "index_keys ls_start (lc_slabs lc) (lc_slabs_by_start lc) = Some ?ks" by (rule index_keys_eq [OF P(1)])
  have mono: "?ks ! p \<le> ?ks ! r" if "p \<le> r" "r < length ?ks" for p r
    using index_ok_keys_sorted [OF P(1)] that
    by (metis le_neq_implies_less less_imp_le order_refl sorted_wrt_iff_nth_less)
  have kle: "?k \<le> length (lc_slabs_by_start lc)"
    using partition_point_spec [of ?ks "\<lambda>a. a \<le> b"] mono by (metis length_map order_trans)
  have inr: "lc_slabs_by_start lc ! (?k - 1) < length (lc_slabs lc)" if "?k \<noteq> 0"
    using index_ok_set [OF P(1)] nth_mem [of "?k - 1" "lc_slabs_by_start lc"] kle that by fastforce
  let ?i = "lc_slabs_by_start lc ! (?k - 1)"
  define r where "r = (if ?k = 0 then None else if LocalSlab_contains dbg (lc_slabs lc ! ?i) b then Some ?i else None)"
  have "find_slab dbg lc b = Some r"
    using keys inr kle by (simp add: find_slab_def r_def Let_def)
  moreover have "i < length (lc_slabs lc) \<and> LocalSlab_contains dbg (lc_slabs lc ! i) b" if "r = Some i" for i
    using that inr by (auto simp: r_def split: if_splits)
  moreover have "r = Some i" if i: "i < length (lc_slabs lc)" "b \<in> set (ls_blocks (lc_slabs lc ! i))" for i
  proof -
    have "LocalSlab_contains dbg (lc_slabs lc ! i) b" by (rule local_slab.contains_block [OF P(4) [OF i(1)] i(2)])
    moreover from this have "ls_start (lc_slabs lc ! i) \<le> b" "b < ls_end_addr (lc_slabs lc ! i)"
      by (auto simp: LocalSlab_contains_def)
    note index_lookup [OF P(1) i(1) this]
    ultimately show ?thesis by (simp add: r_def)
  qed
  ultimately show ?thesis using that by blast
qed

lemma push_spilled_block_spec:
  assumes parts: "lc_parts dbg c ow geos m lc" and av: "avail_inv (avail lc) lc" and geos: "geos_ok geos"
    and b: "b \<in> geo_blocks geos" "b \<notin># lc_blocks m lc" "local_header dbg c ow b (m b)"
    and d: "dset (lc_blocks m lc)" and sub: "set_mset (lc_blocks m lc) \<subseteq> geo_blocks geos"
    and len: "lc_total_len lc = size (lc_blocks m lc) + 1"
  obtains m' lc' where "push_spilled_block dbg m lc b = Some (m', lc')" "lc_inv dbg c ow geos m' lc'"
    "lc_blocks m' lc' = add_mset b (lc_blocks m lc)" "link_frame {b} m m'"
proof -
  note P = lc_partsD [OF parts]
  define recent where "recent = (case lc_recent_slab lc of None \<Rightarrow> None
    | Some i \<Rightarrow> if LocalSlab_contains dbg (lc_slabs lc ! i) b then Some i else None)"
  have rec: "(case lc_recent_slab lc of None \<Rightarrow> Some None
      | Some i \<Rightarrow> do { s \<leftarrow> vec_get (lc_slabs lc) i; Some (if LocalSlab_contains dbg s b then Some i else None) }) =
      Some recent"
    using P(5) by (simp add: recent_def split: option.split)
  show ?thesis
  proof (cases recent)
    case (Some i)
    have i: "i < length (lc_slabs lc)" and c: "LocalSlab_contains dbg (lc_slabs lc ! i) b"
      using Some P(5) by (auto simp: recent_def split: option.splits if_splits)
    have bi: "b \<in> set (ls_blocks (lc_slabs lc ! i))" by (rule contains_block_of_slab [OF geos b(1) P(3) [OF i] c])
    obtain m' lc' where p: "push_to_slab dbg m lc i b = Some (m', lc')" "lc_inv dbg c ow geos m' lc'"
      "lc_blocks m' lc' = add_mset b (lc_blocks m lc)" "link_frame {b} m m'"
      by (rule push_to_slab_spec [OF parts av i bi b(2,3) d sub len])
    then show ?thesis using that rec Some by (simp add: push_spilled_block_def)
  next
    case None
    obtain r where r: "find_slab dbg lc b = Some r"
      "\<And>i. r = Some i \<Longrightarrow> i < length (lc_slabs lc) \<and> LocalSlab_contains dbg (lc_slabs lc ! i) b"
      by (rule find_slab_spec [OF parts, where b = b]) blast
    show ?thesis
    proof (cases r)
      case (Some i)
      have i: "i < length (lc_slabs lc)" and c: "LocalSlab_contains dbg (lc_slabs lc ! i) b" using r(2) [OF Some] by auto
      have bi: "b \<in> set (ls_blocks (lc_slabs lc ! i))" by (rule contains_block_of_slab [OF geos b(1) P(3) [OF i] c])
      let ?lc = "lc\<lparr>lc_recent_slab := Some i\<rparr>"
      have av': "avail_inv (avail ?lc) ?lc" using av by simp
      obtain m' lc' where p: "push_to_slab dbg m ?lc i b = Some (m', lc')" "lc_inv dbg c ow geos m' lc'"
        "lc_blocks m' lc' = add_mset b (lc_blocks m ?lc)" "link_frame {b} m m'"
        by (rule push_to_slab_spec [OF lc_parts_recent [OF parts i] av', of i b]) (use i bi b d sub len in simp_all)
      then show ?thesis using that rec None r(1) Some by (simp add: push_spilled_block_def)
    next
      case none: None
      let ?xs = "lc_shared_blocks m lc"
      have nb: "b \<notin> set ?xs" using b(2) by (simp add: in_lc_blocks)
      have "size (add_mset b (lc_blocks m lc)) \<le> usize_max"
        by (rule dset_size) (use d b(1,2) sub geo_blocks_props [OF geos] in auto)
      moreover have "length ?xs \<le> size (lc_blocks m lc)" by (simp add: lc_blocks_def)
      ultimately have fit: "length ?xs < usize_max" by simp
      obtain m' l where push: "push_block m (lc_shared lc) b = Some (m', l)" "fl_rep m' l (b # ?xs)" "link_frame {b} m m'"
        by (rule push_block_rep [OF P(6) nb _ fit]) (use geo_blocks_props [OF geos b(1)] in auto)
      have same: "m' x = m x" if "x \<in># lc_blocks m lc" for x
        by (rule link_frame_outside [OF push(3)]) (use that b(2) in auto)
      note fr = lc_parts_frame [OF parts same]
      let ?lc = "lc\<lparr>lc_shared := l, lc_shared_len := length (b # ?xs)\<rparr>"
      have hx: "idle_header dbg c x (m' x)" if "x \<in> set (b # ?xs)" for x
      proof -
        have "idle_header dbg c x (m x)" using that P(8) local_idle [OF b(3)] by auto
        then show ?thesis using link_frame_H [OF push(3) idle_link_insensitive] by simp
      qed
      have sh: "lc_parts dbg c ow geos m' ?lc" "lc_blocks m' ?lc + mset ?xs = lc_blocks m lc + mset (b # ?xs)"
        using lc_parts_shared [OF fr(1) push(2) hx] fr(3,4) by simp_all
      have acct: "lc_blocks m' ?lc = add_mset b (lc_blocks m lc)" using sh(2) by simp
      have "lc_inv dbg c ow geos m' ?lc" unfolding lc_inv_def acct using sh(1) av len d b sub by simp
      moreover have "push_spilled_block dbg m lc b = Some (m', ?lc)"
        using rec None r(1) none push(1) P(7) fit by (simp add: push_spilled_block_def checked_add_def)
      ultimately show ?thesis using that acct push(3) by blast
    qed
  qed
qed

lemma lc_push_block_spec:
  assumes inv: "lc_inv dbg c ow geos m lc" and geos: "geos_ok geos"
    and b: "b \<in> geo_blocks geos" "b \<notin># lc_blocks m lc" "local_header dbg c ow b (m b)"
  obtains m' lc' where "lc_push_block dbg m lc b = Some (m', lc')" "lc_inv dbg c ow geos m' lc'"
    "lc_blocks m' lc' = add_mset b (lc_blocks m lc)" "link_frame (set_mset (lc_blocks m lc)) m m'"
proof -
  note I = lc_invD [OF inv]
  note P = lc_partsD [OF I(1)]
  have "size (add_mset b (lc_blocks m lc)) \<le> usize_max"
    by (rule dset_size) (use I(4,5) b(1,2) geo_blocks_props [OF geos] in auto)
  then have room: "lc_total_len lc + 1 \<le> usize_max" using I(3) by simp
  let ?lc = "lc\<lparr>lc_hot_block := Some b, lc_total_len := lc_total_len lc + 1\<rparr>"
  have parts: "lc_parts dbg c ow geos m ?lc"
    and acct: "lc_blocks m ?lc + lc_hot lc = lc_blocks m lc + {#b#}"
    using lc_parts_hot [OF I(1), of "Some b"] b(3) by simp_all
  have av: "avail_inv (avail ?lc) ?lc" using I(2) by simp
  show ?thesis
  proof (cases "lc_hot_block lc")
    case None
    then have eq: "lc_blocks m ?lc = add_mset b (lc_blocks m lc)" using acct by (simp add: lc_hot_def)
    have "lc_inv dbg c ow geos m ?lc" unfolding lc_inv_def eq using parts av I b by simp
    moreover have "lc_push_block dbg m lc b = Some (m, ?lc)"
      using None room by (simp add: lc_push_block_def checked_add_def Let_def)
    ultimately show ?thesis using that eq by simp
  next
    case (Some p)
    then have eq: "add_mset p (lc_blocks m ?lc) = add_mset b (lc_blocks m lc)" using acct by (simp add: lc_hot_def)
    have pin: "p \<in># lc_blocks m lc" using Some by (simp add: in_lc_blocks)
    have d: "dset (add_mset p (lc_blocks m ?lc))" unfolding eq using I(4) b(2) by simp
    have sub: "set_mset (add_mset p (lc_blocks m ?lc)) \<subseteq> geo_blocks geos" unfolding eq using I(5) b(1) by simp
    have "size (add_mset p (lc_blocks m ?lc)) = size (add_mset b (lc_blocks m lc))" unfolding eq ..
    then have len: "lc_total_len ?lc = size (lc_blocks m ?lc) + 1" using I(3) by simp
    obtain m' lc' where s: "push_spilled_block dbg m ?lc p = Some (m', lc')" "lc_inv dbg c ow geos m' lc'"
      "lc_blocks m' lc' = add_mset p (lc_blocks m ?lc)" "link_frame {p} m m'"
      by (rule push_spilled_block_spec [OF parts av geos, where b = p])
        (use d sub len P(9) [OF Some] in auto)
    have "lc_push_block dbg m lc b = Some (m', lc')"
      using Some room s(1) by (simp add: lc_push_block_def checked_add_def Let_def)
    moreover have "link_frame (set_mset (lc_blocks m lc)) m m'" by (rule link_frame_mono [OF s(4)]) (use pin in simp)
    ultimately show ?thesis using that s(2,3) eq by simp
  qed
qed

lemma push_shared_batch_spec:
  assumes inv: "lc_inv dbg c ow geos m lc" and geos: "geos_ok geos" and rep: "batch_rep m batch xs"
    and xs: "set xs \<subseteq> geo_blocks geos" "\<And>x. x \<in> set xs \<Longrightarrow> x \<notin># lc_blocks m lc \<and> idle_header dbg c x (m x)"
  obtains m' lc' where "push_shared_batch dbg m lc batch = Some (m', lc')" "lc_inv dbg c ow geos m' lc'"
    "lc_blocks m' lc' = lc_blocks m lc + mset xs" "link_frame (set xs) m m'"
proof -
  note I = lc_invD [OF inv]
  note P = lc_partsD [OF I(1)]
  let ?ys = "lc_shared_blocks m lc"
  have dist: "distinct xs" by (rule batch_rep_distinct [OF rep])
  have d: "dset (lc_blocks m lc + mset xs)" using I(4) dist xs(2) by (auto simp: dset_union)
  have "size (lc_blocks m lc + mset xs) \<le> usize_max"
    by (rule dset_size [OF d]) (use I(5) xs(1) geo_blocks_props [OF geos] in auto)
  then have fit: "size (lc_blocks m lc) + length xs \<le> usize_max" by simp
  moreover have "length ?ys \<le> size (lc_blocks m lc)" by (simp add: lc_blocks_def)
  ultimately have fit2: "length ?ys + length xs \<le> usize_max" by simp
  have disj: "set ?ys \<inter> set xs = {}" using xs(2) by (auto simp: in_lc_blocks)
  obtain m' l where push: "push_batch dbg m (lc_shared lc) batch = Some (m', l)" "fl_rep m' l (xs @ ?ys)"
    "link_frame (set xs) m m'"
    by (rule push_batch_rep [OF P(6) rep disj fit2])
  have same: "m' x = m x" if "x \<in># lc_blocks m lc" for x
    by (rule link_frame_outside [OF push(3)]) (use that xs(2) in blast)
  note fr = lc_parts_frame [OF I(1) same]
  let ?lc = "lc\<lparr>lc_shared := l, lc_shared_len := length (xs @ ?ys)\<rparr>"
  have hx: "idle_header dbg c x (m' x)" if "x \<in> set (xs @ ?ys)" for x
  proof -
    have "idle_header dbg c x (m x)" using that P(8) xs(2) by auto
    then show ?thesis using link_frame_H [OF push(3) idle_link_insensitive] by simp
  qed
  have sh: "lc_parts dbg c ow geos m' ?lc" "lc_blocks m' ?lc + mset ?ys = lc_blocks m lc + mset (xs @ ?ys)"
    using lc_parts_shared [OF fr(1) push(2) hx] fr(3,4) by simp_all
  have acct: "lc_blocks m' ?lc = lc_blocks m lc + mset xs" using sh(2) by (simp add: add.assoc [symmetric])
  let ?lc2 = "?lc\<lparr>lc_total_len := lc_total_len lc + length xs\<rparr>"
  have b2: "lc_blocks m' ?lc2 = lc_blocks m lc + mset xs" using acct by simp
  have "lc_inv dbg c ow geos m' ?lc2" unfolding lc_inv_def b2 using sh(1) I d xs(1) by simp
  moreover have "push_shared_batch dbg m lc batch = Some (m', ?lc2)"
    using push(1) batch_rep_len [OF rep] P(7) I(3) fit fit2
    by (simp add: push_shared_batch_def checked_add_def add.commute Let_def)
  ultimately show ?thesis using that b2 push(3) by blast
qed

section \<open>Detaching a batch\<close>

text \<open>What detaching up to \<open>mx\<close> blocks \<open>xs\<close> as a batch achieves.\<close>

definition detached ::
    "bool \<Rightarrow> SizeClass \<Rightarrow> u32 \<Rightarrow> geometry set \<Rightarrow> usize \<Rightarrow> heap \<Rightarrow> LocalClassCache \<Rightarrow>
     heap \<Rightarrow> LocalClassCache \<Rightarrow> Batch \<Rightarrow> addr list \<Rightarrow> bool" where
  "detached dbg c ow geos mx m lc m' lc' batch xs \<longleftrightarrow> lc_inv dbg c ow geos m' lc' \<and>
     batch_rep m' batch xs \<and> lc_blocks m lc = mset xs + lc_blocks m' lc' \<and> xs \<noteq> [] \<and> length xs \<le> mx \<and>
     (\<forall>x\<in>set xs. idle_header dbg c x (m' x)) \<and> (\<forall>x. x \<notin> set xs \<longrightarrow> m' x = m x)"

lemma ls_held_lc_blocks:
  assumes "i < length (lc_slabs lc)"
  shows "ls_held m (lc_slabs lc ! i) \<subseteq># lc_blocks m lc"
proof -
  have "ls_held m (lc_slabs lc ! i) \<in> set (map (ls_held m) (lc_slabs lc))" using assms by simp
  moreover have "M \<in> set Ms \<Longrightarrow> M \<subseteq># sum_list Ms" for M :: "addr multiset" and Ms
    by (induction Ms) (auto intro: subset_mset.order_trans mset_subset_eq_add_right)
  ultimately have "ls_held m (lc_slabs lc ! i) \<subseteq># lc_slab_blocks m lc" unfolding lc_slab_blocks_def by blast
  moreover have "lc_slab_blocks m lc \<subseteq># lc_blocks m lc" by (simp add: lc_blocks_def)
  ultimately show ?thesis by (rule subset_mset.order_trans)
qed

lemma pop_shared_batch:
  assumes inv: "lc_inv dbg c ow geos m lc" and ne: "lc_shared_blocks m lc \<noteq> []" and mx: "0 < mx"
  shows "\<exists>m' lc' batch xs. lc_pop_batch dbg m lc mx c = Some (m', lc', batch) \<and>
    detached dbg c ow geos mx m lc m' lc' batch xs"
proof -
  note I = lc_invD [OF inv]
  note P = lc_partsD [OF I(1)]
  let ?ys = "lc_shared_blocks m lc"
  let ?xs = "take mx ?ys" and ?zs = "drop mx ?ys"
  have "?ys \<noteq> []" by (rule ne)
  then have pos: "0 < lc_total_len lc" using I(3) by (simp add: lc_blocks_def)
  obtain m' l b where pb: "pop_batch_unchecked dbg m (lc_shared lc) mx = Some (m', l, b)"
    "batch_rep m' b ?xs" "fl_rep m' l ?zs" "link_frame (set ?xs) m m'"
    by (rule pop_batch_unchecked_rep [OF P(6) ne mx, where dbg = dbg]) blast
  let ?empty = "lc\<lparr>lc_shared := FreeList_new, lc_shared_len := length ([] :: addr list)\<rparr>"
  let ?lc = "lc\<lparr>lc_shared := l, lc_shared_len := length ?zs\<rparr>"
  have s0: "lc_parts dbg c ow geos m ?empty" "lc_blocks m ?empty + mset ?ys = lc_blocks m lc + mset []"
    using lc_parts_shared [OF I(1), of FreeList_new "[]"] by simp_all
  have "mset ?ys = mset ?xs + mset ?zs" by (metis append_take_drop_id mset_append)
  then have split: "lc_blocks m lc = mset ?xs + (mset ?zs + lc_blocks m ?empty)" using s0(2) by (simp add: ac_simps)
  have same: "m' x = m x" if "x \<notin> set ?xs" for x by (rule link_frame_outside [OF pb(4) that])
  have same0: "m' x = m x" if "x \<in># lc_blocks m ?empty" for x
    by (rule same) (use that I(4) split in \<open>auto simp: dset_union\<close>)
  note s1 = lc_parts_frame [OF s0(1) same0]
  have hx: "idle_header dbg c x (m' x)" if "x \<in> set ?ys" for x
    using P(8) [OF that] link_frame_H [OF pb(4) idle_link_insensitive] by simp
  have e0: "lc_shared_blocks m' ?empty = []"
    using fl_rep_blocks [of m' FreeList_new "[]"] by (simp add: lc_shared_blocks_def)
  have s2: "lc_parts dbg c ow geos m' ?lc" "lc_blocks m' ?lc = lc_blocks m ?empty + mset ?zs"
    using lc_parts_shared [OF s1(1) pb(3) hx [OF in_set_dropD]] s1(4) e0 by simp_all
  have acct: "lc_blocks m lc = mset ?xs + lc_blocks m' ?lc" unfolding s2(2) using split by (simp add: ac_simps)
  note less = lc_inv_less [OF inv acct]
  let ?lc2 = "?lc\<lparr>lc_total_len := lc_total_len lc - length ?xs\<rparr>"
  have "lc_inv dbg c ow geos m' ?lc2" unfolding lc_inv_def using s2(1) I(2) less by simp
  moreover have "lc_pop_batch dbg m lc mx c = Some (m', ?lc2, b)"
    using mx pos P(7) ne pb(1) batch_rep_len [OF pb(2)] less(3) by (simp add: lc_pop_batch_def checked_sub_def)
  moreover have "idle_header dbg c x (m' x)" if "x \<in> set ?xs" for x using hx in_set_takeD [OF that] by blast
  ultimately have "detached dbg c ow geos mx m lc m' ?lc2 b ?xs"
    unfolding detached_def using pb(2) acct ne mx same by simp
  then show ?thesis using \<open>lc_pop_batch dbg m lc mx c = Some (m', ?lc2, b)\<close> by blast
qed

lemma pop_slab_batch:
  assumes inv: "lc_inv dbg c ow geos m lc" and sh: "lc_shared_blocks m lc = []"
    and ne: "lc_available_slabs lc \<noteq> []" and mx: "0 < mx"
  shows "\<exists>m' lc' batch xs. lc_pop_batch dbg m lc mx c = Some (m', lc', batch) \<and>
    detached dbg c ow geos mx m lc m' lc' batch xs"
proof -
  note I = lc_invD [OF inv]
  note P = lc_partsD [OF I(1)]
  define i where "i = last (lc_available_slabs lc)"
  note L = avail_last [OF inv ne, folded i_def]
  have last: "vec_last (lc_available_slabs lc) = Some i" using ne by (simp add: vec_last_def i_def)
  let ?s = "lc_slabs lc ! i"
  have sl: "lc_shared_len lc = 0" using P(7) sh by simp
  have dh: "dset (ls_held m ?s)" by (rule dset_subset [OF I(4) ls_held_lc_blocks [OF L(1)]])
  obtain m' s batch xs where s: "LocalSlab_pop_batch dbg m ?s mx c = Some (m', s, batch)"
    "ls_ok (local_header dbg c ow) m' s" "batch_rep m' batch xs" "ls_held m ?s = mset xs + ls_held m' s" "xs \<noteq> []"
    "length xs = min mx (size (ls_held m ?s))" "\<And>x. x \<in> set xs \<Longrightarrow> idle_header dbg c x (m' x)"
    "\<And>x. x \<notin> set xs \<Longrightarrow> m' x = m x" "ls_geometry s = ls_geometry ?s" "ls_available_slot s = ls_available_slot ?s"
    by (rule LocalSlab_pop_batch_spec [where dbg = dbg, OF P(2) [OF L(1)] L(3) dh mx]) blast
  let ?lc = "lc\<lparr>lc_slabs := (lc_slabs lc)[i := s]\<rparr>"
  have same: "m' x = m x" if "x \<notin># ls_held m ?s" for x by (rule s(8)) (use that s(4) in auto)
  have p: "lc_parts dbg c ow geos m' ?lc" "lc_blocks m' ?lc + ls_held m ?s = lc_blocks m lc + ls_held m' s"
    by (rule lc_parts_set_slab [OF I(1) L(1) s(2,9) I(4)], erule same)+
  have "lc_blocks m lc + ls_held m' s = (mset xs + lc_blocks m' ?lc) + ls_held m' s"
    using p(2) unfolding s(4) by (simp add: ac_simps)
  then have acct: "lc_blocks m lc = mset xs + lc_blocks m' ?lc" by (rule add_right_imp_eq)
  note less = lc_inv_less [OF inv acct]
  let ?lc2 = "?lc\<lparr>lc_total_len := lc_total_len lc - length xs\<rparr>"
  have i2: "i < length (lc_slabs ?lc2)" and p2: "lc_parts dbg c ow geos m' ?lc2" using L(1) p(1) by simp_all
  have av: "avail_inv ((avail ?lc2)(i := True)) ?lc2" using avail_set_slab [OF I(2) L(1) s(10)] L(2) by simp
  have acct2: "lc_total_len ?lc2 = size (lc_blocks m' ?lc2)" "dset (lc_blocks m' ?lc2)"
    "set_mset (lc_blocks m' ?lc2) \<subseteq> geo_blocks geos" using less by simp_all
  note settle = settle_slab [OF p2 i2 av acct2]
  have now: "avail ?lc2 i = has_available_blocks s" using L(1) by simp
  have run: "lc_pop_batch dbg m lc mx c = do {
      lc3 \<leftarrow> (if \<not> has_available_blocks s then mark_slab_unavailable dbg ?lc2 i else Some ?lc2);
      Some (m', lc3, batch) }"
    using mx sl last L(1,2) s(1,5) batch_rep_len [OF s(3)] less(3)
    by (simp add: lc_pop_batch_def lc_set_slab_def checked_sub_def Let_def)
  have fin: "detached dbg c ow geos mx m lc m' lc3 batch xs"
    if "lc_inv dbg c ow geos m' lc3" "lc_blocks m' lc3 = lc_blocks m' ?lc2" for lc3
    unfolding detached_def using that acct s(3,5-8) by simp
  show ?thesis
  proof (cases "has_available_blocks s")
    case True
    then have "lc_pop_batch dbg m lc mx c = Some (m', ?lc2, batch)" "lc_inv dbg c ow geos m' ?lc2"
      using run settle(3) now by simp_all
    then show ?thesis using fin [of ?lc2] by blast
  next
    case False
    then obtain lc3 where "mark_slab_unavailable dbg ?lc2 i = Some lc3" "lc_inv dbg c ow geos m' lc3"
      "lc_blocks m' lc3 = lc_blocks m' ?lc2" using settle(2) now by metis
    then show ?thesis using fin [of lc3] run False by auto
  qed
qed

lemma pop_hot_batch:
  assumes inv: "lc_inv dbg c ow geos m lc" and geos: "geos_ok geos" and sh: "lc_shared_blocks m lc = []"
    and av: "lc_available_slabs lc = []" and ne: "lc_blocks m lc \<noteq> {#}" and mx: "0 < mx"
  shows "\<exists>m' lc' batch xs. lc_pop_batch dbg m lc mx c = Some (m', lc', batch) \<and>
    detached dbg c ow geos mx m lc m' lc' batch xs"
proof -
  note I = lc_invD [OF inv]
  note P = lc_partsD [OF I(1)]
  have hot: "lc_hot lc = lc_blocks m lc" using avail_Nil [OF inv av] sh by (simp add: lc_blocks_def)
  then obtain b where b: "lc_hot_block lc = Some b" "lc_blocks m lc = {#b#}"
    using ne by (auto simp: lc_hot_def split: option.splits)
  have sl: "lc_shared_len lc = 0" using P(7) sh by simp
  have b0: "b \<noteq> 0" using geo_blocks_props(1) [OF geos, of b] I(5) b(2) by auto
  obtain m1 l where push: "push_block m FreeList_new b = Some (m1, l)" "fl_rep m1 l [b]" "link_frame {b} m m1"
    by (rule push_block_rep [of m FreeList_new "[]" b]) (use b0 in \<open>auto simp: usize_max_def\<close>)
  obtain m2 l2 batch where pb: "pop_batch_unchecked dbg m1 l 1 = Some (m2, l2, batch)" "batch_rep m2 batch [b]"
    "link_frame {b} m1 m2"
    by (rule pop_batch_unchecked_rep [OF push(2), of 1 dbg]) auto
  have fr: "link_frame {b} m m2" using link_frame_trans [OF push(3) pb(3)] by simp
  let ?lc = "lc\<lparr>lc_hot_block := None\<rparr>"
  have e: "lc_parts dbg c ow geos m ?lc" "lc_blocks m ?lc = {#}"
    using lc_parts_hot [OF I(1), of None] b by (simp_all add: lc_hot_def)
  note e2 = lc_parts_frame [OF e(1), of m2]
  have "lc_inv dbg c ow geos m2 (?lc\<lparr>lc_total_len := 0\<rparr>)" unfolding lc_inv_def using e2 e(2) I(2) by simp
  moreover have "idle_header dbg c b (m2 b)"
    using local_idle [OF P(9) [OF b(1)]] link_frame_H [OF fr idle_link_insensitive] by simp
  ultimately have "detached dbg c ow geos mx m lc m2 (?lc\<lparr>lc_total_len := 0\<rparr>) batch [b]"
    unfolding detached_def using pb(2) b(2) e2(4) e(2) mx link_frame_outside [OF fr] by simp
  moreover have "lc_pop_batch dbg m lc mx c = Some (m2, ?lc\<lparr>lc_total_len := 0\<rparr>, batch)"
    using mx I(3) b sl av push(1) pb(1) by (simp add: lc_pop_batch_def vec_last_def checked_sub_def)
  ultimately show ?thesis by blast
qed

lemma lc_pop_batch_spec:
  assumes "lc_inv dbg c ow geos m lc" "geos_ok geos" "lc_blocks m lc \<noteq> {#}" "0 < mx"
  obtains m' lc' batch xs where "lc_pop_batch dbg m lc mx c = Some (m', lc', batch)"
    "detached dbg c ow geos mx m lc m' lc' batch xs"
  using pop_shared_batch [OF assms(1) _ assms(4)] pop_slab_batch [OF assms(1) _ _ assms(4)]
    pop_hot_batch [OF assms(1,2) _ _ assms(3,4)] by blast

section \<open>Receiving a whole slab\<close>

lemma geo_same_start:
  assumes "geos_ok geos" "g \<in> geos" "h \<in> geos" "fst g = fst h"
  shows "g = h"
proof -
  have "g = h \<or> fst (snd g) \<le> fst h \<or> fst (snd h) \<le> fst g" "geo_shape g" "geo_shape h"
    using assms(1-3) by (auto simp: geos_ok_def)
  moreover have "fst x < fst (snd x)" if "geo_shape x" for x using that by (auto simp: geo_shape_def HEADER_SIZE_def)
  ultimately show ?thesis using assms(4) by (metis leD)
qed

lemma install_slab:
  assumes parts: "lc_parts dbg c ow geos m lc" and i: "i < length (lc_slabs lc)"
    and av: "avail_inv ((avail lc)(i := old)) lc" "avail lc i"
    and acct: "dset (lc_blocks m lc)" "set_mset (lc_blocks m lc) \<subseteq> geo_blocks geos"
    "lc_total_len lc + cap = size (lc_blocks m lc)" and geos: "geos_ok geos"
  shows "\<exists>lc'. do { lc2 \<leftarrow> mark_slab_available lc i; n \<leftarrow> checked_add (lc_total_len lc2) cap;
      Some (lc2\<lparr>lc_recent_slab := Some i, lc_total_len := n\<rparr>) } = Some lc' \<and>
    lc_inv dbg c ow geos m lc' \<and> lc_blocks m lc' = lc_blocks m lc"
proof -
  obtain lc2 where l: "mark_slab_available lc i = Some lc2" "avail_inv (((avail lc)(i := old))(i := True)) lc2" "slot_eq lc lc2"
    by (rule mark_available_spec [OF av(1) i])
  note S = slot_eq_parts [OF l(3)] and F = slot_eq_fields [OF l(3)]
  have "size (lc_blocks m lc) \<le> usize_max"
    by (rule dset_size [OF acct(1)]) (use acct(2) geo_blocks_props [OF geos] in blast)
  then have fit: "lc_total_len lc + cap \<le> usize_max" using acct(3) by simp
  let ?lc = "lc2\<lparr>lc_recent_slab := Some i, lc_total_len := lc_total_len lc + cap\<rparr>"
  have "avail_inv (avail ?lc) ?lc" using avail_cong [OF l(2), of "avail lc2"] S(3) F(7) av(2) by auto
  moreover have "lc_parts dbg c ow geos m ?lc" using lc_parts_recent [of dbg c ow geos m lc2 i] S(1) parts i F(7) by simp
  ultimately have "lc_inv dbg c ow geos m ?lc" unfolding lc_inv_def using S(2) acct by simp
  then show ?thesis using l(1) F(6) fit S(2) by (simp add: checked_add_def)
qed

text \<open>A slab the cache knows already: it holds none of its blocks, and starts afresh.\<close>

lemma reset_slab:
  assumes inv: "lc_inv dbg c ow geos m lc" and geos: "geos_ok geos" and i: "i < length (lc_slabs lc)"
    and g: "ls_geometry (lc_slabs lc ! i) = (start, start + bs * cap, bs, cap)"
    and apart: "\<And>x. x \<in> set (blocks_of start bs cap) \<Longrightarrow> x \<notin># lc_blocks m lc"
  shows "\<exists>lc'. do { q \<leftarrow> mark_slab_unavailable dbg lc i; s \<leftarrow> vec_get (lc_slabs q) i;
      s' \<leftarrow> LocalSlab_reset dbg s start bs cap; lc_set_slab q i s' } = Some lc' \<and>
    lc_parts dbg c ow geos m lc' \<and> i < length (lc_slabs lc') \<and> avail_inv ((avail lc')(i := False)) lc' \<and>
    avail lc' i \<and> lc_total_len lc' = lc_total_len lc \<and> lc_blocks m lc' = lc_blocks m lc + mset (blocks_of start bs cap)"
proof -
  note I = lc_invD [OF inv]
  note P = lc_partsD [OF I(1)]
  have held: "ls_held m (lc_slabs lc ! i) = {#}"
  proof (rule ccontr)
    assume "ls_held m (lc_slabs lc ! i) \<noteq> {#}"
    then obtain x where x: "x \<in># ls_held m (lc_slabs lc ! i)" by blast
    then have "x \<in> set (blocks_of start bs cap)" using ls_held_blocks [OF P(2) [OF i] x] g by (simp add: geo_block_list_def)
    then show False using apart x i by (auto simp: in_lc_blocks)
  qed
  then have na: "\<not> avail lc i" using has_available_iff [OF P(2) [OF i]] by simp
  obtain q where q: "mark_slab_unavailable dbg lc i = Some q" "avail_inv ((avail lc)(i := False)) q" "slot_eq lc q"
    by (rule mark_unavailable_spec [OF I(2) i])
  note S = slot_eq_parts [OF q(3)] and F = slot_eq_fields [OF q(3)]
  have iq: "i < length (lc_slabs q)" using i F(7) by simp
  have avq: "avail_inv (avail q) q" by (rule avail_cong [OF q(2)]) (use S(3) F(7) na in auto)
  then have slot: "ls_available_slot (lc_slabs q ! i) = None" using na S(3) [OF i] iq by (simp add: avail_inv_def)
  obtain k where qk: "lc_slabs q ! i = (lc_slabs lc ! i)\<lparr>ls_available_slot := k\<rparr>" by (rule slot_eq_nth [OF q(3) i])
  define s where "s = (lc_slabs q ! i)\<lparr>ls_next_fresh := 0, ls_free := FreeList_new, ls_available_slot := None\<rparr>"
  have geo: "ls_geometry s = ls_geometry (lc_slabs q ! i)" by (simp add: s_def)
  have linked: "ls_linked m s = []" using fl_rep_blocks [of m FreeList_new "[]"] by (simp add: ls_linked_def s_def)
  have fields: "ls_start s = start" "ls_block_size s = bs" "ls_capacity s = cap"
    using g qk by (simp_all add: s_def ls_geometry_def)
  have ok: "ls_ok (local_header dbg c ow) m s"
    unfolding ls_ok_def linked using P(4) [OF i] geo qk by (simp add: s_def)
  have fresh: "ls_held m s = mset (blocks_of start bs cap)"
    unfolding ls_held_def linked ls_fresh_def fields by (simp add: s_def blocks_of_def)
  let ?lc = "q\<lparr>lc_slabs := (lc_slabs q)[i := s]\<rparr>"
  have p: "lc_parts dbg c ow geos m ?lc" "lc_blocks m ?lc + ls_held m (lc_slabs q ! i) = lc_blocks m q + ls_held m s"
    by (rule lc_parts_set_slab [OF _ iq ok geo]; use S(1,2) I in simp)+
  have acct: "lc_blocks m ?lc = lc_blocks m lc + mset (blocks_of start bs cap)"
    using p(2) held qk fresh S(2) by simp
  have "ls_start (lc_slabs q ! i) = start" "ls_block_size (lc_slabs q ! i) = bs" "ls_capacity (lc_slabs q ! i) = cap"
    using g qk by (simp_all add: ls_geometry_def)
  then have run: "do { q \<leftarrow> mark_slab_unavailable dbg lc i; s \<leftarrow> vec_get (lc_slabs q) i;
      s' \<leftarrow> LocalSlab_reset dbg s start bs cap; lc_set_slab q i s' } = Some ?lc"
    using q(1) iq by (simp add: LocalSlab_reset_def lc_set_slab_def s_def)
  have av: "avail_inv ((avail ?lc)(i := False)) ?lc"
    using avail_set_slab [OF avq iq, of s] slot na S(3) [OF i] by (simp add: s_def)
  have "0 < cap" using P(4) [OF i] g by (simp add: geo_shape_def)
  then have "has_available_blocks s" by (simp add: has_available_blocks_def fields) (simp add: s_def)
  then have "avail ?lc i" using iq by simp
  then show ?thesis using run p(1) av acct iq F(6) by simp
qed

text \<open>A slab that is new to the cache.\<close>

lemma append_slab:
  assumes inv: "lc_inv dbg c ow geos m lc" and s: "ls_ok (local_header dbg c ow) m s" "ls_geometry s \<in> geos"
    "ls_available_slot s = None"
    and idx: "index_ok ls_start ls_end_addr (lc_slabs lc @ [s]) order"
  defines "lc' \<equiv> lc\<lparr>lc_slabs := lc_slabs lc @ [s], lc_slabs_by_start := order\<rparr>"
  shows "lc_parts dbg c ow geos m lc'" "avail_inv ((avail lc')(length (lc_slabs lc) := False)) lc'"
    "lc_blocks m lc' = lc_blocks m lc + ls_held m s"
proof -
  note I = lc_invD [OF inv]
  have sh: "lc_shared_blocks m lc' = lc_shared_blocks m lc" by (simp add: lc_shared_blocks_def lc'_def)
  show "lc_parts dbg c ow geos m lc'"
    unfolding lc_parts_def sh using I(1) s idx by (fastforce simp: lc'_def lc_parts_def)
  show "lc_blocks m lc' = lc_blocks m lc + ls_held m s"
    unfolding lc_blocks_def sh by (simp add: lc'_def lc_hot_def lc_slab_blocks_def ac_simps)
  have ok: "bucket_ok (lc_available_slabs lc) (\<lambda>i. i < length (lc_slabs lc) \<and> avail lc i) (\<lambda>i. ls_available_slot (lc_slabs lc ! i))"
    and none: "\<And>i. i < length (lc_slabs lc) \<Longrightarrow> \<not> avail lc i \<Longrightarrow> ls_available_slot (lc_slabs lc ! i) = None"
    using I(2) by (auto simp: avail_inv_def)
  have "bucket_ok (lc_available_slabs lc) (\<lambda>i. i < length (lc_slabs lc') \<and> ((avail lc')(length (lc_slabs lc) := False)) i)
      (\<lambda>i. ls_available_slot (lc_slabs lc' ! i))"
    by (rule bucket_ok_cong [OF ok]) (auto simp: lc'_def nth_append)
  moreover have "ls_available_slot (lc_slabs lc' ! i) = None"
    if "i < length (lc_slabs lc')" "\<not> ((avail lc')(length (lc_slabs lc) := False)) i" for i
    using that none s(3) by (auto simp: lc'_def nth_append split: if_splits)
  ultimately show "avail_inv ((avail lc')(length (lc_slabs lc) := False)) lc'"
    unfolding avail_inv_def by (simp add: lc'_def)
qed

lemma lc_push_owned_slab_spec:
  assumes inv: "lc_inv dbg c ow geos m lc" and geos: "geos_ok geos"
    and g: "(start, start + bs * cap, bs, cap) \<in> geos"
    and apart: "\<And>x. x \<in> set (blocks_of start bs cap) \<Longrightarrow> x \<notin># lc_blocks m lc"
  shows "\<exists>lc'. lc_push_owned_slab dbg lc start bs cap = Some lc' \<and> lc_inv dbg c ow geos m lc' \<and>
    lc_blocks m lc' = lc_blocks m lc + mset (blocks_of start bs cap)"
proof -
  note I = lc_invD [OF inv]
  note P = lc_partsD [OF I(1)]
  let ?g = "(start, start + bs * cap, bs, cap)" and ?B = "lc_blocks m lc + mset (blocks_of start bs cap)"
  let ?ks = "map (\<lambda>i. ls_start (lc_slabs lc ! i)) (lc_slabs_by_start lc)"
  have keys: "index_keys ls_start (lc_slabs lc) (lc_slabs_by_start lc) = Some ?ks" by (rule index_keys_eq [OF P(1)])
  have shape: "geo_shape ?g" using geos g by (simp add: geos_ok_def)
  then have bs: "0 < bs" by (simp add: geo_shape_def HEADER_SIZE_def)
  have B: "dset ?B" "set_mset ?B \<subseteq> geo_blocks geos" "lc_total_len lc + cap = size ?B"
    using I(3-5) apart bs g by (auto simp: dset_union geo_blocks_def geo_block_list_def)
  have fin: ?thesis
    if "lc_push_owned_slab dbg lc start bs cap = do { lc2 \<leftarrow> mark_slab_available q i; n \<leftarrow> checked_add (lc_total_len lc2) cap;
          Some (lc2\<lparr>lc_recent_slab := Some i, lc_total_len := n\<rparr>) }"
      and q: "lc_parts dbg c ow geos m q" "i < length (lc_slabs q)" "avail_inv ((avail q)(i := False)) q" "avail q i"
        "lc_total_len q = lc_total_len lc" "lc_blocks m q = ?B" for q i
    using install_slab [OF q(1-4), of cap] B geos unfolding that(1) q(5,6) by blast
  show ?thesis
  proof (cases "\<exists>i<length (lc_slabs lc). ls_start (lc_slabs lc ! i) = start")
    case True
    then obtain i where i: "i < length (lc_slabs lc)" "ls_start (lc_slabs lc ! i) = start" by blast
    have geo: "ls_geometry (lc_slabs lc ! i) = ?g"
      by (rule geo_same_start [OF geos P(3) [OF i(1)] g]) (use i(2) in \<open>simp add: ls_geometry_def\<close>)
    obtain k where k: "binary_search_by (\<lambda>a. cmp_usize a start) ?ks = Inr k" "k < length (lc_slabs_by_start lc)"
      "lc_slabs_by_start lc ! k = i" by (rule index_search_known [OF P(1) i])
    obtain q where q: "do { q \<leftarrow> mark_slab_unavailable dbg lc i; s \<leftarrow> vec_get (lc_slabs q) i;
        s' \<leftarrow> LocalSlab_reset dbg s start bs cap; lc_set_slab q i s' } = Some q"
      "lc_parts dbg c ow geos m q" "i < length (lc_slabs q)" "avail_inv ((avail q)(i := False)) q"
      "avail q i" "lc_total_len q = lc_total_len lc" "lc_blocks m q = ?B"
      using reset_slab [OF inv geos i(1) geo apart] by blast
    show ?thesis
      by (rule fin [OF _ q(2-7)])
        (use keys k q(1) in \<open>auto simp: lc_push_owned_slab_def run_elims split: option.splits\<close>)
  next
    case False
    define s where "s = \<lparr>ls_start = start, ls_end_addr = start + bs * cap, ls_block_size = bs, ls_capacity = cap,
      ls_next_fresh = 0, ls_free = FreeList_new, ls_available_slot = None\<rparr>"
    have geo: "ls_geometry s = ?g" by (simp add: s_def ls_geometry_def)
    have linked: "ls_linked m s = []" using fl_rep_blocks [of m FreeList_new "[]"] by (simp add: ls_linked_def s_def)
    have ok: "ls_ok (local_header dbg c ow) m s" unfolding ls_ok_def linked geo using shape by (simp add: s_def)
    have fresh: "ls_held m s = mset (blocks_of start bs cap)"
      unfolding ls_held_def linked ls_fresh_def by (simp add: s_def blocks_of_def)
    have far: "ls_end_addr t \<le> ls_start s \<or> ls_end_addr s \<le> ls_start t" if t: "t \<in> set (lc_slabs lc)" for t
    proof -
      have "ls_geometry t \<in> geos" "ls_geometry t \<noteq> ?g"
        using t False P(3) by (auto simp: in_set_conv_nth ls_geometry_def)
      then show ?thesis using geos g unfolding geos_ok_def by (fastforce simp: ls_geometry_def s_def)
    qed
    have "ls_start s < ls_end_addr s" using shape by (simp add: s_def geo_shape_def HEADER_SIZE_def)
    from index_insert [OF P(1) this far]
    obtain k where k: "binary_search_by (\<lambda>a. cmp_usize a start) ?ks = Inl k" "k \<le> length (lc_slabs_by_start lc)"
      "index_ok ls_start ls_end_addr (lc_slabs lc @ [s])
        (take k (lc_slabs_by_start lc) @ length (lc_slabs lc) # drop k (lc_slabs_by_start lc))"
      by (auto simp: s_def)
    have gs: "ls_geometry s \<in> geos" "ls_available_slot s = None" using geo g by (simp_all add: s_def)
    note app = append_slab [OF inv ok gs k(3)]
    have new: "LocalSlab_new start bs cap = Some s"
      using shape by (simp add: LocalSlab_new_def checked_mul_def checked_add_def s_def geo_shape_def)
    have "has_available_blocks s" using shape by (simp add: has_available_blocks_def s_def geo_shape_def)
    then show ?thesis
      by (intro fin [OF _ app(1) _ app(2)])
        (use keys k new app(3) fresh in \<open>simp_all add: lc_push_owned_slab_def vec_insert_def Let_def\<close>)
  qed
qed

end
