(* ===== verification/Class_Pool_Ops.thy ===== *)
theory Class_Pool_Ops
  imports Class_Pool_Inv
begin

text \<open>
  The operations of a class pool of \<^verbatim>\<open>src/src/central_pool.rs\<close> on pools that satisfy
  \<open>pool_inv\<close>: the sweep, registration of a slab, refills and returns.
\<close>

section \<open>What a sweep may touch\<close>

text \<open>
  \<open>madvise\<close> may change the bytes of the advised range only; a header that lies outside it
  keeps its contents.
\<close>

definition madvise_ok :: "os \<Rightarrow> bool" where
  "madvise_ok sys \<longleftrightarrow> (\<forall>a len m st m' b. madvise_free sys a len m = (st, m') \<longrightarrow>
     b + HEADER_SIZE \<le> a \<or> a + len \<le> b \<longrightarrow> m' b = m b)"

text \<open>Addresses whose header overlaps the range of a slab, and those overlapping a slab all of
  whose blocks are in \<open>G\<close>.\<close>

definition zone :: "SlabRecord \<Rightarrow> addr set" where
  "zone s = {b. sr_start s < b + HEADER_SIZE \<and> b < sr_end_addr s}"

definition sweepable :: "ClassPool \<Rightarrow> addr set \<Rightarrow> addr set" where
  "sweepable p G = {b. \<exists>s\<in>set (cp_slabs p). set (slab_blocks s) \<subseteq> G \<and> b \<in> zone s}"

lemma sweepable_mono: "G \<subseteq> G' \<Longrightarrow> sweepable p G \<subseteq> sweepable p G'"
  by (auto simp: sweepable_def)

lemma geometry_eq_pool:
  assumes "map slab_geometry (cp_slabs p') = map slab_geometry (cp_slabs p)"
  shows "pool_all p' = pool_all p" "sweepable p' G = sweepable p G"
    "length (cp_slabs p') = length (cp_slabs p)"
proof -
  show len: "length (cp_slabs p') = length (cp_slabs p)" using assms by (rule map_eq_imp_length_eq)
  have geo: "slab_geometry (cp_slabs p' ! i) = slab_geometry (cp_slabs p ! i)"
    if "i < length (cp_slabs p)" for i
    using assms len that by (metis nth_map)
  have nth: "slab_blocks (cp_slabs p' ! i) = slab_blocks (cp_slabs p ! i)"
    "zone (cp_slabs p' ! i) = zone (cp_slabs p ! i)" if "i < length (cp_slabs p)" for i
    using geo [OF that] by (simp_all add: slab_geometry_def slab_blocks_def zone_def)
  have "map slab_blocks (cp_slabs p') = map slab_blocks (cp_slabs p)"
    using len nth by (intro nth_equalityI) auto
  then show "pool_all p' = pool_all p" by (simp only: pool_all_def)
  let ?f = "\<lambda>s. (slab_blocks s, zone s)"
  have "map ?f (cp_slabs p') = map ?f (cp_slabs p)" using len nth by (intro nth_equalityI) auto
  then have "set (map ?f (cp_slabs p')) = set (map ?f (cp_slabs p))" by (rule arg_cong)
  moreover have "sweepable q G = {b. \<exists>x\<in>set (map ?f (cp_slabs q)). set (fst x) \<subseteq> G \<and> b \<in> snd x}" for q
    by (auto simp: sweepable_def)
  ultimately show "sweepable p' G = sweepable p G" by (simp only:)
qed

lemma block_outside_zone:
  assumes core: "pool_core H m p" and ij: "i < length (cp_slabs p)" "j < length (cp_slabs p)" "i \<noteq> j"
    and b: "b \<in> set (slab_blocks (cp_slabs p ! j))"
  shows "b \<notin> zone (cp_slabs p ! i)"
proof -
  have "index_ok sr_start sr_end_addr (cp_slabs p) (cp_slabs_by_start p)"
    using core by (simp add: pool_core_def)
  note apart = index_ok_apart [OF this ij]
  note shape = pool_coreD(2) [OF core ij(2)]
  show ?thesis
    using apart slab_block_fits(2) [OF shape b] central_slab.block_range [OF shape b]
    by (auto simp: zone_def)
qed

lemma advise_free_frame:
  assumes "madvise_ok sys" "advise_free sys m a len = (m', r)" "b + HEADER_SIZE \<le> a \<or> a + len \<le> b"
  shows "m' b = m b"
  using assms unfolding advise_free_def advise_free_impl_def madvise_ok_def
  by (auto split: if_splits prod.splits)

section \<open>The sweep\<close>

text \<open>
  The common conclusion: the pool keeps its invariant, its slabs and the account of its
  blocks, and memory changes only where a fully returned slab lies.
\<close>

definition swept :: "(addr \<Rightarrow> AllocationHeader \<Rightarrow> bool) \<Rightarrow> heap \<Rightarrow> ClassPool \<Rightarrow> heap \<Rightarrow> ClassPool \<Rightarrow> bool" where
  "swept H m p m' p' \<longleftrightarrow> pool_inv H m' p' \<and> pool_blocks m' p' = pool_blocks m p \<and>
     map slab_geometry (cp_slabs p') = map slab_geometry (cp_slabs p) \<and> cp_epoch p' = cp_epoch p \<and>
     (\<forall>b. b \<notin> sweepable p (set_mset (pool_blocks m p)) \<longrightarrow> m' b = m b)"

lemma pool_inv_cursor [simp]:
  "pool_inv H m (p\<lparr>cp_sweep_cursor := k\<rparr>) = pool_inv H m p"
  "pool_blocks m (p\<lparr>cp_sweep_cursor := k\<rparr>) = pool_blocks m p"
  "sweepable (p\<lparr>cp_sweep_cursor := k\<rparr>) G = sweepable p G"
proof -
  have "bucket st (p\<lparr>cp_sweep_cursor := k\<rparr>) = bucket st p" for st by (cases st) simp_all
  then show "pool_inv H m (p\<lparr>cp_sweep_cursor := k\<rparr>) = pool_inv H m p"
    "pool_blocks m (p\<lparr>cp_sweep_cursor := k\<rparr>) = pool_blocks m p"
    "sweepable (p\<lparr>cp_sweep_cursor := k\<rparr>) G = sweepable p G"
    by (simp_all add: pool_inv_def pool_core_def buckets_inv_def pool_blocks_def sweepable_def)
qed

lemma swept_cursor: "swept H m (p\<lparr>cp_sweep_cursor := k\<rparr>) m' p' = swept H m p m' p'"
  by (simp add: swept_def)

lemma held_in_pool:
  "i < length (cp_slabs p) \<Longrightarrow> set (slab_held m (cp_slabs p ! i)) \<subseteq> set_mset (pool_blocks m p)"
  by (auto simp: pool_blocks_def intro!: bexI [OF _ nth_mem])

text \<open>Memory inside the zone of a full slab may change.\<close>

lemma pool_core_zone:
  assumes core: "pool_core H m p" and i: "i < length (cp_slabs p)" "sr_state (cp_slabs p ! i) \<noteq> Partial"
    and same: "\<And>b. b \<notin> zone (cp_slabs p ! i) \<Longrightarrow> m' b = m b"
  shows "pool_core H m' p" "pool_blocks m' p = pool_blocks m p"
proof -
  have "m' b = m b" if s: "s \<in> set (cp_slabs p)" and b: "b \<in> set (slab_linked m s)" for s b
  proof -
    obtain j where j: "j < length (cp_slabs p)" "s = cp_slabs p ! j" using s by (auto simp: in_set_conv_nth)
    have "i \<noteq> j" using b i(2) j by (auto simp: slab_linked_def split: if_splits)
    moreover have "b \<in> set (slab_blocks (cp_slabs p ! j))"
      using b j slab_linked_held slab_held_subset [OF pool_coreD(1) [OF core j(1)]] by blast
    ultimately show ?thesis using same block_outside_zone [OF core i(1) j(1)] by blast
  qed
  then show "pool_core H m' p" "pool_blocks m' p = pool_blocks m p"
    using pool_core_frame [OF core] by blast+
qed

lemma state_of_update:
  "i < length (cp_slabs p) \<Longrightarrow>
   state_of (p\<lparr>cp_slabs := (cp_slabs p)[i := s]\<rparr>) = (state_of p)(i := sr_state s)"
  by (auto simp: nth_list_update fun_eq_iff)

lemma buckets_inv_slab:
  assumes "i < length (cp_slabs p)" "sr_bucket_slot s = sr_bucket_slot (cp_slabs p ! i)"
  shows "buckets_inv stf (p\<lparr>cp_slabs := (cp_slabs p)[i := s]\<rparr>) = buckets_inv stf p"
proof -
  have "sr_bucket_slot ((cp_slabs p)[i := s] ! j) = sr_bucket_slot (cp_slabs p ! j)" for j
    using assms by (cases "i = j") simp_all
  then show ?thesis by (simp add: buckets_inv_def)
qed

text \<open>The record of one slab is replaced and then its bucket is reconciled.\<close>

lemma update_and_reconcile:
  assumes inv: "pool_inv H m p" and i: "i < length (cp_slabs p)" and ok: "slab_ok H m' s"
    and geo: "slab_geometry s = slab_geometry (cp_slabs p ! i)"
    and slot: "sr_bucket_slot s = sr_bucket_slot (cp_slabs p ! i)"
    and frame: "\<And>b. b \<notin> set (slab_blocks s) \<Longrightarrow> m' b = m b"
  obtains p' where
    "reconcile_bucket_transition dbg (p\<lparr>cp_slabs := (cp_slabs p)[i := s], cp_recent_slab := r\<rparr>) i
       (sr_state (cp_slabs p ! i)) (sr_state s) = Some p'"
    "(\<forall>j. r = Some j \<longrightarrow> j < length (cp_slabs p)) \<Longrightarrow> pool_inv H m' p'"
    "map slab_geometry (cp_slabs p') = map slab_geometry (cp_slabs p)" "cp_epoch p' = cp_epoch p"
    "pool_blocks m' p' + mset (slab_held m (cp_slabs p ! i)) = pool_blocks m p + mset (slab_held m' s)"
proof -
  let ?q = "p\<lparr>cp_slabs := (cp_slabs p)[i := s]\<rparr>"
  let ?r = "p\<lparr>cp_slabs := (cp_slabs p)[i := s], cp_recent_slab := r\<rparr>"
  have core: "pool_core H m p" and buckets: "buckets_inv (state_of p) p"
    using inv by (auto simp: pool_inv_def)
  note upd = pool_core_update [OF core i ok geo frame]
  have bucket_r: "bucket st (q\<lparr>cp_recent_slab := r\<rparr>) = bucket st q" for st q by (cases st) simp_all
  have br: "buckets_inv stf ?r = buckets_inv stf p" for stf
    using buckets_inv_slab [OF i slot, of stf] by (simp add: buckets_inv_def bucket_r)
  have "buckets_inv (state_of p) ?r" using br buckets by simp
  then obtain p' where p': "reconcile_bucket_transition dbg ?r i (state_of p i) (sr_state s) = Some p'"
    "buckets_inv ((state_of p)(i := sr_state s)) p'" "core_eq ?r p'"
    by (rule reconcile_spec [where i = i and prev = "state_of p i" and nxt = "sr_state s"]) (use i in auto)
  note eq = core_eq_pool [OF p'(3)]
  have len: "length (cp_slabs p') = length (cp_slabs p)" using core_eq_length [OF p'(3)] by simp
  have "state_of p' j = ((state_of p)(i := sr_state s)) j" if "j < length (cp_slabs p)" for j
    using eq(5) [of j] that state_of_update [OF i, of s] by (simp add: fun_eq_iff)
  then have "buckets_inv (state_of p') p'"
    using p'(2) len unfolding buckets_inv_def by (auto elim!: bucket_ok_cong)
  moreover have "pool_core H m' ?r" if "\<forall>j. r = Some j \<longrightarrow> j < length (cp_slabs p)"
    using upd(1) that by (simp add: pool_core_def)
  ultimately have "pool_inv H m' p'" if "\<forall>j. r = Some j \<longrightarrow> j < length (cp_slabs p)"
    using that eq(1) by (simp add: pool_inv_def)
  moreover have "map slab_geometry (cp_slabs p') = map slab_geometry (cp_slabs p)"
    using eq(4) geo i by (simp add: map_update list_update_same_conv)
  moreover have "cp_epoch p' = cp_epoch p" using p'(3) by (simp add: core_eq_def)
  moreover have "pool_blocks m' ?r = pool_blocks m' ?q" by (simp add: pool_blocks_def)
  ultimately show ?thesis using that p'(1) upd(3) eq(2) by simp
qed

lemma sweep_one:
  assumes inv: "pool_inv H m p" and i: "i < length (cp_slabs p)" "sr_state (cp_slabs p ! i) = FullHot"
    and os: "madvise_ok sys"
    and range: "page_aligned_inner_range sys (sr_start (cp_slabs p ! i))
        (sr_end_addr (cp_slabs p ! i) - sr_start (cp_slabs p ! i)) = Some (a, len)"
    and adv: "advise_free sys m a len = (m', r)"
  shows "swept H m p m' p"
    "\<exists>p'. reconcile_bucket_transition dbg
         (p\<lparr>cp_slabs := (cp_slabs p)[i := (cp_slabs p ! i)\<lparr>sr_state := FullCold\<rparr>]\<rparr>) i FullHot FullCold =
       Some p' \<and> swept H m p m' p'"
proof -
  let ?s = "cp_slabs p ! i" and ?s' = "(cp_slabs p ! i)\<lparr>sr_state := FullCold\<rparr>"
  have core: "pool_core H m p" using inv by (simp add: pool_inv_def)
  note shape = pool_coreD(2) [OF core i(1)]
  note in_range = page_aligned_inner_range_inside [OF range]
  have "sr_start ?s \<le> sr_end_addr ?s" using shape by (simp add: slab_shape_ok_def)
  then have outside: "b + HEADER_SIZE \<le> a \<or> a + len \<le> b" if "b \<notin> zone ?s" for b
    using that in_range(1,2) by (auto simp: zone_def)
  have same: "m' b = m b" if "b \<notin> zone ?s" for b
    by (rule advise_free_frame [OF os adv outside [OF that]])
  have held: "slab_held m'' ?s = slab_blocks ?s" for m'' using i(2) by (simp add: slab_held_def)
  have "zone ?s \<subseteq> sweepable p (set_mset (pool_blocks m p))"
    using held_in_pool [OF i(1), of m] i(1) held by (auto simp: sweepable_def)
  then have fr: "m' b = m b" if "b \<notin> sweepable p (set_mset (pool_blocks m p))" for b
    using same that by blast
  note core' = pool_core_zone [OF core i(1) _ same]
  have inv': "pool_inv H m' p" using core' i(2) inv by (simp add: pool_inv_def)
  have blocks': "pool_blocks m' p = pool_blocks m p" using core' i(2) by simp
  show "swept H m p m' p" using inv' blocks' fr by (simp add: swept_def)
  have held': "slab_held m' ?s' = slab_held m' ?s" using i(2) by (simp add: slab_held_def slab_blocks_def)
  have "slab_ok H m' ?s" using pool_coreD(1) i(1) inv' by (auto simp: pool_inv_def)
  then have ok: "slab_ok H m' ?s'" unfolding slab_ok_def held' using i(2) by (simp add: slab_shape_ok_def)
  from inv' have rec: "\<forall>j. cp_recent_slab p = Some j \<longrightarrow> j < length (cp_slabs p)"
    by (simp add: pool_inv_def pool_core_def)
  obtain p' where p': "reconcile_bucket_transition dbg
      (p\<lparr>cp_slabs := (cp_slabs p)[i := ?s'], cp_recent_slab := cp_recent_slab p\<rparr>) i (sr_state ?s) (sr_state ?s') = Some p'"
    "pool_inv H m' p'" "map slab_geometry (cp_slabs p') = map slab_geometry (cp_slabs p)" "cp_epoch p' = cp_epoch p"
    "pool_blocks m' p' + mset (slab_held m' ?s) = pool_blocks m' p + mset (slab_held m' ?s')"
    using update_and_reconcile [where r = "cp_recent_slab p", OF inv' i(1) ok _ _ refl] rec
    by (auto simp: slab_geometry_def)
  then show "\<exists>p'. reconcile_bucket_transition dbg
      (p\<lparr>cp_slabs := (cp_slabs p)[i := ?s']\<rparr>) i FullHot FullCold = Some p' \<and> swept H m p m' p'"
    using i(2) held' blocks' fr by (auto simp: swept_def)
qed

lemma hot_slab:
  assumes "pool_inv H m p" "k < length (cp_full_hot_slabs p)"
  shows "cp_full_hot_slabs p ! k < length (cp_slabs p)"
    "sr_state (cp_slabs p ! (cp_full_hot_slabs p ! k)) = FullHot"
  using assms buckets_invD [of "state_of p" p FullHot] by (auto simp: pool_inv_def bucket_ok_def)

lemma sweep_loop_spec:
  assumes "pool_inv H m p" "madvise_ok sys" "tot = length (cp_full_hot_slabs p)" "0 < tot"
  shows "\<exists>m' p'. sweep_loop dbg sys tot n m p = Some (m', p') \<and> swept H m p m' p'"
  using assms
proof (induction n arbitrary: p)
  case 0
  then show ?case by (auto simp: swept_def)
next
  case (Suc n)
  let ?k = "cp_sweep_cursor p mod tot"
  let ?i = "cp_full_hot_slabs p ! ?k"
  let ?p1 = "p\<lparr>cp_sweep_cursor := (?k + 1) mod tot\<rparr>"
  let ?s = "cp_slabs p ! ?i"
  have k: "?k < length (cp_full_hot_slabs p)" using Suc.prems(3,4) by simp
  note i = hot_slab [OF Suc.prems(1) k]
  have inv1: "pool_inv H m ?p1" using Suc.prems(1) by simp
  have core: "pool_core H m p" using Suc.prems(1) by (simp add: pool_inv_def)
  have shape: "slab_shape_ok ?s" by (rule pool_coreD(2) [OF core i(1)])
  then have start: "SlabRecord_start_ptr dbg ?s = Some (sr_start ?s)"
    "SlabRecord_span_len ?s = Some (sr_end_addr ?s - sr_start ?s)"
    by (auto simp: SlabRecord_start_ptr_def SlabRecord_span_len_def slab_shape_ok_def checked_sub_def)
  have skip: "\<exists>m' p'. sweep_loop dbg sys tot n m ?p1 = Some (m', p') \<and> swept H m p m' p'"
    using Suc.IH [of ?p1] Suc.prems inv1 by (simp add: swept_cursor)
  show ?case
  proof (cases "is_sweep_candidate ?s (cp_epoch p)")
    case False
    then show ?thesis using skip k i by (simp add: Let_def)
  next
    case cand: True
    show ?thesis
    proof (cases "page_aligned_inner_range sys (sr_start ?s) (sr_end_addr ?s - sr_start ?s)")
      case None
      then show ?thesis using skip k i cand start by (simp add: Let_def)
    next
      case (Some al)
      obtain a len where al: "al = (a, len)" by force
      obtain m' r where adv: "advise_free sys m a len = (m', r)" by force
      have i1: "?i < length (cp_slabs ?p1)" "sr_state (cp_slabs ?p1 ! ?i) = FullHot" using i by simp_all
      have range1: "page_aligned_inner_range sys (sr_start (cp_slabs ?p1 ! ?i))
          (sr_end_addr (cp_slabs ?p1 ! ?i) - sr_start (cp_slabs ?p1 ! ?i)) = Some (a, len)"
        using Some al by simp
      note one = sweep_one [OF inv1 i1 Suc.prems(2) range1 adv]
      show ?thesis
      proof (cases "r = Inr True")
        case True
        obtain p' where "reconcile_bucket_transition dbg
            (?p1\<lparr>cp_slabs := (cp_slabs ?p1)[?i := (cp_slabs ?p1 ! ?i)\<lparr>sr_state := FullCold\<rparr>]\<rparr>)
            ?i FullHot FullCold = Some p'" "swept H m ?p1 m' p'" using one(2) by blast
        then show ?thesis
          using True Some al adv cand start k i
          by (simp add: Let_def set_slab_def swept_cursor)
      next
        case False
        have "swept H m p m' ?p1" using one(1) by (simp add: swept_cursor)
        with False show ?thesis using Some al adv cand start k i by (simp add: Let_def)
      qed
    qed
  qed
qed

lemma maybe_sweep_spec:
  assumes "pool_inv H m p" "madvise_ok sys"
  obtains m' p' where "maybe_sweep dbg sys m p = Some (m', p')" "swept H m p m' p'"
proof (cases "\<not> SWEEP_INTERVAL dvd cp_epoch p \<or> cp_full_hot_slabs p = []")
  case True
  then have "maybe_sweep dbg sys m p = Some (m, p)" by (simp add: maybe_sweep_def)
  then show ?thesis using that assms(1) by (auto simp: swept_def)
next
  case False
  then have "0 < length (cp_full_hot_slabs p)" by simp
  from sweep_loop_spec [OF assms refl this] False that show ?thesis
    by (auto simp: maybe_sweep_def Let_def)
qed

section \<open>Returning blocks\<close>

lemma pool_inv_epoch_recent:
  "pool_inv H m (p\<lparr>cp_epoch := e\<rparr>) = pool_inv H m p"
  "pool_blocks m (p\<lparr>cp_epoch := e\<rparr>) = pool_blocks m p"
  "pool_all (p\<lparr>cp_epoch := e\<rparr>) = pool_all p"
  "sweepable (p\<lparr>cp_epoch := e\<rparr>) G = sweepable p G"
proof -
  have "bucket st (p\<lparr>cp_epoch := e\<rparr>) = bucket st p" for st by (cases st) simp_all
  then show "pool_inv H m (p\<lparr>cp_epoch := e\<rparr>) = pool_inv H m p"
    "pool_blocks m (p\<lparr>cp_epoch := e\<rparr>) = pool_blocks m p"
    "pool_all (p\<lparr>cp_epoch := e\<rparr>) = pool_all p"
    "sweepable (p\<lparr>cp_epoch := e\<rparr>) G = sweepable p G"
    by (simp_all add: pool_inv_def pool_core_def buckets_inv_def pool_blocks_def pool_all_def sweepable_def)
qed

lemma pool_block_slab:
  assumes "b \<in> set (pool_all p)"
  obtains i where "i < length (cp_slabs p)" "b \<in> set (slab_blocks (cp_slabs p ! i))"
proof -
  from assms obtain s where s: "s \<in> set (cp_slabs p)" "b \<in> set (slab_blocks s)" by (auto simp: pool_all_def)
  then obtain i where "i < length (cp_slabs p)" "cp_slabs p ! i = s" by (metis in_set_conv_nth)
  then show ?thesis using that s(2) by blast
qed

lemma not_sweepable:
  assumes core: "pool_core H m p" and b: "b \<in> set (pool_all p)" "b \<notin> G"
  shows "b \<notin> sweepable p G"
proof
  assume "b \<in> sweepable p G"
  then obtain i where i: "i < length (cp_slabs p)" "set (slab_blocks (cp_slabs p ! i)) \<subseteq> G"
    "b \<in> zone (cp_slabs p ! i)"
    by (auto simp: sweepable_def in_set_conv_nth)
  obtain j where j: "j < length (cp_slabs p)" "b \<in> set (slab_blocks (cp_slabs p ! j))"
    by (rule pool_block_slab [OF b(1)])
  have "i \<noteq> j" using i(2) j(2) b(2) by auto
  then show False using block_outside_zone [OF core i(1) j(1)] i(3) j(2) by blast
qed

lemma find_slab_id_spec:
  assumes core: "pool_core H m p" and i: "i < length (cp_slabs p)" and b: "b \<in> set (slab_blocks (cp_slabs p ! i))"
  obtains p' where "find_slab_id_unchecked dbg p b = Some (p', i)"
    "p'\<lparr>cp_recent_slab := Some i\<rparr> = p\<lparr>cp_recent_slab := Some i\<rparr>"
proof -
  have idx: "index_ok sr_start sr_end_addr (cp_slabs p) (cp_slabs_by_start p)"
    and rec: "\<forall>j. cp_recent_slab p = Some j \<longrightarrow> j < length (cp_slabs p)"
    using core by (auto simp: pool_core_def)
  note shape = pool_coreD(2) [OF core i]
  have cont: "SlabRecord_contains (cp_slabs p ! i) b" by (rule central_slab.contains_block [OF shape b])
  note range = central_slab.contains_range [OF cont]
  note look = index_lookup [OF idx i conjunct1 [OF range] conjunct2 [OF range]]
  show ?thesis
  proof (cases "\<exists>j. cp_recent_slab p = Some j \<and> SlabRecord_contains (cp_slabs p ! j) b")
    case True
    then obtain j where j: "cp_recent_slab p = Some j" "SlabRecord_contains (cp_slabs p ! j) b" by blast
    then have "j = i" using central_slab.contains_unique [OF idx _ i j(2) cont] rec by blast
    then have "find_slab_id_unchecked dbg p b = Some (p, i)"
      using j i by (simp add: find_slab_id_unchecked_def)
    then show ?thesis by (rule that) simp
  next
    case False
    have "find_slab_id_unchecked dbg p b = Some (p\<lparr>cp_recent_slab := Some i\<rparr>, i)"
      using False rec look i cont index_keys_eq [OF idx]
      by (auto simp: find_slab_id_unchecked_def checked_sub_def Let_def split: option.split)
    then show ?thesis by (rule that) simp
  qed
qed

lemma return_one_spec:
  assumes inv: "pool_inv H m p" and H: "link_insensitive H"
    and b: "b \<in> set (pool_all p)" "b \<notin># pool_blocks m p" "H b (m b)"
  obtains m' p' where "return_one dbg e m p b = Some (m', p')" "pool_inv H m' p'"
    "pool_blocks m' p' = add_mset b (pool_blocks m p)" "link_frame {b} m m'"
    "map slab_geometry (cp_slabs p') = map slab_geometry (cp_slabs p)" "cp_epoch p' = cp_epoch p"
proof -
  have core: "pool_core H m p" using inv by (simp add: pool_inv_def)
  obtain i where i: "i < length (cp_slabs p)" "b \<in> set (slab_blocks (cp_slabs p ! i))"
    by (rule pool_block_slab [OF b(1)])
  let ?s = "cp_slabs p ! i" and ?s1 = "(cp_slabs p ! i)\<lparr>sr_last_touched_epoch := e\<rparr>"
  obtain p1 where p1: "find_slab_id_unchecked dbg p b = Some (p1, i)"
    "p1\<lparr>cp_recent_slab := Some i\<rparr> = p\<lparr>cp_recent_slab := Some i\<rparr>"
    by (rule find_slab_id_spec [OF core i])
  have nb: "b \<notin> set (slab_held m ?s)" using held_in_pool [OF i(1), of m] b(2) by auto
  have ok1: "slab_ok H m ?s1" using pool_coreD(1) [OF core i(1)] by simp
  obtain m' s2 where r: "record_returned_block dbg m ?s1 b = Some (m', s2)" "slab_ok H m' s2"
    "mset (slab_held m' s2) = add_mset b (mset (slab_held m ?s1))" "link_frame {b} m m'"
    "slab_geometry s2 = slab_geometry ?s1" "sr_bucket_slot s2 = sr_bucket_slot ?s1"
    using record_returned_block_spec [OF ok1 _ _ b(3) H, of dbg] i(2) nb by auto
  have blocks2: "slab_blocks s2 = slab_blocks ?s" using r(5) by (simp add: slab_geometry_def slab_blocks_def)
  have geo2: "slab_geometry s2 = slab_geometry ?s" using r(5) by (simp add: slab_geometry_def)
  have slot2: "sr_bucket_slot s2 = sr_bucket_slot ?s" using r(6) by simp
  have fr: "m' x = m x" if "x \<notin> set (slab_blocks s2)" for x
    by (rule link_frame_outside [OF r(4)]) (use that i(2) blocks2 in auto)
  obtain p' where p': "reconcile_bucket_transition dbg
      (p\<lparr>cp_slabs := (cp_slabs p)[i := s2], cp_recent_slab := Some i\<rparr>) i (sr_state ?s) (sr_state s2) = Some p'"
    "pool_inv H m' p'" "map slab_geometry (cp_slabs p') = map slab_geometry (cp_slabs p)" "cp_epoch p' = cp_epoch p"
    "pool_blocks m' p' + mset (slab_held m ?s) = pool_blocks m p + mset (slab_held m' s2)"
    using update_and_reconcile [where r = "Some i", OF inv i(1) r(2) geo2 slot2 fr] i(1) by auto
  have "pool_blocks m' p' + mset (slab_held m ?s) = add_mset b (pool_blocks m p) + mset (slab_held m ?s)"
    using p'(5) r(3) by simp
  then have "pool_blocks m' p' = add_mset b (pool_blocks m p)" by (rule add_right_imp_eq)
  moreover have slabs1: "cp_slabs p1 = cp_slabs p" using arg_cong [OF p1(2), of cp_slabs] by simp
  have swap: "p\<lparr>cp_recent_slab := Some i, cp_slabs := y\<rparr> = p\<lparr>cp_slabs := y, cp_recent_slab := Some i\<rparr>" for y
    by simp
  have "return_one dbg e m p b = Some (m', p')"
    using p1 r(1) p'(1) i(1)
    by (simp add: return_one_def reconcile_bucket_state_def set_slab_def Let_def slabs1 swap)
  ultimately show ?thesis using that p' r(4) by blast
qed

lemma return_loop_spec:
  assumes "pool_inv H m p" "link_insensitive H" "batch_rep m batch xs"
    and "set xs \<subseteq> set (pool_all p)" "\<forall>x\<in>set xs. x \<notin># pool_blocks m p \<and> H x (m x)"
  shows "\<exists>m' p'. return_loop dbg e (length xs) m p batch = Some (m', p') \<and> pool_inv H m' p' \<and>
    pool_blocks m' p' = pool_blocks m p + mset xs \<and> link_frame (set xs) m m' \<and>
    map slab_geometry (cp_slabs p') = map slab_geometry (cp_slabs p) \<and> cp_epoch p' = cp_epoch p"
  using assms
proof (induction xs arbitrary: m p batch)
  case Nil
  then show ?case by simp
next
  case (Cons x xs)
  obtain batch' where pop: "Batch_pop_block_unchecked dbg m batch = Some (x, batch')" "batch_rep m batch' xs"
    by (rule Batch_pop_rep [OF Cons.prems(3)])
  have x: "x \<notin> set xs" using batch_rep_distinct [OF Cons.prems(3)] by simp
  obtain m1 p1 where one: "return_one dbg e m p x = Some (m1, p1)" "pool_inv H m1 p1"
    "pool_blocks m1 p1 = add_mset x (pool_blocks m p)" "link_frame {x} m m1"
    "map slab_geometry (cp_slabs p1) = map slab_geometry (cp_slabs p)" "cp_epoch p1 = cp_epoch p"
    using return_one_spec [OF Cons.prems(1,2), of x dbg e] Cons.prems(4,5) by auto
  have rep1: "batch_rep m1 batch' xs"
    by (rule batch_rep_frame [OF pop(2)]) (metis link_frame_outside [OF one(4)] singletonD x)
  have all1: "set xs \<subseteq> set (pool_all p1)"
    using Cons.prems(4) geometry_eq_pool(1) [OF one(5)] by simp
  have "\<forall>y\<in>set xs. y \<notin># pool_blocks m1 p1 \<and> H y (m1 y)"
    using Cons.prems(5) x one(3) link_frame_H [OF one(4) Cons.prems(2)] by auto
  then obtain m' p' where IH: "return_loop dbg e (length xs) m1 p1 batch' = Some (m', p')" "pool_inv H m' p'"
    "pool_blocks m' p' = pool_blocks m1 p1 + mset xs" "link_frame (set xs) m1 m'"
    "map slab_geometry (cp_slabs p') = map slab_geometry (cp_slabs p1)" "cp_epoch p' = cp_epoch p1"
    using Cons.IH [OF one(2) Cons.prems(2) rep1 all1] by blast
  have "link_frame (set (x # xs)) m m'" by (rule link_frame_trans [OF one(4) IH(4)]) auto
  then show ?case using pop(1) one IH by auto
qed

text \<open>
  What an operation guarantees about memory when the blocks it handles are those in \<open>G\<close>:
  headers outside \<open>G\<close>, and outside the slabs whose blocks are all in \<open>G\<close>, do not change.
\<close>

definition pool_frame :: "ClassPool \<Rightarrow> addr set \<Rightarrow> heap \<Rightarrow> heap \<Rightarrow> bool" where
  "pool_frame p G m m' \<longleftrightarrow> (\<forall>b. b \<notin> G \<longrightarrow> b \<notin> sweepable p G \<longrightarrow> m' b = m b)"

lemma pool_frameD: "pool_frame p G m m' \<Longrightarrow> b \<notin> G \<Longrightarrow> b \<notin> sweepable p G \<Longrightarrow> m' b = m b"
  by (simp add: pool_frame_def)

lemma pool_frame_refl [simp]: "pool_frame p G m m"
  by (simp add: pool_frame_def)

lemma pool_frame_mono: "pool_frame p G m m' \<Longrightarrow> G \<subseteq> G' \<Longrightarrow> pool_frame p G' m m'"
  using sweepable_mono [of G G' p] by (auto simp: pool_frame_def)

lemma pool_frame_trans: "pool_frame p G m m' \<Longrightarrow> pool_frame p G m' m'' \<Longrightarrow> pool_frame p G m m''"
  by (simp add: pool_frame_def)

lemma pool_frame_geometry:
  "map slab_geometry (cp_slabs p') = map slab_geometry (cp_slabs p) \<Longrightarrow> pool_frame p' G m m' = pool_frame p G m m'"
  using geometry_eq_pool(2) [of p' p] by (simp add: pool_frame_def)

lemma pool_frame_link: "link_frame S m m' \<Longrightarrow> S \<subseteq> G \<Longrightarrow> pool_frame p G m m'"
  by (auto simp: pool_frame_def dest: link_frame_outside)

lemma pool_frame_swept:
  assumes "swept H m p m' p'" "set_mset (pool_blocks m p) \<subseteq> G"
  shows "pool_frame p G m m'"
  using assms sweepable_mono [OF assms(2), of p] by (auto simp: pool_frame_def swept_def)

lemma return_batch_pool_spec:
  assumes inv: "pool_inv H m p" and H: "link_insensitive H" and os: "madvise_ok sys"
    and rep: "batch_rep m batch xs" and xs: "set xs \<subseteq> set (pool_all p)"
    "\<forall>x\<in>set xs. x \<notin># pool_blocks m p \<and> H x (m x)" and epoch: "cp_epoch p < usize_max"
  obtains m' p' where "ClassPool_return_batch dbg sys m p batch = Some (m', p')" "pool_inv H m' p'"
    "pool_blocks m' p' = pool_blocks m p + mset xs"
    "pool_frame p (set_mset (pool_blocks m p) \<union> set xs) m m'"
    "map slab_geometry (cp_slabs p') = map slab_geometry (cp_slabs p)" "cp_epoch p' \<le> cp_epoch p + 1"
proof (cases "xs = []")
  case True
  then have "batch_len batch = 0" using rep by (simp add: batch_rep_def)
  then show ?thesis using that [of m p] inv True by (simp add: ClassPool_return_batch_def)
next
  case False
  let ?p0 = "p\<lparr>cp_epoch := cp_epoch p + 1\<rparr>" and ?G = "set_mset (pool_blocks m p) \<union> set xs"
  have len: "batch_len batch = length xs" using rep by (simp add: batch_rep_def)
  have "pool_inv H m ?p0" "set xs \<subseteq> set (pool_all ?p0)" "\<forall>x\<in>set xs. x \<notin># pool_blocks m ?p0 \<and> H x (m x)"
    using inv xs by (simp_all add: pool_inv_epoch_recent)
  from return_loop_spec [OF this(1) H rep this(2,3), of dbg "cp_epoch p + 1"]
  obtain m1 p1 where l: "return_loop dbg (cp_epoch p + 1) (length xs) m ?p0 batch = Some (m1, p1)"
    "pool_inv H m1 p1" "pool_blocks m1 p1 = pool_blocks m p + mset xs" "link_frame (set xs) m m1"
    "map slab_geometry (cp_slabs p1) = map slab_geometry (cp_slabs p)" "cp_epoch p1 = cp_epoch p + 1"
    by (auto simp: pool_inv_epoch_recent)
  obtain m' p' where s: "maybe_sweep dbg sys m1 p1 = Some (m', p')" "swept H m1 p1 m' p'"
    by (rule maybe_sweep_spec [OF l(2) os])
  have "pool_frame p1 ?G m1 m'" by (rule pool_frame_swept [OF s(2)]) (simp add: l(3))
  then have "pool_frame p ?G m1 m'" using pool_frame_geometry [OF l(5)] by simp
  moreover have "pool_frame p ?G m m1" by (rule pool_frame_link [OF l(4)]) simp
  ultimately have "pool_frame p ?G m m'" by (rule pool_frame_trans [rotated])
  moreover have "ClassPool_return_batch dbg sys m p batch = Some (m', p')"
    using False len epoch l(1) s(1) by (simp add: ClassPool_return_batch_def bump_epoch_def checked_add_def)
  ultimately show ?thesis using that s(2) l by (auto simp: swept_def)
qed

section \<open>Refills\<close>

text \<open>The blocks a refill hands out. A batch is a chain of linked blocks whose headers satisfy
  \<open>H\<close>; a slab is handed out whole, as one registered slab of the pool.\<close>

definition refill_rep ::
    "(addr \<Rightarrow> AllocationHeader \<Rightarrow> bool) \<Rightarrow> heap \<Rightarrow> ClassPool \<Rightarrow> CentralRefill \<Rightarrow> addr list \<Rightarrow> bool" where
  "refill_rep H m p r xs \<longleftrightarrow> (case r of
      Refill_Empty \<Rightarrow> xs = []
    | Refill_Batch b \<Rightarrow> batch_rep m b xs \<and> xs \<noteq> [] \<and> (\<forall>x\<in>set xs. H x (m x))
    | Refill_Slab start bs cap \<Rightarrow> xs = blocks_of start bs cap \<and>
        (start, start + bs * cap, bs, cap) \<in> set (map slab_geometry (cp_slabs p)))"

lemma pool_blocks_split:
  assumes "pool_core H m p" "pool_blocks m p = B + mset xs" "x \<in> set xs"
  shows "x \<notin># B" "x \<in> set (pool_all p)"
proof -
  have sub: "B + mset xs \<subseteq># mset (pool_all p)" using pool_blocks_subset [OF assms(1)] assms(2) by simp
  have "count (mset (pool_all p)) x \<le> 1"
    using distinct_pool_all [OF assms(1)] by (simp add: distinct_count_atmost_1)
  then have "count (B + mset xs) x \<le> 1" using sub by (meson mset_subset_eq_count order_trans)
  moreover have "0 < count (mset xs) x" using assms(3) unfolding count_greater_zero_iff by simp
  ultimately have "count B x = 0" unfolding count_union by linarith
  then show "x \<notin># B" by (simp add: not_in_iff)
  show "x \<in> set (pool_all p)" using mset_subset_eqD [OF sub, of x] assms(3) by simp
qed

lemma refill_partial:
  assumes inv: "pool_inv H m p" and H: "link_insensitive H" and os: "madvise_ok sys"
    and i: "i < length (cp_slabs p)" "sr_state (cp_slabs p ! i) = Partial" and mx: "0 < mx"
  obtains m' p' b xs where
    "(do { (m1, s1, batch) \<leftarrow> take_partial_batch dbg m (cp_slabs p ! i) mx;
           debug_assert dbg (\<not> Batch_is_empty batch);
           p1 \<leftarrow> set_slab p i (s1\<lparr>sr_last_touched_epoch := e\<rparr>);
           p2 \<leftarrow> reconcile_bucket_state dbg (p1\<lparr>cp_recent_slab := Some i\<rparr>) i Partial;
           (m2, p3) \<leftarrow> maybe_sweep dbg sys m1 p2;
           Some (m2, p3, Refill_Batch batch) }) = Some (m', p', Refill_Batch b)"
    "pool_inv H m' p'" "refill_rep H m' p' (Refill_Batch b) xs" "length xs \<le> mx"
    "pool_blocks m p = pool_blocks m' p' + mset xs"
    "pool_frame p (set_mset (pool_blocks m p)) m m'"
    "map slab_geometry (cp_slabs p') = map slab_geometry (cp_slabs p)" "cp_epoch p' = cp_epoch p"
proof -
  let ?s = "cp_slabs p ! i" and ?G = "set_mset (pool_blocks m p)"
  have core: "pool_core H m p" using inv by (simp add: pool_inv_def)
  note ok = pool_coreD(1) [OF core i(1)]
  obtain m1 s1 b xs where t: "take_partial_batch dbg m ?s mx = Some (m1, s1, b)" "batch_rep m1 b xs"
    "xs \<noteq> []" "length xs \<le> mx" "slab_held m ?s = xs @ slab_held m1 s1" "slab_ok H m1 s1"
    "link_frame (set xs) m m1" "slab_geometry s1 = slab_geometry ?s" "\<forall>x\<in>set xs. H x (m1 x)"
    "sr_bucket_slot s1 = sr_bucket_slot ?s"
    by (rule take_partial_batch_spec [OF ok i(2) mx H])
  let ?s2 = "s1\<lparr>sr_last_touched_epoch := e\<rparr>"
  have blocks: "slab_blocks ?s2 = slab_blocks ?s" using t(8) by (simp add: slab_geometry_def slab_blocks_def)
  have sub: "set xs \<subseteq> set (slab_blocks ?s)" using slab_held_subset [OF ok] t(5) by simp
  have ok2: "slab_ok H m1 ?s2" and geo2: "slab_geometry ?s2 = slab_geometry ?s"
    and slot2: "sr_bucket_slot ?s2 = sr_bucket_slot ?s"
    using t(6,8,10) by (simp_all add: slab_geometry_def)
  have fr: "m1 x = m x" if "x \<notin> set (slab_blocks ?s2)" for x
    by (rule link_frame_outside [OF t(7)]) (use that sub blocks in auto)
  obtain p2 where p2: "reconcile_bucket_transition dbg
      (p\<lparr>cp_slabs := (cp_slabs p)[i := ?s2], cp_recent_slab := Some i\<rparr>) i (sr_state ?s) (sr_state ?s2) = Some p2"
    "pool_inv H m1 p2" "map slab_geometry (cp_slabs p2) = map slab_geometry (cp_slabs p)" "cp_epoch p2 = cp_epoch p"
    "pool_blocks m1 p2 + mset (slab_held m ?s) = pool_blocks m p + mset (slab_held m1 ?s2)"
    using update_and_reconcile [where r = "Some i", OF inv i(1) ok2 geo2 slot2 fr] i(1) by auto
  have acc: "pool_blocks m p = pool_blocks m1 p2 + mset xs"
    using p2(5) t(5) by (metis add.assoc add_right_imp_eq mset_append slab_held_update(2) union_commute)
  obtain m' p' where s: "maybe_sweep dbg sys m1 p2 = Some (m', p')" "swept H m1 p2 m' p'"
    by (rule maybe_sweep_spec [OF p2(2) os])
  have core2: "pool_core H m1 p2" using p2(2) by (simp add: pool_inv_def)
  have keep: "m' x = m1 x" if "x \<in> set xs" for x
  proof -
    have "x \<notin># pool_blocks m1 p2" "x \<in> set (pool_all p)" by (rule pool_blocks_split [OF core acc that])+
    then have "x \<notin> sweepable p2 (set_mset (pool_blocks m1 p2))"
      using not_sweepable [OF core2] geometry_eq_pool(1) [OF p2(3)] by auto
    then show ?thesis using s(2) by (simp add: swept_def)
  qed
  have rep': "refill_rep H m' p' (Refill_Batch b) xs"
    using batch_rep_frame [OF t(2) keep] t(3,9) keep by (simp add: refill_rep_def)
  have "pool_frame p2 ?G m1 m'" by (rule pool_frame_swept [OF s(2)]) (simp add: acc)
  then have "pool_frame p ?G m1 m'" using pool_frame_geometry [OF p2(3)] by simp
  moreover have "pool_frame p ?G m m1" by (rule pool_frame_link [OF t(7)]) (simp add: acc)
  ultimately have frame: "pool_frame p ?G m m'" by (rule pool_frame_trans [rotated])
  have run: "(do { (m1, s1, batch) \<leftarrow> take_partial_batch dbg m ?s mx;
       debug_assert dbg (\<not> Batch_is_empty batch);
       p1 \<leftarrow> set_slab p i (s1\<lparr>sr_last_touched_epoch := e\<rparr>);
       p2 \<leftarrow> reconcile_bucket_state dbg (p1\<lparr>cp_recent_slab := Some i\<rparr>) i Partial;
       (m2, p3) \<leftarrow> maybe_sweep dbg sys m1 p2;
       Some (m2, p3, Refill_Batch batch) }) = Some (m', p', Refill_Batch b)"
    using t(1,3) batch_rep_is_empty [OF t(2)] p2(1) s(1) i
    by (simp add: set_slab_def reconcile_bucket_state_def)
  show ?thesis
    by (rule that [OF run _ rep' t(4) _ frame]) (use s(2) acc p2(3,4) in \<open>auto simp: swept_def\<close>)
qed

lemma loan_whole_slab_spec:
  assumes inv: "pool_inv H m p" and i: "i < length (cp_slabs p)"
    and st: "sr_state (cp_slabs p ! i) = FullHot \<or> sr_state (cp_slabs p ! i) = FullCold"
  obtains p' r xs where "loan_whole_slab dbg p i e = Some (p', r)" "pool_inv H m p'"
    "refill_rep H m p' r xs" "xs \<noteq> []" "pool_blocks m p = pool_blocks m p' + mset xs"
    "map slab_geometry (cp_slabs p') = map slab_geometry (cp_slabs p)" "cp_epoch p' = cp_epoch p"
    "\<exists>start bs cap. r = Refill_Slab start bs cap"
proof -
  let ?s = "cp_slabs p ! i"
  let ?s' = "?s\<lparr>sr_state := Loaned, sr_central_free_len := 0, sr_last_touched_epoch := e\<rparr>"
  have core: "pool_core H m p" using inv by (simp add: pool_inv_def)
  note ok = pool_coreD [OF core i]
  have held: "slab_held m ?s = slab_blocks ?s" using st by (auto simp: slab_held_def)
  have pf: "sr_partial_free ?s = FreeList_new" "sr_central_free_len ?s = sr_capacity ?s"
    using ok(1) st held by (auto simp: slab_ok_def slab_blocks_def)
  have held': "slab_held m ?s' = []" by (simp add: slab_held_def)
  have ok': "slab_ok H m ?s'"
    unfolding slab_ok_def held' using ok(2) pf by (simp add: slab_shape_ok_def)
  obtain p' where p': "reconcile_bucket_transition dbg
      (p\<lparr>cp_slabs := (cp_slabs p)[i := ?s'], cp_recent_slab := Some i\<rparr>) i (sr_state ?s) (sr_state ?s') = Some p'"
    "pool_inv H m p'" "map slab_geometry (cp_slabs p') = map slab_geometry (cp_slabs p)" "cp_epoch p' = cp_epoch p"
    "pool_blocks m p' + mset (slab_held m ?s) = pool_blocks m p + mset (slab_held m ?s')"
    using update_and_reconcile [where r = "Some i", OF inv i ok' _ _ refl] i by (auto simp: slab_geometry_def)
  have "slab_geometry ?s = (sr_start ?s, sr_start ?s + sr_block_size ?s * sr_capacity ?s,
      sr_block_size ?s, sr_capacity ?s)"
    using ok(2) by (simp add: slab_geometry_def slab_shape_ok_def)
  then have "(sr_start ?s, sr_start ?s + sr_block_size ?s * sr_capacity ?s, sr_block_size ?s, sr_capacity ?s)
      \<in> set (map slab_geometry (cp_slabs p'))"
    unfolding p'(3) using i by (metis image_eqI list.set_map nth_mem)
  then have "refill_rep H m p' (Refill_Slab (sr_start ?s) (sr_block_size ?s) (sr_capacity ?s)) (slab_blocks ?s)"
    by (simp add: refill_rep_def slab_blocks_def)
  moreover have "slab_blocks ?s \<noteq> []" using ok(2) length_blocks_of [of _ _ "sr_capacity ?s"]
    by (metis length_0_conv less_numeral_extra(3) slab_blocks_def slab_shape_ok_def)
  moreover have "loan_whole_slab dbg p i e =
      Some (p', Refill_Slab (sr_start ?s) (sr_block_size ?s) (sr_capacity ?s))"
    using i st pf ok(2) p'(1)
    by (auto simp: loan_whole_slab_def set_slab_def SlabRecord_start_ptr_def slab_shape_ok_def
        FreeList_is_empty_def FreeList_new_def Let_def)
  ultimately show ?thesis using that [of p' _ "slab_blocks ?s"] p' held held' by simp
qed

lemma refill_slab:
  assumes inv: "pool_inv H m p" and os: "madvise_ok sys" and i: "i < length (cp_slabs p)"
    and st: "sr_state (cp_slabs p ! i) = FullHot \<or> sr_state (cp_slabs p ! i) = FullCold"
  obtains m' p' r xs where
    "(do { (p1, refill) \<leftarrow> loan_whole_slab dbg p i e;
           (m2, p2) \<leftarrow> maybe_sweep dbg sys m p1;
           Some (m2, p2, refill) }) = Some (m', p', r)"
    "pool_inv H m' p'" "refill_rep H m' p' r xs" "xs \<noteq> []"
    "pool_blocks m p = pool_blocks m' p' + mset xs"
    "pool_frame p (set_mset (pool_blocks m p)) m m'"
    "map slab_geometry (cp_slabs p') = map slab_geometry (cp_slabs p)" "cp_epoch p' = cp_epoch p"
    "\<exists>start bs cap. r = Refill_Slab start bs cap"
proof -
  obtain p1 r xs where l: "loan_whole_slab dbg p i e = Some (p1, r)" "pool_inv H m p1"
    "refill_rep H m p1 r xs" "xs \<noteq> []" "pool_blocks m p = pool_blocks m p1 + mset xs"
    "map slab_geometry (cp_slabs p1) = map slab_geometry (cp_slabs p)" "cp_epoch p1 = cp_epoch p"
    "\<exists>start bs cap. r = Refill_Slab start bs cap"
    by (rule loan_whole_slab_spec [OF inv i st])
  obtain m' p' where s: "maybe_sweep dbg sys m p1 = Some (m', p')" "swept H m p1 m' p'"
    by (rule maybe_sweep_spec [OF l(2) os])
  have "pool_frame p1 (set_mset (pool_blocks m p)) m m'" by (rule pool_frame_swept [OF s(2)]) (simp add: l(5))
  then have "pool_frame p (set_mset (pool_blocks m p)) m m'" using pool_frame_geometry [OF l(6)] by simp
  moreover have "refill_rep H m' p' r xs"
    using l(3,8) s(2) by (auto simp: refill_rep_def swept_def)
  ultimately show ?thesis
    using that [of m' p' r xs] l s by (simp add: swept_def)
qed

lemma all_loaned:
  assumes inv: "pool_inv H m p" and "cp_partial_slabs p = []" "cp_full_hot_slabs p = []" "cp_full_cold_slabs p = []"
  shows "pool_blocks m p = {#}"
proof -
  have buckets: "buckets_inv (state_of p) p" using inv by (simp add: pool_inv_def)
  have "sr_state s = Loaned" if s: "s \<in> set (cp_slabs p)" for s
  proof (rule ccontr)
    assume ne: "sr_state s \<noteq> Loaned"
    obtain i where i: "i < length (cp_slabs p)" "cp_slabs p ! i = s" using s by (auto simp: in_set_conv_nth)
    have "bucket (sr_state s) p = []" using assms(2-4) by (cases "sr_state s") simp_all
    with buckets_invD [OF buckets ne] i show False by (auto simp: bucket_ok_Nil)
  qed
  then have "map (slab_held m) (cp_slabs p) = map (\<lambda>_. []) (cp_slabs p)" by (simp add: slab_held_def)
  then show ?thesis unfolding pool_blocks_def by simp
qed

lemma last_bucket:
  assumes "pool_inv H m p" "st \<noteq> Loaned" "bucket st p \<noteq> []"
  shows "last (bucket st p) < length (cp_slabs p)" "sr_state (cp_slabs p ! last (bucket st p)) = st"
  using bucket_ok_last [OF buckets_invD [OF _ assms(2)] assms(3), of "state_of p"] assms(1)
  by (auto simp: pool_inv_def)

lemma take_refill_pool_spec:
  assumes inv: "pool_inv H m p" and H: "link_insensitive H" and os: "madvise_ok sys"
    and mx: "0 < mx" and epoch: "cp_epoch p < usize_max"
  obtains m' p' r xs where "ClassPool_take_refill dbg sys m p mx = Some (m', p', r)" "pool_inv H m' p'"
    "refill_rep H m' p' r xs" "pool_blocks m p = pool_blocks m' p' + mset xs"
    "pool_frame p (set_mset (pool_blocks m p)) m m'"
    "map slab_geometry (cp_slabs p') = map slab_geometry (cp_slabs p)" "cp_epoch p' = cp_epoch p + 1"
    "xs = [] \<longleftrightarrow> pool_blocks m p = {#}" "r = Refill_Empty \<longleftrightarrow> xs = []"
    "\<forall>b. r = Refill_Batch b \<longrightarrow> length xs \<le> mx"
proof -
  let ?p = "p\<lparr>cp_epoch := cp_epoch p + 1\<rparr>"
  have inv0: "pool_inv H m ?p" using inv by (simp add: pool_inv_epoch_recent)
  have same: "pool_blocks m ?p = pool_blocks m p" "cp_slabs ?p = cp_slabs p"
    "pool_frame ?p G m m' = pool_frame p G m m'" for G m'
    by (simp_all add: pool_inv_epoch_recent pool_frame_def)
  have bump: "bump_epoch p = Some (?p, cp_epoch p + 1)" using epoch by (simp add: bump_epoch_def checked_add_def)
  consider (part) "cp_partial_slabs p \<noteq> []" | (hot) "cp_partial_slabs p = []" "cp_full_hot_slabs p \<noteq> []"
    | (cold) "cp_partial_slabs p = []" "cp_full_hot_slabs p = []" "cp_full_cold_slabs p \<noteq> []"
    | (none) "cp_partial_slabs p = []" "cp_full_hot_slabs p = []" "cp_full_cold_slabs p = []" by blast
  then show ?thesis
  proof cases
    case part
    then have i: "last (cp_partial_slabs p) < length (cp_slabs ?p)"
      "sr_state (cp_slabs ?p ! last (cp_partial_slabs p)) = Partial"
      using last_bucket [OF inv0, of Partial] by auto
    from refill_partial [OF inv0 H os i mx, of dbg "cp_epoch p + 1"] obtain m' p' b xs where
      r: "(do { (m1, s1, batch) \<leftarrow> take_partial_batch dbg m (cp_slabs ?p ! last (cp_partial_slabs p)) mx;
           debug_assert dbg (\<not> Batch_is_empty batch);
           p1 \<leftarrow> set_slab ?p (last (cp_partial_slabs p)) (s1\<lparr>sr_last_touched_epoch := cp_epoch p + 1\<rparr>);
           p2 \<leftarrow> reconcile_bucket_state dbg (p1\<lparr>cp_recent_slab := Some (last (cp_partial_slabs p))\<rparr>)
                  (last (cp_partial_slabs p)) Partial;
           (m2, p3) \<leftarrow> maybe_sweep dbg sys m1 p2;
           Some (m2, p3, Refill_Batch batch) }) = Some (m', p', Refill_Batch b)"
      "pool_inv H m' p'" "refill_rep H m' p' (Refill_Batch b) xs" "length xs \<le> mx"
      "pool_blocks m ?p = pool_blocks m' p' + mset xs"
      "pool_frame ?p (set_mset (pool_blocks m ?p)) m m'"
      "map slab_geometry (cp_slabs p') = map slab_geometry (cp_slabs ?p)" "cp_epoch p' = cp_epoch ?p" .
    have ne: "xs \<noteq> []" using r(3) by (simp add: refill_rep_def)
    have "ClassPool_take_refill dbg sys m p mx = Some (m', p', Refill_Batch b)"
      using r(1) part mx bump i(1) by (simp add: ClassPool_take_refill_def vec_last_def)
    then show ?thesis using that [of m' p' "Refill_Batch b" xs] r ne same by simp
  next
    case hot
    then have i: "last (cp_full_hot_slabs p) < length (cp_slabs ?p)"
      "sr_state (cp_slabs ?p ! last (cp_full_hot_slabs p)) = FullHot \<or>
       sr_state (cp_slabs ?p ! last (cp_full_hot_slabs p)) = FullCold"
      using last_bucket [OF inv0, of FullHot] by auto
    obtain m' p' r xs where r: "(do { (p1, refill) \<leftarrow> loan_whole_slab dbg ?p (last (cp_full_hot_slabs p)) (cp_epoch p + 1);
           (m2, p2) \<leftarrow> maybe_sweep dbg sys m p1; Some (m2, p2, refill) }) = Some (m', p', r)"
      "pool_inv H m' p'" "refill_rep H m' p' r xs" "xs \<noteq> []"
      "pool_blocks m ?p = pool_blocks m' p' + mset xs" "pool_frame ?p (set_mset (pool_blocks m ?p)) m m'"
      "map slab_geometry (cp_slabs p') = map slab_geometry (cp_slabs ?p)" "cp_epoch p' = cp_epoch ?p"
      "\<exists>start bs cap. r = Refill_Slab start bs cap"
      by (rule refill_slab [OF inv0 os i])
    have "ClassPool_take_refill dbg sys m p mx = Some (m', p', r)"
      using r(1) hot mx bump by (simp add: ClassPool_take_refill_def vec_last_def)
    then show ?thesis using that [of m' p' r xs] r same by auto
  next
    case cold
    then have i: "last (cp_full_cold_slabs p) < length (cp_slabs ?p)"
      "sr_state (cp_slabs ?p ! last (cp_full_cold_slabs p)) = FullHot \<or>
       sr_state (cp_slabs ?p ! last (cp_full_cold_slabs p)) = FullCold"
      using last_bucket [OF inv0, of FullCold] by auto
    obtain m' p' r xs where r: "(do { (p1, refill) \<leftarrow> loan_whole_slab dbg ?p (last (cp_full_cold_slabs p)) (cp_epoch p + 1);
           (m2, p2) \<leftarrow> maybe_sweep dbg sys m p1; Some (m2, p2, refill) }) = Some (m', p', r)"
      "pool_inv H m' p'" "refill_rep H m' p' r xs" "xs \<noteq> []"
      "pool_blocks m ?p = pool_blocks m' p' + mset xs" "pool_frame ?p (set_mset (pool_blocks m ?p)) m m'"
      "map slab_geometry (cp_slabs p') = map slab_geometry (cp_slabs ?p)" "cp_epoch p' = cp_epoch ?p"
      "\<exists>start bs cap. r = Refill_Slab start bs cap"
      by (rule refill_slab [OF inv0 os i])
    have "ClassPool_take_refill dbg sys m p mx = Some (m', p', r)"
      using r(1) cold mx bump by (simp add: ClassPool_take_refill_def vec_last_def)
    then show ?thesis using that [of m' p' r xs] r same by auto
  next
    case none
    obtain m' p' where s: "maybe_sweep dbg sys m ?p = Some (m', p')" "swept H m ?p m' p'"
      by (rule maybe_sweep_spec [OF inv0 os])
    have "ClassPool_take_refill dbg sys m p mx = Some (m', p', Refill_Empty)"
      using s(1) none mx bump by (simp add: ClassPool_take_refill_def vec_last_def)
    moreover have "pool_frame ?p (set_mset (pool_blocks m p)) m m'"
      by (rule pool_frame_swept [OF s(2)]) (simp add: pool_inv_epoch_recent)
    ultimately show ?thesis
      using that [of m' p' Refill_Empty "[]"] s(2) all_loaned [OF inv none] same
      by (simp add: swept_def refill_rep_def)
  qed
qed

section \<open>Registering a slab\<close>

lemma pool_append:
  assumes inv: "pool_inv H m p" and s: "slab_ok H m s" "sr_state s = Loaned" "sr_bucket_slot s = None"
    and idx: "index_ok sr_start sr_end_addr (cp_slabs p @ [s]) order"
  defines "q \<equiv> p\<lparr>cp_slabs := cp_slabs p @ [s], cp_slabs_by_start := order,
      cp_recent_slab := Some (length (cp_slabs p))\<rparr>"
  shows "pool_inv H m q" "pool_blocks m q = pool_blocks m p"
proof -
  have bucket: "bucket st q = bucket st p" for st by (cases st) (simp_all add: q_def)
  have core: "pool_core H m q" using inv s(1) idx by (auto simp: pool_inv_def pool_core_def q_def)
  have "buckets_inv (state_of q) q"
    unfolding buckets_inv_def bucket
  proof (intro conjI allI impI)
    fix st :: SlabState assume st: "st \<noteq> Loaned"
    have "bucket_ok (bucket st p) (\<lambda>i. i < length (cp_slabs p) \<and> state_of p i = st)
        (\<lambda>i. sr_bucket_slot (cp_slabs p ! i))"
      using inv st by (simp add: pool_inv_def buckets_inv_def)
    then show "bucket_ok (bucket st p) (\<lambda>i. i < length (cp_slabs q) \<and> state_of q i = st)
        (\<lambda>i. sr_bucket_slot (cp_slabs q ! i))"
      by (rule bucket_ok_cong) (use s st in \<open>auto simp: q_def nth_append less_Suc_eq\<close>)
  next
    fix i assume "i < length (cp_slabs q)" "state_of q i = Loaned"
    then show "sr_bucket_slot (cp_slabs q ! i) = None"
      using inv s by (auto simp: pool_inv_def buckets_inv_def q_def nth_append less_Suc_eq)
  qed
  with core show "pool_inv H m q" by (simp add: pool_inv_def)
  have "slab_held m s = []" using s(2) by (simp add: slab_held_def)
  then show "pool_blocks m q = pool_blocks m p" by (simp add: pool_blocks_def q_def)
qed

lemma pool_block_range:
  assumes "pool_core H m p" "b \<in> set (pool_all p)"
  obtains s where "s \<in> set (cp_slabs p)" "sr_start s \<le> b" "b + HEADER_SIZE \<le> sr_end_addr s" "0 < b"
    "b \<le> usize_max"
proof -
  obtain i where i: "i < length (cp_slabs p)" "b \<in> set (slab_blocks (cp_slabs p ! i))"
    by (rule pool_block_slab [OF assms(2)])
  note shape = pool_coreD(2) [OF assms(1) i(1)]
  show ?thesis
    using that [OF nth_mem [OF i(1)]] slab_block_fits [OF shape i(2)] central_slab.block_range [OF shape i(2)]
    by blast
qed

lemma register_slab_pool_spec:
  assumes inv: "pool_inv H m p" and os: "madvise_ok sys" and epoch: "cp_epoch p < usize_max"
    and geo: "0 < start" "HEADER_SIZE \<le> bs" "0 < cap" "start + bs * cap \<le> usize_max"
    and fresh: "\<And>s. s \<in> set (cp_slabs p) \<Longrightarrow> sr_end_addr s \<le> start \<or> start + bs * cap \<le> sr_start s"
  obtains m' p' where "ClassPool_register_slab dbg sys m p start bs cap = Some (m', p')" "pool_inv H m' p'"
    "pool_blocks m' p' = pool_blocks m p" "pool_frame p (set_mset (pool_blocks m p)) m m'"
    "map slab_geometry (cp_slabs p') = map slab_geometry (cp_slabs p) @ [(start, start + bs * cap, bs, cap)]"
    "cp_epoch p' = cp_epoch p + 1"
proof -
  let ?p = "p\<lparr>cp_epoch := cp_epoch p + 1\<rparr>"
  define s where "s = \<lparr>sr_start = start, sr_end_addr = start + bs * cap, sr_block_size = bs, sr_capacity = cap,
     sr_central_free_len = 0, sr_partial_free = FreeList_new, sr_last_touched_epoch = cp_epoch p + 1,
     sr_state = Loaned, sr_bucket_slot = None\<rparr>"
  have inv0: "pool_inv H m ?p" using inv by (simp add: pool_inv_epoch_recent)
  have core: "pool_core H m p" using inv by (simp add: pool_inv_def)
  have idx: "index_ok sr_start sr_end_addr (cp_slabs p) (cp_slabs_by_start p)"
    using core by (simp add: pool_core_def)
  have "bs * cap > 0" using geo by (simp add: HEADER_SIZE_def)
  then have lt: "sr_start s < sr_end_addr s" by (simp add: s_def)
  have new: "SlabRecord_new start bs cap (cp_epoch p + 1) = Some s"
    using geo(4) by (simp add: SlabRecord_new_def s_def checked_mul_def checked_add_def)
  have ok: "slab_ok H m s" using geo by (simp add: slab_ok_def slab_shape_ok_def s_def slab_held_def)
  have apart: "sr_end_addr t \<le> sr_start s \<or> sr_end_addr s \<le> sr_start t" if "t \<in> set (cp_slabs p)" for t
    using fresh [OF that] by (simp add: s_def)
  obtain k where k: "binary_search_by (\<lambda>a. cmp_usize a (sr_start s))
        (map (\<lambda>i. sr_start (cp_slabs p ! i)) (cp_slabs_by_start p)) = Inl k"
    "k \<le> length (cp_slabs_by_start p)"
    "index_ok sr_start sr_end_addr (cp_slabs p @ [s])
       (take k (cp_slabs_by_start p) @ length (cp_slabs p) # drop k (cp_slabs_by_start p))"
    by (rule index_insert [OF idx lt apart])
  define q where "q = ?p\<lparr>cp_slabs := cp_slabs ?p @ [s],
      cp_slabs_by_start := take k (cp_slabs_by_start p) @ length (cp_slabs p) # drop k (cp_slabs_by_start p),
      cp_recent_slab := Some (length (cp_slabs ?p))\<rparr>"
  have invq: "pool_inv H m q" and blocksq: "pool_blocks m q = pool_blocks m p"
    using pool_append [OF inv0 ok, of "take k (cp_slabs_by_start p) @ length (cp_slabs p) # drop k (cp_slabs_by_start p)"] k(3)
    by (auto simp: s_def q_def pool_inv_epoch_recent)
  obtain m' p' where sw: "maybe_sweep dbg sys m q = Some (m', p')" "swept H m q m' p'"
    by (rule maybe_sweep_spec [OF invq os])
  have run: "ClassPool_register_slab dbg sys m p start bs cap = Some (m', p')"
    using epoch new k(1,2) sw(1) index_keys_eq [OF idx]
    by (simp add: ClassPool_register_slab_def bump_epoch_def checked_add_def vec_insert_def q_def s_def Let_def)
  have "start \<notin># pool_blocks m p"
  proof
    assume "start \<in># pool_blocks m p"
    then have "start \<in> set (pool_all p)" using mset_subset_eqD [OF pool_blocks_subset [OF core]] by simp
    then obtain t where t: "t \<in> set (cp_slabs p)" "sr_start t \<le> start" "start + HEADER_SIZE \<le> sr_end_addr t"
      by (rule pool_block_range [OF core])
    with fresh [OF t(1)] \<open>bs * cap > 0\<close> show False by (auto simp: HEADER_SIZE_def)
  qed
  moreover have "start \<in> set (slab_blocks s)"
    using geo(3) by (auto simp: slab_blocks_def s_def blocks_of_def intro!: image_eqI [of _ _ 0])
  ultimately have "sweepable q (set_mset (pool_blocks m p)) = sweepable p (set_mset (pool_blocks m p))"
    by (auto simp: sweepable_def q_def)
  then have frame: "pool_frame p (set_mset (pool_blocks m p)) m m'"
    using pool_frame_swept [OF sw(2), of "set_mset (pool_blocks m p)"] blocksq by (simp add: pool_frame_def)
  show ?thesis
    by (rule that [OF run _ _ frame])
      (use sw(2) blocksq in \<open>auto simp: swept_def q_def s_def slab_geometry_def\<close>)
qed

section \<open>Counting\<close>

lemma central_block_count_spec:
  assumes core: "pool_core H m p"
  shows "central_block_count p = Some (size (pool_blocks m p))" "size (pool_blocks m p) \<le> usize_max"
proof -
  have "length (pool_all p) \<le> usize_max"
    by (rule distinct_addrs_length [OF distinct_pool_all [OF core]]) (metis pool_block_range [OF core])
  then show le: "size (pool_blocks m p) \<le> usize_max"
    using size_mset_mono [OF pool_blocks_subset [OF core]] by simp
  have "map sr_central_free_len (cp_slabs p) = map (length \<circ> slab_held m) (cp_slabs p)"
    using core by (simp add: pool_core_def slab_ok_def)
  then have "sum_list (map sr_central_free_len (cp_slabs p)) = sum_list (map (length \<circ> slab_held m) (cp_slabs p))"
    by (rule arg_cong)
  then have "sum_list (map sr_central_free_len (cp_slabs p)) = size (pool_blocks m p)"
    by (simp add: pool_blocks_def length_concat)
  then show "central_block_count p = Some (size (pool_blocks m p))"
    using le by (simp add: central_block_count_def sum_usize_eq)
qed

end
