(* ===== verification/Central_Pool_Ops.thy ===== *)
theory Central_Pool_Ops
  imports Class_Pool_Ops
begin

text \<open>
  The central pool of \<^verbatim>\<open>src/src/central_pool.rs\<close> as a whole: a class pool and a remote inbox
  per size class. \<open>central_inv\<close> is its invariant, \<open>central_blocks m cp c\<close> the multiset of
  blocks of class \<open>c\<close> it holds, pooled or pending in the inbox, and \<open>central_all cp c\<close> the
  list of all blocks of the slabs registered for the class.
\<close>

section \<open>One class: pool and inbox\<close>

definition inbox_blocks :: "heap \<Rightarrow> RemoteReturnInbox \<Rightarrow> addr list" where
  "inbox_blocks m ib = fl_blocks m (inbox_pending ib)"

definition class_blocks :: "heap \<Rightarrow> ClassPool \<Rightarrow> RemoteReturnInbox \<Rightarrow> addr multiset" where
  "class_blocks m p ib = pool_blocks m p + mset (inbox_blocks m ib)"

definition class_inv ::
    "(addr \<Rightarrow> AllocationHeader \<Rightarrow> bool) \<Rightarrow> heap \<Rightarrow> ClassPool \<Rightarrow> RemoteReturnInbox \<Rightarrow> bool" where
  "class_inv H m p ib \<longleftrightarrow> pool_inv H m p \<and>
     fl_rep m (inbox_pending ib) (inbox_blocks m ib) \<and> inbox_pending_len ib = length (inbox_blocks m ib) \<and>
     set (inbox_blocks m ib) \<subseteq> set (pool_all p) \<and>
     (\<forall>b\<in>set (inbox_blocks m ib). b \<notin># pool_blocks m p \<and> H b (m b))"

lemma class_invD:
  assumes "class_inv H m p ib"
  shows "pool_inv H m p" "pool_core H m p" "fl_rep m (inbox_pending ib) (inbox_blocks m ib)"
    "inbox_pending_len ib = length (inbox_blocks m ib)" "set (inbox_blocks m ib) \<subseteq> set (pool_all p)"
    "\<forall>b\<in>set (inbox_blocks m ib). b \<notin># pool_blocks m p \<and> H b (m b)"
  using assms by (auto simp: class_inv_def pool_inv_def)

lemma class_inv_new [simp]:
  "class_inv H m ClassPool_new RemoteReturnInbox_new" "class_blocks m ClassPool_new RemoteReturnInbox_new = {#}"
  by (simp_all add: class_inv_def class_blocks_def inbox_blocks_def RemoteReturnInbox_new_def fl_blocks_def
      FreeList_new_def) (simp add: fl_rep_def)

lemma class_blocks_subset:
  assumes inv: "class_inv H m p ib"
  shows "class_blocks m p ib \<subseteq># mset (pool_all p)"
proof -
  note D = class_invD [OF inv]
  have "count (class_blocks m p ib) x \<le> count (mset (pool_all p)) x" for x
  proof (cases "x \<in> set (inbox_blocks m ib)")
    case True
    then have "count (pool_blocks m p) x = 0" using D(6) by (simp add: not_in_iff)
    moreover have "count (mset (inbox_blocks m ib)) x = 1"
      using True fl_rep_distinct [OF D(3)] by (simp add: distinct_count_atmost_1)
    moreover have "count (mset (pool_all p)) x = 1"
      using True D(5) distinct_pool_all [OF D(2)] by (auto simp: distinct_count_atmost_1)
    ultimately show ?thesis unfolding class_blocks_def count_union by linarith
  next
    case False
    then have "count (mset (inbox_blocks m ib)) x = 0" by (simp add: not_in_iff)
    then show ?thesis
      using mset_subset_eq_count [OF pool_blocks_subset [OF D(2)], of x]
      unfolding class_blocks_def count_union by linarith
  qed
  then show ?thesis by (simp add: subseteq_mset_def)
qed

text \<open>Only the headers of the blocks the class holds matter to its invariant.\<close>

lemma class_inv_keep:
  assumes inv: "class_inv H m p ib" and same: "\<And>b. b \<in># class_blocks m p ib \<Longrightarrow> m' b = m b"
  shows "class_inv H m' p ib" "class_blocks m' p ib = class_blocks m p ib"
proof -
  note D = class_invD [OF inv]
  have linked: "m' b = m b" if s: "s \<in> set (cp_slabs p)" and b: "b \<in> set (slab_linked m s)" for s b
  proof (rule same)
    have "b \<in># pool_blocks m p" using s b slab_linked_held by (force simp: pool_blocks_def)
    then show "b \<in># class_blocks m p ib" by (simp add: class_blocks_def)
  qed
  have pend: "m' b = m b" if "b \<in> set (inbox_blocks m ib)" for b
    by (rule same) (use that in \<open>simp add: class_blocks_def\<close>)
  note fr = pool_core_frame [OF D(2) linked]
  have rep: "fl_rep m' (inbox_pending ib) (inbox_blocks m ib)"
    by (rule fl_rep_frame [OF D(3) pend])
  then have ib: "inbox_blocks m' ib = inbox_blocks m ib" by (simp add: inbox_blocks_def fl_rep_blocks)
  have "pool_inv H m' p" using D(1) fr(1) by (simp add: pool_inv_def)
  moreover have "\<forall>b\<in>set (inbox_blocks m ib). b \<notin># pool_blocks m' p \<and> H b (m' b)"
  proof
    fix b assume b: "b \<in> set (inbox_blocks m ib)"
    then have "m' b = m b" by (rule pend)
    then show "b \<notin># pool_blocks m' p \<and> H b (m' b)" using b D(6) fr(2) by simp
  qed
  ultimately show "class_inv H m' p ib"
    using D(4,5) rep unfolding class_inv_def ib by blast
  show "class_blocks m' p ib = class_blocks m p ib" by (simp add: class_blocks_def fr(2) ib)
qed

lemma class_inv_frame:
  assumes inv: "class_inv H m p ib" and same: "\<And>b. b \<in> set (pool_all p) \<Longrightarrow> m' b = m b"
  shows "class_inv H m' p ib" "class_blocks m' p ib = class_blocks m p ib"
proof -
  have "m' b = m b" if "b \<in># class_blocks m p ib" for b
    by (rule same) (use mset_subset_eqD [OF class_blocks_subset [OF inv] that] in simp)
  from class_inv_keep [OF inv this]
  show "class_inv H m' p ib" "class_blocks m' p ib = class_blocks m p ib" by simp_all
qed

lemma take_pending_spec:
  assumes inv: "class_inv H m p ib" and H: "link_insensitive H"
  obtains m' ib' batch where "take_pending dbg m ib = Some (m', ib', batch)"
    "batch_rep m' batch (inbox_blocks m ib)" "link_frame (set (inbox_blocks m ib)) m m'"
    "fl_rep m' (inbox_pending ib') []" "inbox_pending_len ib' = 0"
proof (cases "inbox_blocks m ib = []")
  case True
  note D = class_invD [OF inv]
  have "fl_rep m (inbox_pending ib) []" using D(3) unfolding True .
  moreover have "take_pending dbg m ib = Some (m, ib, Batch_empty)"
    using D(4) True by (simp add: take_pending_def)
  ultimately show ?thesis using that [of m ib Batch_empty] True D(4) by simp
next
  case False
  note D = class_invD [OF inv]
  have pos: "0 < inbox_pending_len ib" using D(4) False by simp
  from pop_batch_unchecked_rep [OF D(3) False pos, where dbg = dbg]
  obtain m' l b where pop: "pop_batch_unchecked dbg m (inbox_pending ib) (inbox_pending_len ib) = Some (m', l, b)"
    "batch_rep m' b (inbox_blocks m ib)" "fl_rep m' l []" "link_frame (set (inbox_blocks m ib)) m m'"
    unfolding D(4) by auto
  have "take_pending dbg m ib = Some (m', ib\<lparr>inbox_pending := l, inbox_pending_len := 0\<rparr>, b)"
    using pos pop(1) by (simp add: take_pending_def)
  then show ?thesis by (rule that) (use pop in simp_all)
qed

lemma pool_inv_link_frame:
  assumes inv: "pool_inv H m p" and fr: "link_frame S m m'" and S: "\<forall>b\<in>S. b \<notin># pool_blocks m p"
  shows "pool_inv H m' p" "pool_blocks m' p = pool_blocks m p"
proof -
  have core: "pool_core H m p" using inv by (simp add: pool_inv_def)
  have "m' b = m b" if "s \<in> set (cp_slabs p)" "b \<in> set (slab_linked m s)" for s b
  proof (rule link_frame_outside [OF fr])
    have "b \<in># pool_blocks m p" using that slab_linked_held by (force simp: pool_blocks_def)
    then show "b \<notin> S" using S by blast
  qed
  from pool_core_frame [OF core this]
  show "pool_inv H m' p" "pool_blocks m' p = pool_blocks m p" using inv by (simp_all add: pool_inv_def)
qed

lemma drain_remote_inbox_spec:
  assumes inv: "class_inv H m p ib" and H: "link_insensitive H" and os: "madvise_ok sys"
    and epoch: "cp_epoch p < usize_max"
  obtains m' ib' p' where "drain_remote_inbox dbg sys m ib p = Some (m', ib', p')" "pool_inv H m' p'"
    "pool_blocks m' p' = class_blocks m p ib" "\<And>m''. fl_rep m'' (inbox_pending ib') []"
    "inbox_pending_len ib' = 0"
    "pool_frame p (set_mset (class_blocks m p ib)) m m'"
    "map slab_geometry (cp_slabs p') = map slab_geometry (cp_slabs p)" "cp_epoch p' \<le> cp_epoch p + 1"
proof -
  note D = class_invD [OF inv]
  let ?xs = "inbox_blocks m ib" and ?G = "set_mset (class_blocks m p ib)"
  have sub: "set ?xs \<subseteq> ?G" "set_mset (pool_blocks m p) \<subseteq> ?G" by (auto simp: class_blocks_def)
  obtain m1 ib1 batch where t: "take_pending dbg m ib = Some (m1, ib1, batch)" "batch_rep m1 batch ?xs"
    "link_frame (set ?xs) m m1" "fl_rep m1 (inbox_pending ib1) []" "inbox_pending_len ib1 = 0"
    by (rule take_pending_spec [OF inv H])
  have new: "fl_rep m'' (inbox_pending ib1) []" for m'' using t(4) by (simp add: fl_rep_Nil_iff)
  have D6: "\<forall>b\<in>set ?xs. b \<notin># pool_blocks m p" using D(6) by blast
  note fr = pool_inv_link_frame [OF D(1) t(3) D6]
  have fr1: "pool_frame p ?G m m1" by (rule pool_frame_link [OF t(3) sub(1)])
  show ?thesis
  proof (cases "?xs = []")
    case True
    then have "drain_remote_inbox dbg sys m ib p = Some (m1, ib1, p)"
      using t(1) batch_rep_is_empty [OF t(2)] by (simp add: drain_remote_inbox_def)
    then show ?thesis
      by (rule that [OF _ fr(1) _ new t(5) fr1]) (use fr(2) True in \<open>simp_all add: class_blocks_def\<close>)
  next
    case False
    have "\<forall>x\<in>set ?xs. x \<notin># pool_blocks m1 p \<and> H x (m1 x)"
      using D(6) fr(2) link_frame_H [OF t(3) H] by simp
    from return_batch_pool_spec [OF fr(1) H os t(2) D(5) this epoch]
    obtain m' p' where r: "ClassPool_return_batch dbg sys m1 p batch = Some (m', p')" "pool_inv H m' p'"
      "pool_blocks m' p' = pool_blocks m1 p + mset ?xs"
      "pool_frame p (set_mset (pool_blocks m1 p) \<union> set ?xs) m1 m'"
      "map slab_geometry (cp_slabs p') = map slab_geometry (cp_slabs p)" "cp_epoch p' \<le> cp_epoch p + 1"
      by metis
    have "pool_frame p ?G m1 m'" by (rule pool_frame_mono [OF r(4)]) (use fr(2) sub in auto)
    then have "pool_frame p ?G m m'" using fr1 pool_frame_trans by blast
    moreover have "drain_remote_inbox dbg sys m ib p = Some (m', ib1, p')"
      using t(1) False batch_rep_is_empty [OF t(2)] r(1) by (simp add: drain_remote_inbox_def)
    ultimately show ?thesis
      using that new t(5) r fr(2) by (simp add: class_blocks_def)
  qed
qed

section \<open>All classes\<close>

abbreviation cpool :: "CentralPool \<Rightarrow> SizeClass \<Rightarrow> ClassPool" where
  "cpool cp c \<equiv> central_lists cp ! index c"

abbreviation cinbox :: "CentralPool \<Rightarrow> SizeClass \<Rightarrow> RemoteReturnInbox" where
  "cinbox cp c \<equiv> central_inboxes cp ! index c"

definition central_blocks :: "heap \<Rightarrow> CentralPool \<Rightarrow> SizeClass \<Rightarrow> addr multiset" where
  "central_blocks m cp c = class_blocks m (cpool cp c) (cinbox cp c)"

definition central_geometry :: "CentralPool \<Rightarrow> SizeClass \<Rightarrow> (addr \<times> addr \<times> usize \<times> usize) list" where
  "central_geometry cp c = map slab_geometry (cp_slabs (cpool cp c))"

definition central_all :: "CentralPool \<Rightarrow> SizeClass \<Rightarrow> addr list" where
  "central_all cp c = concat (map (\<lambda>(start, _, bs, cap). blocks_of start bs cap) (central_geometry cp c))"

definition ranges_apart :: "(addr \<times> addr \<times> 'x) \<Rightarrow> (addr \<times> addr \<times> 'y) \<Rightarrow> bool" where
  "ranges_apart g h \<longleftrightarrow> fst (snd g) \<le> fst h \<or> fst (snd h) \<le> fst g"

definition central_inv ::
    "(SizeClass \<Rightarrow> addr \<Rightarrow> AllocationHeader \<Rightarrow> bool) \<Rightarrow> heap \<Rightarrow> CentralPool \<Rightarrow> bool" where
  "central_inv H m cp \<longleftrightarrow> length (central_lists cp) = NUM_CLASSES \<and> length (central_inboxes cp) = NUM_CLASSES \<and>
     (\<forall>c. class_inv (H c) m (cpool cp c) (cinbox cp c)) \<and>
     (\<forall>c d g h. c \<noteq> d \<longrightarrow> g \<in> set (central_geometry cp c) \<longrightarrow> h \<in> set (central_geometry cp d) \<longrightarrow> ranges_apart g h)"

lemma central_all_pool: "central_all cp c = pool_all (cpool cp c)"
proof -
  have "(case slab_geometry s of (start, e, bs, cap) \<Rightarrow> blocks_of start bs cap) = slab_blocks s" for s
    by (simp add: slab_geometry_def slab_blocks_def)
  then show ?thesis by (simp add: central_all_def central_geometry_def pool_all_def comp_def)
qed

lemma central_invD:
  assumes "central_inv H m cp"
  shows "class_inv (H c) m (cpool cp c) (cinbox cp c)" "index c < length (central_lists cp)"
    "index c < length (central_inboxes cp)" "pool_core (H c) m (cpool cp c)"
proof -
  show cls: "class_inv (H c) m (cpool cp c) (cinbox cp c)" using assms by (simp add: central_inv_def)
  show "index c < length (central_lists cp)" "index c < length (central_inboxes cp)"
    using assms by (simp_all add: central_inv_def)
  show "pool_core (H c) m (cpool cp c)" by (rule class_invD(2) [OF cls])
qed

lemma central_inv_new [simp]:
  "central_inv H m CentralPool_new" "central_blocks m CentralPool_new c = {#}" "central_geometry CentralPool_new c = []"
  using index_less by (auto simp: central_inv_def CentralPool_new_def central_blocks_def central_geometry_def
      ClassPool_new_def [THEN arg_cong [of _ _ cp_slabs]])

lemma central_blocks_subset: "central_inv H m cp \<Longrightarrow> central_blocks m cp c \<subseteq># mset (central_all cp c)"
  using class_blocks_subset [OF central_invD(1)] by (simp add: central_blocks_def central_all_pool)

lemma distinct_central_all: "central_inv H m cp \<Longrightarrow> distinct (central_all cp c)"
  using distinct_pool_all [OF central_invD(4)] by (simp add: central_all_pool)

text \<open>Headers of blocks of another class are out of reach of the operations on a class.\<close>

lemma other_class_frame:
  assumes inv: "central_inv H m cp" and fr: "pool_frame (cpool cp c) G m m'"
    and G: "G \<subseteq> set (central_all cp c)" and "c \<noteq> d" and b: "b \<in> set (central_all cp d)"
  shows "m' b = m b"
proof (rule pool_frameD [OF fr])
  from b have "b \<in> set (pool_all (cpool cp d))" by (simp add: central_all_pool)
  then obtain t where t: "t \<in> set (cp_slabs (cpool cp d))" "sr_start t \<le> b" "b + HEADER_SIZE \<le> sr_end_addr t"
    by (rule pool_block_range [OF central_invD(4) [OF inv]])
  have apart: "sr_end_addr s \<le> sr_start t \<or> sr_end_addr t \<le> sr_start s" if "s \<in> set (cp_slabs (cpool cp c))" for s
  proof -
    have "ranges_apart (slab_geometry s) (slab_geometry t)"
      using inv assms(4) t(1) that unfolding central_inv_def central_geometry_def set_map by blast
    then show ?thesis by (simp add: ranges_apart_def slab_geometry_def)
  qed
  show "b \<notin> G"
  proof
    assume "b \<in> G"
    then have "b \<in> set (pool_all (cpool cp c))" using G central_all_pool by auto
    then obtain s where "s \<in> set (cp_slabs (cpool cp c))" "sr_start s \<le> b" "b + HEADER_SIZE \<le> sr_end_addr s"
      by (rule pool_block_range [OF central_invD(4) [OF inv]])
    with apart t show False by (fastforce simp: HEADER_SIZE_def)
  qed
  show "b \<notin> sweepable (cpool cp c) G"
    using apart t by (fastforce simp: sweepable_def zone_def)
qed

text \<open>Installing a new state of one class.\<close>

lemma central_inv_update:
  assumes inv: "central_inv H m cp" and cls: "class_inv (H c) m' p' ib'"
    and geo: "map slab_geometry (cp_slabs p') = central_geometry cp c"
    and fr: "pool_frame (cpool cp c) G m m'" "G \<subseteq> set (central_all cp c)"
  defines "cp' \<equiv> set_class cp c ib' p'"
  shows "central_inv H m' cp'" "central_geometry cp' = central_geometry cp"
    "central_blocks m' cp' c = class_blocks m' p' ib'"
    "d \<noteq> c \<Longrightarrow> central_blocks m' cp' d = central_blocks m cp d"
proof -
  have pools: "cpool cp' d = (if d = c then p' else cpool cp d)"
    "cinbox cp' d = (if d = c then ib' else cinbox cp d)" for d
    using central_invD(2,3) [OF inv, of c] by (auto simp: cp'_def set_class_def nth_list_update)
  have len: "length (central_lists cp') = NUM_CLASSES" "length (central_inboxes cp') = NUM_CLASSES"
    using inv by (auto simp: cp'_def set_class_def central_inv_def)
  show geo': "central_geometry cp' = central_geometry cp"
    using geo by (auto simp: central_geometry_def pools fun_eq_iff)
  have other: "class_inv (H d) m' (cpool cp d) (cinbox cp d)"
    "class_blocks m' (cpool cp d) (cinbox cp d) = class_blocks m (cpool cp d) (cinbox cp d)" if "d \<noteq> c" for d
  proof -
    have same: "m' b = m b" if "b \<in> set (pool_all (cpool cp d))" for b
      by (rule other_class_frame [OF inv fr, of d]) (use \<open>d \<noteq> c\<close> that in \<open>simp_all add: central_all_pool\<close>)
    show "class_inv (H d) m' (cpool cp d) (cinbox cp d)"
      "class_blocks m' (cpool cp d) (cinbox cp d) = class_blocks m (cpool cp d) (cinbox cp d)"
      using class_inv_frame [OF central_invD(1) [OF inv, of d] same] by simp_all
  qed
  have "class_inv (H d) m' (cpool cp' d) (cinbox cp' d)" for d
    using cls other(1) by (simp add: pools)
  then show "central_inv H m' cp'"
    using len inv unfolding central_inv_def geo' by blast
  show "central_blocks m' cp' c = class_blocks m' p' ib'" by (simp add: central_blocks_def pools)
  show "d \<noteq> c \<Longrightarrow> central_blocks m' cp' d = central_blocks m cp d"
    using other(2) by (simp add: central_blocks_def pools)
qed

section \<open>Operations of the central pool\<close>

text \<open>
  What a client of the pool may rely on after an operation on class \<open>c\<close>: the invariant, the
  registered slabs, the blocks of the other classes, and every header outside the blocks \<open>G\<close>
  that took part and outside the slabs that are completely in \<open>G\<close>.
\<close>

definition central_step ::
    "(SizeClass \<Rightarrow> addr \<Rightarrow> AllocationHeader \<Rightarrow> bool) \<Rightarrow> SizeClass \<Rightarrow> addr set \<Rightarrow>
     heap \<Rightarrow> CentralPool \<Rightarrow> heap \<Rightarrow> CentralPool \<Rightarrow> bool" where
  "central_step H c G m cp m' cp' \<longleftrightarrow> central_inv H m' cp' \<and> central_geometry cp' = central_geometry cp \<and>
     (\<forall>d. d \<noteq> c \<longrightarrow> central_blocks m' cp' d = central_blocks m cp d) \<and>
     pool_frame (cpool cp c) G m m' \<and>
     (\<forall>d. cp_epoch (cpool cp' d) \<le> cp_epoch (cpool cp d) + (if d = c then 2 else 0))"

lemma central_step_update:
  assumes "central_inv H m cp" "class_inv (H c) m' p' ib'"
    "map slab_geometry (cp_slabs p') = central_geometry cp c"
    "pool_frame (cpool cp c) G m m'" "G \<subseteq> set (central_all cp c)" "cp_epoch p' \<le> cp_epoch (cpool cp c) + 2"
  shows "central_step H c G m cp m' (set_class cp c ib' p')"
proof -
  have "cp_epoch (cpool (set_class cp c ib' p') d) \<le> cp_epoch (cpool cp d) + (if d = c then 2 else 0)" for d
    using assms(6) central_invD(2) [OF assms(1), of c] by (auto simp: set_class_def nth_list_update)
  then show ?thesis
    using central_inv_update [OF assms(1-5)] assms(4) by (auto simp: central_step_def)
qed

definition epoch_room :: "CentralPool \<Rightarrow> SizeClass \<Rightarrow> bool" where
  "epoch_room cp c \<longleftrightarrow> cp_epoch (cpool cp c) + 2 \<le> usize_max"

lemma empty_inbox:
  assumes "pool_inv H m p" "fl_rep m (inbox_pending ib) []" "inbox_pending_len ib = 0"
  shows "class_inv H m p ib" "class_blocks m p ib = pool_blocks m p"
proof -
  have "inbox_blocks m ib = []" using fl_rep_blocks [OF assms(2)] by (simp add: inbox_blocks_def)
  then show "class_inv H m p ib" "class_blocks m p ib = pool_blocks m p"
    using assms by (simp_all add: class_inv_def class_blocks_def)
qed

lemma central_G:
  "central_inv H m cp \<Longrightarrow> set_mset (central_blocks m cp c) \<subseteq> set (central_all cp c)"
  using central_blocks_subset [of H m cp c] by (metis set_mset_mono set_mset_mset)

lemma take_refill_spec:
  assumes inv: "central_inv H m cp" and H: "link_insensitive (H c)" and os: "madvise_ok sys"
    and mx: "0 < mx" and epoch: "epoch_room cp c"
  obtains m' cp' r xs where "take_refill dbg sys m cp c mx = Some (m', cp', r)"
    "central_step H c (set_mset (central_blocks m cp c)) m cp m' cp'"
    "refill_rep (H c) m' (cpool cp' c) r xs"
    "central_blocks m cp c = central_blocks m' cp' c + mset xs"
    "xs = [] \<longleftrightarrow> central_blocks m cp c = {#}" "r = Refill_Empty \<longleftrightarrow> xs = []"
    "\<forall>b. r = Refill_Batch b \<longrightarrow> length xs \<le> mx"
proof -
  let ?p = "cpool cp c" and ?ib = "cinbox cp c" and ?G = "set_mset (central_blocks m cp c)"
  note cls = central_invD [OF inv, of c]
  have e1: "cp_epoch ?p < usize_max" using epoch by (simp add: epoch_room_def)
  obtain m1 ib1 p1 where d: "drain_remote_inbox dbg sys m ?ib ?p = Some (m1, ib1, p1)" "pool_inv (H c) m1 p1"
    "pool_blocks m1 p1 = class_blocks m ?p ?ib" "\<And>m''. fl_rep m'' (inbox_pending ib1) []"
    "inbox_pending_len ib1 = 0" "pool_frame ?p (set_mset (class_blocks m ?p ?ib)) m m1"
    "map slab_geometry (cp_slabs p1) = map slab_geometry (cp_slabs ?p)" "cp_epoch p1 \<le> cp_epoch ?p + 1"
    by (rule drain_remote_inbox_spec [OF cls(1) H os e1]) blast
  have e2: "cp_epoch p1 < usize_max" using d(8) epoch by (simp add: epoch_room_def)
  obtain m2 p2 r xs where t: "ClassPool_take_refill dbg sys m1 p1 mx = Some (m2, p2, r)" "pool_inv (H c) m2 p2"
    "refill_rep (H c) m2 p2 r xs" "pool_blocks m1 p1 = pool_blocks m2 p2 + mset xs"
    "pool_frame p1 (set_mset (pool_blocks m1 p1)) m1 m2"
    "map slab_geometry (cp_slabs p2) = map slab_geometry (cp_slabs p1)" "cp_epoch p2 = cp_epoch p1 + 1"
    "xs = [] \<longleftrightarrow> pool_blocks m1 p1 = {#}" "r = Refill_Empty \<longleftrightarrow> xs = []"
    "\<forall>b. r = Refill_Batch b \<longrightarrow> length xs \<le> mx"
    by (rule take_refill_pool_spec [OF d(2) H os mx e2])
  note e = empty_inbox [OF t(2) d(4,5)]
  have blocks: "class_blocks m ?p ?ib = central_blocks m cp c" by (simp add: central_blocks_def)
  have "pool_frame ?p ?G m1 m2" using t(5) pool_frame_geometry [OF d(7)] d(3) blocks by simp
  then have fr: "pool_frame ?p ?G m m2" by (rule pool_frame_trans [OF d(6) [unfolded blocks]])
  have step: "central_step H c ?G m cp m2 (set_class cp c ib1 p2)"
    by (rule central_step_update [OF inv e(1) _ fr central_G [OF inv]])
      (use t(6,7) d(7,8) in \<open>simp_all add: central_geometry_def\<close>)
  have pool: "cpool (set_class cp c ib1 p2) c = p2" "cinbox (set_class cp c ib1 p2) c = ib1"
    using cls(2,3) by (simp_all add: set_class_def)
  have run: "take_refill dbg sys m cp c mx = Some (m2, set_class cp c ib1 p2, r)"
    using cls(2,3) d(1) t(1) by (simp add: take_refill_def)
  have "central_blocks m2 (set_class cp c ib1 p2) c = pool_blocks m2 p2"
    unfolding central_blocks_def pool by (rule e(2))
  moreover have acc: "central_blocks m cp c = pool_blocks m1 p1" using d(3) blocks by simp
  ultimately have "central_blocks m cp c = central_blocks m2 (set_class cp c ib1 p2) c + mset xs"
    using t(4) by simp
  moreover have "refill_rep (H c) m2 (cpool (set_class cp c ib1 p2) c) r xs" unfolding pool by (rule t(3))
  moreover have "xs = [] \<longleftrightarrow> central_blocks m cp c = {#}" unfolding acc by (rule t(8))
  ultimately show ?thesis using that [OF run step, of xs] t(9,10) by blast
qed

lemma return_batch_spec:
  assumes inv: "central_inv H m cp" and H: "link_insensitive (H c)" and os: "madvise_ok sys"
    and epoch: "epoch_room cp c" and rep: "batch_rep m batch xs"
    and xs: "set xs \<subseteq> set (central_all cp c)" "\<forall>x\<in>set xs. x \<notin># central_blocks m cp c \<and> H c x (m x)"
  obtains m' cp' where "return_batch dbg sys m cp c batch = Some (m', cp')"
    "central_step H c (set_mset (central_blocks m cp c) \<union> set xs) m cp m' cp'"
    "central_blocks m' cp' c = central_blocks m cp c + mset xs"
proof -
  let ?p = "cpool cp c" and ?ib = "cinbox cp c" and ?G = "set_mset (central_blocks m cp c) \<union> set xs"
  note cls = central_invD [OF inv, of c]
  have blocks: "class_blocks m ?p ?ib = central_blocks m cp c" by (simp add: central_blocks_def)
  have e1: "cp_epoch ?p < usize_max" using epoch by (simp add: epoch_room_def)
  obtain m1 ib1 p1 where d: "drain_remote_inbox dbg sys m ?ib ?p = Some (m1, ib1, p1)" "pool_inv (H c) m1 p1"
    "pool_blocks m1 p1 = class_blocks m ?p ?ib" "\<And>m''. fl_rep m'' (inbox_pending ib1) []"
    "inbox_pending_len ib1 = 0" "pool_frame ?p (set_mset (class_blocks m ?p ?ib)) m m1"
    "map slab_geometry (cp_slabs p1) = map slab_geometry (cp_slabs ?p)" "cp_epoch p1 \<le> cp_epoch ?p + 1"
    by (rule drain_remote_inbox_spec [OF cls(1) H os e1]) blast
  have keep: "m1 x = m x" if "x \<in> set xs" for x
  proof (rule pool_frameD [OF d(6)])
    show "x \<notin># class_blocks m ?p ?ib" using xs(2) that blocks by simp
    then show "x \<notin> sweepable ?p (set_mset (class_blocks m ?p ?ib))"
      using not_sweepable [OF cls(4)] xs(1) that by (auto simp: central_all_pool)
  qed
  have rep1: "batch_rep m1 batch xs" by (rule batch_rep_frame [OF rep keep])
  have all1: "set xs \<subseteq> set (pool_all p1)" using xs(1) geometry_eq_pool(1) [OF d(7)] by (simp add: central_all_pool)
  have xs1: "\<forall>x\<in>set xs. x \<notin># pool_blocks m1 p1 \<and> H c x (m1 x)" using xs(2) keep d(3) blocks by simp
  have e2: "cp_epoch p1 < usize_max" using d(8) epoch by (simp add: epoch_room_def)
  obtain m2 p2 where r: "ClassPool_return_batch dbg sys m1 p1 batch = Some (m2, p2)" "pool_inv (H c) m2 p2"
    "pool_blocks m2 p2 = pool_blocks m1 p1 + mset xs"
    "pool_frame p1 (set_mset (pool_blocks m1 p1) \<union> set xs) m1 m2"
    "map slab_geometry (cp_slabs p2) = map slab_geometry (cp_slabs p1)" "cp_epoch p2 \<le> cp_epoch p1 + 1"
    by (rule return_batch_pool_spec [OF d(2) H os rep1 all1 xs1 e2])
  note e = empty_inbox [OF r(2) d(4,5)]
  have "pool_frame ?p ?G m1 m2" using r(4) pool_frame_geometry [OF d(7)] d(3) blocks by simp
  moreover have "pool_frame ?p ?G m m1" by (rule pool_frame_mono [OF d(6)]) (simp add: blocks)
  ultimately have fr: "pool_frame ?p ?G m m2" using pool_frame_trans by blast
  have step: "central_step H c ?G m cp m2 (set_class cp c ib1 p2)"
    by (rule central_step_update [OF inv e(1) _ fr])
      (use central_G [OF inv] xs(1) r(5,6) d(7,8) in \<open>auto simp: central_geometry_def\<close>)
  have run: "return_batch dbg sys m cp c batch = Some (m2, set_class cp c ib1 p2)"
    using cls(2,3) d(1) r(1) by (simp add: return_batch_def)
  have "central_blocks m2 (set_class cp c ib1 p2) c = pool_blocks m2 p2"
    using e(2) cls(2,3) by (simp add: central_blocks_def set_class_def)
  then show ?thesis using that [OF run step] r(3) d(3) blocks by simp
qed

lemma publish_remote_batch_spec:
  assumes inv: "central_inv H m cp" and H: "link_insensitive (H c)" and rep: "batch_rep m batch xs"
    and xs: "set xs \<subseteq> set (central_all cp c)" "\<forall>x\<in>set xs. x \<notin># central_blocks m cp c \<and> H c x (m x)"
  obtains m' cp' where "publish_remote_batch dbg m cp c batch = Some (m', cp')"
    "central_step H c (set xs) m cp m' cp'" "link_frame (set xs) m m'"
    "central_blocks m' cp' c = central_blocks m cp c + mset xs"
    "\<forall>d. cp_epoch (cpool cp' d) = cp_epoch (cpool cp d)"
proof -
  let ?p = "cpool cp c" and ?ib = "cinbox cp c"
  let ?ys = "inbox_blocks m ?ib"
  note cls = central_invD [OF inv, of c]
  note D = class_invD [OF cls(1)]
  have fresh: "\<forall>x\<in>set xs. x \<notin># pool_blocks m ?p" "set ?ys \<inter> set xs = {}"
    using xs(2) by (auto simp: central_blocks_def class_blocks_def)
  have dist: "distinct (?ys @ xs)"
    using fresh(2) fl_rep_distinct [OF D(3)] batch_rep_distinct [OF rep] by auto
  have "length (?ys @ xs) \<le> usize_max"
  proof (rule distinct_addrs_length [OF dist])
    fix x assume "x \<in> set (?ys @ xs)"
    then have "x \<in> set (pool_all ?p)" using D(5) xs(1) by (auto simp: central_all_pool)
    then show "0 < x \<and> x \<le> usize_max" by (rule pool_block_range [OF D(2)]) blast
  qed
  then have fit: "length ?ys + length xs \<le> usize_max" by simp
  have "\<exists>m' ib'. inbox_push_batch dbg m ?ib batch = Some (m', ib') \<and> fl_rep m' (inbox_pending ib') (xs @ ?ys) \<and>
      inbox_pending_len ib' = length (xs @ ?ys) \<and> link_frame (set xs) m m'"
  proof (cases "xs = []")
    case True
    then have "batch_len batch = 0" using rep by (simp add: batch_rep_def)
    then show ?thesis using True D(3,4) by (auto simp: inbox_push_batch_def)
  next
    case False
    obtain m' l where push: "push_batch dbg m (inbox_pending ?ib) batch = Some (m', l)"
      "fl_rep m' l (xs @ ?ys)" "link_frame (set xs) m m'"
      by (rule push_batch_rep [OF D(3) rep fresh(2) fit])
    then have "inbox_push_batch dbg m ?ib batch =
        Some (m', ?ib\<lparr>inbox_pending := l, inbox_pending_len := length ?ys + length xs\<rparr>)"
      using False batch_rep_len [OF rep] D(4) fit by (simp add: inbox_push_batch_def checked_add_def Let_def)
    then show ?thesis using push by auto
  qed
  then obtain m' ib' where ib: "inbox_push_batch dbg m ?ib batch = Some (m', ib')"
    "fl_rep m' (inbox_pending ib') (xs @ ?ys)" "inbox_pending_len ib' = length (xs @ ?ys)" "link_frame (set xs) m m'"
    by blast
  have blocks': "inbox_blocks m' ib' = xs @ ?ys" using fl_rep_blocks [OF ib(2)] by (simp add: inbox_blocks_def)
  note fr = pool_inv_link_frame [OF D(1) ib(4) fresh(1)]
  have cls': "class_inv (H c) m' ?p ib'"
    unfolding class_inv_def blocks'
    using fr ib(2,3) D(5,6) xs fresh link_frame_H [OF ib(4) H] by (auto simp: central_all_pool)
  have "class_blocks m' ?p ib' = class_blocks m ?p ?ib + mset xs"
    by (simp add: class_blocks_def blocks' fr(2) ac_simps)
  moreover have fr': "pool_frame ?p (set xs) m m'" by (rule pool_frame_link [OF ib(4)]) simp
  have eq: "set_class cp c ib' ?p = cp\<lparr>central_inboxes := (central_inboxes cp)[index c := ib']\<rparr>"
    by (simp add: set_class_def)
  have "central_step H c (set xs) m cp m' (set_class cp c ib' ?p)"
    by (rule central_step_update [OF inv cls' _ fr' xs(1)]) (simp_all add: central_geometry_def)
  moreover have "publish_remote_batch dbg m cp c batch = Some (m', set_class cp c ib' ?p)"
    using cls(3) ib(1) by (simp add: publish_remote_batch_def eq)
  moreover have "\<forall>d. cp_epoch (cpool (set_class cp c ib' ?p) d) = cp_epoch (cpool cp d)" by (simp add: eq)
  ultimately show ?thesis
    using that ib(4) cls(2,3) by (simp add: central_blocks_def set_class_def)
qed

text \<open>A fresh slab is apart from every registered slab of every class.\<close>

lemma register_slab_spec:
  assumes inv: "central_inv H m cp" and os: "madvise_ok sys" and epoch: "epoch_room cp c"
    and geo: "0 < start" "HEADER_SIZE \<le> bs" "0 < cap" "start + bs * cap \<le> usize_max"
    and fresh: "\<And>d g. g \<in> set (central_geometry cp d) \<Longrightarrow> ranges_apart g (start, start + bs * cap, ())"
  obtains m' cp' where "register_slab dbg sys m cp c start bs cap = Some (m', cp')" "central_inv H m' cp'"
    "central_geometry cp' = (central_geometry cp)(c := central_geometry cp c @ [(start, start + bs * cap, bs, cap)])"
    "\<And>d. central_blocks m' cp' d = central_blocks m cp d"
    "pool_frame (cpool cp c) (set_mset (central_blocks m cp c)) m m'"
    "\<And>d. cp_epoch (cpool cp' d) \<le> cp_epoch (cpool cp d) + 2"
proof -
  let ?p = "cpool cp c" and ?ib = "cinbox cp c" and ?g = "(start, start + bs * cap, bs, cap)"
  note cls = central_invD [OF inv, of c]
  note D = class_invD [OF cls(1)]
  have e1: "cp_epoch ?p < usize_max" using epoch by (simp add: epoch_room_def)
  have fresh': "sr_end_addr s \<le> start \<or> start + bs * cap \<le> sr_start s" if "s \<in> set (cp_slabs ?p)" for s
    using fresh [of "slab_geometry s" c] that by (simp add: central_geometry_def ranges_apart_def slab_geometry_def)
  obtain m' p' where r: "ClassPool_register_slab dbg sys m ?p start bs cap = Some (m', p')" "pool_inv (H c) m' p'"
    "pool_blocks m' p' = pool_blocks m ?p" "pool_frame ?p (set_mset (pool_blocks m ?p)) m m'"
    "map slab_geometry (cp_slabs p') = map slab_geometry (cp_slabs ?p) @ [?g]" "cp_epoch p' = cp_epoch ?p + 1"
    by (rule register_slab_pool_spec [OF D(1) os e1 geo fresh'])
  have sub: "set_mset (pool_blocks m ?p) \<subseteq> set (central_all cp c)"
    using mset_subset_eqD [OF pool_blocks_subset [OF D(2)]] by (auto simp: central_all_pool)
  have keep: "m' b = m b" if "b \<in> set (inbox_blocks m ?ib)" for b
  proof (rule pool_frameD [OF r(4)])
    show nb: "b \<notin># pool_blocks m ?p" using D(6) that by blast
    show "b \<notin> sweepable ?p (set_mset (pool_blocks m ?p))"
      by (rule not_sweepable [OF D(2)]) (use D(5) that nb in auto)
  qed
  have rep: "fl_rep m' (inbox_pending ?ib) (inbox_blocks m ?ib)" by (rule fl_rep_frame [OF D(3) keep])
  have ib: "inbox_blocks m' ?ib = inbox_blocks m ?ib" using fl_rep_blocks [OF rep] by (simp add: inbox_blocks_def)
  define cp' where "cp' = set_class cp c ?ib p'"
  have pools: "cpool cp' d = (if d = c then p' else cpool cp d)" "cinbox cp' d = cinbox cp d" for d
    using cls(2,3) by (auto simp: cp'_def set_class_def nth_list_update)
  have geo': "central_geometry cp' = (central_geometry cp)(c := central_geometry cp c @ [?g])"
    using r(5) by (auto simp: central_geometry_def pools fun_eq_iff)
  have all': "set (pool_all ?p) \<subseteq> set (pool_all p')"
    using geo' by (simp add: central_all_pool [symmetric] central_all_def pools
        flip: central_all_pool [of cp' c, unfolded pools(1) [of c], simplified])
  have cls': "class_inv (H c) m' p' ?ib"
    unfolding class_inv_def ib using r(2,3) rep D(4-6) all' keep by auto
  have other: "class_inv (H d) m' (cpool cp d) (cinbox cp d)"
    "class_blocks m' (cpool cp d) (cinbox cp d) = class_blocks m (cpool cp d) (cinbox cp d)" if "d \<noteq> c" for d
  proof -
    have same: "m' b = m b" if "b \<in> set (pool_all (cpool cp d))" for b
      by (rule other_class_frame [OF inv r(4) sub, of d]) (use \<open>d \<noteq> c\<close> that in \<open>simp_all add: central_all_pool\<close>)
    show "class_inv (H d) m' (cpool cp d) (cinbox cp d)"
      "class_blocks m' (cpool cp d) (cinbox cp d) = class_blocks m (cpool cp d) (cinbox cp d)"
      using class_inv_frame [OF central_invD(1) [OF inv, of d] same] by simp_all
  qed
  have apart: "ranges_apart g h" if cd: "c1 \<noteq> d1" and g: "g \<in> set (central_geometry cp' c1)"
    and h: "h \<in> set (central_geometry cp' d1)" for c1 d1 g h
  proof -
    have old: "ranges_apart g h" if "g \<in> set (central_geometry cp c1)" "h \<in> set (central_geometry cp d1)"
      using inv cd that unfolding central_inv_def by blast
    have new: "ranges_apart x ?g \<and> ranges_apart ?g x" if "x \<in> set (central_geometry cp e)" for x e
      using fresh [OF that] by (auto simp: ranges_apart_def)
    have "g \<in> set (central_geometry cp c1) \<or> (c1 = c \<and> g = ?g)"
      "h \<in> set (central_geometry cp d1) \<or> (d1 = c \<and> h = ?g)"
      using g h unfolding geo' by (auto split: if_splits)
    then show ?thesis using old new cd by blast
  qed
  have "class_inv (H d) m' (cpool cp' d) (cinbox cp' d)" for d using cls' other(1) by (simp add: pools)
  moreover have "length (central_lists cp') = NUM_CLASSES" "length (central_inboxes cp') = NUM_CLASSES"
    using inv by (auto simp: cp'_def set_class_def central_inv_def)
  ultimately have inv': "central_inv H m' cp'" using apart unfolding central_inv_def by blast
  have "register_slab dbg sys m cp c start bs cap = Some (m', cp')"
    using cls(2,3) r(1) by (simp add: register_slab_def cp'_def set_class_def)
  moreover have "central_blocks m' cp' d = central_blocks m cp d" for d
    using other(2) r(3) ib by (auto simp: central_blocks_def pools class_blocks_def)
  moreover have "pool_frame ?p (set_mset (central_blocks m cp c)) m m'"
    by (rule pool_frame_mono [OF r(4)]) (auto simp: central_blocks_def class_blocks_def)
  moreover have "cp_epoch (cpool cp' d) \<le> cp_epoch (cpool cp d) + 2" for d using r(6) by (simp add: pools)
  ultimately show ?thesis using that inv' geo' by blast
qed

lemma block_counts_spec:
  assumes inv: "central_inv H m cp"
  shows "block_counts cp = Some (map (\<lambda>c. size (central_blocks m cp c)) ALL_classes)"
proof -
  have one: "(do { p \<leftarrow> vec_get (central_lists cp) i; ib \<leftarrow> vec_get (central_inboxes cp) i;
      n \<leftarrow> central_block_count p; checked_add n (inbox_pending_len ib) }) =
      Some (size (central_blocks m cp (ALL_classes ! i)))" if i: "i < NUM_CLASSES" for i
  proof -
    let ?c = "ALL_classes ! i"
    have ix: "index ?c = i" by (rule index_ALL_classes [OF i])
    note cls = central_invD [OF inv, of ?c, unfolded ix]
    note D = class_invD [OF cls(1)]
    have "length (pool_all (central_lists cp ! i)) \<le> usize_max"
      by (rule distinct_addrs_length [OF distinct_pool_all [OF D(2)]]) (metis pool_block_range [OF D(2)])
    then have "size (class_blocks m (central_lists cp ! i) (central_inboxes cp ! i)) \<le> usize_max"
      using size_mset_mono [OF class_blocks_subset [OF cls(1)]] by simp
    then show ?thesis
      using cls(2,3) central_block_count_spec(1) [OF D(2)] D(4)
      by (simp add: central_blocks_def ix class_blocks_def checked_add_def)
  qed
  have "block_counts cp = Some (map (\<lambda>i. size (central_blocks m cp (ALL_classes ! i))) [0..<NUM_CLASSES])"
    unfolding block_counts_def by (rule those_map_Some) (use one in simp)
  moreover have "map (\<lambda>i. size (central_blocks m cp (ALL_classes ! i))) [0..<NUM_CLASSES] =
      map (\<lambda>c. size (central_blocks m cp c)) ALL_classes"
    by (rule nth_equalityI) simp_all
  ultimately show ?thesis by simp
qed

end
