(* ===== verification/Thread_Cache_Ops.thy ===== *)
theory Thread_Cache_Ops
  imports Local_Cache_Ops Central_Pool_Ops
begin

text \<open>
  A thread cache together with the central pool. \<open>held_inv dbg m cp tc R\<close> says that the pool
  and the cache are well formed and that every block of every registered slab is in exactly
  one place: the central pool, this cache, or the rest \<open>R\<close> (allocated blocks and the caches
  of other threads). Each operation of the cache keeps this, moves blocks only between the
  pool and the cache, and leaves the headers of the blocks in \<open>R\<close> and all memory outside the
  slabs alone (\<open>rest_frame\<close>), so that the caches of other threads keep their invariants.
\<close>

section \<open>Invariants\<close>

abbreviation tclass :: "ThreadCache \<Rightarrow> SizeClass \<Rightarrow> LocalClassCache" where
  "tclass tc c \<equiv> tc_classes tc ! index c"

abbreviation tremote :: "ThreadCache \<Rightarrow> SizeClass \<Rightarrow> RemoteReturnCache" where
  "tremote tc c \<equiv> tc_remote_returns tc ! index c"

abbreviation geos :: "CentralPool \<Rightarrow> SizeClass \<Rightarrow> geometry set" where
  "geos cp c \<equiv> set (central_geometry cp c)"

definition rr_blocks :: "heap \<Rightarrow> RemoteReturnCache \<Rightarrow> addr list" where
  "rr_blocks m rr = fl_blocks m (rr_pending rr)"

definition rr_inv :: "bool \<Rightarrow> SizeClass \<Rightarrow> heap \<Rightarrow> RemoteReturnCache \<Rightarrow> bool" where
  "rr_inv dbg c m rr \<longleftrightarrow> fl_rep m (rr_pending rr) (rr_blocks m rr) \<and>
     rr_pending_len rr = length (rr_blocks m rr) \<and> (\<forall>b\<in>set (rr_blocks m rr). idle_header dbg c b (m b))"

definition tc_blocks :: "heap \<Rightarrow> ThreadCache \<Rightarrow> SizeClass \<Rightarrow> addr multiset" where
  "tc_blocks m tc c = lc_blocks m (tclass tc c) + mset (rr_blocks m (tremote tc c))"

definition tc_inv :: "bool \<Rightarrow> (SizeClass \<Rightarrow> geometry set) \<Rightarrow> heap \<Rightarrow> ThreadCache \<Rightarrow> bool" where
  "tc_inv dbg G m tc \<longleftrightarrow> length (tc_classes tc) = NUM_CLASSES \<and> length (tc_remote_returns tc) = NUM_CLASSES \<and>
     tc_class_config tc = class_config_table (tc_config tc) \<and>
     (\<forall>c. lc_inv dbg c (tc_cache_id tc) (G c) m (tclass tc c) \<and> rr_inv dbg c m (tremote tc c))"

definition held_inv ::
    "bool \<Rightarrow> heap \<Rightarrow> CentralPool \<Rightarrow> ThreadCache \<Rightarrow> (SizeClass \<Rightarrow> addr multiset) \<Rightarrow> bool" where
  "held_inv dbg m cp tc R \<longleftrightarrow> central_inv (idle_header dbg) m cp \<and> (\<forall>c. geos_ok (geos cp c)) \<and>
     tc_inv dbg (geos cp) m tc \<and>
     (\<forall>c. mset (central_all cp c) = central_blocks m cp c + tc_blocks m tc c + R c)"

definition rest_frame :: "CentralPool \<Rightarrow> (SizeClass \<Rightarrow> addr multiset) \<Rightarrow> heap \<Rightarrow> heap \<Rightarrow> bool" where
  "rest_frame cp R m m' \<longleftrightarrow> (\<forall>x. (\<exists>c. x \<in># R c) \<or>
     (\<forall>c. \<forall>g\<in>geos cp c. x + HEADER_SIZE \<le> fst g \<or> fst (snd g) \<le> x) \<longrightarrow> m' x = m x)"

lemma rest_frame_refl [simp]: "rest_frame cp R m m"
  by (simp add: rest_frame_def)

lemma rest_frame_trans:
  "rest_frame cp R m m1 \<Longrightarrow> rest_frame cp' R m1 m2 \<Longrightarrow> central_geometry cp' = central_geometry cp \<Longrightarrow> rest_frame cp R m m2"
  by (simp add: rest_frame_def)

lemma rest_frameD: "rest_frame cp R m m' \<Longrightarrow> x \<in># R c \<Longrightarrow> m' x = m x"
  by (auto simp: rest_frame_def)

lemma rr_inv_new [simp]: "rr_inv dbg c m RemoteReturnCache_new" "rr_blocks m RemoteReturnCache_new = []"
proof -
  show b: "rr_blocks m RemoteReturnCache_new = []"
    using fl_rep_blocks [of m FreeList_new "[]"] by (simp add: rr_blocks_def RemoteReturnCache_new_def)
  show "rr_inv dbg c m RemoteReturnCache_new" unfolding rr_inv_def b by (simp add: RemoteReturnCache_new_def)
qed

lemma rr_inv_frame:
  assumes inv: "rr_inv dbg c m rr" and same: "\<And>b. b \<in> set (rr_blocks m rr) \<Longrightarrow> m' b = m b"
  shows "rr_inv dbg c m' rr" "rr_blocks m' rr = rr_blocks m rr"
proof -
  have rep: "fl_rep m' (rr_pending rr) (rr_blocks m rr)"
    by (rule fl_rep_frame [OF _ same]) (use inv in \<open>simp add: rr_inv_def\<close>)
  then show b: "rr_blocks m' rr = rr_blocks m rr" by (simp add: rr_blocks_def fl_rep_blocks)
  show "rr_inv dbg c m' rr" unfolding rr_inv_def b using inv rep same by (simp add: rr_inv_def)
qed

lemma tc_invD:
  assumes "tc_inv dbg G m tc"
  shows "index c < length (tc_classes tc)" "index c < length (tc_remote_returns tc)"
    "lc_inv dbg c (tc_cache_id tc) (G c) m (tclass tc c)" "rr_inv dbg c m (tremote tc c)"
    "tc_class_config tc ! index c = \<lparr>cc_refill_count = refill_count (tc_config tc) c,
       cc_local_limit = local_limit (tc_config tc) c, cc_drain_count = drain_count (tc_config tc) c\<rparr>"
    "index c < length (tc_class_config tc)"
  using assms by (simp_all add: tc_inv_def class_config_table_def Let_def)

lemma held_invD:
  assumes "held_inv dbg m cp tc R"
  shows "central_inv (idle_header dbg) m cp" "geos_ok (geos cp c)" "tc_inv dbg (geos cp) m tc"
    "mset (central_all cp c) = central_blocks m cp c + tc_blocks m tc c + R c"
  using assms by (auto simp: held_inv_def)

lemma geo_blocks_central: "geo_blocks (geos cp c) = set (central_all cp c)"
proof -
  have "geo_block_list g = (case g of (start, _, bs, cap) \<Rightarrow> blocks_of start bs cap)" for g
    by (simp add: geo_block_list_def)
  then show ?thesis by (auto simp: geo_blocks_def central_all_def)
qed

text \<open>The parts of the account of one class do not overlap, and classes have no block in common.\<close>

lemma held_apart:
  assumes "held_inv dbg m cp tc R"
  shows "dset (central_blocks m cp c + tc_blocks m tc c + R c)"
    "x \<in># central_blocks m cp c \<Longrightarrow> x \<notin># tc_blocks m tc c \<and> x \<notin># R c"
    "x \<in># tc_blocks m tc c \<Longrightarrow> x \<notin># central_blocks m cp c \<and> x \<notin># R c"
    "x \<in># R c \<Longrightarrow> x \<notin># central_blocks m cp c \<and> x \<notin># tc_blocks m tc c"
    "x \<in># central_blocks m cp c \<or> x \<in># tc_blocks m tc c \<or> x \<in># R c \<longleftrightarrow> x \<in> set (central_all cp c)"
proof -
  note D = held_invD [OF assms]
  show d: "dset (central_blocks m cp c + tc_blocks m tc c + R c)"
    unfolding D(4) [of c, symmetric] by (simp add: distinct_central_all [OF D(1)])
  show "x \<in># central_blocks m cp c \<Longrightarrow> x \<notin># tc_blocks m tc c \<and> x \<notin># R c"
    "x \<in># tc_blocks m tc c \<Longrightarrow> x \<notin># central_blocks m cp c \<and> x \<notin># R c"
    "x \<in># R c \<Longrightarrow> x \<notin># central_blocks m cp c \<and> x \<notin># tc_blocks m tc c"
    using d unfolding dset_union by auto
  have "set_mset (mset (central_all cp c)) = set_mset (central_blocks m cp c + tc_blocks m tc c + R c)"
    unfolding D(4) [of c] ..
  then show "x \<in># central_blocks m cp c \<or> x \<in># tc_blocks m tc c \<or> x \<in># R c \<longleftrightarrow> x \<in> set (central_all cp c)"
    by auto
qed

lemma central_all_disjoint:
  assumes inv: "central_inv H m cp" and x: "x \<in> set (central_all cp c)" "x \<in> set (central_all cp d)"
  shows "c = d"
proof (rule ccontr)
  assume ne: "c \<noteq> d"
  obtain s where s: "s \<in> set (cp_slabs (cpool cp c))" "sr_start s \<le> x" "x + HEADER_SIZE \<le> sr_end_addr s"
    by (rule pool_block_range [OF central_invD(4) [OF inv] x(1) [unfolded central_all_pool]])
  obtain t where t: "t \<in> set (cp_slabs (cpool cp d))" "sr_start t \<le> x" "x + HEADER_SIZE \<le> sr_end_addr t"
    by (rule pool_block_range [OF central_invD(4) [OF inv] x(2) [unfolded central_all_pool]])
  have "ranges_apart (slab_geometry s) (slab_geometry t)"
    using inv ne s(1) t(1) unfolding central_inv_def central_geometry_def set_map by blast
  then show False using s t by (auto simp: ranges_apart_def slab_geometry_def HEADER_SIZE_def)
qed

section \<open>Frames\<close>

text \<open>What a step of the central pool on class \<open>c\<close> leaves alone.\<close>

lemma central_step_frame:
  assumes inv: "central_inv H m cp" and fr: "pool_frame (cpool cp c) G m m'" and G: "G \<subseteq> set (central_all cp c)"
  shows "x \<in> set (central_all cp d) \<Longrightarrow> x \<notin> G \<Longrightarrow> m' x = m x"
    "(\<And>d g. g \<in> geos cp d \<Longrightarrow> x + HEADER_SIZE \<le> fst g \<or> fst (snd g) \<le> x) \<Longrightarrow> m' x = m x"
proof -
  show "m' x = m x" if x: "x \<in> set (central_all cp d)" "x \<notin> G"
  proof (cases "d = c")
    case True
    then show ?thesis
      using pool_frameD [OF fr x(2)] not_sweepable [OF central_invD(4) [OF inv]] x by (simp add: central_all_pool)
  next
    case False
    then show ?thesis using other_class_frame [OF inv fr G _ x(1)] by blast
  qed
  show "m' x = m x" if out: "\<And>d g. g \<in> geos cp d \<Longrightarrow> x + HEADER_SIZE \<le> fst g \<or> fst (snd g) \<le> x"
  proof (rule pool_frameD [OF fr])
    have out': "x + HEADER_SIZE \<le> sr_start s \<or> sr_end_addr s \<le> x" if "s \<in> set (cp_slabs (cpool cp c))" for s
      using out [of "slab_geometry s" c] that by (simp add: central_geometry_def slab_geometry_def)
    show "x \<notin> G"
    proof
      assume "x \<in> G"
      then have "x \<in> set (pool_all (cpool cp c))" using G by (auto simp: central_all_pool)
      then obtain s where "s \<in> set (cp_slabs (cpool cp c))" "sr_start s \<le> x" "x + HEADER_SIZE \<le> sr_end_addr s"
        by (rule pool_block_range [OF central_invD(4) [OF inv]])
      with out' show False by (fastforce simp: HEADER_SIZE_def)
    qed
    show "x \<notin> sweepable (cpool cp c) G" using out' by (fastforce simp: sweepable_def zone_def)
  qed
qed

lemma central_inv_keep:
  assumes inv: "central_inv H m cp" and same: "\<And>c x. x \<in># central_blocks m cp c \<Longrightarrow> m' x = m x"
  shows "central_inv H m' cp" "central_blocks m' cp c = central_blocks m cp c"
proof -
  have keep: "class_inv (H d) m' (cpool cp d) (cinbox cp d)"
    "class_blocks m' (cpool cp d) (cinbox cp d) = class_blocks m (cpool cp d) (cinbox cp d)" for d
    by (rule class_inv_keep [OF central_invD(1) [OF inv]], rule same [of _ d], simp add: central_blocks_def)+
  show "central_blocks m' cp c = central_blocks m cp c" by (simp add: central_blocks_def keep(2))
  show "central_inv H m' cp" using inv keep(1) unfolding central_inv_def by blast
qed

lemma block_outside:
  assumes "central_inv H m cp" "x \<in> set (central_all cp c)"
  shows "\<exists>g\<in>geos cp c. fst g \<le> x \<and> x + HEADER_SIZE \<le> fst (snd g)"
proof -
  obtain s where "s \<in> set (cp_slabs (cpool cp c))" "sr_start s \<le> x" "x + HEADER_SIZE \<le> sr_end_addr s"
    by (rule pool_block_range [OF central_invD(4) [OF assms(1)] assms(2) [unfolded central_all_pool]])
  then show ?thesis by (auto simp: central_geometry_def slab_geometry_def intro!: bexI [of _ "slab_geometry s"])
qed

lemma rest_frame_mono: "rest_frame cp R m m' \<Longrightarrow> (\<And>c. set_mset (F c) \<subseteq> set_mset (R c)) \<Longrightarrow> rest_frame cp F m m'"
  unfolding rest_frame_def by blast

text \<open>A change confined to blocks \<open>S\<close> of class \<open>c\<close>.\<close>

lemma class_frame:
  assumes inv: "held_inv dbg m cp tc R" and same: "\<And>x. x \<notin> S \<Longrightarrow> m' x = m x"
    and S: "S \<subseteq> set (central_all cp c)"
  shows "d \<noteq> c \<Longrightarrow> x \<in># tc_blocks m tc d \<Longrightarrow> m' x = m x"
    "d \<noteq> c \<Longrightarrow> x \<in># central_blocks m cp d \<Longrightarrow> m' x = m x"
    "(\<And>d. set_mset (F d) \<subseteq> set_mset (R d)) \<Longrightarrow> (\<And>x. x \<in> S \<Longrightarrow> x \<notin># F c) \<Longrightarrow> rest_frame cp F m m'"
proof -
  note C = held_invD(1) [OF inv]
  have other: "m' x = m x" if "d \<noteq> c" "x \<in> set (central_all cp d)" for d x
    by (rule same) (use that S central_all_disjoint [OF C, of x c d] in blast)
  show "d \<noteq> c \<Longrightarrow> x \<in># tc_blocks m tc d \<Longrightarrow> m' x = m x" "d \<noteq> c \<Longrightarrow> x \<in># central_blocks m cp d \<Longrightarrow> m' x = m x"
    using other held_apart(5) [OF inv] by blast+
  show "rest_frame cp F m m'"
    if F: "\<And>d. set_mset (F d) \<subseteq> set_mset (R d)" "\<And>x. x \<in> S \<Longrightarrow> x \<notin># F c"
    unfolding rest_frame_def
  proof (intro allI impI, elim disjE exE)
    fix x d assume x: "x \<in># F d"
    show "m' x = m x"
    proof (cases "d = c")
      case True
      then show ?thesis using same F(2) x by blast
    next
      case False
      then show ?thesis using other [OF False] held_apart(5) [OF inv] F(1) x by blast
    qed
  next
    fix x assume x: "\<forall>c. \<forall>g\<in>geos cp c. x + HEADER_SIZE \<le> fst g \<or> fst (snd g) \<le> x"
    show "m' x = m x"
    proof (rule same)
      show "x \<notin> S"
      proof
        assume "x \<in> S"
        then obtain g where "g \<in> geos cp c" "fst g \<le> x" "x + HEADER_SIZE \<le> fst (snd g)"
          using block_outside [OF C] S by blast
        then show False using x by (force simp: HEADER_SIZE_def)
      qed
    qed
  qed
qed

section \<open>Updates of one class\<close>

lemma tc_keep:
  assumes inv: "tc_inv dbg G m tc" and same: "\<And>c x. x \<in># tc_blocks m tc c \<Longrightarrow> m' x = m x"
  shows "tc_inv dbg G m' tc" "tc_blocks m' tc c = tc_blocks m tc c"
proof -
  have lc: "lc_inv dbg d (tc_cache_id tc) (G d) m' (tclass tc d)" "lc_blocks m' (tclass tc d) = lc_blocks m (tclass tc d)" for d
    by (rule lc_inv_frame [OF tc_invD(3) [OF inv]], rule same [of _ d], simp add: tc_blocks_def)+
  have rr: "rr_inv dbg d m' (tremote tc d)" "rr_blocks m' (tremote tc d) = rr_blocks m (tremote tc d)" for d
    by (rule rr_inv_frame [OF tc_invD(4) [OF inv]], rule same [of _ d], simp add: tc_blocks_def)+
  show "tc_inv dbg G m' tc" using inv lc(1) rr(1) by (simp add: tc_inv_def)
  show "tc_blocks m' tc c = tc_blocks m tc c" by (simp add: tc_blocks_def lc rr)
qed

text \<open>The blocks of class \<open>d\<close> are where they were.\<close>

definition parts_eq :: "heap \<Rightarrow> ThreadCache \<Rightarrow> heap \<Rightarrow> ThreadCache \<Rightarrow> SizeClass \<Rightarrow> bool" where
  "parts_eq m tc m' tc' d \<longleftrightarrow> lc_blocks m' (tclass tc' d) = lc_blocks m (tclass tc d) \<and>
     rr_blocks m' (tremote tc' d) = rr_blocks m (tremote tc d)"

lemma parts_eq_refl [simp]: "parts_eq m tc m tc d"
  by (simp add: parts_eq_def)

lemma parts_eq_trans: "parts_eq m tc m1 tc1 d \<Longrightarrow> parts_eq m1 tc1 m2 tc2 d \<Longrightarrow> parts_eq m tc m2 tc2 d"
  by (simp add: parts_eq_def)

lemma parts_keep:
  assumes inv: "tc_inv dbg G m tc" and same: "\<And>x. x \<in># tc_blocks m tc d \<Longrightarrow> m' x = m x"
    and eq: "tclass tc' d = tclass tc d" "tremote tc' d = tremote tc d"
  shows "parts_eq m tc m' tc' d"
proof -
  have "lc_blocks m' (tclass tc d) = lc_blocks m (tclass tc d)"
    by (rule lc_inv_frame [OF tc_invD(3) [OF inv]], rule same, simp add: tc_blocks_def)
  moreover have "rr_blocks m' (tremote tc d) = rr_blocks m (tremote tc d)"
    by (rule rr_inv_frame [OF tc_invD(4) [OF inv]], rule same, simp add: tc_blocks_def)
  ultimately show ?thesis using eq by (simp add: parts_eq_def)
qed

lemma tc_inv_mono: "tc_inv dbg G m tc \<Longrightarrow> (\<And>c. G c \<subseteq> G' c) \<Longrightarrow> tc_inv dbg G' m tc"
  using lc_inv_mono unfolding tc_inv_def by blast

lemma tc_set_class_inv:
  assumes inv: "tc_inv dbg G m tc" and lc: "lc_inv dbg c (tc_cache_id tc) (G c) m' lc"
    and rr: "\<And>x. x \<in> set (rr_blocks m (tremote tc c)) \<Longrightarrow> m' x = m x"
    and other: "\<And>d x. d \<noteq> c \<Longrightarrow> x \<in># tc_blocks m tc d \<Longrightarrow> m' x = m x"
  defines "tc' \<equiv> tc_set_class tc c lc"
  shows "tc_inv dbg G m' tc'"
    "tc_blocks m' tc' = (tc_blocks m tc)(c := lc_blocks m' lc + mset (rr_blocks m (tremote tc c)))"
proof -
  have cls: "tclass tc' d = (if d = c then lc else tclass tc d)" "tremote tc' d = tremote tc d" for d
    using tc_invD(1) [OF inv, of c] by (auto simp: tc'_def tc_set_class_def nth_list_update)
  have lcd: "lc_inv dbg d (tc_cache_id tc) (G d) m' (tclass tc d)" "lc_blocks m' (tclass tc d) = lc_blocks m (tclass tc d)"
    if "d \<noteq> c" for d
    by (rule lc_inv_frame [OF tc_invD(3) [OF inv]], rule other [OF that], simp add: tc_blocks_def)+
  have rrd: "rr_inv dbg d m' (tremote tc d)" "rr_blocks m' (tremote tc d) = rr_blocks m (tremote tc d)" for d
  proof -
    have "m' x = m x" if "x \<in> set (rr_blocks m (tremote tc d))" for x
      using rr other [of d x] that by (cases "d = c") (auto simp: tc_blocks_def)
    from rr_inv_frame [OF tc_invD(4) [OF inv] this]
    show "rr_inv dbg d m' (tremote tc d)" "rr_blocks m' (tremote tc d) = rr_blocks m (tremote tc d)" by simp_all
  qed
  have "lc_inv dbg d (tc_cache_id tc) (G d) m' (tclass tc' d) \<and> rr_inv dbg d m' (tremote tc' d)" for d
    using lc lcd(1) rrd(1) by (simp add: cls)
  then show "tc_inv dbg G m' tc'" using inv unfolding tc_inv_def by (simp add: tc'_def tc_set_class_def)
  show "tc_blocks m' tc' = (tc_blocks m tc)(c := lc_blocks m' lc + mset (rr_blocks m (tremote tc c)))"
    using lcd(2) by (auto simp: fun_eq_iff tc_blocks_def cls rrd(2))
qed

lemma tc_set_remote_inv:
  assumes inv: "tc_inv dbg G m tc" and rr: "rr_inv dbg c m' rr"
    and lc: "\<And>x. x \<in># lc_blocks m (tclass tc c) \<Longrightarrow> m' x = m x"
    and other: "\<And>d x. d \<noteq> c \<Longrightarrow> x \<in># tc_blocks m tc d \<Longrightarrow> m' x = m x"
  defines "tc' \<equiv> tc_set_remote tc c rr"
  shows "tc_inv dbg G m' tc'"
    "tc_blocks m' tc' = (tc_blocks m tc)(c := lc_blocks m (tclass tc c) + mset (rr_blocks m' rr))"
    "tclass tc' d = tclass tc d" "lc_blocks m' (tclass tc d) = lc_blocks m (tclass tc d)"
proof -
  have cls: "tclass tc' d = tclass tc d" "tremote tc' d = (if d = c then rr else tremote tc d)" for d
    using tc_invD(2) [OF inv, of c] by (auto simp: tc'_def tc_set_remote_def nth_list_update)
  then show "tclass tc' d = tclass tc d" by simp
  have lcd: "lc_inv dbg d (tc_cache_id tc) (G d) m' (tclass tc d)" "lc_blocks m' (tclass tc d) = lc_blocks m (tclass tc d)" for d
  proof -
    have "m' x = m x" if "x \<in># lc_blocks m (tclass tc d)" for x
      using lc other [of d x] that by (cases "d = c") (auto simp: tc_blocks_def)
    from lc_inv_frame [OF tc_invD(3) [OF inv] this]
    show "lc_inv dbg d (tc_cache_id tc) (G d) m' (tclass tc d)" "lc_blocks m' (tclass tc d) = lc_blocks m (tclass tc d)"
      by simp_all
  qed
  then show "lc_blocks m' (tclass tc d) = lc_blocks m (tclass tc d)" by simp
  have rrd: "rr_inv dbg d m' (tremote tc d)" "rr_blocks m' (tremote tc d) = rr_blocks m (tremote tc d)" if "d \<noteq> c" for d
    by (rule rr_inv_frame [OF tc_invD(4) [OF inv]], rule other [OF that], simp add: tc_blocks_def)+
  have "lc_inv dbg d (tc_cache_id tc) (G d) m' (tclass tc' d) \<and> rr_inv dbg d m' (tremote tc' d)" for d
    using lcd(1) rr rrd(1) by (simp add: cls)
  then show "tc_inv dbg G m' tc'" using inv unfolding tc_inv_def by (simp add: tc'_def tc_set_remote_def)
  show "tc_blocks m' tc' = (tc_blocks m tc)(c := lc_blocks m (tclass tc c) + mset (rr_blocks m' rr))"
    using rrd(2) by (auto simp: fun_eq_iff tc_blocks_def cls lcd(2))
qed

text \<open>
  The three kinds of step: on the local cache of a class, on its remote list, and on the
  central pool. Blocks in transit between them belong to the rest.
\<close>

lemma held_class_step:
  assumes inv: "held_inv dbg m cp tc R" and lc: "lc_inv dbg c (tc_cache_id tc) (geos cp c) m' lc"
    and same: "\<And>x. x \<notin> S \<Longrightarrow> m' x = m x"
    and S: "\<And>x. x \<in> S \<Longrightarrow> x \<in># lc_blocks m (tclass tc c) \<or> x \<in># R c"
    and acct: "lc_blocks m' lc + R' c = lc_blocks m (tclass tc c) + R c" and R': "\<And>d. d \<noteq> c \<Longrightarrow> R' d = R d"
  shows "held_inv dbg m' cp (tc_set_class tc c lc) R'"
    "d \<noteq> c \<Longrightarrow> parts_eq m tc m' (tc_set_class tc c lc) d"
    "(\<And>d. set_mset (F d) \<subseteq> set_mset (R d)) \<Longrightarrow> (\<And>x. x \<in> S \<Longrightarrow> x \<notin># F c) \<Longrightarrow> rest_frame cp F m m'"
proof -
  note D = held_invD [OF inv]
  have S': "S \<subseteq> set (central_all cp c)" using S held_apart(5) [OF inv, of _ c] by (auto simp: tc_blocks_def)
  note fr = class_frame [OF inv _ S', of m']
  have other: "m' x = m x" if "d \<noteq> c" "x \<in># tc_blocks m tc d" for d x
    by (rule fr(1) [OF _ that]) (rule same)
  show "rest_frame cp F m m'" if "\<And>d. set_mset (F d) \<subseteq> set_mset (R d)" "\<And>x. x \<in> S \<Longrightarrow> x \<notin># F c"
    by (rule fr(3)) (use that same in auto)
  have rr: "m' x = m x" if "x \<in> set (rr_blocks m (tremote tc c))" for x
  proof (rule same)
    show "x \<notin> S" using S [of x] that held_apart(1) [OF inv, of c] by (auto simp: tc_blocks_def dset_union)
  qed
  show "d \<noteq> c \<Longrightarrow> parts_eq m tc m' (tc_set_class tc c lc) d"
    by (rule parts_keep [OF D(3)]) (use other tc_invD(1) [OF D(3), of c] in \<open>auto simp: tc_set_class_def\<close>)
  have T: "tc_inv dbg (geos cp) m' (tc_set_class tc c lc)"
    "tc_blocks m' (tc_set_class tc c lc) = (tc_blocks m tc)(c := lc_blocks m' lc + mset (rr_blocks m (tremote tc c)))"
    by (rule tc_set_class_inv [OF D(3) lc], erule rr, erule (1) other)+
  have cen: "m' x = m x" if "x \<in># central_blocks m cp d" for x d
  proof (cases "d = c")
    case True
    then have "x \<notin> S" using S [of x] that held_apart(2) [OF inv, of x c] by (auto simp: tc_blocks_def)
    then show ?thesis by (rule same)
  qed (use fr(2) same that in blast)
  have K: "central_inv (idle_header dbg) m' cp" "central_blocks m' cp d = central_blocks m cp d" for d
    by (rule central_inv_keep [OF D(1)], erule cen)+
  have "mset (central_all cp d) = central_blocks m' cp d + tc_blocks m' (tc_set_class tc c lc) d + R' d" for d
  proof (cases "d = c")
    case True
    have "mset (central_all cp c) = central_blocks m cp c + mset (rr_blocks m (tremote tc c)) + (lc_blocks m (tclass tc c) + R c)"
      unfolding D(4) [of c] by (simp add: tc_blocks_def ac_simps)
    then show ?thesis unfolding True K(2) T(2) acct [symmetric] by (simp add: ac_simps)
  next
    case False
    then show ?thesis using D(4) [of d] by (simp add: K(2) T(2) R')
  qed
  then show "held_inv dbg m' cp (tc_set_class tc c lc) R'" unfolding held_inv_def using K(1) D(2) T(1) by blast
qed

lemma held_remote_step:
  assumes inv: "held_inv dbg m cp tc R" and rr: "rr_inv dbg c m' rr"
    and same: "\<And>x. x \<notin> S \<Longrightarrow> m' x = m x"
    and S: "\<And>x. x \<in> S \<Longrightarrow> x \<in> set (rr_blocks m (tremote tc c)) \<or> x \<in># R c"
    and acct: "mset (rr_blocks m' rr) + R' c = mset (rr_blocks m (tremote tc c)) + R c" and R': "\<And>d. d \<noteq> c \<Longrightarrow> R' d = R d"
  shows "held_inv dbg m' cp (tc_set_remote tc c rr) R'"
    "d \<noteq> c \<Longrightarrow> parts_eq m tc m' (tc_set_remote tc c rr) d"
    "(\<And>d. set_mset (F d) \<subseteq> set_mset (R d)) \<Longrightarrow> (\<And>x. x \<in> S \<Longrightarrow> x \<notin># F c) \<Longrightarrow> rest_frame cp F m m'"
    "tclass (tc_set_remote tc c rr) d = tclass tc d" "lc_blocks m' (tclass tc d) = lc_blocks m (tclass tc d)"
proof -
  note D = held_invD [OF inv]
  have S': "S \<subseteq> set (central_all cp c)" using S held_apart(5) [OF inv, of _ c] by (auto simp: tc_blocks_def)
  note fr = class_frame [OF inv _ S', of m']
  have other: "m' x = m x" if "d \<noteq> c" "x \<in># tc_blocks m tc d" for d x
    by (rule fr(1) [OF _ that]) (rule same)
  show "rest_frame cp F m m'" if "\<And>d. set_mset (F d) \<subseteq> set_mset (R d)" "\<And>x. x \<in> S \<Longrightarrow> x \<notin># F c"
    by (rule fr(3)) (use that same in auto)
  have lc: "m' x = m x" if "x \<in># lc_blocks m (tclass tc c)" for x
  proof (rule same)
    show "x \<notin> S" using S [of x] that held_apart(1) [OF inv, of c] by (auto simp: tc_blocks_def dset_union)
  qed
  show "d \<noteq> c \<Longrightarrow> parts_eq m tc m' (tc_set_remote tc c rr) d"
    by (rule parts_keep [OF D(3)]) (use other tc_invD(2) [OF D(3), of c] in \<open>auto simp: tc_set_remote_def\<close>)
  have T: "tc_inv dbg (geos cp) m' (tc_set_remote tc c rr)"
    "tc_blocks m' (tc_set_remote tc c rr) = (tc_blocks m tc)(c := lc_blocks m (tclass tc c) + mset (rr_blocks m' rr))"
    "tclass (tc_set_remote tc c rr) d = tclass tc d" "lc_blocks m' (tclass tc d) = lc_blocks m (tclass tc d)" for d
    by (rule tc_set_remote_inv [OF D(3) rr], erule lc, erule (1) other)+
  show "tclass (tc_set_remote tc c rr) d = tclass tc d" "lc_blocks m' (tclass tc d) = lc_blocks m (tclass tc d)" by (rule T)+
  have cen: "m' x = m x" if "x \<in># central_blocks m cp d" for x d
  proof (cases "d = c")
    case True
    then have "x \<notin> S" using S [of x] that held_apart(2) [OF inv, of x c] by (auto simp: tc_blocks_def)
    then show ?thesis by (rule same)
  qed (use fr(2) same that in blast)
  have K: "central_inv (idle_header dbg) m' cp" "central_blocks m' cp d = central_blocks m cp d" for d
    by (rule central_inv_keep [OF D(1)], erule cen)+
  have "mset (central_all cp d) = central_blocks m' cp d + tc_blocks m' (tc_set_remote tc c rr) d + R' d" for d
  proof (cases "d = c")
    case True
    have "mset (central_all cp c) = central_blocks m cp c + lc_blocks m (tclass tc c) + (mset (rr_blocks m (tremote tc c)) + R c)"
      unfolding D(4) [of c] by (simp add: tc_blocks_def ac_simps)
    then show ?thesis unfolding True K(2) T(2) acct [symmetric] by (simp add: ac_simps)
  next
    case False
    then show ?thesis using D(4) [of d] by (simp add: K(2) T(2) R')
  qed
  then show "held_inv dbg m' cp (tc_set_remote tc c rr) R'" unfolding held_inv_def using K(1) D(2) T(1) by blast
qed

lemma held_central_step:
  assumes inv: "held_inv dbg m cp tc R" and step: "central_step (idle_header dbg) c G m cp m' cp'"
    and G: "\<And>x. x \<in> G \<Longrightarrow> x \<in># central_blocks m cp c \<or> x \<in># R c"
    and acct: "central_blocks m' cp' c + R' c = central_blocks m cp c + R c" and R': "\<And>d. d \<noteq> c \<Longrightarrow> R' d = R d"
  shows "held_inv dbg m' cp' tc R'" "parts_eq m tc m' tc d"
    "(\<And>d. set_mset (F d) \<subseteq> set_mset (R d)) \<Longrightarrow> (\<And>x. x \<in> G \<Longrightarrow> x \<notin># F c) \<Longrightarrow> rest_frame cp F m m'"
proof -
  note D = held_invD [OF inv]
  have st: "central_inv (idle_header dbg) m' cp'" "central_geometry cp' = central_geometry cp"
    "\<And>d. d \<noteq> c \<Longrightarrow> central_blocks m' cp' d = central_blocks m cp d" "pool_frame (cpool cp c) G m m'"
    using step by (auto simp: central_step_def)
  have G': "G \<subseteq> set (central_all cp c)" using G held_apart(5) [OF inv, of _ c] by blast
  note fr = central_step_frame [OF D(1) st(4) G']
  have tcs: "m' x = m x" if x: "x \<in># tc_blocks m tc d" for x d
  proof (rule fr(1))
    show "x \<in> set (central_all cp d)" using held_apart(5) [OF inv, of x d] x by blast
    then have "d = c" if "x \<in> G" using central_all_disjoint [OF D(1), of x d c] G' that by blast
    then show "x \<notin> G" using G [of x] held_apart(3) [OF inv x] by auto
  qed
  have "tc_inv dbg (geos cp) m' tc" "tc_blocks m' tc d = tc_blocks m tc d" for d
    by (rule tc_keep [OF D(3)], erule tcs)+
  note T = this
  have "mset (central_all cp' d) = central_blocks m' cp' d + tc_blocks m' tc d + R' d" for d
  proof (cases "d = c")
    case True
    have "mset (central_all cp c) = tc_blocks m tc c + (central_blocks m cp c + R c)"
      unfolding D(4) [of c] by (simp add: ac_simps)
    then show ?thesis unfolding True T(2) central_all_def st(2) acct [symmetric] by (simp add: ac_simps)
  next
    case False
    then show ?thesis using D(4) [of d] st(2,3) by (simp add: T(2) R' central_all_def)
  qed
  then show "held_inv dbg m' cp' tc R'" unfolding held_inv_def using st(1,2) D(2) T(1) by simp
  show "parts_eq m tc m' tc d" by (rule parts_keep [OF D(3) tcs]) simp_all
  show "rest_frame cp F m m'" if F: "\<And>d. set_mset (F d) \<subseteq> set_mset (R d)" "\<And>x. x \<in> G \<Longrightarrow> x \<notin># F c"
    unfolding rest_frame_def
  proof (intro allI impI, elim disjE exE)
    fix x d assume x: "x \<in># F d"
    show "m' x = m x"
    proof (rule fr(1))
      show xa: "x \<in> set (central_all cp d)" using held_apart(5) [OF inv, of x d] F(1) [of d] x by blast
      have "d = c" if "x \<in> G" using central_all_disjoint [OF D(1) xa] G' that by blast
      then show "x \<notin> G" using F(2) x by auto
    qed
  next
    fix x assume "\<forall>c. \<forall>g\<in>geos cp c. x + HEADER_SIZE \<le> fst g \<or> fst (snd g) \<le> x"
    then show "m' x = m x" by (intro fr(2)) blast
  qed
qed

section \<open>Operations on one class\<close>

text \<open>The fields an operation on blocks leaves alone.\<close>

definition same_cache :: "ThreadCache \<Rightarrow> ThreadCache \<Rightarrow> bool" where
  "same_cache tc tc' \<longleftrightarrow> tc_cache_id tc' = tc_cache_id tc \<and> tc_owner tc' = tc_owner tc \<and> tc_config tc' = tc_config tc"

lemma same_cache_simps [simp]:
  "same_cache tc tc" "same_cache tc (tc_set_class tc c lc)" "same_cache tc (tc_set_remote tc c rr)"
  by (simp_all add: same_cache_def tc_set_class_def tc_set_remote_def)

lemma same_cache_trans: "same_cache a b \<Longrightarrow> same_cache b d \<Longrightarrow> same_cache a d"
  by (simp add: same_cache_def)

lemma tclass_set [simp]:
  "index c < length (tc_classes tc) \<Longrightarrow> tclass (tc_set_class tc c lc) d = (if d = c then lc else tclass tc d)"
  by (auto simp: tc_set_class_def nth_list_update)

text \<open>Taking blocks out of the rest: \<open>R\<close> without \<open>xs\<close> of class \<open>c\<close>, and \<open>R\<close> with them.\<close>

definition less_blocks :: "(SizeClass \<Rightarrow> addr multiset) \<Rightarrow> SizeClass \<Rightarrow> addr list \<Rightarrow> SizeClass \<Rightarrow> addr multiset" where
  "less_blocks R c xs = R(c := R c - mset xs)"

definition more_blocks :: "(SizeClass \<Rightarrow> addr multiset) \<Rightarrow> SizeClass \<Rightarrow> addr list \<Rightarrow> SizeClass \<Rightarrow> addr multiset" where
  "more_blocks R c xs = R(c := R c + mset xs)"

lemma less_more [simp]: "less_blocks (more_blocks R c xs) c xs = R"
  by (auto simp: less_blocks_def more_blocks_def fun_eq_iff)

lemma more_blocks_simps [simp]:
  "d \<noteq> c \<Longrightarrow> more_blocks R c xs d = R d" "more_blocks R c xs c = R c + mset xs"
  "d \<noteq> c \<Longrightarrow> less_blocks R c xs d = R d" "less_blocks R c xs c = R c - mset xs"
  "set_mset (less_blocks R c xs d) \<subseteq> set_mset (R d)"
  by (auto simp: more_blocks_def less_blocks_def dest: in_diffD)

lemma held_blocks_props:
  assumes inv: "held_inv dbg m cp tc R" and x: "x \<in># R c"
  shows "x \<in> geo_blocks (geos cp c)" "x \<notin># lc_blocks m (tclass tc c)" "x \<notin> set (rr_blocks m (tremote tc c))"
    "x \<notin># R c - {#x#}" "0 < x" "x \<le> usize_max" "64 dvd x"
proof -
  have "x \<in> set (central_all cp c)" using held_apart(5) [OF inv] x by blast
  then show xg: "x \<in> geo_blocks (geos cp c)" by (simp add: geo_blocks_central)
  show "x \<notin># lc_blocks m (tclass tc c)" "x \<notin> set (rr_blocks m (tremote tc c))"
    using held_apart(4) [OF inv x] by (simp_all add: tc_blocks_def)
  have "dset (R c)" using held_apart(1) [OF inv, of c] by (simp add: dset_union)
  then have "count (R c) x \<le> 1" by (simp add: dset_def)
  then show "x \<notin># R c - {#x#}" by (simp add: not_in_iff)
  show "0 < x" "x \<le> usize_max" "64 dvd x" using geo_blocks_props [OF held_invD(2) [OF inv] xg] by auto
qed

lemma pop_available_spec:
  assumes inv: "held_inv dbg m cp tc R" and ne: "lc_blocks m (tclass tc c) \<noteq> {#}"
  obtains b reuse tc' where "pop_available_unchecked dbg m tc c = Some (b, reuse, tc')"
    "held_inv dbg m cp tc' (more_blocks R c [b])" "reuse_ok dbg c (tc_cache_id tc) reuse b (m b)" "same_cache tc tc'"
proof -
  note T = tc_invD [OF held_invD(3) [OF inv], of c]
  obtain b reuse lc where p: "lc_pop_block_unchecked dbg m (tclass tc c) = Some (b, reuse, lc)"
    "lc_inv dbg c (tc_cache_id tc) (geos cp c) m lc" "lc_blocks m (tclass tc c) = add_mset b (lc_blocks m lc)"
    "reuse_ok dbg c (tc_cache_id tc) reuse b (m b)" by (rule lc_pop_block_spec [OF T(3) ne])
  have "held_inv dbg m cp (tc_set_class tc c lc) (more_blocks R c [b])"
    by (rule held_class_step(1) [OF inv p(2), of "{}"]) (simp_all add: p(3))
  moreover have "pop_available_unchecked dbg m tc c = Some (b, reuse, tc_set_class tc c lc)"
    using T(1) p(1) by (simp add: pop_available_unchecked_def)
  ultimately show ?thesis using that p(4) by simp
qed

lemma push_and_should_drain_spec:
  assumes inv: "held_inv dbg m cp tc R" and b: "b \<in># R c" "local_header dbg c (tc_cache_id tc) b (m b)"
  obtains m' tc' where
    "push_and_should_drain dbg m tc c b = Some (m', tc', lc_total_len (tclass tc' c) > local_limit (tc_config tc) c)"
    "held_inv dbg m' cp tc' (less_blocks R c [b])" "rest_frame cp R m m'" "same_cache tc tc'"
proof -
  note D = held_invD [OF inv]
  note T = tc_invD [OF D(3), of c]
  note B = held_blocks_props [OF inv b(1)]
  obtain m' lc where p: "lc_push_block dbg m (tclass tc c) b = Some (m', lc)"
    "lc_inv dbg c (tc_cache_id tc) (geos cp c) m' lc" "lc_blocks m' lc = add_mset b (lc_blocks m (tclass tc c))"
    "link_frame (set_mset (lc_blocks m (tclass tc c))) m m'"
    by (rule lc_push_block_spec [OF T(3) D(2) B(1,2) b(2)])
  have same: "m' x = m x" if "x \<notin> set_mset (lc_blocks m (tclass tc c))" for x by (rule link_frame_outside [OF p(4) that])
  have acct: "lc_blocks m' lc + less_blocks R c [b] c = lc_blocks m (tclass tc c) + R c"
    using b(1) unfolding p(3) by (simp add: insert_DiffM2)
  note step = held_class_step [where S = "set_mset (lc_blocks m (tclass tc c))" and R' = "less_blocks R c [b]", OF inv p(2)]
  have "held_inv dbg m' cp (tc_set_class tc c lc) (less_blocks R c [b])"
    by (rule step(1)) (use same acct in simp_all)
  moreover have "rest_frame cp R m m'"
    by (rule step(3)) (use same acct held_apart(3) [OF inv, of _ c] in \<open>auto simp: tc_blocks_def\<close>)
  moreover have "push_and_should_drain dbg m tc c b =
      Some (m', tc_set_class tc c lc, lc_total_len (tclass (tc_set_class tc c lc) c) > local_limit (tc_config tc) c)"
    using T(1,5,6) p(1) by (simp add: push_and_should_drain_def)
  ultimately show ?thesis using that by simp
qed

lemma push_remote_return_spec:
  assumes inv: "held_inv dbg m cp tc R" and b: "b \<in># R c" "idle_header dbg c b (m b)"
  obtains m' tc' where "push_remote_return m tc c b = Some (m', tc')"
    "held_inv dbg m' cp tc' (less_blocks R c [b])" "rest_frame cp (less_blocks R c [b]) m m'" "same_cache tc tc'"
    "should_flush_remote_returns tc' c = Some (rr_pending_len (tremote tc' c) \<ge> drain_count (tc_config tc) c)"
proof -
  note D = held_invD [OF inv]
  note T = tc_invD [OF D(3), of c]
  note B = held_blocks_props [OF inv b(1)]
  let ?rr = "tremote tc c"
  let ?xs = "rr_blocks m ?rr"
  have rep: "fl_rep m (rr_pending ?rr) ?xs" and len: "rr_pending_len ?rr = length ?xs"
    and hx: "\<And>x. x \<in> set ?xs \<Longrightarrow> idle_header dbg c x (m x)" using T(4) by (auto simp: rr_inv_def)
  have "length (b # ?xs) \<le> usize_max"
  proof (rule distinct_addrs_length)
    show "distinct (b # ?xs)" using B(3) fl_rep_distinct [OF rep] by simp
    fix x assume "x \<in> set (b # ?xs)"
    then have "x \<in> geo_blocks (geos cp c)"
      using B(1) held_apart(5) [OF inv, of x c] by (auto simp: tc_blocks_def geo_blocks_central)
    then show "0 < x \<and> x \<le> usize_max" using geo_blocks_props [OF D(2)] by blast
  qed
  then have fit: "length ?xs < usize_max" by simp
  obtain m' l where push: "push_block m (rr_pending ?rr) b = Some (m', l)" "fl_rep m' l (b # ?xs)" "link_frame {b} m m'"
    by (rule push_block_rep [OF rep B(3) _ fit]) (use B(5) in simp)
  define rr where "rr = ?rr\<lparr>rr_pending := l, rr_pending_len := length ?xs + 1\<rparr>"
  have blocks: "rr_blocks m' rr = b # ?xs" using fl_rep_blocks [OF push(2)] by (simp add: rr_blocks_def rr_def)
  have same: "m' x = m x" if "x \<notin> {b}" for x by (rule link_frame_outside [OF push(3) that])
  have rr: "rr_inv dbg c m' rr"
    unfolding rr_inv_def blocks using push(2) link_frame_H [OF push(3) idle_link_insensitive] b(2) hx by (simp add: rr_def)
  have acct: "mset (rr_blocks m' rr) + less_blocks R c [b] c = mset ?xs + R c"
    unfolding blocks using b(1) by (simp add: insert_DiffM2)
  have run: "push_remote_return m tc c b = Some (m', tc_set_remote tc c rr)"
    using T(2) push(1) len fit by (simp add: push_remote_return_def rr_push_block_def checked_add_def rr_def)
  note step = held_remote_step [where S = "{b}" and R' = "less_blocks R c [b]", OF inv rr]
  have held: "held_inv dbg m' cp (tc_set_remote tc c rr) (less_blocks R c [b])"
    by (rule step(1)) (use same acct b(1) in simp_all)
  have "rest_frame cp (less_blocks R c [b]) m m'"
    by (rule step(3)) (use same acct b(1) B(4) in simp_all)
  moreover have "should_flush_remote_returns (tc_set_remote tc c rr) c =
      Some (rr_pending_len (tremote (tc_set_remote tc c rr) c) \<ge> drain_count (tc_config tc) c)"
    using tc_invD(2,5,6) [OF held_invD(3) [OF held], of c]
    by (simp add: should_flush_remote_returns_def tc_set_remote_def)
  ultimately show ?thesis using that run held by simp
qed

section \<open>Exchange with the central pool\<close>

text \<open>
  What \<open>k\<close> exchanges on class \<open>c\<close> guarantee: no block is lost or duplicated, the rest is
  untouched, the registered slabs stay, and only the epoch of the class moves.
\<close>

definition exchanged ::
    "bool \<Rightarrow> SizeClass \<Rightarrow> nat \<Rightarrow> (SizeClass \<Rightarrow> addr multiset) \<Rightarrow> heap \<Rightarrow> CentralPool \<Rightarrow> ThreadCache \<Rightarrow>
     heap \<Rightarrow> CentralPool \<Rightarrow> ThreadCache \<Rightarrow> bool" where
  "exchanged dbg c k R m cp tc m' cp' tc' \<longleftrightarrow> held_inv dbg m' cp' tc' R \<and> rest_frame cp R m m' \<and>
     central_geometry cp' = central_geometry cp \<and> same_cache tc tc' \<and>
     (\<forall>d. cp_epoch (cpool cp' d) \<le> cp_epoch (cpool cp d) + (if d = c then 2 * k else 0)) \<and>
     (\<forall>d. d \<noteq> c \<longrightarrow> parts_eq m tc m' tc' d)"

lemma exchangedI:
  assumes "held_inv dbg m' cp' tc' R" "rest_frame cp R m m'" "central_geometry cp' = central_geometry cp" "same_cache tc tc'"
    "central_step H c G m1 cp m2 cp'" "\<And>d. d \<noteq> c \<Longrightarrow> parts_eq m tc m' tc' d"
  shows "exchanged dbg c 1 R m cp tc m' cp' tc'"
proof -
  have "\<forall>d. cp_epoch (cpool cp' d) \<le> cp_epoch (cpool cp d) + (if d = c then 2 * 1 else 0)"
    using assms(5) unfolding central_step_def mult_1_right by blast
  then show ?thesis using assms(1-4,6) unfolding exchanged_def by blast
qed

lemma exchangedD:
  assumes "exchanged dbg c k R m cp tc m' cp' tc'"
  shows "held_inv dbg m' cp' tc' R" "rest_frame cp R m m'" "central_geometry cp' = central_geometry cp"
    "same_cache tc tc'" "cp_epoch (cpool cp' d) \<le> cp_epoch (cpool cp d) + (if d = c then 2 * k else 0)"
    "d \<noteq> c \<Longrightarrow> parts_eq m tc m' tc' d"
  using assms by (auto simp: exchanged_def)

lemma flush_class_spec:
  assumes inv: "held_inv dbg m cp tc R"
  obtains m' tc' cp' where
    "flush_remote_returns_for_class dbg m tc c cp = Some (m', tc', cp', length (rr_blocks m (tremote tc c)))"
    "exchanged dbg c 1 R m cp tc m' cp' tc'" "rr_blocks m' (tremote tc' c) = []"
    "lc_blocks m' (tclass tc' c) = lc_blocks m (tclass tc c)" "\<And>d. cp_epoch (cpool cp' d) = cp_epoch (cpool cp d)"
proof (cases "rr_blocks m (tremote tc c) = []")
  case True
  note T = tc_invD [OF held_invD(3) [OF inv], of c]
  have "rr_pending_len (tremote tc c) = 0" using T(4) True by (simp add: rr_inv_def)
  then have "flush_remote_returns_for_class dbg m tc c cp = Some (m, tc, cp, 0)"
    using T(2) by (simp add: flush_remote_returns_for_class_def)
  moreover have "exchanged dbg c 1 R m cp tc m cp tc" using inv by (simp add: exchanged_def)
  ultimately show ?thesis using that True by simp
next
  case False
  note D = held_invD [OF inv]
  note T = tc_invD [OF D(3), of c]
  let ?rr = "tremote tc c" and ?xs = "rr_blocks m (tremote tc c)"
  have rep: "fl_rep m (rr_pending ?rr) ?xs" and len: "rr_pending_len ?rr = length ?xs"
    and hx: "\<And>x. x \<in> set ?xs \<Longrightarrow> idle_header dbg c x (m x)" using T(4) by (auto simp: rr_inv_def)
  have pos: "0 < rr_pending_len ?rr" using len False by simp
  from pop_batch_unchecked_rep [OF rep False pos, where dbg = dbg]
  obtain m1 l batch where pop: "pop_batch_unchecked dbg m (rr_pending ?rr) (rr_pending_len ?rr) = Some (m1, l, batch)"
    "batch_rep m1 batch ?xs" "fl_rep m1 l []" "link_frame (set ?xs) m m1" unfolding len by auto
  define rr where "rr = ?rr\<lparr>rr_pending := l, rr_pending_len := 0\<rparr>"
  let ?tc = "tc_set_remote tc c rr" and ?R = "more_blocks R c ?xs"
  have take: "take_all_unchecked dbg m ?rr = Some (m1, rr, batch)"
    using pos pop(1) by (simp add: take_all_unchecked_def rr_def)
  have blocks: "rr_blocks m1 rr = []" using fl_rep_blocks [OF pop(3)] by (simp add: rr_blocks_def rr_def)
  have rr: "rr_inv dbg c m1 rr" unfolding rr_inv_def blocks using pop(3) by (simp add: rr_def)
  have same: "m1 x = m x" if "x \<notin> set ?xs" for x by (rule link_frame_outside [OF pop(4) that])
  note step = held_remote_step [where S = "set ?xs" and R' = ?R, OF inv rr]
  have s1: "held_inv dbg m1 cp ?tc ?R" by (rule step(1)) (use same blocks in simp_all)
  have s2: "parts_eq m tc m1 ?tc d" if "d \<noteq> c" for d by (rule step(2)) (use same blocks that in simp_all)
  have s3: "rest_frame cp R m m1"
    by (rule step(3)) (use same blocks held_apart(3) [OF inv, of _ c] in \<open>auto simp: tc_blocks_def\<close>)
  have s4: "tclass ?tc d = tclass tc d" "lc_blocks m1 (tclass tc d) = lc_blocks m (tclass tc d)" for d
    by (rule step(4,5), use same blocks in simp_all)+
  note D1 = held_invD [OF s1]
  have xs: "set ?xs \<subseteq> set (central_all cp c)" "\<forall>x\<in>set ?xs. x \<notin># central_blocks m1 cp c \<and> idle_header dbg c x (m1 x)"
  proof -
    show "set ?xs \<subseteq> set (central_all cp c)" using held_apart(5) [OF s1, of _ c] by auto
    show "\<forall>x\<in>set ?xs. x \<notin># central_blocks m1 cp c \<and> idle_header dbg c x (m1 x)"
      using held_apart(4) [OF s1, of _ c] hx link_frame_H [OF pop(4) idle_link_insensitive] by auto
  qed
  obtain m2 cp' where p: "publish_remote_batch dbg m1 cp c batch = Some (m2, cp')"
    "central_step (idle_header dbg) c (set ?xs) m1 cp m2 cp'"
    "central_blocks m2 cp' c = central_blocks m1 cp c + mset ?xs" "\<forall>d. cp_epoch (cpool cp' d) = cp_epoch (cpool cp d)"
    by (rule publish_remote_batch_spec [OF D1(1) idle_link_insensitive pop(2) xs])
  note cstep = held_central_step [where R' = R, OF s1 p(2)]
  have c1: "held_inv dbg m2 cp' ?tc R" by (rule cstep(1)) (simp_all add: p(3))
  have c2: "parts_eq m1 ?tc m2 ?tc d" for d by (rule cstep(2)) (simp_all add: p(3))
  have c3: "rest_frame cp R m1 m2"
  proof (rule cstep(3))
    show "x \<notin># R c" if "x \<in> set ?xs" for x using held_apart(3) [OF inv, of x c] that by (simp add: tc_blocks_def)
    show "set_mset (R d) \<subseteq> set_mset (?R d)" for d by (cases "d = c") simp_all
  qed (simp_all add: p(3))
  have geo: "central_geometry cp' = central_geometry cp" using p(2) by (simp add: central_step_def)
  have "exchanged dbg c 1 R m cp tc m2 cp' ?tc"
    unfolding exchanged_def using c1 rest_frame_trans [OF s3 c3] geo p(4) parts_eq_trans [OF s2 c2] by simp
  moreover have "rr_blocks m2 (tremote ?tc c) = []"
    using c2 [of c] blocks T(2) by (simp add: parts_eq_def tc_set_remote_def)
  moreover have "lc_blocks m2 (tclass ?tc c) = lc_blocks m (tclass tc c)"
    using c2 [of c] s4 [of c] by (simp add: parts_eq_def)
  moreover have "flush_remote_returns_for_class dbg m tc c cp = Some (m2, ?tc, cp', length ?xs)"
    using T(2) pos take p(1) batch_rep_len [OF pop(2)] by (simp add: flush_remote_returns_for_class_def Let_def)
  ultimately show ?thesis using that p(4) by blast
qed

lemma more_blocks_Nil [simp]: "more_blocks R c [] = R"
  by (simp add: more_blocks_def)

text \<open>Blocks in transit: not in the cache, not in the central pool, and apart from the others.\<close>

lemma transit:
  assumes inv: "held_inv dbg m cp tc (more_blocks R c xs)" and x: "x \<in> set xs"
  shows "x \<in> set (central_all cp c)" "x \<notin># lc_blocks m (tclass tc c)" "x \<notin># central_blocks m cp c" "x \<notin># R c"
proof -
  have xr: "x \<in># more_blocks R c xs c" using x by simp
  show "x \<in> set (central_all cp c)" using held_apart(5) [OF inv] xr by blast
  show "x \<notin># lc_blocks m (tclass tc c)" "x \<notin># central_blocks m cp c"
    using held_apart(4) [OF inv xr] by (simp_all add: tc_blocks_def)
  show "x \<notin># R c" using held_apart(1) [OF inv, of c] x by (auto simp: dset_union)
qed

lemma rest_more: "set_mset (R d) \<subseteq> set_mset (more_blocks R c xs d)"
  by (cases "d = c") simp_all

text \<open>Receiving the blocks of a refill that are in transit.\<close>

lemma accept_refill:
  assumes inv: "held_inv dbg m cp tc (more_blocks R c xs)"
    and rep: "refill_rep (idle_header dbg c) m (cpool cp c) r xs"
  shows "\<exists>m' lc. (case r of
       Refill_Empty \<Rightarrow> Some (m, tclass tc c)
     | Refill_Batch batch \<Rightarrow> push_shared_batch dbg m (tclass tc c) batch
     | Refill_Slab start bs cap \<Rightarrow> do { lc \<leftarrow> lc_push_owned_slab dbg (tclass tc c) start bs cap; Some (m, lc) }) = Some (m', lc) \<and>
    held_inv dbg m' cp (tc_set_class tc c lc) R \<and> rest_frame cp R m m' \<and>
    (\<forall>d. d \<noteq> c \<longrightarrow> parts_eq m tc m' (tc_set_class tc c lc) d) \<and>
    lc_blocks m' lc = lc_blocks m (tclass tc c) + mset xs"
proof -
  note D = held_invD [OF inv]
  note T = tc_invD [OF D(3), of c]
  note X = transit [OF inv]
  have fin: "held_inv dbg m' cp (tc_set_class tc c lc) R \<and> rest_frame cp R m m' \<and>
      (\<forall>d. d \<noteq> c \<longrightarrow> parts_eq m tc m' (tc_set_class tc c lc) d)"
    if lc: "lc_inv dbg c (tc_cache_id tc) (geos cp c) m' lc" and same: "\<And>x. x \<notin> set xs \<Longrightarrow> m' x = m x"
      and acct: "lc_blocks m' lc = lc_blocks m (tclass tc c) + mset xs" for m' lc
  proof -
    note step = held_class_step [where S = "set xs" and R' = R, OF inv lc]
    have acct': "lc_blocks m' lc + R c = lc_blocks m (tclass tc c) + more_blocks R c xs c"
      unfolding acct by (simp add: ac_simps)
    have "held_inv dbg m' cp (tc_set_class tc c lc) R" by (rule step(1)) (use same acct' in simp_all)
    moreover have "rest_frame cp R m m'" by (rule step(3)) (use same acct' X(4) rest_more in auto)
    moreover have "parts_eq m tc m' (tc_set_class tc c lc) d" if "d \<noteq> c" for d
      by (rule step(2)) (use same acct' that in simp_all)
    ultimately show ?thesis by blast
  qed
  show ?thesis
  proof (cases r)
    case Refill_Empty
    then have xs: "xs = []" using rep by (simp add: refill_rep_def)
    then show ?thesis using fin [OF T(3)] Refill_Empty by simp
  next
    case (Refill_Batch batch)
    then have b: "batch_rep m batch xs" "\<And>x. x \<in> set xs \<Longrightarrow> idle_header dbg c x (m x)" using rep by (auto simp: refill_rep_def)
    obtain m' lc where p: "push_shared_batch dbg m (tclass tc c) batch = Some (m', lc)"
      "lc_inv dbg c (tc_cache_id tc) (geos cp c) m' lc" "lc_blocks m' lc = lc_blocks m (tclass tc c) + mset xs"
      "link_frame (set xs) m m'"
      by (rule push_shared_batch_spec [OF T(3) D(2) b(1)]) (use X b(2) in \<open>auto simp: geo_blocks_central\<close>)
    then show ?thesis using fin [OF p(2) link_frame_outside [OF p(4)] p(3)] Refill_Batch by simp
  next
    case (Refill_Slab start bs cap)
    then have s: "xs = blocks_of start bs cap" "(start, start + bs * cap, bs, cap) \<in> geos cp c"
      using rep by (auto simp: refill_rep_def central_geometry_def)
    obtain lc where p: "lc_push_owned_slab dbg (tclass tc c) start bs cap = Some lc"
      "lc_inv dbg c (tc_cache_id tc) (geos cp c) m lc" "lc_blocks m lc = lc_blocks m (tclass tc c) + mset xs"
      using lc_push_owned_slab_spec [OF T(3) D(2) s(2)] X(2) s(1) by auto
    then show ?thesis using fin [OF p(2) refl p(3)] Refill_Slab by simp
  qed
qed

lemma refill_from_central_spec:
  assumes inv: "held_inv dbg m cp tc R" and os: "madvise_ok sys" and epoch: "epoch_room cp c"
  obtains m' tc' cp' n where "refill_from_central dbg sys m tc c cp = Some (m', tc', cp', n)"
    "exchanged dbg c 1 R m cp tc m' cp' tc'" "size (lc_blocks m' (tclass tc' c)) = size (lc_blocks m (tclass tc c)) + n"
    "n = 0 \<longleftrightarrow> central_blocks m cp c = {#}"
proof -
  note D = held_invD [OF inv]
  note T = tc_invD [OF D(3), of c]
  obtain m1 cp' r xs where t: "take_refill dbg sys m cp c (refill_count (tc_config tc) c) = Some (m1, cp', r)"
    "central_step (idle_header dbg) c (set_mset (central_blocks m cp c)) m cp m1 cp'"
    "refill_rep (idle_header dbg c) m1 (cpool cp' c) r xs" "central_blocks m cp c = central_blocks m1 cp' c + mset xs"
    "xs = [] \<longleftrightarrow> central_blocks m cp c = {#}" "r = Refill_Empty \<longleftrightarrow> xs = []"
    by (rule take_refill_spec [OF D(1) idle_link_insensitive os refill_count_pos epoch])
  note step = held_central_step [where R' = "more_blocks R c xs", OF inv t(2)]
  have s1: "held_inv dbg m1 cp' tc (more_blocks R c xs)" by (rule step(1)) (simp_all add: t(4) ac_simps)
  have s2: "parts_eq m tc m1 tc d" for d by (rule step(2)) (simp_all add: t(4) ac_simps)
  have s3: "rest_frame cp R m m1"
    by (rule step(3)) (use held_apart(2) [OF inv, of _ c] in \<open>auto simp: t(4) ac_simps\<close>)
  have geo: "central_geometry cp' = central_geometry cp" using t(2) by (simp add: central_step_def)
  obtain m2 lc where a: "(case r of
       Refill_Empty \<Rightarrow> Some (m1, tclass tc c)
     | Refill_Batch batch \<Rightarrow> push_shared_batch dbg m1 (tclass tc c) batch
     | Refill_Slab start bs cap \<Rightarrow> do { lc \<leftarrow> lc_push_owned_slab dbg (tclass tc c) start bs cap; Some (m1, lc) }) = Some (m2, lc)"
    "held_inv dbg m2 cp' (tc_set_class tc c lc) R" "rest_frame cp' R m1 m2"
    "\<forall>d. d \<noteq> c \<longrightarrow> parts_eq m1 tc m2 (tc_set_class tc c lc) d" "lc_blocks m2 lc = lc_blocks m1 (tclass tc c) + mset xs"
    using accept_refill [OF s1 t(3)] by blast
  let ?tc = "tc_set_class tc c lc"
  have ex: "exchanged dbg c 1 R m cp tc m2 cp' ?tc"
    by (rule exchangedI [OF a(2) rest_frame_trans [OF s3 a(3) geo] geo _ t(2)])
      (simp, metis a(4) s2 parts_eq_trans)
  have size: "size (lc_blocks m2 (tclass ?tc c)) = size (lc_blocks m (tclass tc c)) + length xs"
    using T(1) a(5) s2 [of c] by (simp add: parts_eq_def)
  have zero: "length xs = 0 \<longleftrightarrow> central_blocks m cp c = {#}" using t(5) by simp
  show ?thesis
  proof (cases r)
    case Refill_Empty
    then have "xs = []" "lc = tclass tc c" "m2 = m1" using t(6) a(1) by auto
    moreover from this have "?tc = tc" by (simp add: tc_set_class_def)
    ultimately show ?thesis using that [of m2 tc cp' 0] Refill_Empty t(1) T(1,5,6) ex size zero
      by (simp add: refill_from_central_def)
  next
    case (Refill_Batch batch)
    then have "batch_len batch = length xs" using t(3) batch_rep_len by (auto simp: refill_rep_def)
    then show ?thesis using that [of m2 ?tc cp' "length xs"] Refill_Batch t(1) T(1,5,6) a(1) ex size zero
      by (simp add: refill_from_central_def)
  next
    case (Refill_Slab start bs cap)
    then have "length xs = cap" using t(3) by (auto simp: refill_rep_def)
    then show ?thesis using that [of m2 ?tc cp' cap] Refill_Slab t(1) T(1,5,6) a(1) ex size zero
      by (auto simp: refill_from_central_def run_elims)
  qed
qed

text \<open>One round of a drain: detach up to \<open>mx\<close> blocks and return them.\<close>

lemma drain_round:
  assumes inv: "held_inv dbg m cp tc R" and os: "madvise_ok sys" and epoch: "epoch_room cp c"
    and ne: "lc_blocks m (tclass tc c) \<noteq> {#}" and mx: "0 < mx"
  obtains m1 lc batch m2 cp' where "lc_pop_batch dbg m (tclass tc c) mx c = Some (m1, lc, batch)"
    "return_batch dbg sys m1 cp c batch = Some (m2, cp')"
    "exchanged dbg c 1 R m cp tc m2 cp' (tc_set_class tc c lc)" "0 < batch_len batch" "batch_len batch \<le> mx"
    "size (lc_blocks m (tclass tc c)) = batch_len batch + size (lc_blocks m2 lc)"
    "rr_blocks m2 (tremote (tc_set_class tc c lc) c) = rr_blocks m (tremote tc c)"
proof -
  note D = held_invD [OF inv]
  note T = tc_invD [OF D(3), of c]
  obtain m1 lc batch xs where p: "lc_pop_batch dbg m (tclass tc c) mx c = Some (m1, lc, batch)"
    and det: "detached dbg c (tc_cache_id tc) (geos cp c) mx m (tclass tc c) m1 lc batch xs"
    by (rule lc_pop_batch_spec [OF T(3) D(2) ne mx])
  have d: "lc_inv dbg c (tc_cache_id tc) (geos cp c) m1 lc" "batch_rep m1 batch xs"
    "lc_blocks m (tclass tc c) = mset xs + lc_blocks m1 lc" "xs \<noteq> []" "length xs \<le> mx"
    "\<And>x. x \<in> set xs \<Longrightarrow> idle_header dbg c x (m1 x)" "\<And>x. x \<notin> set xs \<Longrightarrow> m1 x = m x"
    using det by (auto simp: detached_def)
  let ?tc = "tc_set_class tc c lc" and ?R = "more_blocks R c xs"
  note step = held_class_step [where S = "set xs" and R' = ?R, OF inv d(1)]
  have acct: "lc_blocks m1 lc + ?R c = lc_blocks m (tclass tc c) + R c" unfolding d(3) by (simp add: ac_simps)
  have S: "x \<in># lc_blocks m (tclass tc c) \<or> x \<in># R c" if "x \<in> set xs" for x using that d(3) by simp
  have s1: "held_inv dbg m1 cp ?tc ?R" by (rule step(1)) (use d(7) S acct in auto)
  have s2: "parts_eq m tc m1 ?tc e" if "e \<noteq> c" for e by (rule step(2)) (use d(7) S acct that in auto)
  have s3: "rest_frame cp R m m1" by (rule step(3)) (use d(7) S acct transit(4) [OF s1] in auto)
  have rr: "rr_blocks m1 (tremote tc c) = rr_blocks m (tremote tc c)"
  proof (rule rr_inv_frame(2) [OF T(4)], rule d(7))
    fix x assume "x \<in> set (rr_blocks m (tremote tc c))"
    then show "x \<notin> set xs" using held_apart(1) [OF inv, of c] d(3) by (auto simp: tc_blocks_def dset_union)
  qed
  note D1 = held_invD [OF s1]
  have xs: "set xs \<subseteq> set (central_all cp c)" "\<forall>x\<in>set xs. x \<notin># central_blocks m1 cp c \<and> idle_header dbg c x (m1 x)"
    using transit [OF s1] d(6) by auto
  obtain m2 cp' where r: "return_batch dbg sys m1 cp c batch = Some (m2, cp')"
    "central_step (idle_header dbg) c (set_mset (central_blocks m1 cp c) \<union> set xs) m1 cp m2 cp'"
    "central_blocks m2 cp' c = central_blocks m1 cp c + mset xs"
    by (rule return_batch_spec [OF D1(1) idle_link_insensitive os epoch d(2) xs])
  note cstep = held_central_step [where R' = R, OF s1 r(2)]
  have c1: "held_inv dbg m2 cp' ?tc R" by (rule cstep(1)) (auto simp: r(3) ac_simps)
  have c2: "parts_eq m1 ?tc m2 ?tc e" for e by (rule cstep(2)) (auto simp: r(3) ac_simps)
  have c3: "rest_frame cp R m1 m2"
  proof (rule cstep(3))
    show "x \<notin># R c" if "x \<in> set_mset (central_blocks m1 cp c) \<union> set xs" for x
      using that transit(4) [OF s1] held_apart(2) [OF s1, of x c] by auto
  qed (use rest_more in \<open>auto simp: r(3) ac_simps\<close>)
  have geo: "central_geometry cp' = central_geometry cp" using r(2) by (simp add: central_step_def)
  have "exchanged dbg c 1 R m cp tc m2 cp' ?tc"
    by (rule exchangedI [OF c1 rest_frame_trans [OF s3 c3] geo _ r(2)]) (simp, simp, rule parts_eq_trans [OF s2 c2], assumption)
  moreover have "lc_blocks m2 lc = lc_blocks m1 lc" using c2 [of c] T(1) by (simp add: parts_eq_def)
  moreover have "rr_blocks m2 (tremote ?tc c) = rr_blocks m (tremote tc c)"
    using c2 [of c] rr by (simp add: parts_eq_def tc_set_class_def)
  ultimately show ?thesis using that [OF p r(1)] batch_rep_len [OF d(2)] d(3-5) by simp
qed

lemma drain_excess_spec:
  assumes inv: "held_inv dbg m cp tc R" and os: "madvise_ok sys" and epoch: "epoch_room cp c"
    and over: "lc_total_len (tclass tc c) > local_limit (tc_config tc) c"
  obtains m' tc' cp' n where "drain_excess_to_central dbg sys m tc c cp = Some (m', tc', cp', n)"
    "exchanged dbg c 1 R m cp tc m' cp' tc'" "0 < n" "n \<le> drain_count (tc_config tc) c"
    "lc_total_len (tclass tc c) = n + lc_total_len (tclass tc' c)"
proof -
  note T = tc_invD [OF held_invD(3) [OF inv], of c]
  have len: "lc_total_len (tclass tc c) = size (lc_blocks m (tclass tc c))" by (rule lc_invD(3) [OF T(3)])
  then have ne: "lc_blocks m (tclass tc c) \<noteq> {#}" using over by auto
  obtain m1 lc batch m2 cp' where r: "lc_pop_batch dbg m (tclass tc c) (drain_count (tc_config tc) c) c = Some (m1, lc, batch)"
    "return_batch dbg sys m1 cp c batch = Some (m2, cp')" "exchanged dbg c 1 R m cp tc m2 cp' (tc_set_class tc c lc)"
    "0 < batch_len batch" "batch_len batch \<le> drain_count (tc_config tc) c"
    "size (lc_blocks m (tclass tc c)) = batch_len batch + size (lc_blocks m2 lc)"
    by (rule drain_round [OF inv os epoch ne drain_count_pos])
  have "lc_inv dbg c (tc_cache_id (tc_set_class tc c lc)) (geos cp' c) m2 lc"
    using tc_invD(3) [OF held_invD(3) [OF exchangedD(1) [OF r(3)]], of c] T(1) by simp
  then have "lc_total_len lc = size (lc_blocks m2 lc)" by (rule lc_invD(3))
  moreover have "drain_excess_to_central dbg sys m tc c cp = Some (m2, tc_set_class tc c lc, cp', batch_len batch)"
    using T(1,5,6) over r(1,2) by (simp add: drain_excess_to_central_def should_drain_def Let_def)
  ultimately show ?thesis using that r(3-6) len T(1) by simp
qed

section \<open>Draining a cache\<close>

lemma exchanged_trans:
  assumes a: "exchanged dbg c j R m cp tc m1 cp1 tc1" and b: "exchanged dbg c k R m1 cp1 tc1 m2 cp2 tc2"
  shows "exchanged dbg c (j + k) R m cp tc m2 cp2 tc2"
proof -
  note A = exchangedD [OF a] and B = exchangedD [OF b]
  have "cp_epoch (cpool cp2 d) \<le> cp_epoch (cpool cp d) + (if d = c then 2 * (j + k) else 0)" for d
    using A(5) [of d] B(5) [of d] by (auto split: if_splits)
  moreover have "parts_eq m tc m2 tc2 d" if "d \<noteq> c" for d by (rule parts_eq_trans [OF A(6) B(6)]; rule that)
  ultimately show ?thesis
    unfolding exchanged_def
    using B(1,3) A(3) rest_frame_trans [OF A(2) B(2) A(3)] same_cache_trans [OF A(4) B(4)] by simp
qed

lemma exchanged_mono: "exchanged dbg c j R m cp tc m' cp' tc' \<Longrightarrow> j \<le> k \<Longrightarrow> exchanged dbg c k R m cp tc m' cp' tc'"
proof -
  assume a: "exchanged dbg c j R m cp tc m' cp' tc'" and jk: "j \<le> k"
  have "cp_epoch (cpool cp' d) \<le> cp_epoch (cpool cp d) + (if d = c then 2 * k else 0)" for d
    using exchangedD(5) [OF a, of d] jk by (auto split: if_splits)
  then show "exchanged dbg c k R m cp tc m' cp' tc'" using a unfolding exchanged_def by blast
qed

lemma tc_set_class_twice [simp]: "tc_set_class (tc_set_class tc c lc) c lc' = tc_set_class tc c lc'"
  by (simp add: tc_set_class_def)

lemma tc_set_class_same: "tc_set_class tc c (tclass tc c) = tc"
  by (simp add: tc_set_class_def)

text \<open>The loop returns: every round takes at least one block out of the class.\<close>

lemma drain_class_loop_spec:
  assumes "held_inv dbg m cp tc R" "madvise_ok sys"
    "cp_epoch (cpool cp c) + 2 * size (lc_blocks m (tclass tc c)) \<le> usize_max"
  shows "\<exists>m' lc cp'. drain_class_loop dbg sys c m (tclass tc c) cp = Some (m', lc, cp') \<and>
    exchanged dbg c (size (lc_blocks m (tclass tc c))) R m cp tc m' cp' (tc_set_class tc c lc) \<and>
    lc_blocks m' lc = {#} \<and> rr_blocks m' (tremote (tc_set_class tc c lc) c) = rr_blocks m (tremote tc c)"
  using assms
proof (induction "size (lc_blocks m (tclass tc c))" arbitrary: m cp tc rule: less_induct)
  case less
  note inv = less.prems(1)
  note T = tc_invD [OF held_invD(3) [OF inv], of c]
  have len: "lc_total_len (tclass tc c) = size (lc_blocks m (tclass tc c))" by (rule lc_invD(3) [OF T(3)])
  show ?case
  proof (cases "lc_blocks m (tclass tc c) = {#}")
    case True
    then have "drain_class_loop dbg sys c m (tclass tc c) cp = Some (m, tclass tc c, cp)"
      using len by (subst drain_class_loop.simps) simp
    moreover have "exchanged dbg c 0 R m cp tc m cp tc" using inv by (simp add: exchanged_def)
    ultimately show ?thesis using True tc_set_class_same by auto
  next
    case False
    then have pos: "0 < size (lc_blocks m (tclass tc c))" by (simp add: nonempty_has_size)
    then have room: "epoch_room cp c" using less.prems(3) by (simp add: epoch_room_def)
    obtain m1 lc batch m2 cp' where r: "lc_pop_batch dbg m (tclass tc c) (lc_total_len (tclass tc c)) c = Some (m1, lc, batch)"
      "return_batch dbg sys m1 cp c batch = Some (m2, cp')" "exchanged dbg c 1 R m cp tc m2 cp' (tc_set_class tc c lc)"
      "0 < batch_len batch" "size (lc_blocks m (tclass tc c)) = batch_len batch + size (lc_blocks m2 lc)"
      "rr_blocks m2 (tremote (tc_set_class tc c lc) c) = rr_blocks m (tremote tc c)"
      by (rule drain_round [OF inv less.prems(2) room False]) (use len pos in auto)
    let ?tc = "tc_set_class tc c lc"
    have cls: "tclass ?tc c = lc" using T(1) by simp
    have dec: "size (lc_blocks m2 (tclass ?tc c)) < size (lc_blocks m (tclass tc c))" using r(4,5) cls by simp
    have "cp_epoch (cpool cp' c) \<le> cp_epoch (cpool cp c) + 2" using exchangedD(5) [OF r(3), of c] by simp
    then have ep: "cp_epoch (cpool cp' c) + 2 * size (lc_blocks m2 (tclass ?tc c)) \<le> usize_max"
      using less.prems(3) r(4,5) cls by simp
    obtain m3 lc3 cp3 where i: "drain_class_loop dbg sys c m2 (tclass ?tc c) cp' = Some (m3, lc3, cp3)"
      "exchanged dbg c (size (lc_blocks m2 (tclass ?tc c))) R m2 cp' ?tc m3 cp3 (tc_set_class ?tc c lc3)"
      "lc_blocks m3 lc3 = {#}" "rr_blocks m3 (tremote (tc_set_class ?tc c lc3) c) = rr_blocks m2 (tremote ?tc c)"
      using less.hyps [OF dec exchangedD(1) [OF r(3)] less.prems(2) ep] by blast
    have "drain_class_loop dbg sys c m (tclass tc c) cp = Some (m3, lc3, cp3)"
      using pos len r(1,2) i(1) cls False by (subst drain_class_loop.simps) simp
    moreover have "exchanged dbg c (size (lc_blocks m (tclass tc c))) R m cp tc m3 cp3 (tc_set_class tc c lc3)"
      using exchanged_mono [OF exchanged_trans [OF r(3) i(2)]] dec by simp
    ultimately show ?thesis using i(3,4) r(6) by auto
  qed
qed

text \<open>Exchanges on several classes; \<open>k d\<close> bounds how often class \<open>d\<close> took part.\<close>

definition exchanged_all ::
    "bool \<Rightarrow> (SizeClass \<Rightarrow> nat) \<Rightarrow> (SizeClass \<Rightarrow> addr multiset) \<Rightarrow> heap \<Rightarrow> CentralPool \<Rightarrow> ThreadCache \<Rightarrow>
     heap \<Rightarrow> CentralPool \<Rightarrow> ThreadCache \<Rightarrow> bool" where
  "exchanged_all dbg k R m cp tc m' cp' tc' \<longleftrightarrow> held_inv dbg m' cp' tc' R \<and> rest_frame cp R m m' \<and>
     central_geometry cp' = central_geometry cp \<and> same_cache tc tc' \<and>
     (\<forall>d. cp_epoch (cpool cp' d) \<le> cp_epoch (cpool cp d) + 2 * k d)"

lemma exchanged_all_refl: "held_inv dbg m cp tc R \<Longrightarrow> exchanged_all dbg k R m cp tc m cp tc"
  by (simp add: exchanged_all_def)

lemma exchanged_then:
  assumes a: "exchanged dbg c j R m cp tc m1 cp1 tc1" and b: "exchanged_all dbg k R m1 cp1 tc1 m2 cp2 tc2"
    and l: "\<And>d. (if d = c then j else 0) + k d \<le> l d"
  shows "exchanged_all dbg l R m cp tc m2 cp2 tc2"
proof -
  note A = exchangedD [OF a]
  have B: "held_inv dbg m2 cp2 tc2 R" "rest_frame cp1 R m1 m2" "central_geometry cp2 = central_geometry cp1"
    "same_cache tc1 tc2" "\<And>d. cp_epoch (cpool cp2 d) \<le> cp_epoch (cpool cp1 d) + 2 * k d"
    using b by (auto simp: exchanged_all_def)
  have "cp_epoch (cpool cp2 d) \<le> cp_epoch (cpool cp d) + 2 * l d" for d
    using A(5) [of d] B(5) [of d] l [of d] by (auto split: if_splits)
  then show ?thesis
    unfolding exchanged_all_def
    using B(1,3) A(3) rest_frame_trans [OF A(2) B(2) A(3)] same_cache_trans [OF A(4) B(4)] by simp
qed

lemma flush_classes_spec:
  assumes "held_inv dbg m cp tc R"
  shows "\<exists>m' tc' cp'. flush_classes dbg cs m tc cp = Some (m', tc', cp') \<and>
    exchanged_all dbg (\<lambda>_. 0) R m cp tc m' cp' tc' \<and>
    (\<forall>d. lc_blocks m' (tclass tc' d) = lc_blocks m (tclass tc d)) \<and>
    (\<forall>d. rr_blocks m' (tremote tc' d) = (if d \<in> set cs then [] else rr_blocks m (tremote tc d)))"
  using assms
proof (induction cs arbitrary: m cp tc)
  case Nil
  then show ?case by (simp add: exchanged_all_refl)
next
  case (Cons c cs)
  obtain m1 tc1 cp1 n where f: "flush_remote_returns_for_class dbg m tc c cp = Some (m1, tc1, cp1, n)"
    "exchanged dbg c 1 R m cp tc m1 cp1 tc1" "rr_blocks m1 (tremote tc1 c) = []"
    "lc_blocks m1 (tclass tc1 c) = lc_blocks m (tclass tc c)" "\<And>d. cp_epoch (cpool cp1 d) = cp_epoch (cpool cp d)"
    by (rule flush_class_spec [OF Cons.prems, of c]) blast
  have f0: "exchanged dbg c 0 R m cp tc m1 cp1 tc1" using f(2,5) by (simp add: exchanged_def)
  obtain m' tc' cp' where i: "flush_classes dbg cs m1 tc1 cp1 = Some (m', tc', cp')"
    "exchanged_all dbg (\<lambda>_. 0) R m1 cp1 tc1 m' cp' tc'"
    "\<And>d. lc_blocks m' (tclass tc' d) = lc_blocks m1 (tclass tc1 d)"
    "\<And>d. rr_blocks m' (tremote tc' d) = (if d \<in> set cs then [] else rr_blocks m1 (tremote tc1 d))"
    using Cons.IH [OF exchangedD(1) [OF f(2)]] by blast
  have "exchanged_all dbg (\<lambda>_. 0) R m cp tc m' cp' tc'" by (rule exchanged_then [OF f0 i(2)]) simp
  moreover have "lc_blocks m' (tclass tc' d) = lc_blocks m (tclass tc d)" for d
    using i(3) f(4) exchangedD(6) [OF f(2), of d] by (cases "d = c") (simp_all add: parts_eq_def)
  moreover have "rr_blocks m' (tremote tc' d) = (if d \<in> set (c # cs) then [] else rr_blocks m (tremote tc d))" for d
    using i(4) f(3) exchangedD(6) [OF f(2), of d] by (cases "d = c") (simp_all add: parts_eq_def)
  ultimately show ?case using f(1) i(1) by simp
qed

lemma drain_classes_spec:
  assumes "held_inv dbg m cp tc R" "madvise_ok sys" "distinct cs"
    "\<And>c. c \<in> set cs \<Longrightarrow> cp_epoch (cpool cp c) + 2 * size (lc_blocks m (tclass tc c)) \<le> usize_max"
  shows "\<exists>m' tc' cp'. drain_classes dbg sys cs m tc cp = Some (m', tc', cp') \<and>
    exchanged_all dbg (\<lambda>d. if d \<in> set cs then size (lc_blocks m (tclass tc d)) else 0) R m cp tc m' cp' tc' \<and>
    (\<forall>d. lc_blocks m' (tclass tc' d) = (if d \<in> set cs then {#} else lc_blocks m (tclass tc d))) \<and>
    (\<forall>d. rr_blocks m' (tremote tc' d) = rr_blocks m (tremote tc d))"
  using assms
proof (induction cs arbitrary: m cp tc)
  case Nil
  then show ?case by (simp add: exchanged_all_refl)
next
  case (Cons c cs)
  note T = tc_invD [OF held_invD(3) [OF Cons.prems(1)], of c]
  obtain m1 lc cp1 where l: "drain_class_loop dbg sys c m (tclass tc c) cp = Some (m1, lc, cp1)"
    "exchanged dbg c (size (lc_blocks m (tclass tc c))) R m cp tc m1 cp1 (tc_set_class tc c lc)"
    "lc_blocks m1 lc = {#}" "rr_blocks m1 (tremote (tc_set_class tc c lc) c) = rr_blocks m (tremote tc c)"
    using drain_class_loop_spec [OF Cons.prems(1,2), of c] Cons.prems(4) [of c] by (metis list.set_intros(1))
  let ?tc = "tc_set_class tc c lc"
  note E = exchangedD [OF l(2)]
  have parts: "parts_eq m tc m1 ?tc d" if "d \<noteq> c" for d by (rule E(6) [OF that])
  have ep: "cp_epoch (cpool cp1 d) + 2 * size (lc_blocks m1 (tclass ?tc d)) \<le> usize_max" if d: "d \<in> set cs" for d
  proof -
    have ne: "d \<noteq> c" using d Cons.prems(3) by auto
    have "lc_blocks m1 (tclass ?tc d) = lc_blocks m (tclass tc d)" using parts [OF ne] by (simp add: parts_eq_def)
    then show ?thesis using E(5) [of d] ne Cons.prems(4) [of d] d by (simp only: if_False) simp
  qed
  have dist: "distinct cs" using Cons.prems(3) by simp
  obtain m' tc' cp' where i: "drain_classes dbg sys cs m1 ?tc cp1 = Some (m', tc', cp')"
    "exchanged_all dbg (\<lambda>d. if d \<in> set cs then size (lc_blocks m1 (tclass ?tc d)) else 0) R m1 cp1 ?tc m' cp' tc'"
    "\<And>d. lc_blocks m' (tclass tc' d) = (if d \<in> set cs then {#} else lc_blocks m1 (tclass ?tc d))"
    "\<And>d. rr_blocks m' (tremote tc' d) = rr_blocks m1 (tremote ?tc d)"
    using Cons.IH [OF E(1) Cons.prems(2) dist ep] by blast
  have cls: "tclass ?tc c = lc" using T(1) by simp
  have "exchanged_all dbg (\<lambda>d. if d \<in> set (c # cs) then size (lc_blocks m (tclass tc d)) else 0) R m cp tc m' cp' tc'"
  proof (rule exchanged_then [OF l(2) i(2)])
    show "(if d = c then size (lc_blocks m (tclass tc c)) else 0) +
        (if d \<in> set cs then size (lc_blocks m1 (tclass ?tc d)) else 0)
        \<le> (if d \<in> set (c # cs) then size (lc_blocks m (tclass tc d)) else 0)" for d
      using Cons.prems(3) parts [of d] by (auto simp: parts_eq_def)
  qed
  moreover have "lc_blocks m' (tclass tc' d) = (if d \<in> set (c # cs) then {#} else lc_blocks m (tclass tc d))" for d
    using i(3) [of d] l(3) cls parts [of d] by (cases "d = c") (auto simp: parts_eq_def)
  moreover have "rr_blocks m' (tremote tc' d) = rr_blocks m (tremote tc d)" for d
    using i(4) [of d] l(4) parts [of d] by (cases "d = c") (auto simp: parts_eq_def)
  ultimately show ?case using T(1) l(1) i(1) by simp
qed

text \<open>Draining always returns and leaves the cache empty.\<close>

lemma drain_all_spec:
  assumes inv: "held_inv dbg m cp tc R" and os: "madvise_ok sys"
    and epoch: "\<And>c. cp_epoch (cpool cp c) + 2 * size (lc_blocks m (tclass tc c)) \<le> usize_max"
  obtains m' tc' cp' where "drain_all_to_central dbg sys m tc cp = Some (m', tc', cp')"
    "exchanged_all dbg (\<lambda>d. size (lc_blocks m (tclass tc d))) R m cp tc m' cp' tc'"
    "\<forall>c. tc_blocks m' tc' c = {#}" "ThreadCache_is_empty tc'"
proof -
  obtain m1 tc1 cp1 where f: "flush_classes dbg ALL_classes m tc cp = Some (m1, tc1, cp1)"
    "exchanged_all dbg (\<lambda>_. 0) R m cp tc m1 cp1 tc1" "\<And>d. lc_blocks m1 (tclass tc1 d) = lc_blocks m (tclass tc d)"
    "\<And>d. rr_blocks m1 (tremote tc1 d) = []"
    using flush_classes_spec [OF inv, of ALL_classes] by auto
  have F: "held_inv dbg m1 cp1 tc1 R" "rest_frame cp R m m1" "central_geometry cp1 = central_geometry cp"
    "same_cache tc tc1" "\<And>d. cp_epoch (cpool cp1 d) \<le> cp_epoch (cpool cp d)"
    using f(2) by (auto simp: exchanged_all_def)
  have ep: "cp_epoch (cpool cp1 c) + 2 * size (lc_blocks m1 (tclass tc1 c)) \<le> usize_max" for c
    using F(5) [of c] epoch [of c] f(3) [of c] by simp
  obtain m2 tc2 cp2 where d: "drain_classes dbg sys ALL_classes m1 tc1 cp1 = Some (m2, tc2, cp2)"
    "exchanged_all dbg (\<lambda>d. size (lc_blocks m1 (tclass tc1 d))) R m1 cp1 tc1 m2 cp2 tc2"
    "\<And>d. lc_blocks m2 (tclass tc2 d) = {#}" "\<And>d. rr_blocks m2 (tremote tc2 d) = rr_blocks m1 (tremote tc1 d)"
    using drain_classes_spec [OF F(1) os distinct_ALL_classes ep] by auto
  have G: "held_inv dbg m2 cp2 tc2 R" "rest_frame cp1 R m1 m2" "central_geometry cp2 = central_geometry cp1"
    "same_cache tc1 tc2" "\<And>d. cp_epoch (cpool cp2 d) \<le> cp_epoch (cpool cp1 d) + 2 * size (lc_blocks m1 (tclass tc1 d))"
    using d(2) by (auto simp: exchanged_all_def)
  have run: "drain_all_to_central dbg sys m tc cp = Some (m2, tc2, cp2)"
    using f(1) d(1) by (simp add: drain_all_to_central_def flush_all_remote_returns_def)
  have "cp_epoch (cpool cp2 e) \<le> cp_epoch (cpool cp e) + 2 * size (lc_blocks m (tclass tc e))" for e
    using F(5) [of e] G(5) [of e] f(3) [of e] by simp
  then have ex: "exchanged_all dbg (\<lambda>d. size (lc_blocks m (tclass tc d))) R m cp tc m2 cp2 tc2"
    unfolding exchanged_all_def using G(1,3) F(3) rest_frame_trans [OF F(2) G(2) F(3)] same_cache_trans [OF F(4) G(4)] by simp
  have empty: "tc_blocks m2 tc2 c = {#}" for c using d(3,4) f(4) by (simp add: tc_blocks_def)
  note T = tc_invD [OF held_invD(3) [OF G(1)]]
  have "lc_total_len (tclass tc2 c) = 0" "rr_pending_len (tremote tc2 c) = 0" for c
    using lc_invD(3) [OF T(3) [of c]] T(4) [of c] d(3,4) [of c] f(4) [of c] by (simp_all add: rr_inv_def)
  then have "ThreadCache_is_empty tc2"
    using held_invD(3) [OF G(1)] index_ALL_classes
    unfolding ThreadCache_is_empty_def list_all_length tc_inv_def by metis
  then show ?thesis using that run ex empty by blast
qed

end
