(* ===== verification/Allocator_Inv.thy ===== *)
theory Allocator_Inv
  imports Allocator Thread_Cache_Ops
begin

text \<open>
  The invariant of an allocator (\<^verbatim>\<open>src/src/allocator.rs\<close>) seen from one thread cache, and
  what keeps it. Slabs and large blocks are
  disjoint regions of the part of the arena that has been handed out; every block of a slab
  is in the central pool, in the cache, or in the rest \<open>R\<close>.
\<close>

section \<open>Regions of large blocks\<close>

definition apart :: "addr \<times> usize \<Rightarrow> addr \<times> usize \<Rightarrow> bool" where
  "apart r s \<longleftrightarrow> fst r + snd r \<le> fst s \<or> fst s + snd s \<le> fst r"

definition pairwise_apart :: "(addr \<times> usize) multiset \<Rightarrow> bool" where
  "pairwise_apart M \<longleftrightarrow> (\<forall>r s. {#r, s#} \<subseteq># M \<longrightarrow> apart r s)"

lemma apart_sym: "apart r s \<longleftrightarrow> apart s r"
  by (auto simp: apart_def)

lemma pairwise_apart_empty [simp]: "pairwise_apart {#}"
  by (simp add: pairwise_apart_def)

lemma pairwise_apart_add:
  "pairwise_apart (add_mset r M) \<longleftrightarrow> pairwise_apart M \<and> (\<forall>s. s \<in># M \<longrightarrow> apart r s)"
proof
  assume a: "pairwise_apart (add_mset r M)"
  have "apart x y" if "{#x, y#} \<subseteq># M" for x y
  proof -
    have "{#x, y#} \<subseteq># add_mset r M" by (rule subset_mset.order_trans [OF that]) simp
    then show ?thesis using a unfolding pairwise_apart_def by blast
  qed
  moreover have "apart r s" if "s \<in># M" for s
  proof -
    have "{#r, s#} \<subseteq># add_mset r M" using that by simp
    then show ?thesis using a unfolding pairwise_apart_def by blast
  qed
  ultimately show "pairwise_apart M \<and> (\<forall>s. s \<in># M \<longrightarrow> apart r s)" unfolding pairwise_apart_def by blast
next
  assume a: "pairwise_apart M \<and> (\<forall>s. s \<in># M \<longrightarrow> apart r s)"
  show "pairwise_apart (add_mset r M)" unfolding pairwise_apart_def
  proof (intro allI impI)
    fix x y assume xy: "{#x, y#} \<subseteq># add_mset r M"
    show "apart x y"
    proof (cases "x = r")
      case True
      then have "y \<in># M" using xy by simp
      then show ?thesis using a True by blast
    next
      case x: False
      show ?thesis
      proof (cases "y = r")
        case True
        then have "{#y, x#} \<subseteq># add_mset y M" using xy by (simp add: add_mset_commute)
        then have "x \<in># M" by simp
        then show ?thesis using a True apart_sym by blast
      next
        case False
        have "count {#x, y#} z \<le> count M z" for z
          using mset_subset_eq_count [OF xy, of z] x False by (auto split: if_splits)
        then have "{#x, y#} \<subseteq># M" by (rule mset_subset_eqI)
        then show ?thesis using a unfolding pairwise_apart_def by blast
      qed
    qed
  qed
qed

definition large_regions :: "LargeObjectState \<Rightarrow> (addr \<times> usize) multiset" where
  "large_regions st = image_mset (\<lambda>(p, r). (rec_block_addr r, rec_block_size r)) (mset (live st)) +
     image_mset (\<lambda>b. (free_block_addr b, free_block_size b)) (large_free st)"

lemma live_region: "(p, r) \<in> set (live st) \<Longrightarrow> (rec_block_addr r, rec_block_size r) \<in># large_regions st"
  by (force simp: large_regions_def)

definition large_header :: "usize \<Rightarrow> usize \<Rightarrow> AllocationHeader \<Rightarrow> bool" where
  "large_header n u h \<longleftrightarrow> magic h = HEADER_MAGIC \<and> kind h = Large_tag \<and> class_index h = LARGE_CLASS_SENTINEL \<and>
     requested_size h = word_of_nat n \<and> usable_size h = word_of_nat u \<and>
     tail_padding h = replicate HEADER_TAIL_PADDING_SIZE 0"

text \<open>What the registry records of a live allocation agrees with the header of its block.\<close>

definition live_large_ok :: "heap \<Rightarrow> addr \<Rightarrow> LargeAllocationRecord \<Rightarrow> bool" where
  "live_large_ok m p r \<longleftrightarrow> p = rec_block_addr r + HEADER_SIZE \<and>
     rec_block_size r = rec_usable_size r + HEADER_SIZE \<and> max_small_request < rec_requested_size r \<and>
     rec_requested_size r \<le> rec_usable_size r \<and>
     large_header (rec_requested_size r) (rec_usable_size r) (m (rec_block_addr r))"

section \<open>The invariant\<close>

definition al_shape :: "Allocator \<Rightarrow> bool" where
  "al_shape al \<longleftrightarrow> arena_wf (al_arena al) \<and> arena_alignment (al_arena al) = alignment (al_config al) \<and>
     HEADER_ALIGNMENT \<le> alignment (al_config al)"

abbreviation used_end :: "Allocator \<Rightarrow> addr" where
  "used_end al \<equiv> arena_base (al_arena al) + arena_next (al_arena al)"

definition slabs_in :: "Allocator \<Rightarrow> bool" where
  "slabs_in al \<longleftrightarrow> (\<forall>c. \<forall>g\<in>geos (al_central al) c. arena_base (al_arena al) \<le> fst g \<and>
     fst (snd g) \<le> used_end al \<and> alignment (al_config al) dvd fst g \<and>
     fst (snd (snd g)) = class_block_size (al_config al) c)"

definition region_ok :: "Allocator \<Rightarrow> addr \<times> usize \<Rightarrow> bool" where
  "region_ok al reg \<longleftrightarrow> arena_base (al_arena al) \<le> fst reg \<and> fst reg + snd reg \<le> used_end al \<and>
     alignment (al_config al) dvd fst reg \<and> HEADER_SIZE < snd reg \<and>
     (\<forall>c. \<forall>g\<in>geos (al_central al) c. fst reg + snd reg \<le> fst g \<or> fst (snd g) \<le> fst reg)"

definition regions_ok :: "Allocator \<Rightarrow> (addr \<times> usize) multiset \<Rightarrow> bool" where
  "regions_ok al M \<longleftrightarrow> (\<forall>reg\<in>#M. region_ok al reg) \<and> pairwise_apart M \<and>
     sum_mset (image_mset snd M) \<le> arena_next (al_arena al)"

definition large_ok :: "heap \<Rightarrow> Allocator \<Rightarrow> bool" where
  "large_ok m al \<longleftrightarrow> large_inv (al_large al) \<and>
     (\<forall>p r. (p, r) \<in> set (live (al_large al)) \<longrightarrow> live_large_ok m p r) \<and>
     (\<forall>reg\<in>#large_regions (al_large al). snd reg < 2 ^ 32 + HEADER_SIZE) \<and>
     regions_ok al (large_regions (al_large al))"

definition alloc_inv :: "bool \<Rightarrow> heap \<Rightarrow> Allocator \<Rightarrow> ThreadCache \<Rightarrow> (SizeClass \<Rightarrow> addr multiset) \<Rightarrow> bool" where
  "alloc_inv dbg m al tc R \<longleftrightarrow> al_shape al \<and> slabs_in al \<and> large_ok m al \<and> held_inv dbg m (al_central al) tc R"

lemma alloc_invD:
  assumes "alloc_inv dbg m al tc R"
  shows "al_shape al" "slabs_in al" "large_ok m al" "held_inv dbg m (al_central al) tc R"
    "arena_wf (al_arena al)" "64 dvd alignment (al_config al)" "0 < alignment (al_config al)"
proof -
  show s: "al_shape al" "slabs_in al" "large_ok m al" "held_inv dbg m (al_central al) tc R"
    using assms by (auto simp: alloc_inv_def)
  show wf: "arena_wf (al_arena al)" using s(1) by (simp add: al_shape_def)
  have p: "is_power_of_two (alignment (al_config al))" using s(1) unfolding al_shape_def arena_wf_def by metis
  then show "0 < alignment (al_config al)" by (rule is_power_of_two_pos)
  have "is_power_of_two 64" unfolding is_power_of_two_iff by (rule exI [of _ 6]) simp
  then show "64 dvd alignment (al_config al)"
    by (rule power_of_two_dvd_le [OF _ p]) (use s(1) in \<open>simp add: al_shape_def HEADER_ALIGNMENT_def\<close>)
qed

text \<open>A header outside every slab, and those of the blocks in the rest, survive a step on small blocks.\<close>

definition al_grows :: "Allocator \<Rightarrow> Allocator \<Rightarrow> bool" where
  "al_grows al al' \<longleftrightarrow> al_id al' = al_id al \<and> al_config al' = al_config al \<and> al_large al' = al_large al \<and>
     arena_base (al_arena al') = arena_base (al_arena al) \<and> arena_len (al_arena al') = arena_len (al_arena al) \<and>
     arena_next (al_arena al) \<le> arena_next (al_arena al') \<and>
     (\<forall>c. geos (al_central al) c \<subseteq> geos (al_central al') c \<and>
        (\<forall>g\<in>geos (al_central al') c. g \<in> geos (al_central al) c \<or> used_end al \<le> fst g))"

lemma al_grows_refl [simp]: "al_grows al al"
  by (simp add: al_grows_def)

lemma al_grows_central: "central_geometry cp' = central_geometry (al_central al) \<Longrightarrow> al_grows al (al\<lparr>al_central := cp'\<rparr>)"
  by (simp add: al_grows_def)

lemma al_grows_trans: "al_grows a b \<Longrightarrow> al_grows b d \<Longrightarrow> al_grows a d"
  unfolding al_grows_def by (simp, intro conjI allI ballI) (blast, meson add_left_mono order_trans)

lemma rest_frame_grow:
  "rest_frame (al_central a) F m m1 \<Longrightarrow> rest_frame (al_central b) F m1 m2 \<Longrightarrow> al_grows a b \<Longrightarrow> rest_frame (al_central b) F m m2"
  unfolding rest_frame_def al_grows_def by (metis subsetD)

text \<open>The large blocks survive a step that keeps their regions outside the slabs.\<close>

lemma large_ok_regions:
  assumes ok: "large_ok m al" and fr: "rest_frame (al_central al') F m m'"
    and eq: "al_large al' = al_large al" "arena_next (al_arena al) \<le> arena_next (al_arena al')"
    and reg: "\<And>r. r \<in># large_regions (al_large al) \<Longrightarrow> region_ok al' r"
  shows "large_ok m' al'"
proof -
  have regs: "regions_ok al (large_regions (al_large al))" using ok by (simp add: large_ok_def)
  have "live_large_ok m' p r" if pr: "(p, r) \<in> set (live (al_large al))" for p r
  proof -
    have old: "live_large_ok m p r" using ok pr unfolding large_ok_def by blast
    have "region_ok al' (rec_block_addr r, rec_block_size r)" by (rule reg [OF live_region [OF pr]])
    then have "\<forall>c. \<forall>g\<in>geos (al_central al') c. rec_block_addr r + HEADER_SIZE \<le> fst g \<or> fst (snd g) \<le> rec_block_addr r"
      unfolding region_ok_def by fastforce
    then have "m' (rec_block_addr r) = m (rec_block_addr r)" using fr unfolding rest_frame_def by blast
    then show ?thesis using old by (simp add: live_large_ok_def)
  qed
  moreover have "regions_ok al' (large_regions (al_large al))"
    using regs reg eq(2) unfolding regions_ok_def by (meson order_trans)
  ultimately show ?thesis using ok unfolding large_ok_def eq(1) by blast
qed

lemma region_ok_grows:
  assumes gr: "al_grows al al'" and r: "region_ok al r"
  shows "region_ok al' r"
proof -
  have eq: "al_config al' = al_config al" "arena_base (al_arena al') = arena_base (al_arena al)"
    "arena_next (al_arena al) \<le> arena_next (al_arena al')" using gr by (auto simp: al_grows_def)
  have "fst r + snd r \<le> fst g \<or> fst (snd g) \<le> fst r" if g: "g \<in> geos (al_central al') c" for c g
  proof -
    have "g \<in> geos (al_central al) c \<or> used_end al \<le> fst g" using gr g unfolding al_grows_def by blast
    moreover have "fst r + snd r \<le> used_end al" using r by (simp add: region_ok_def)
    ultimately show ?thesis using r unfolding region_ok_def by (meson order_trans)
  qed
  then show ?thesis using r eq by (auto simp: region_ok_def)
qed

lemma large_ok_frame:
  assumes ok: "large_ok m al" and fr: "rest_frame (al_central al') F m m'" and gr: "al_grows al al'"
  shows "large_ok m' al'"
proof (rule large_ok_regions [OF ok fr])
  show "region_ok al' r" if "r \<in># large_regions (al_large al)" for r
    using ok that region_ok_grows [OF gr] unfolding large_ok_def regions_ok_def by blast
qed (use gr in \<open>simp_all add: al_grows_def\<close>)

lemma alloc_inv_update:
  assumes inv: "alloc_inv dbg m al tc R" and held: "held_inv dbg m' cp' tc' R'"
    and fr: "rest_frame (al_central al) F m m'" and geo: "central_geometry cp' = central_geometry (al_central al)"
  shows "alloc_inv dbg m' (al\<lparr>al_central := cp'\<rparr>) tc' R'"
proof -
  have "rest_frame (al_central (al\<lparr>al_central := cp'\<rparr>)) F m m'" using fr geo by (simp add: rest_frame_def)
  from large_ok_frame [OF alloc_invD(3) [OF inv] this al_grows_central [OF geo]]
  show ?thesis using inv held geo unfolding alloc_inv_def al_shape_def slabs_in_def by simp
qed

lemma alloc_inv_local:
  assumes inv: "alloc_inv dbg m al tc R" and held: "held_inv dbg m' (al_central al) tc' R'"
    and fr: "rest_frame (al_central al) F m m'"
  shows "alloc_inv dbg m' al tc' R'"
  using alloc_inv_update [OF inv held fr refl] by simp

section \<open>Headers of allocated blocks\<close>

definition live_header :: "bool \<Rightarrow> SizeClass \<Rightarrow> usize \<Rightarrow> u32 \<Rightarrow> AllocationHeader \<Rightarrow> bool" where
  "live_header dbg c n ow h \<longleftrightarrow> small_header c h \<and> requested_size h = word_of_nat n \<and> owner_cache_id h = ow \<and>
     (dbg \<longrightarrow> small_free_marker h = 0)"

lemma prepare_header_spec:
  assumes ok: "reuse_ok dbg c ow reuse b (m b)" and n: "0 < n" "n \<le> payload_size c" and b: "64 dvd b"
  obtains m' where "prepare_header dbg (clear_small_free_metadata dbg m b) b reuse c n ow = Some m'"
    "live_header dbg c n ow (m' b)" "\<And>x. x \<noteq> b \<Longrightarrow> m' x = m x"
proof -
  let ?m = "clear_small_free_metadata dbg m b"
  note R = request_u32 [OF n(2)]
  have al: "b mod HEADER_ALIGNMENT = 0" using b by (simp add: HEADER_ALIGNMENT_def dvd_eq_mod_eq_0)
  have out: "?m x = m x" if "x \<noteq> b" for x
    using that by (simp add: clear_small_free_metadata_def clear_small_block_freed_def)
  have small: "small_header c (?m b) = small_header c (m b)" "dbg \<longrightarrow> small_free_marker (?m b) = 0"
    "owner_cache_id (?m b) = owner_cache_id (m b)"
    by (simp_all add: clear_small_free_metadata_def clear_small_block_freed_def)
  have fits: "word_of_nat n \<le> usable_size (?m b)" if "small_header c (m b)"
    using that R(4) small(1) by (simp add: small_header_def)
  show ?thesis
  proof (cases reuse)
    case HotReuseRequestedOnly
    then have l: "small_header c (m b)" "owner_cache_id (m b) = ow"
      using ok by (auto simp: reuse_ok_def local_header_def idle_header_def)
    let ?m' = "?m(b := (?m b)\<lparr>requested_size := word_of_nat n\<rparr>)"
    have "prepare_header dbg ?m b reuse c n ow = Some ?m'"
      using HotReuseRequestedOnly n al R(1) fits [OF l(1)] by (simp add: prepare_header_def refresh_small_requested_size_unchecked_def)
    then show ?thesis by (rule that) (use l small out in \<open>auto simp: live_header_def\<close>)
  next
    case NeedsOwnerAndRequestedSizeRefresh
    then have l: "small_header c (m b)" using ok by (auto simp: reuse_ok_def idle_header_def)
    let ?m' = "?m(b := (?m b)\<lparr>requested_size := word_of_nat n, owner_cache_id := ow\<rparr>)"
    have "prepare_header dbg ?m b reuse c n ow = Some ?m'"
      using NeedsOwnerAndRequestedSizeRefresh n al R(1) fits [OF l]
      by (simp add: prepare_header_def refresh_small_requested_size_and_owner_unchecked_def)
    then show ?thesis by (rule that) (use l small out in \<open>auto simp: live_header_def\<close>)
  next
    case NeedsHeaderRewrite
    let ?m' = "write_encoded_fields ?m b Small_tag (size_class_to_index c) (word_of_nat n) (word_of_nat (payload_size c)) ow"
    have "prepare_header dbg ?m b reuse c n ow = Some ?m'"
      using NeedsHeaderRewrite n al R(1) by (simp add: prepare_header_def write_small_to_block_unchecked_def header_defs)
    moreover have "live_header dbg c n ow (?m' b)"
      using small_header_write_encoded [of c ?m b "word_of_nat n" ow] by (simp add: live_header_def write_encoded_fields_def)
    ultimately show ?thesis by (rule that) (simp add: write_encoded_fields_def out)
  qed
qed

text \<open>Writing the header of a block of the rest does not disturb what is held.\<close>

lemma held_write:
  assumes inv: "held_inv dbg m cp tc R" and b: "b \<in># R c" and same: "\<And>x. x \<noteq> b \<Longrightarrow> m' x = m x"
  shows "held_inv dbg m' cp tc R" "(\<And>d. set_mset (F d) \<subseteq> set_mset (R d)) \<Longrightarrow> b \<notin># F c \<Longrightarrow> rest_frame cp F m m'"
proof -
  note D = held_invD [OF inv]
  have ball: "b \<in> set (central_all cp c)" using held_apart(5) [OF inv] b by blast
  have same': "m' x = m x" if "x \<notin> {b}" for x using same that by simp
  have cen: "m' x = m x" if "x \<in># central_blocks m cp d" for x d
  proof (rule same)
    have "x \<in> set (central_all cp d)" using held_apart(5) [OF inv] that by blast
    then have "d = c" if "x = b" using central_all_disjoint [OF D(1)] ball that by blast
    then show "x \<noteq> b" using held_apart(4) [OF inv b] that by blast
  qed
  have tcs: "m' x = m x" if "x \<in># tc_blocks m tc d" for x d
  proof (rule same)
    have "x \<in> set (central_all cp d)" using held_apart(5) [OF inv] that by blast
    then have "d = c" if "x = b" using central_all_disjoint [OF D(1)] ball that by blast
    then show "x \<noteq> b" using held_apart(4) [OF inv b] that by blast
  qed
  have K: "central_inv (idle_header dbg) m' cp" "central_blocks m' cp d = central_blocks m cp d" for d
    by (rule central_inv_keep [OF D(1)], erule cen)+
  have T: "tc_inv dbg (geos cp) m' tc" "tc_blocks m' tc d = tc_blocks m tc d" for d
    by (rule tc_keep [OF D(3)], erule tcs)+
  show "held_inv dbg m' cp tc R" using inv K T by (simp add: held_inv_def)
  show "rest_frame cp F m m'" if "\<And>d. set_mset (F d) \<subseteq> set_mset (R d)" "b \<notin># F c"
    by (rule class_frame(3) [where S = "{b}" and c = c, OF inv]) (use same' ball that in auto)
qed

end
