(* ===== verification/Allocator_Ops.thy ===== *)
theory Allocator_Ops
  imports Allocator_Inv
begin

text \<open>
  Small allocation and deallocation of \<^verbatim>\<open>src/src/allocator.rs\<close> keep the allocator's
  invariant: refills from the central pool and from the arena, the allocation of a block,
  and its return to the owner's cache or to the remote returns.
\<close>

section \<open>Blocks of the slabs\<close>

text \<open>A block has the size of its class and lies, aligned, inside its slab and the used part of the arena.\<close>

lemma alignment_dvd_block_size:
  assumes "al_shape al"
  shows "alignment (al_config al) dvd class_block_size (al_config al) c"
proof -
  have "effective_block_alignment (alignment (al_config al)) = alignment (al_config al)"
    using assms by (simp add: al_shape_def effective_block_alignment_def HEADER_ALIGNMENT_def BLOCK_ALIGNMENT_def)
  then show ?thesis
    using block_size_for_alignment_props(1) [of "alignment (al_config al)" c] by (simp add: class_block_size_def)
qed

lemma alloc_block:
  assumes inv: "alloc_inv dbg m al tc R" and b: "b \<in> set (central_all (al_central al) c)"
  obtains start cap i where "(start, start + class_block_size (al_config al) c * cap, class_block_size (al_config al) c, cap)
      \<in> geos (al_central al) c" "i < cap" "b = start + i * class_block_size (al_config al) c"
    "b + class_block_size (al_config al) c \<le> start + class_block_size (al_config al) c * cap"
proof -
  note A = alloc_invD [OF inv]
  have "b \<in> geo_blocks (geos (al_central al) c)" using b by (simp add: geo_blocks_central)
  then obtain g where g: "g \<in> geos (al_central al) c" "b \<in> set (geo_block_list g)" by (auto simp: geo_blocks_def)
  obtain start fin bs cap where e: "g = (start, fin, bs, cap)" by (cases g) auto
  have bs: "bs = class_block_size (al_config al) c" using A(2) g(1) e unfolding slabs_in_def by fastforce
  have "geo_shape g" using held_invD(2) [OF A(4), of c] g(1) by (simp add: geos_ok_def)
  then have fin: "fin = start + bs * cap" by (simp add: e geo_shape_def)
  obtain i where i: "i < cap" "b = start + i * bs" using g(2) by (auto simp: e geo_block_list_def blocks_of_def)
  have "(i + 1) * bs \<le> cap * bs" using i(1) by (intro mult_right_mono) auto
  then have "b + bs \<le> start + bs * cap" using i(2) by (simp add: algebra_simps)
  then show ?thesis using that [of start cap i] g(1) i e fin bs by blast
qed

lemma alloc_block_bounds:
  assumes inv: "alloc_inv dbg m al tc R" and b: "b \<in> set (central_all (al_central al) c)"
  shows "arena_base (al_arena al) \<le> b" "b + class_block_size (al_config al) c \<le> used_end al"
    "alignment (al_config al) dvd b" "b + class_block_size (al_config al) c \<le> usize_max" "0 < b"
    "b + HEADER_SIZE \<le> usize_max"
proof -
  note A = alloc_invD [OF inv]
  let ?bs = "class_block_size (al_config al) c"
  obtain start cap i where g: "(start, start + ?bs * cap, ?bs, cap) \<in> geos (al_central al) c" (is "?g \<in> _") "i < cap"
    "b = start + i * ?bs" "b + ?bs \<le> start + ?bs * cap" by (rule alloc_block [OF inv b])
  have s: "arena_base (al_arena al) \<le> start" "start + ?bs * cap \<le> used_end al" "alignment (al_config al) dvd start"
    using A(2) g(1) unfolding slabs_in_def by fastforce+
  show lo: "arena_base (al_arena al) \<le> b" and hi: "b + ?bs \<le> used_end al" using s g(3,4) by linarith+
  show "alignment (al_config al) dvd b" unfolding g(3) using s(3) alignment_dvd_block_size [OF A(1)] by simp
  have "used_end al \<le> usize_max" using arena_wfD(4,5) [OF A(5)] by linarith
  then show m: "b + ?bs \<le> usize_max" using hi by linarith
  show "0 < b" using lo arena_wfD(3) [OF A(5)] by linarith
  show "b + HEADER_SIZE \<le> usize_max" using m class_block_size_pos [of "al_config al" c] by (simp add: HEADER_SIZE_def)
qed

lemma alloc_block_contained:
  assumes inv: "alloc_inv dbg m al tc R" and b: "b \<in> set (central_all (al_central al) c)"
  shows "contains_block_start (al_arena al) b = Some True"
proof -
  note A = alloc_invD [OF inv] and B = alloc_block_bounds [OF inv b]
  have sh: "arena_alignment (al_arena al) = alignment (al_config al)" using A(1) by (simp add: al_shape_def)
  have "arena_alignment (al_arena al) dvd b - arena_base (al_arena al)"
    using B(3) arena_wfD(2) [OF A(5)] by (simp add: sh)
  moreover have "b < arena_base (al_arena al) + arena_len (al_arena al)"
    using B(2) arena_wfD(5) [OF A(5)] class_block_size_pos [of "al_config al" c] by linarith
  ultimately show ?thesis
    using B(1) arena_wfD(1,4) [OF A(5)] by (simp add: contains_block_start_def checked_add_def is_multiple_of_def dvd_eq_mod_eq_0)
qed

text \<open>Distinct blocks, of one class or of two, do not overlap.\<close>

lemma alloc_blocks_apart:
  assumes inv: "alloc_inv dbg m al tc R" and x: "x \<in> set (central_all (al_central al) c)"
    and y: "y \<in> set (central_all (al_central al) d)" and ne: "x \<noteq> y"
  shows "apart (x, class_block_size (al_config al) c) (y, class_block_size (al_config al) d)"
proof -
  note A = alloc_invD [OF inv]
  note D = held_invD [OF A(4)]
  let ?bs = "class_block_size (al_config al) c" and ?cs = "class_block_size (al_config al) d"
  obtain s k i where g: "(s, s + ?bs * k, ?bs, k) \<in> geos (al_central al) c" "i < k" "x = s + i * ?bs" "x + ?bs \<le> s + ?bs * k"
    by (rule alloc_block [OF inv x])
  obtain t l j where h: "(t, t + ?cs * l, ?cs, l) \<in> geos (al_central al) d" "j < l" "y = t + j * ?cs" "y + ?cs \<le> t + ?cs * l"
    by (rule alloc_block [OF inv y])
  have apart: "s + ?bs * k \<le> t \<or> t + ?cs * l \<le> s \<or> (c = d \<and> s = t)"
  proof (cases "c = d")
    case True
    then show ?thesis using D(2) [of c] g(1) h(1) unfolding geos_ok_def by fastforce
  next
    case False
    then have "ranges_apart (s, s + ?bs * k, ?bs, k) (t, t + ?cs * l, ?cs, l)"
      using D(1) g(1) h(1) unfolding central_inv_def by blast
    then show ?thesis by (auto simp: ranges_apart_def)
  qed
  show ?thesis
  proof (cases "c = d \<and> s = t")
    case True
    then have ij: "i \<noteq> j" "x = s + i * ?bs" "y = s + j * ?bs" "?cs = ?bs" using g(3) h(3) ne by auto
    show ?thesis
    proof (cases "i < j")
      case True
      then have "(i + 1) * ?bs \<le> j * ?bs" by (intro mult_right_mono) auto
      then show ?thesis using ij by (simp add: apart_def)
    next
      case False
      then have "(j + 1) * ?bs \<le> i * ?bs" using ij(1) by (intro mult_right_mono) auto
      then show ?thesis using ij by (simp add: apart_def)
    qed
  next
    case False
    then have "s + ?bs * k \<le> t \<or> t + ?cs * l \<le> s" using apart by blast
    then show ?thesis using g(3,4) h(3,4) by (auto simp: apart_def)
  qed
qed

section \<open>Refills\<close>

lemma register_slab_held:
  assumes inv: "held_inv dbg m cp tc R" and os: "madvise_ok sys" and epoch: "epoch_room cp c"
    and geo: "geo_shape (start, start + bs * cap, bs, cap)"
    and fresh: "\<And>d g. g \<in> geos cp d \<Longrightarrow> fst (snd g) \<le> start \<or> start + bs * cap \<le> fst g"
  obtains m' cp' where "register_slab dbg sys m cp c start bs cap = Some (m', cp')"
    "held_inv dbg m' cp' tc (more_blocks R c (blocks_of start bs cap))" "rest_frame cp R m m'"
    "central_geometry cp' = (central_geometry cp)(c := central_geometry cp c @ [(start, start + bs * cap, bs, cap)])"
    "\<forall>d. cp_epoch (cpool cp' d) \<le> cp_epoch (cpool cp d) + 2"
proof -
  note D = held_invD [OF inv]
  let ?g = "(start, start + bs * cap, bs, cap)"
  have g: "0 < start" "HEADER_SIZE \<le> bs" "0 < cap" "start + bs * cap \<le> usize_max" using geo by (auto simp: geo_shape_def)
  have apart: "ranges_apart x (start, start + bs * cap, ())" if "x \<in> geos cp d" for d x
    using fresh [OF that] by (simp add: ranges_apart_def)
  obtain m' cp' where r: "register_slab dbg sys m cp c start bs cap = Some (m', cp')" "central_inv (idle_header dbg) m' cp'"
    "central_geometry cp' = (central_geometry cp)(c := central_geometry cp c @ [?g])"
    "\<And>d. central_blocks m' cp' d = central_blocks m cp d"
    "pool_frame (cpool cp c) (set_mset (central_blocks m cp c)) m m'"
    "\<And>d. cp_epoch (cpool cp' d) \<le> cp_epoch (cpool cp d) + 2"
    by (rule register_slab_spec [where dbg = dbg, OF D(1) os epoch g], erule apart, blast)
  have G: "set_mset (central_blocks m cp c) \<subseteq> set (central_all cp c)" using held_apart(5) [OF inv, of _ c] by blast
  note fr = central_step_frame [OF D(1) r(5) G]
  have keep: "m' x = m x" if x: "x \<in># tc_blocks m tc d \<or> x \<in># R d" for x d
  proof (rule fr(1))
    show xa: "x \<in> set (central_all cp d)" using held_apart(5) [OF inv, of x d] x by blast
    have "d = c" if "x \<in># central_blocks m cp c" using central_all_disjoint [OF D(1) xa] G that by blast
    then show "x \<notin> set_mset (central_blocks m cp c)" using held_apart(2) [OF inv, of x c] x by auto
  qed
  have K: "tc_inv dbg (geos cp) m' tc" "tc_blocks m' tc d = tc_blocks m tc d" for d
    by (rule tc_keep [OF D(3)], rule keep, erule disjI1)+
  have tc: "tc_inv dbg (geos cp') m' tc" by (rule tc_inv_mono [OF K(1)]) (auto simp: r(3))
  have "geos_ok (geos cp' d)" for d
  proof (cases "d = c")
    case True
    have "fst (snd h) \<le> start \<or> start + bs * cap \<le> fst h" if "h \<in> geos cp c" for h using fresh [OF that] .
    then show ?thesis using D(2) [of c] geo unfolding True r(3) geos_ok_def by auto
  next
    case False
    then show ?thesis using D(2) [of d] by (simp add: r(3))
  qed
  moreover have "mset (central_all cp' d) = central_blocks m' cp' d + tc_blocks m' tc d + more_blocks R c (blocks_of start bs cap) d" for d
    using D(4) [of d] by (cases "d = c") (simp_all add: r(3,4) K(2) central_all_def)
  ultimately have "held_inv dbg m' cp' tc (more_blocks R c (blocks_of start bs cap))"
    unfolding held_inv_def using r(2) tc by blast
  moreover have "rest_frame cp R m m'" unfolding rest_frame_def using keep fr(2) by blast
  ultimately show ?thesis using that r(1,3,6) by blast
qed

text \<open>Whether the arena can still hand out an aligned block of \<open>bs\<close> bytes.\<close>

definition block_fits :: "Arena \<Rightarrow> usize \<Rightarrow> bool" where
  "block_fits a bs \<longleftrightarrow> (\<exists>s. arena_alignment a dvd s \<and> arena_next a \<le> s \<and> s + bs \<le> arena_len a)"

text \<open>
  What an operation with \<open>k\<close> exchanges guarantees: the invariant with the rest \<open>R'\<close>, the
  headers of the blocks in \<open>F\<close> and outside the slabs untouched, slabs only added.
\<close>

definition moved ::
    "bool \<Rightarrow> nat \<Rightarrow> (SizeClass \<Rightarrow> addr multiset) \<Rightarrow> (SizeClass \<Rightarrow> addr multiset) \<Rightarrow> heap \<Rightarrow> Allocator \<Rightarrow> ThreadCache \<Rightarrow>
     heap \<Rightarrow> Allocator \<Rightarrow> ThreadCache \<Rightarrow> bool" where
  "moved dbg k F R' m al tc m' al' tc' \<longleftrightarrow> alloc_inv dbg m' al' tc' R' \<and> rest_frame (al_central al') F m m' \<and>
     al_grows al al' \<and> same_cache tc tc' \<and>
     (\<forall>d. cp_epoch (cpool (al_central al') d) \<le> cp_epoch (cpool (al_central al) d) + 2 * k)"

lemma movedD:
  assumes "moved dbg k F R' m al tc m' al' tc'"
  shows "alloc_inv dbg m' al' tc' R'" "rest_frame (al_central al') F m m'" "al_grows al al'" "same_cache tc tc'"
    "cp_epoch (cpool (al_central al') d) \<le> cp_epoch (cpool (al_central al) d) + 2 * k"
  using assms by (auto simp: moved_def)

lemma moved_refl: "alloc_inv dbg m al tc R \<Longrightarrow> moved dbg k F R m al tc m al tc"
  by (simp add: moved_def)

lemma moved_mono: "moved dbg j F R' m al tc m' al' tc' \<Longrightarrow> j \<le> k \<Longrightarrow> moved dbg k F R' m al tc m' al' tc'"
  unfolding moved_def by (meson add_left_mono mult_le_mono2 order_trans)

lemma moved_trans:
  assumes a: "moved dbg j F R1 m al tc m1 al1 tc1" and b: "moved dbg k F R2 m1 al1 tc1 m2 al2 tc2"
  shows "moved dbg (j + k) F R2 m al tc m2 al2 tc2"
proof -
  note A = movedD [OF a] and B = movedD [OF b]
  have "cp_epoch (cpool (al_central al2) d) \<le> cp_epoch (cpool (al_central al) d) + 2 * (j + k)" for d
    using A(5) [of d] B(5) [of d] by simp
  then show ?thesis
    unfolding moved_def
    using B(1) rest_frame_grow [OF A(2) B(2,3)] al_grows_trans [OF A(3) B(3)] same_cache_trans [OF A(4) B(4)] by blast
qed

text \<open>An exchange with the central pool, and a step on the cache alone.\<close>

lemma moved_exchanged:
  assumes inv: "alloc_inv dbg m al tc R" and ex: "exchanged dbg c k R m (al_central al) tc m' cp' tc'"
  shows "moved dbg k R R m al tc m' (al\<lparr>al_central := cp'\<rparr>) tc'"
proof -
  note E = exchangedD [OF ex]
  have ep: "cp_epoch (cpool cp' d) \<le> cp_epoch (cpool (al_central al) d) + 2 * k" for d
    using E(5) [of d] by (auto split: if_splits)
  have "rest_frame cp' R m m'" using E(2,3) by (simp add: rest_frame_def)
  then show ?thesis
    using alloc_inv_update [OF inv E(1,2,3)] al_grows_central [OF E(3)] E(4) ep by (simp add: moved_def)
qed

lemma moved_local:
  assumes inv: "alloc_inv dbg m al tc R" and held: "held_inv dbg m' (al_central al) tc' R'"
    and fr: "rest_frame (al_central al) F m m'" and same: "same_cache tc tc'"
  shows "moved dbg 0 F R' m al tc m' al tc'"
  using alloc_inv_local [OF inv held fr] fr same by (simp add: moved_def)

text \<open>
  A span that has been reserved becomes a slab of the central pool and of the cache. The span
  need not be the last one of the arena: other threads may have reserved more since.
\<close>

abbreviation span_geometry :: "AllocatorConfig \<Rightarrow> SizeClass \<Rightarrow> addr \<Rightarrow> usize \<Rightarrow> geometry" where
  "span_geometry cfg c st k \<equiv> (st, st + class_block_size cfg c * k, class_block_size cfg c, k)"

lemma install_span:
  assumes inv: "alloc_inv dbg m al tc R" and os: "madvise_ok sys" and epoch: "epoch_room (al_central al) c" and k: "0 < k"
    and reg: "region_ok al (st, class_block_size (al_config al) c * k)"
    and sep: "\<And>s. s \<in># large_regions (al_large al) \<Longrightarrow> apart (st, class_block_size (al_config al) c * k) s"
  obtains m' cp' tc' where "register_slab dbg sys m (al_central al) c st (class_block_size (al_config al) c) k = Some (m', cp')"
    "push_owned_slab dbg tc c st (class_block_size (al_config al) c) k = Some tc'"
    "alloc_inv dbg m' (al\<lparr>al_central := cp'\<rparr>) tc' R" "rest_frame cp' R m m'"
    "central_geometry cp' = (central_geometry (al_central al))(c := central_geometry (al_central al) c @ [span_geometry (al_config al) c st k])"
    "same_cache tc tc'" "\<forall>d. cp_epoch (cpool cp' d) \<le> cp_epoch (cpool (al_central al) d) + 2"
    "lc_blocks m' (tclass tc' c) \<noteq> {#}"
proof -
  note A = alloc_invD [OF inv]
  let ?bs = "class_block_size (al_config al) c"
  let ?g = "(st, st + ?bs * k, ?bs, k)"
  have bs: "HEADER_SIZE \<le> ?bs" using class_block_size_pos [of "al_config al" c] by (simp add: HEADER_SIZE_def)
  have r: "arena_base (al_arena al) \<le> st" "st + ?bs * k \<le> used_end al" "alignment (al_config al) dvd st"
    using reg by (auto simp: region_ok_def)
  have fresh: "fst (snd g) \<le> st \<or> st + ?bs * k \<le> fst g" if "g \<in> geos (al_central al) d" for d g
    using reg that unfolding region_ok_def by fastforce
  have "64 dvd ?bs" "64 dvd st" using A(6) alignment_dvd_block_size [OF A(1)] r(3) dvd_trans by blast+
  moreover have "0 < st" "st + ?bs * k \<le> usize_max" using r(1,2) arena_wfD(3-5) [OF A(5)] by linarith+
  ultimately have geo: "geo_shape ?g" using bs k by (simp add: geo_shape_def)
  obtain m1 cp1 where rg: "register_slab dbg sys m (al_central al) c st ?bs k = Some (m1, cp1)"
    "held_inv dbg m1 cp1 tc (more_blocks R c (blocks_of st ?bs k))" "rest_frame (al_central al) R m m1"
    "central_geometry cp1 = (central_geometry (al_central al))(c := central_geometry (al_central al) c @ [?g])"
    "\<forall>d. cp_epoch (cpool cp1 d) \<le> cp_epoch (cpool (al_central al) d) + 2"
    by (rule register_slab_held [OF A(4) os epoch geo fresh])
  have rep: "refill_rep (idle_header dbg c) m1 (cpool cp1 c) (Refill_Slab st ?bs k) (blocks_of st ?bs k)"
    using arg_cong [OF rg(4), of "\<lambda>f. set (f c)"] by (simp add: refill_rep_def central_geometry_def)
  obtain lc where acc: "lc_push_owned_slab dbg (tclass tc c) st ?bs k = Some lc"
    "held_inv dbg m1 cp1 (tc_set_class tc c lc) R" "lc_blocks m1 lc = lc_blocks m1 (tclass tc c) + mset (blocks_of st ?bs k)"
    using accept_refill [OF rg(2) rep] by (auto simp: run_elims)
  let ?al = "al\<lparr>al_central := cp1\<rparr>" and ?tc = "tc_set_class tc c lc"
  have old: "g \<in> geos (al_central al) d \<or> d = c \<and> g = ?g" if "g \<in> geos cp1 d" for d g
    using that by (auto simp: rg(4) split: if_splits)
  have fr: "rest_frame cp1 R m m1" using rg(3) unfolding rest_frame_def rg(4) by auto
  have slabs: "slabs_in ?al" unfolding slabs_in_def
  proof (intro allI ballI)
    fix d g assume "g \<in> geos (al_central ?al) d"
    then have "g \<in> geos (al_central al) d \<or> d = c \<and> g = ?g" using old by simp
    then show "arena_base (al_arena ?al) \<le> fst g \<and> fst (snd g) \<le> used_end ?al \<and> alignment (al_config ?al) dvd fst g \<and>
        fst (snd (snd g)) = class_block_size (al_config ?al) d"
    proof
      assume "g \<in> geos (al_central al) d"
      then show ?thesis using A(2) unfolding slabs_in_def by auto
    next
      assume "d = c \<and> g = ?g"
      then show ?thesis using r by simp
    qed
  qed
  have lreg: "region_ok ?al s" if s: "s \<in># large_regions (al_large al)" for s
  proof -
    have o: "region_ok al s" using A(3) s unfolding large_ok_def regions_ok_def by blast
    have "fst s + snd s \<le> fst g \<or> fst (snd g) \<le> fst s" if "g \<in> geos cp1 d" for d g
      using old [OF that] o sep [OF s] unfolding region_ok_def by (auto simp: apart_def)
    then show ?thesis using o by (auto simp: region_ok_def)
  qed
  have fr': "rest_frame (al_central ?al) R m m1" using fr by simp
  have "large_ok m1 ?al" by (rule large_ok_regions [OF A(3) fr' _ _ lreg]) simp_all
  then have inv': "alloc_inv dbg m1 ?al ?tc R" using A(1) slabs acc(2) by (simp add: alloc_inv_def al_shape_def)
  have T: "index c < length (tc_classes tc)" by (rule tc_invD(1) [OF held_invD(3) [OF A(4)]])
  have "push_owned_slab dbg tc c st ?bs k = Some ?tc" using acc(1) T by (simp add: push_owned_slab_def)
  moreover have "lc_blocks m1 (tclass ?tc c) \<noteq> {#}" using acc(3) T k by (simp add: blocks_of_def mset_set_empty_iff)
  ultimately show ?thesis using that [OF rg(1) _ inv' fr rg(4) _ rg(5)] by simp
qed

text \<open>The reservation of a span: a new region at the end of the used part of the arena.\<close>

lemma reserve_region:
  assumes inv: "alloc_inv dbg m al tc R"
  obtains (full) "reserve_block_span (al_arena al) (class_block_size (al_config al) c) (refill_count (al_config al) c) = Inr None"
      "\<not> block_fits (al_arena al) (class_block_size (al_config al) c)"
  | (got) a span k where "reserve_block_span (al_arena al) (class_block_size (al_config al) c) (refill_count (al_config al) c) = Inr (Some (a, span))"
      "0 < k" "span_size span = class_block_size (al_config al) c * k" "used_end al \<le> span_start span"
      "al_grows al (al\<lparr>al_arena := a\<rparr>)" "alloc_inv dbg m (al\<lparr>al_arena := a\<rparr>) tc R"
      "region_ok (al\<lparr>al_arena := a\<rparr>) (span_start span, class_block_size (al_config al) c * k)"
      "arena_next (al_arena al) + span_size span \<le> arena_next a" "k \<le> refill_count (al_config al) c"
      "arena_next a < arena_next (al_arena al) + alignment (al_config al) + class_block_size (al_config al) c * k"
proof -
  note A = alloc_invD [OF inv]
  let ?bs = "class_block_size (al_config al) c" and ?t = "refill_count (al_config al) c" and ?a = "al_arena al"
  have bs: "0 < ?bs" "HEADER_SIZE < ?bs"
    using class_block_size_pos [of "al_config al" c] by (simp_all add: HEADER_SIZE_def)
  obtain r where r: "reserve_block_span ?a ?bs ?t = Inr r"
    using reserve_block_span_total [OF A(5) bs(1) refill_count_pos] by blast
  show ?thesis
  proof (cases r)
    case None
    have "\<not> block_fits ?a ?bs" using reserve_block_span_None [OF A(5)] r None by (simp add: block_fits_def)
    then show ?thesis using full r None by simp
  next
    case (Some x)
    obtain a span where x: "x = (a, span)" by (cases x) simp
    obtain k where k: "0 < k" "span_size span = k * ?bs" "span_size span div ?bs = k" "arena_wf a"
      "arena_base a = arena_base ?a" "arena_len a = arena_len ?a" "arena_alignment a = arena_alignment ?a"
      "arena_base ?a + arena_next ?a \<le> span_start span" "span_start span + k * ?bs = arena_base ?a + arena_next a"
      "arena_alignment ?a dvd span_start span" "k \<le> ?t"
      by (rule reserve_block_span_ok [OF A(5) bs(1), of ?t a span]) (use r Some x in auto)
    have "arena_next a < arena_next ?a + arena_alignment ?a + span_size span"
      by (rule reserve_block_span_padding [OF A(5)]) (use r Some x in simp)
    then have pad: "arena_next a < arena_next ?a + alignment (al_config al) + ?bs * k"
      using k(2) A(1) by (simp add: al_shape_def mult.commute)
    let ?al = "al\<lparr>al_arena := a\<rparr>"
    have nx: "arena_next ?a \<le> arena_next a" using k(8,9) by linarith
    have gr: "al_grows al ?al" using k(5,6) nx by (simp add: al_grows_def)
    have sh: "al_shape ?al" using A(1) k(4,7) by (simp add: al_shape_def)
    have "slabs_in ?al" using A(2) k(5) nx unfolding slabs_in_def by (fastforce intro: order_trans)
    then have inv': "alloc_inv dbg m ?al tc R"
      using large_ok_frame [OF A(3) _ gr, of "\<lambda>_. {#}" m] sh A(4) by (simp add: alloc_inv_def)
    have slab: "fst (snd g) \<le> span_start span" if "g \<in> geos (al_central al) d" for d g
      using A(2) that k(8) unfolding slabs_in_def by (meson order_trans)
    have "HEADER_SIZE < ?bs * k" using bs k(1) by (metis less_le_trans mult_le_mono2 mult.right_neutral Suc_leI One_nat_def)
    moreover have "alignment (al_config al) dvd span_start span" using k(10) A(1) by (simp add: al_shape_def)
    moreover have "span_start span + ?bs * k = arena_base ?a + arena_next a" using k(9) by (simp add: mult.commute)
    ultimately have "region_ok ?al (span_start span, ?bs * k)" using k(5,8) slab by (auto simp: region_ok_def)
    moreover have "arena_next ?a + span_size span \<le> arena_next a" using k(2,8,9) by linarith
    moreover have "span_size span = ?bs * k" using k(2) by simp
    ultimately show ?thesis using got r Some x k(1,8,11) gr inv' pad by simp
  qed
qed

text \<open>
  What a small allocation takes from the arena: nothing, or, when neither the cache nor the
  central pool has a block of the class, one span of at most a refill of blocks.
\<close>

definition same_slabs :: "Allocator \<Rightarrow> Allocator \<Rightarrow> bool" where
  "same_slabs al al' \<longleftrightarrow> al_arena al' = al_arena al \<and> central_geometry (al_central al') = central_geometry (al_central al)"

lemma same_slabs_simps [simp]: "same_slabs al al" "same_slabs al (al\<lparr>al_central := cp\<rparr>) \<longleftrightarrow> central_geometry cp = central_geometry (al_central al)"
  by (simp_all add: same_slabs_def)

definition span_drawn :: "Allocator \<Rightarrow> SizeClass \<Rightarrow> Allocator \<Rightarrow> bool" where
  "span_drawn al c al' \<longleftrightarrow> (\<exists>st k. 0 < k \<and> k \<le> refill_count (al_config al) c \<and>
     central_geometry (al_central al') =
       (central_geometry (al_central al))(c := central_geometry (al_central al) c @ [span_geometry (al_config al) c st k]) \<and>
     arena_next (al_arena al') < arena_next (al_arena al) + alignment (al_config al) + class_block_size (al_config al) c * k)"

definition drawn :: "heap \<Rightarrow> Allocator \<Rightarrow> ThreadCache \<Rightarrow> SizeClass \<Rightarrow> Allocator \<Rightarrow> bool" where
  "drawn m al tc c al' \<longleftrightarrow>
     same_slabs al al' \<or> lc_blocks m (tclass tc c) = {#} \<and> central_blocks m (al_central al) c = {#} \<and> span_drawn al c al'"

lemma refill_arena_spec:
  assumes inv: "alloc_inv dbg m al tc R" and os: "madvise_ok sys" and epoch: "epoch_room (al_central al) c"
  obtains (oom) "refill_cache_from_arena dbg sys m al tc c n = Some (m, al, tc, Inl (out_of_memory al n))"
      "\<not> block_fits (al_arena al) (class_block_size (al_config al) c)"
  | (ok) m' al' tc' k where "refill_cache_from_arena dbg sys m al tc c n = Some (m', al', tc', Inr k)" "0 < k"
      "moved dbg 1 R R m al tc m' al' tc'" "lc_blocks m' (tclass tc' c) \<noteq> {#}" "span_drawn al c al'"
proof (rule reserve_region [OF inv, of c])
  assume f: "reserve_block_span (al_arena al) (class_block_size (al_config al) c) (refill_count (al_config al) c) = Inr None"
    "\<not> block_fits (al_arena al) (class_block_size (al_config al) c)"
  have "refill_cache_from_arena dbg sys m al tc c n = Some (m, al, tc, Inl (out_of_memory al n))"
    using f(1) by (simp add: refill_cache_from_arena_def class_block_size_def)
  then show ?thesis using f(2) by (rule oom)
next
  let ?bs = "class_block_size (al_config al) c"
  fix a span k
  let ?al = "al\<lparr>al_arena := a\<rparr>"
  assume r: "reserve_block_span (al_arena al) ?bs (refill_count (al_config al) c) = Inr (Some (a, span))" "0 < k"
    "span_size span = ?bs * k" "used_end al \<le> span_start span" "al_grows al ?al" "alloc_inv dbg m ?al tc R"
    "region_ok ?al (span_start span, ?bs * k)" "k \<le> refill_count (al_config al) c"
    "arena_next a < arena_next (al_arena al) + alignment (al_config al) + ?bs * k"
  have sep: "apart (span_start span, ?bs * k) s" if "s \<in># large_regions (al_large al)" for s
  proof -
    have "region_ok al s" using alloc_invD(3) [OF inv] that unfolding large_ok_def regions_ok_def by blast
    then show ?thesis using r(4) by (auto simp: region_ok_def apart_def)
  qed
  obtain m1 cp1 tc1 where i: "register_slab dbg sys m (al_central ?al) c (span_start span) (class_block_size (al_config ?al) c) k = Some (m1, cp1)"
    "push_owned_slab dbg tc c (span_start span) (class_block_size (al_config ?al) c) k = Some tc1"
    "alloc_inv dbg m1 (?al\<lparr>al_central := cp1\<rparr>) tc1 R" "rest_frame cp1 R m m1"
    "central_geometry cp1 = (central_geometry (al_central ?al))(c := central_geometry (al_central ?al) c @ [span_geometry (al_config ?al) c (span_start span) k])"
    "same_cache tc tc1" "\<forall>d. cp_epoch (cpool cp1 d) \<le> cp_epoch (cpool (al_central ?al) d) + 2"
    "lc_blocks m1 (tclass tc1 c) \<noteq> {#}"
    by (rule install_span [OF r(6) os _ r(2), of c "span_start span"]) (use epoch r(7) sep in simp_all)
  have gr: "al_grows al (?al\<lparr>al_central := cp1\<rparr>)"
    using r(4,5) unfolding al_grows_def by (auto simp: i(5))
  have "moved dbg 1 R R m al tc m1 (?al\<lparr>al_central := cp1\<rparr>) tc1"
    unfolding moved_def using i(3,4,6,7) gr by simp
  moreover have "refill_cache_from_arena dbg sys m al tc c n = Some (m1, ?al\<lparr>al_central := cp1\<rparr>, tc1, Inr k)"
    using r(1,3) i(1,2) class_block_size_pos [of "al_config al" c]
    by (simp add: refill_cache_from_arena_def class_block_size_def)
  moreover have "span_drawn al c (?al\<lparr>al_central := cp1\<rparr>)"
    unfolding span_drawn_def using i(5) r(2,8,9) by (intro exI [of _ "span_start span"] exI [of _ k]) simp
  ultimately show ?thesis using ok r(2) i(8) by blast
qed

text \<open>
  A small allocation fails only when the cache and the central pool have no block of the
  class and the arena has no space for one.
\<close>

lemma ensure_available_spec:
  assumes inv: "alloc_inv dbg m al tc R" and os: "madvise_ok sys"
    and epoch: "cp_epoch (cpool (al_central al) c) + 4 \<le> usize_max"
  obtains (oom) m' al' tc' where
      "ensure_available dbg sys m al tc c n = Some (m', al', tc', Inl (out_of_memory al' n))"
      "moved dbg 2 R R m al tc m' al' tc'" "lc_blocks m (tclass tc c) = {#}" "central_blocks m (al_central al) c = {#}"
      "same_slabs al al'" "\<not> block_fits (al_arena al) (class_block_size (al_config al) c)"
  | (ok) m' al' tc' where "ensure_available dbg sys m al tc c n = Some (m', al', tc', Inr ())"
      "moved dbg 2 R R m al tc m' al' tc'" "lc_blocks m' (tclass tc' c) \<noteq> {#}" "drawn m al tc c al'"
proof -
  note A = alloc_invD [OF inv]
  note T = tc_invD [OF held_invD(3) [OF A(4)], of c]
  have len: "lc_total_len (tclass tc c) = size (lc_blocks m (tclass tc c))" by (rule lc_invD(3) [OF T(3)])
  have need: "needs_refill tc c = Some (lc_blocks m (tclass tc c) = {#})" using T(1) len by (simp add: needs_refill_def)
  have mono: "moved dbg 1 R R m al tc m' al' tc' \<Longrightarrow> moved dbg 2 R R m al tc m' al' tc'" for m' al' tc'
    by (erule moved_mono) simp
  show ?thesis
  proof (cases "lc_blocks m (tclass tc c) = {#}")
    case False
    have "moved dbg 2 R R m al tc m al tc" by (rule moved_refl [OF inv])
    then show ?thesis using ok False need by (simp add: ensure_available_def drawn_def)
  next
    case empty: True
    have room: "epoch_room (al_central al) c" using epoch by (simp add: epoch_room_def)
    obtain m1 tc1 cp1 k where r: "refill_from_central dbg sys m tc c (al_central al) = Some (m1, tc1, cp1, k)"
      "exchanged dbg c 1 R m (al_central al) tc m1 cp1 tc1"
      "size (lc_blocks m1 (tclass tc1 c)) = size (lc_blocks m (tclass tc c)) + k"
      "k = 0 \<longleftrightarrow> central_blocks m (al_central al) c = {#}"
      by (rule refill_from_central_spec [OF A(4) os room])
    let ?al = "al\<lparr>al_central := cp1\<rparr>"
    have rf: "moved dbg 1 R R m al tc m1 ?al tc1" by (rule moved_exchanged [OF inv r(2)])
    show ?thesis
    proof (cases "k = 0")
      case False
      have "ensure_available dbg sys m al tc c n = Some (m1, ?al, tc1, Inr ())"
        using need empty r(1) False by (simp add: ensure_available_def Let_def)
      moreover have "drawn m al tc c ?al" using exchangedD(3) [OF r(2)] by (simp add: drawn_def)
      ultimately show ?thesis using ok mono [OF rf] r(3) False by force
    next
      case True
      have room1: "epoch_room (al_central ?al) c" using movedD(5) [OF rf, of c] epoch by (simp add: epoch_room_def)
      show ?thesis
      proof (rule refill_arena_spec [OF movedD(1) [OF rf] os room1, of n])
        assume f: "refill_cache_from_arena dbg sys m1 ?al tc1 c n = Some (m1, ?al, tc1, Inl (out_of_memory ?al n))"
          "\<not> block_fits (al_arena ?al) (class_block_size (al_config ?al) c)"
        have "ensure_available dbg sys m al tc c n = Some (m1, ?al, tc1, Inl (out_of_memory ?al n))"
          using need empty r(1) True f(1) by (simp add: ensure_available_def Let_def)
        then show ?thesis by (rule oom) (use mono [OF rf] empty r(4) True f(2) exchangedD(3) [OF r(2)] in simp_all)
      next
        fix m2 al2 tc2 j
        assume g: "refill_cache_from_arena dbg sys m1 ?al tc1 c n = Some (m2, al2, tc2, Inr j)" "0 < j"
          "moved dbg 1 R R m1 ?al tc1 m2 al2 tc2" "lc_blocks m2 (tclass tc2 c) \<noteq> {#}" "span_drawn ?al c al2"
        have "ensure_available dbg sys m al tc c n = Some (m2, al2, tc2, Inr ())"
          using need empty r(1) True g(1,2) by (simp add: ensure_available_def Let_def)
        moreover have "moved dbg 2 R R m al tc m2 al2 tc2"
          using moved_trans [OF rf g(3)] by (simp add: numeral_2_eq_2)
        moreover have "drawn m al tc c al2"
          using g(5) empty r(4) True exchangedD(3) [OF r(2)] by (simp add: drawn_def span_drawn_def)
        ultimately show ?thesis using ok g(4) by blast
      qed
    qed
  qed
qed

section \<open>Small allocation\<close>

text \<open>A cache that has a block of the class serves it: the block leaves the cache with a fresh header.\<close>

lemma serve_block:
  assumes inv: "alloc_inv dbg m al tc R" and ne: "lc_blocks m (tclass tc c) \<noteq> {#}" and n: "0 < n" "n \<le> payload_size c"
  obtains b reuse tc' m' where "pop_available_unchecked dbg m tc c = Some (b, reuse, tc')"
    "prepare_header dbg (clear_small_free_metadata dbg m b) b reuse c n (tc_cache_id tc') = Some m'"
    "moved dbg 0 R (more_blocks R c [b]) m al tc m' al tc'" "live_header dbg c n (tc_cache_id tc) (m' b)"
    "user_ptr_from_block_start b = b + HEADER_SIZE"
proof -
  obtain b reuse tc2 where p: "pop_available_unchecked dbg m tc c = Some (b, reuse, tc2)"
    "held_inv dbg m (al_central al) tc2 (more_blocks R c [b])" "reuse_ok dbg c (tc_cache_id tc) reuse b (m b)"
    "same_cache tc tc2" by (rule pop_available_spec [OF alloc_invD(4) [OF inv] ne])
  have b: "b \<in># more_blocks R c [b] c" by simp
  have id: "tc_cache_id tc2 = tc_cache_id tc" using p(4) by (simp add: same_cache_def)
  obtain m2 where h: "prepare_header dbg (clear_small_free_metadata dbg m b) b reuse c n (tc_cache_id tc) = Some m2"
    "live_header dbg c n (tc_cache_id tc) (m2 b)" "\<And>x. x \<noteq> b \<Longrightarrow> m2 x = m x"
    by (rule prepare_header_spec [where m = m, OF p(3) n held_blocks_props(7) [OF p(2) b]]) blast
  have fr: "rest_frame (al_central al) R m m2"
    by (rule held_write(2) [OF p(2) b h(3)]) (use rest_more transit(4) [OF p(2)] in auto)
  have "held_inv dbg m2 (al_central al) tc2 (more_blocks R c [b])" by (rule held_write(1) [OF p(2) b h(3)])
  then have mv: "moved dbg 0 R (more_blocks R c [b]) m al tc m2 al tc2" by (rule moved_local [OF inv _ fr p(4)])
  have "b + HEADER_SIZE \<le> usize_max"
    by (rule alloc_block_bounds(6) [OF movedD(1) [OF mv], of b c]) (use transit(1) [OF p(2)] in simp)
  then have "user_ptr_from_block_start b = b + HEADER_SIZE" by (simp add: user_ptr_from_block_start_def)
  then show ?thesis using that [OF p(1) _ mv h(2)] h(1) id by simp
qed

lemma allocate_small_spec:
  assumes inv: "alloc_inv dbg m al tc R" and os: "madvise_ok sys"
    and epoch: "cp_epoch (cpool (al_central al) c) + 4 \<le> usize_max" and n: "0 < n" "n \<le> payload_size c"
  obtains (oom) m' al' tc' where
      "allocate_small_with_cache dbg sys m al tc c n = Some (m', al', tc', Inl (out_of_memory al' n))"
      "moved dbg 2 R R m al tc m' al' tc'" "lc_blocks m (tclass tc c) = {#}" "central_blocks m (al_central al) c = {#}"
      "same_slabs al al'" "\<not> block_fits (al_arena al) (class_block_size (al_config al) c)"
  | (ok) m' al' tc' b where
      "allocate_small_with_cache dbg sys m al tc c n = Some (m', al', tc', Inr (b + HEADER_SIZE))"
      "moved dbg 2 R (more_blocks R c [b]) m al tc m' al' tc'" "live_header dbg c n (tc_cache_id tc) (m' b)"
      "drawn m al tc c al'"
proof (rule ensure_available_spec [OF inv os epoch, of n])
  fix m' al' tc'
  assume e: "ensure_available dbg sys m al tc c n = Some (m', al', tc', Inl (out_of_memory al' n))"
    and rest: "moved dbg 2 R R m al tc m' al' tc'" "lc_blocks m (tclass tc c) = {#}" "central_blocks m (al_central al) c = {#}"
      "same_slabs al al'" "\<not> block_fits (al_arena al) (class_block_size (al_config al) c)"
  have "allocate_small_with_cache dbg sys m al tc c n = Some (m', al', tc', Inl (out_of_memory al' n))"
    using e by (simp add: allocate_small_with_cache_def)
  then show ?thesis using rest by (rule oom)
next
  fix m1 al1 tc1
  assume e: "ensure_available dbg sys m al tc c n = Some (m1, al1, tc1, Inr ())"
    and rf: "moved dbg 2 R R m al tc m1 al1 tc1" and ne: "lc_blocks m1 (tclass tc1 c) \<noteq> {#}" and dr: "drawn m al tc c al1"
  note F = movedD [OF rf]
  obtain b reuse tc2 m2 where s: "pop_available_unchecked dbg m1 tc1 c = Some (b, reuse, tc2)"
    "prepare_header dbg (clear_small_free_metadata dbg m1 b) b reuse c n (tc_cache_id tc2) = Some m2"
    "moved dbg 0 R (more_blocks R c [b]) m1 al1 tc1 m2 al1 tc2" "live_header dbg c n (tc_cache_id tc1) (m2 b)"
    "user_ptr_from_block_start b = b + HEADER_SIZE" by (rule serve_block [OF F(1) ne n])
  have id: "tc_cache_id tc1 = tc_cache_id tc" using F(4) by (simp add: same_cache_def)
  have mv: "moved dbg 2 R (more_blocks R c [b]) m al tc m2 al1 tc2" using moved_trans [OF rf s(3)] by simp
  have "allocate_small_with_cache dbg sys m al tc c n = Some (m2, al1, tc2, Inr (b + HEADER_SIZE))"
    using e s(1,2,5) by (simp add: allocate_small_with_cache_def Let_def)
  then show ?thesis by (rule ok [OF _ mv]) (use s(4) id dr in simp_all)
qed

section \<open>Small deallocation\<close>

lemma route_small_spec:
  assumes inv: "alloc_inv dbg m al tc R" and os: "madvise_ok sys" and epoch: "epoch_room (al_central al) c"
    and b: "b \<in># R c" "idle_header dbg c b (m b)"
  obtains m' al' tc' where
    "route_small_freed_block dbg sys m al tc c b (owner_cache_id (m b)) = Some (m', al', tc')"
    "moved dbg 1 (less_blocks R c [b]) (less_blocks R c [b]) m al tc m' al' tc'" "same_slabs al al'"
proof -
  note A = alloc_invD [OF inv]
  let ?R = "less_blocks R c [b]"
  have sub: "set_mset (?R d) \<subseteq> set_mset (R d)" for d by simp
  show ?thesis
  proof (cases "owner_cache_id (m b) = tc_cache_id tc")
    case own: True
    then have "local_header dbg c (tc_cache_id tc) b (m b)" using b(2) by (simp add: local_header_def)
    from push_and_should_drain_spec [OF A(4) b(1) this] obtain m1 tc1 where
      p: "push_and_should_drain dbg m tc c b = Some (m1, tc1, lc_total_len (tclass tc1 c) > local_limit (tc_config tc) c)"
      "held_inv dbg m1 (al_central al) tc1 ?R" "rest_frame (al_central al) R m m1" "same_cache tc tc1" .
    have mv: "moved dbg 0 ?R ?R m al tc m1 al tc1" by (rule moved_local [OF inv p(2) rest_frame_mono [OF p(3) sub] p(4)])
    show ?thesis
    proof (cases "lc_total_len (tclass tc1 c) > local_limit (tc_config tc) c")
      case False
      then have "route_small_freed_block dbg sys m al tc c b (owner_cache_id (m b)) = Some (m1, al, tc1)"
        using own p(1) by (simp add: route_small_freed_block_def)
      then show ?thesis by (rule that) (rule moved_mono [OF mv], simp_all)
    next
      case over: True
      then have "lc_total_len (tclass tc1 c) > local_limit (tc_config tc1) c" using p(4) by (simp add: same_cache_def)
      then obtain m2 tc2 cp2 k where
        d: "drain_excess_to_central dbg sys m1 tc1 c (al_central al) = Some (m2, tc2, cp2, k)"
        "exchanged dbg c 1 ?R m1 (al_central al) tc1 m2 cp2 tc2"
        by (rule drain_excess_spec [OF p(2) os epoch])
      have "route_small_freed_block dbg sys m al tc c b (owner_cache_id (m b)) = Some (m2, al\<lparr>al_central := cp2\<rparr>, tc2)"
        using own p(1) over d(1) by (simp add: route_small_freed_block_def)
      then show ?thesis by (rule that)
          (use moved_trans [OF mv moved_exchanged [OF movedD(1) [OF mv] d(2)]] exchangedD(3) [OF d(2)] in simp_all)
    qed
  next
    case own: False
    from push_remote_return_spec [OF A(4) b] obtain m1 tc1 where
      p: "push_remote_return m tc c b = Some (m1, tc1)" "held_inv dbg m1 (al_central al) tc1 ?R"
      "rest_frame (al_central al) ?R m m1" "same_cache tc tc1"
      "should_flush_remote_returns tc1 c = Some (rr_pending_len (tremote tc1 c) \<ge> drain_count (tc_config tc) c)" .
    have mv: "moved dbg 0 ?R ?R m al tc m1 al tc1" by (rule moved_local [OF inv p(2-4)])
    show ?thesis
    proof (cases "rr_pending_len (tremote tc1 c) \<ge> drain_count (tc_config tc) c")
      case False
      then have "route_small_freed_block dbg sys m al tc c b (owner_cache_id (m b)) = Some (m1, al, tc1)"
        using own p(1,5) by (simp add: route_small_freed_block_def)
      then show ?thesis by (rule that) (rule moved_mono [OF mv], simp_all)
    next
      case True
      obtain m2 tc2 cp2 k where
        d: "flush_remote_returns_for_class dbg m1 tc1 c (al_central al) = Some (m2, tc2, cp2, k)"
        "exchanged dbg c 1 ?R m1 (al_central al) tc1 m2 cp2 tc2"
        by (rule flush_class_spec [OF p(2), of c])
      have "route_small_freed_block dbg sys m al tc c b (owner_cache_id (m b)) = Some (m2, al\<lparr>al_central := cp2\<rparr>, tc2)"
        using own p(1,5) True d(1) by (simp add: route_small_freed_block_def)
      then show ?thesis by (rule that)
          (use moved_trans [OF mv moved_exchanged [OF movedD(1) [OF mv] d(2)]] exchangedD(3) [OF d(2)] in simp_all)
    qed
  qed
qed

text \<open>The decoded header of a live small block.\<close>

definition decoded :: "SizeClass \<Rightarrow> usize \<Rightarrow> u32 \<Rightarrow> AllocationHeader" where
  "decoded c n ow = from_encoded_fields Small_tag (size_class_to_index c) (word_of_nat n) (word_of_nat (payload_size c)) ow"

lemma mark_freed_moved:
  assumes inv: "alloc_inv dbg m al tc R" and b: "b \<in># R c" "live_header dbg c n ow (m b)"
  shows "moved dbg 0 (less_blocks R c [b]) R m al tc (mark_small_block_freed dbg m b) al tc"
    "idle_header dbg c b (mark_small_block_freed dbg m b b)" "owner_cache_id (mark_small_block_freed dbg m b b) = ow"
proof -
  note A = alloc_invD [OF inv]
  let ?m = "mark_small_block_freed dbg m b" and ?R = "less_blocks R c [b]"
  have same: "?m x = m x" if "x \<noteq> b" for x using that by (simp add: mark_small_block_freed_def)
  show "idle_header dbg c b (?m b)" "owner_cache_id (?m b) = ow"
    using b(2) by (simp_all add: mark_small_block_freed_def live_header_def idle_header_def)
  have fr: "rest_frame (al_central al) ?R m ?m"
    by (rule held_write(2) [OF A(4) b(1) same]) (use held_blocks_props(4) [OF A(4) b(1)] in simp_all)
  have "held_inv dbg ?m (al_central al) tc R" by (rule held_write(1) [OF A(4) b(1) same])
  then show "moved dbg 0 ?R R m al tc ?m al tc" by (rule moved_local [OF inv _ fr]) simp
qed

lemma finish_small_spec:
  assumes inv: "alloc_inv dbg m al tc R" and os: "madvise_ok sys" and epoch: "epoch_room (al_central al) c"
    and b: "b \<in># R c" "live_header dbg c n ow (m b)"
  obtains m' al' tc' where "finish_small_free dbg sys m al tc c b (decoded c n ow) = Some (m', al', tc')"
    "moved dbg 1 (less_blocks R c [b]) (less_blocks R c [b]) m al tc m' al' tc'" "same_slabs al al'"
proof -
  let ?m = "mark_small_block_freed dbg m b" and ?R = "less_blocks R c [b]"
  note mv = mark_freed_moved(1) [OF inv b] and h = mark_freed_moved(2,3) [OF inv b]
  from route_small_spec [OF movedD(1) [OF mv] os epoch b(1) h(1)] obtain m' al' tc' where
    r: "route_small_freed_block dbg sys ?m al tc c b (owner_cache_id (?m b)) = Some (m', al', tc')"
    "moved dbg 1 ?R ?R ?m al tc m' al' tc'" "same_slabs al al'" .
  have "finish_small_free dbg sys m al tc c b (decoded c n ow) = Some (m', al', tc')"
    using r(1) h(2) by (simp add: finish_small_free_def decoded_def from_encoded_fields_def
        small_owner_cache_id_after_kind_decode_def)
  then show ?thesis by (rule that) (use moved_trans [OF mv r(2)] r(3) in simp_all)
qed

lemma decode_small_spec:
  assumes inv: "alloc_inv dbg m al tc R" and b: "b \<in># R c" "live_header dbg c n ow (m b)" and n: "0 < n" "n \<le> payload_size c"
  shows "decode_header m (b + HEADER_SIZE) = Some (Inr (decoded c n ow, Small c))"
    "validate_small_block_for_free dbg m al (b + HEADER_SIZE) = Some (Inr b)"
proof -
  note A = alloc_invD [OF inv]
  have ba: "b \<in> set (central_all (al_central al) c)" using held_apart(5) [OF A(4)] b(1) by blast
  note B = alloc_block_bounds [OF inv ba]
  have al: "64 dvd b" by (rule held_blocks_props(7) [OF A(4) b(1)])
  have le: "b \<le> usize_max" using B(6) by simp
  have u: "user_ptr_from_block_start b = b + HEADER_SIZE" using B(6) by (simp add: user_ptr_from_block_start_def)
  have bk: "block_start_from_user_ptr (b + HEADER_SIZE) = b" using block_start_user_ptr_inverse [OF le] by (simp add: u)
  have "read_from_user_ptr m (b + HEADER_SIZE) = Some (Inr (decoded c n ow, Small c))"
    using read_small_header [of b c m n] b(2) n le by (simp add: live_header_def u decoded_def)
  then show "decode_header m (b + HEADER_SIZE) = Some (Inr (decoded c n ow, Small c))"
    using al by (simp add: decode_header_def checked_sub_def is_multiple_of_def HEADER_ALIGNMENT_def)
  have "\<not> small_block_is_marked_freed dbg m b"
    using b(2) small_free_marker_for_nonzero [OF al] unfolding small_block_is_marked_freed_def live_header_def by metis
  then show "validate_small_block_for_free dbg m al (b + HEADER_SIZE) = Some (Inr b)"
    using alloc_block_contained [OF inv ba] by (simp add: validate_small_block_for_free_def bk Let_def)
qed

end
