(* ===== verification/Allocator_Large.thy ===== *)
theory Allocator_Large
  imports Allocator_Ops
begin

text \<open>
  Large allocation and deallocation of \<^verbatim>\<open>src/src/allocator.rs\<close>: a large block is a best fit
  of the pool or new arena space, its region is apart from every slab and every other large
  block, and releasing it puts exactly this region back into the pool.
\<close>

section \<open>Regions\<close>

lemma regions_ok_add:
  "regions_ok al (add_mset r M) \<longleftrightarrow> regions_ok al M \<and> region_ok al r \<and> (\<forall>s. s \<in># M \<longrightarrow> apart r s) \<and>
     snd r + sum_mset (image_mset snd M) \<le> arena_next (al_arena al)"
  unfolding regions_ok_def by (auto simp: pairwise_apart_add)

lemma regions_count:
  assumes "regions_ok al M"
  shows "size M \<le> sum_mset (image_mset snd M)"
proof -
  have "\<forall>r\<in>#M. 1 \<le> snd r" using assms by (auto simp: regions_ok_def region_ok_def HEADER_SIZE_def)
  then show ?thesis by (induction M) auto
qed

text \<open>The counters of the registry cannot overflow: the regions fit into the arena.\<close>

lemma large_regions_sums:
  assumes "large_inv st"
  shows "sum_mset (image_mset snd (large_regions st)) = live_bytes st + free_bytes st"
    "size (large_regions st) = length (live st) + free_blocks st"
proof -
  have "sum_mset (image_mset snd (large_regions st)) =
      sum_mset (image_mset (rec_block_size \<circ> snd) (mset (live st))) + sum_mset (image_mset free_block_size (large_free st))"
    unfolding large_regions_def image_mset_union sum_mset.union multiset.map_comp
    by (simp add: comp_def case_prod_beta)
  then show "sum_mset (image_mset snd (large_regions st)) = live_bytes st + free_bytes st"
    using assms unfolding sum_image_mset large_inv_def by simp
  show "size (large_regions st) = length (live st) + free_blocks st"
    using assms by (simp add: large_regions_def large_inv_def)
qed

lemma large_bounds:
  assumes "arena_wf (al_arena al)" "regions_ok al (large_regions st + E)" "large_inv st"
  shows "live_bytes st + free_bytes st + sum_mset (image_mset snd E) \<le> usize_max"
    "length (live st) + free_blocks st + size E \<le> usize_max"
proof -
  have nx: "arena_next (al_arena al) \<le> usize_max" using arena_wfD(4,5) [OF assms(1)] by linarith
  have s: "sum_mset (image_mset snd (large_regions st + E)) \<le> arena_next (al_arena al)"
    using assms(2) unfolding regions_ok_def by blast
  then show "live_bytes st + free_bytes st + sum_mset (image_mset snd E) \<le> usize_max"
    using large_regions_sums(1) [OF assms(3)] nx by simp
  show "length (live st) + free_blocks st + size E \<le> usize_max"
    using regions_count [OF assms(2)] s nx large_regions_sums(2) [OF assms(3)] by simp
qed

lemma grow_arena:
  assumes inv: "alloc_inv dbg m al tc R" and wf: "arena_wf a" "arena_base a = arena_base (al_arena al)"
    "arena_alignment a = arena_alignment (al_arena al)" "arena_next (al_arena al) \<le> arena_next a"
  shows "al_shape (al\<lparr>al_arena := a, al_large := l\<rparr>)" "slabs_in (al\<lparr>al_arena := a, al_large := l\<rparr>)"
    "region_ok al r \<Longrightarrow> region_ok (al\<lparr>al_arena := a, al_large := l\<rparr>) r"
    "regions_ok al M \<Longrightarrow> regions_ok (al\<lparr>al_arena := a, al_large := l\<rparr>) M"
proof -
  note A = alloc_invD [OF inv]
  have mono: "used_end al \<le> arena_base (al_arena al) + arena_next a" using wf(4) by simp
  show "al_shape (al\<lparr>al_arena := a, al_large := l\<rparr>)" using A(1) wf by (simp add: al_shape_def)
  show "slabs_in (al\<lparr>al_arena := a, al_large := l\<rparr>)"
    using A(2) wf(2) mono unfolding slabs_in_def by (fastforce intro: order_trans)
  show r: "region_ok (al\<lparr>al_arena := a, al_large := l\<rparr>) r" if "region_ok al r" for r
    using that wf(2) mono unfolding region_ok_def by (auto intro: order_trans)
  show "regions_ok al M \<Longrightarrow> regions_ok (al\<lparr>al_arena := a, al_large := l\<rparr>) M"
    using r wf(4) unfolding regions_ok_def by auto
qed

section \<open>Finding a block\<close>

text \<open>New arena space for a block: a region at the end of the used part, or none fits.\<close>

lemma reserve_large:
  assumes inv: "alloc_inv dbg m al tc R" and bs: "HEADER_SIZE < bs"
  obtains (full) e where "allocate_block (al_arena al) bs = Inl e" "with_request n e = out_of_memory al n" "\<not> block_fits (al_arena al) bs"
  | (got) a b where "allocate_block (al_arena al) bs = Inr (a, b)" "arena_wf a" "arena_base a = arena_base (al_arena al)"
      "arena_len a = arena_len (al_arena al)" "arena_alignment a = arena_alignment (al_arena al)"
      "arena_next (al_arena al) + bs \<le> arena_next a" "used_end al \<le> b" "region_ok (al\<lparr>al_arena := a\<rparr>) (b, bs)"
      "arena_next a < arena_next (al_arena al) + alignment (al_config al) + bs"
proof -
  note A = alloc_invD [OF inv]
  note att = reserve_span_attempt_fits [OF A(5) arena_wfD(5) [OF A(5)], of bs]
  show ?thesis
  proof (cases "block_fits (al_arena al) bs")
    case False
    then obtain e where e: "reserve_span_attempt (al_arena al) bs (arena_next (al_arena al)) = Inl e"
      using att unfolding block_fits_def by (metis sum.exhaust)
    then have "with_request n e = out_of_memory al n"
      by (auto simp: reserve_span_attempt_def with_request_def out_of_memory_def arena_remaining_bytes_def
          split: option.splits if_splits)
    then show ?thesis using full False e bs by (simp add: allocate_block_def reserve_span_def)
  next
    case True
    then obtain fin span where "reserve_span_attempt (al_arena al) bs (arena_next (al_arena al)) = Inr (fin, span)"
      using att unfolding block_fits_def by (metis surj_pair)
    then obtain a where res: "reserve_span (al_arena al) bs = Inr (a, span)" using bs by (simp add: reserve_span_def)
    note S = reserve_span_ok [OF A(5) res]
    have slab: "fst (snd g) \<le> span_start span" if "g \<in> geos (al_central al) c" for c g
      using A(2) that S(6) unfolding slabs_in_def by (meson order_trans)
    have "region_ok (al\<lparr>al_arena := a\<rparr>) (span_start span, bs)"
      using S(2,6,7,8) A(1) bs slab unfolding region_ok_def al_shape_def by auto
    moreover have "allocate_block (al_arena al) bs = Inr (a, span_start span)" using res by (simp add: allocate_block_def)
    moreover have "arena_next (al_arena al) + bs \<le> arena_next a" using S(6,7) by linarith
    moreover have "arena_next a < arena_next (al_arena al) + alignment (al_config al) + bs"
      using reserve_span_padding [OF A(5) res] A(1) by (simp add: al_shape_def)
    ultimately show ?thesis using got S(1-4,6) by simp
  qed
qed

lemma large_block_spec:
  assumes inv: "alloc_inv dbg m al tc R" and bs: "HEADER_SIZE < bs"
  obtains (oom) "large_block dbg al n bs (bs - HEADER_SIZE) = Some (al, Inl (out_of_memory al n))"
      "\<not> block_fits (al_arena al) bs" "\<forall>f. f \<in># large_free (al_large al) \<longrightarrow> free_block_size f < bs"
  | (ok) a l b sz where
      "large_block dbg al n bs (bs - HEADER_SIZE) = Some (al\<lparr>al_arena := a, al_large := l\<rparr>, Inr (b, sz, sz - HEADER_SIZE))"
      "bs \<le> sz" "arena_wf a" "arena_base a = arena_base (al_arena al)" "arena_len a = arena_len (al_arena al)"
      "arena_alignment a = arena_alignment (al_arena al)" "arena_next (al_arena al) \<le> arena_next a"
      "large_inv l" "live l = live (al_large al)" "set_mset (large_regions l) \<subseteq> set_mset (large_regions (al_large al))"
      "regions_ok (al\<lparr>al_arena := a, al_large := l\<rparr>) (add_mset (b, sz) (large_regions l))"
      "sz < 2 ^ 32 + HEADER_SIZE \<or> sz = bs \<and> l = al_large al \<and> arena_next (al_arena al) + bs \<le> arena_next a"
      "a = al_arena al \<and> large_regions (al_large al) = add_mset (b, sz) (large_regions l) \<or>
       (\<forall>f. f \<in># large_free (al_large al) \<longrightarrow> free_block_size f < bs) \<and> l = al_large al \<and> sz = bs \<and>
       arena_next a < arena_next (al_arena al) + alignment (al_config al) + bs"
proof -
  note A = alloc_invD [OF inv]
  have L: "large_inv (al_large al)" "\<forall>reg\<in>#large_regions (al_large al). snd reg < 2 ^ 32 + HEADER_SIZE"
    "regions_ok al (large_regions (al_large al))" using A(3) by (auto simp: large_ok_def)
  obtain l r where t: "take_best_fit_block dbg (al_large al) bs = Some (l, r)" "large_inv l" "live l = live (al_large al)"
    "case r of None \<Rightarrow> l = al_large al \<and> (\<forall>b. b \<in># large_free (al_large al) \<longrightarrow> free_block_size b < bs)
     | Some b \<Rightarrow> large_free (al_large al) = add_mset b (large_free l) \<and> bs \<le> free_block_size b \<and>
        (\<forall>c. c \<in># large_free (al_large al) \<longrightarrow> bs \<le> free_block_size c \<longrightarrow> free_block_size b \<le> free_block_size c)"
    by (rule take_best_fit_block_spec [OF L(1)])
  show ?thesis
  proof (cases r)
    case (Some f)
    let ?b = "free_block_addr f" and ?sz = "free_block_size f"
    have free: "large_free (al_large al) = add_mset f (large_free l)" "bs \<le> ?sz" using t(4) Some by auto
    have reg: "large_regions (al_large al) = add_mset (?b, ?sz) (large_regions l)"
      by (simp add: large_regions_def t(3) free(1))
    have ro: "region_ok al (?b, ?sz)" using L(3) unfolding reg regions_ok_add by blast
    then have "0 < ?b" using arena_wfD(3) [OF A(5)] by (simp add: region_ok_def)
    then have run: "large_block dbg al n bs (bs - HEADER_SIZE) = Some (al\<lparr>al_arena := al_arena al, al_large := l\<rparr>, Inr (?b, ?sz, ?sz - HEADER_SIZE))"
      using t(1) Some free(2) bs by (simp add: large_block_def take_reusable_block_def
          FreeLargeBlock_block_start_def FreeLargeBlock_usable_size_def checked_sub_def)
    have "regions_ok (al\<lparr>al_arena := al_arena al, al_large := l\<rparr>) (add_mset (?b, ?sz) (large_regions l))"
      by (rule grow_arena(4) [OF inv A(5)]) (use L(3) in \<open>simp_all add: reg\<close>)
    moreover have "?sz < 2 ^ 32 + HEADER_SIZE" using L(2) by (simp add: reg)
    ultimately show ?thesis using ok [OF run free(2) A(5)] t(2,3) reg by auto
  next
    case None
    then have l: "l = al_large al" "\<forall>b. b \<in># large_free (al_large al) \<longrightarrow> free_block_size b < bs" using t(4) by auto
    show ?thesis
    proof (rule reserve_large [OF inv bs, of n])
      fix e assume e: "allocate_block (al_arena al) bs = Inl e" "with_request n e = out_of_memory al n" "\<not> block_fits (al_arena al) bs"
      then have "large_block dbg al n bs (bs - HEADER_SIZE) = Some (al, Inl (out_of_memory al n))"
        using t(1) None l(1) bs by (simp add: large_block_def take_reusable_block_def)
      then show ?thesis using e(3) l(2) by (rule oom)
    next
      fix a b
      let ?al = "al\<lparr>al_arena := a, al_large := al_large al\<rparr>"
      assume g: "allocate_block (al_arena al) bs = Inr (a, b)" "arena_wf a" "arena_base a = arena_base (al_arena al)"
        "arena_len a = arena_len (al_arena al)" "arena_alignment a = arena_alignment (al_arena al)"
        "arena_next (al_arena al) + bs \<le> arena_next a" "used_end al \<le> b" "region_ok (al\<lparr>al_arena := a\<rparr>) (b, bs)"
        "arena_next a < arena_next (al_arena al) + alignment (al_config al) + bs"
      have run: "large_block dbg al n bs (bs - HEADER_SIZE) = Some (?al, Inr (b, bs, bs - HEADER_SIZE))"
        using t(1) None l(1) g(1) bs by (simp add: large_block_def take_reusable_block_def)
      have "apart (b, bs) s" if "s \<in># large_regions (al_large al)" for s
      proof -
        have "fst s + snd s \<le> used_end al" using L(3) that by (auto simp: regions_ok_def region_ok_def)
        then show ?thesis using g(7) by (simp add: apart_def)
      qed
      moreover have "regions_ok ?al (large_regions (al_large al))"
        by (rule grow_arena(4) [OF inv g(2,3,5)]) (use g(6) L(3) in simp_all)
      moreover have "bs + sum_mset (image_mset snd (large_regions (al_large al))) \<le> arena_next a"
        using L(3) g(6) unfolding regions_ok_def by linarith
      ultimately have "regions_ok ?al (add_mset (b, bs) (large_regions (al_large al)))" using g(8) by (simp add: regions_ok_add)
      then show ?thesis using ok [OF run order_refl g(2-5)] g(6,9) L(1) l(2) by simp
    qed
  qed
qed

section \<open>Large allocation\<close>

text \<open>A change outside the slabs does not disturb what is held.\<close>

lemma held_outside:
  assumes inv: "held_inv dbg m cp tc R" and same: "\<And>x c. x \<in> set (central_all cp c) \<Longrightarrow> m' x = m x"
  shows "held_inv dbg m' cp tc R"
proof -
  note D = held_invD [OF inv]
  have cen: "m' x = m x" if "x \<in># central_blocks m cp d" for x d
    by (rule same [of x d]) (use held_apart(5) [OF inv] that in blast)
  have tcs: "m' x = m x" if "x \<in># tc_blocks m tc d" for x d
    by (rule same [of x d]) (use held_apart(5) [OF inv] that in blast)
  have K: "central_inv (idle_header dbg) m' cp" "central_blocks m' cp d = central_blocks m cp d" for d
    by (rule central_inv_keep [OF D(1)], erule cen)+
  have T: "tc_inv dbg (geos cp) m' tc" "tc_blocks m' tc d = tc_blocks m tc d" for d
    by (rule tc_keep [OF D(3)], erule tcs)+
  show ?thesis using inv K T by (simp add: held_inv_def)
qed

lemma region_not_block:
  assumes inv: "alloc_inv dbg m al tc R" and reg: "region_ok al (b, sz)" and x: "x \<in> set (central_all (al_central al) c)"
  shows "apart (b, sz) (x, class_block_size (al_config al) c)" "x \<noteq> b"
proof -
  obtain start cap i where g: "(start, start + class_block_size (al_config al) c * cap, class_block_size (al_config al) c, cap)
      \<in> geos (al_central al) c" "x = start + i * class_block_size (al_config al) c"
    "x + class_block_size (al_config al) c \<le> start + class_block_size (al_config al) c * cap"
    by (rule alloc_block [OF inv x])
  have "b + sz \<le> start \<or> start + class_block_size (al_config al) c * cap \<le> b"
    using reg g(1) unfolding region_ok_def by fastforce
  then show ap: "apart (b, sz) (x, class_block_size (al_config al) c)" using g(2,3) by (auto simp: apart_def)
  have "0 < sz" using reg by (simp add: region_ok_def HEADER_SIZE_def)
  then show "x \<noteq> b" using ap class_block_size_pos [of "al_config al" c] by (auto simp: apart_def)
qed

text \<open>The block size of a large request; \<open>None\<close> when it does not fit the machine.\<close>

definition large_block_size :: "AllocatorConfig \<Rightarrow> usize \<Rightarrow> usize option" where
  "large_block_size cfg n = (case checked_add HEADER_SIZE n of None \<Rightarrow> None | Some t \<Rightarrow> align_up_checked t (alignment cfg))"

lemma large_block_size_props:
  assumes "large_block_size cfg n = Some bs" "0 < alignment cfg"
  shows "HEADER_SIZE + n \<le> bs" "alignment cfg dvd bs" "bs < HEADER_SIZE + n + alignment cfg" "bs \<le> usize_max"
proof -
  have t: "align_up_checked (HEADER_SIZE + n) (alignment cfg) = Some bs" "HEADER_SIZE + n \<le> usize_max"
    using assms(1) by (auto simp: large_block_size_def checked_add_def split: option.splits if_splits)
  note p = alloc_al.round_up_SomeD [OF t(1) assms(2)]
  show "HEADER_SIZE + n \<le> bs" "alignment cfg dvd bs" "bs < HEADER_SIZE + n + alignment cfg" "bs \<le> usize_max"
    using p t(2) by auto
qed

definition large_record :: "addr \<Rightarrow> usize \<Rightarrow> usize \<Rightarrow> LargeAllocationRecord" where
  "large_record b sz n = \<lparr>rec_block_addr = b, rec_block_size = sz, rec_requested_size = n, rec_usable_size = sz - HEADER_SIZE\<rparr>"

text \<open>Recording the live allocation of a region that has been taken out of the pool.\<close>

lemma install_large:
  assumes inv: "alloc_inv dbg m al tc R" and al': "al' = al\<lparr>al_arena := a, al_large := l\<rparr>"
    and a: "arena_wf a" "arena_base a = arena_base (al_arena al)" "arena_alignment a = arena_alignment (al_arena al)"
      "arena_next (al_arena al) \<le> arena_next a"
    and l: "large_inv l" "live l = live (al_large al)" "set_mset (large_regions l) \<subseteq> set_mset (large_regions (al_large al))"
    and reg: "regions_ok al' (add_mset (b, sz) (large_regions l))" and sz: "sz < 2 ^ 32 + HEADER_SIZE" "HEADER_SIZE + n \<le> sz"
    and n: "max_small_request < n"
    and m': "m' = write_encoded_fields m b Large_tag LARGE_CLASS_SENTINEL (word_of_nat n) (word_of_nat (sz - HEADER_SIZE)) 0"
  obtains l' where "record_live_allocation dbg l (b + HEADER_SIZE) b sz n (sz - HEADER_SIZE) = Some l'"
    "alloc_inv dbg m' (al'\<lparr>al_large := l'\<rparr>) tc R" "live l' = (b + HEADER_SIZE, large_record b sz n) # live (al_large al)"
    "large_free l' = large_free l"
proof -
  note A = alloc_invD [OF inv]
  note G = grow_arena [OF inv a, folded al']
  have L: "\<And>p r. (p, r) \<in> set (live (al_large al)) \<Longrightarrow> live_large_ok m p r"
    "\<forall>reg\<in>#large_regions (al_large al). snd reg < 2 ^ 32 + HEADER_SIZE" using A(3) by (auto simp: large_ok_def)
  have R: "region_ok al' (b, sz)" "\<And>s. s \<in># large_regions l \<Longrightarrow> apart (b, sz) s"
    using reg by (auto simp: regions_ok_add)
  have old: "rec_block_addr r \<noteq> b" if "(p, r) \<in> set (live l)" for p r
    using R(2) [OF live_region [OF that]] sz(2) L(1) [of p r] that
    by (auto simp: apart_def l(2) live_large_ok_def HEADER_SIZE_def)
  have fresh: "map_of (live l) (b + HEADER_SIZE) = None"
  proof (rule ccontr)
    assume "map_of (live l) (b + HEADER_SIZE) \<noteq> None"
    then obtain r where "(b + HEADER_SIZE, r) \<in> set (live l)" by (auto dest: map_of_SomeD)
    then show False using old L(1) [of "b + HEADER_SIZE" r] by (auto simp: l(2) live_large_ok_def)
  qed
  have "live_bytes l + free_bytes l + sum_mset (image_mset snd {#(b, sz)#}) \<le> usize_max"
    by (rule large_bounds(1) [of al']) (use a(1) reg l(1) in \<open>simp_all add: al'\<close>)
  then have fit: "live_bytes l + sz \<le> usize_max" by simp
  have pos: "0 < n" "n \<le> sz - HEADER_SIZE" using n sz(2) by auto
  obtain l' where r: "record_live_allocation dbg l (b + HEADER_SIZE) b sz n (sz - HEADER_SIZE) = Some l'"
    "large_inv l'" "large_free l' = large_free l" "live l' = (b + HEADER_SIZE, large_record b sz n) # live l"
    by (rule record_live_allocation_spec [OF l(1) fresh pos fit, where dbg = dbg and block_start = b])
      (simp add: large_record_def)
  let ?al = "al'\<lparr>al_large := l'\<rparr>"
  have reg': "large_regions l' = add_mset (b, sz) (large_regions l)"
    by (simp add: large_regions_def r(3,4) large_record_def)
  have same: "m' x = m x" if "x \<noteq> b" for x using that by (simp add: m' write_encoded_fields_def)
  have hd: "large_header n (sz - HEADER_SIZE) (m' b)"
    by (simp add: m' write_encoded_fields_def large_header_def)
  have "live_large_ok m' p q" if "(p, q) \<in> set (live l')" for p q
  proof (cases "(p, q) \<in> set (live l)")
    case True
    then show ?thesis using old [OF True] same L(1) [of p q] by (simp add: l(2) live_large_ok_def)
  next
    case False
    then have "p = b + HEADER_SIZE" "q = large_record b sz n" using that by (auto simp: r(4))
    then show ?thesis using hd sz(2) n pos(2) by (simp add: live_large_ok_def large_record_def)
  qed
  moreover have "\<forall>reg\<in>#large_regions l'. snd reg < 2 ^ 32 + HEADER_SIZE" using L(2) l(3) sz(1) by (auto simp: reg')
  moreover have "regions_ok ?al (large_regions l')" using reg unfolding reg' regions_ok_def region_ok_def by simp
  ultimately have "large_ok m' ?al" using r(2) by (simp add: large_ok_def)
  moreover have "held_inv dbg m' (al_central al) tc R"
  proof (rule held_outside [OF A(4)], rule same)
    fix x c assume x: "x \<in> set (central_all (al_central al) c)"
    have "\<exists>g\<in>geos (al_central al) c. fst g \<le> x \<and> x + HEADER_SIZE \<le> fst (snd g)"
      by (rule block_outside [OF held_invD(1) [OF A(4)] x])
    moreover have "\<forall>g\<in>geos (al_central al) c. b + sz \<le> fst g \<or> fst (snd g) \<le> b"
      using R(1) by (auto simp: region_ok_def al')
    ultimately show "x \<noteq> b" using sz(2) by (fastforce simp: HEADER_SIZE_def)
  qed
  ultimately have "alloc_inv dbg m' ?al tc R"
    using G(1,2) unfolding alloc_inv_def al_shape_def slabs_in_def by (simp add: al')
  then show ?thesis using that r(1,3,4) l(2) by simp
qed

text \<open>
  A large allocation fails when the block size is not representable, when the usable size
  does not fit the 32-bit header field, or when neither the pool nor the arena has a block.
  In the second case the arena space of the block is spent (\<open>arena_next\<close> has moved).
\<close>

definition large_full :: "Allocator \<Rightarrow> usize \<Rightarrow> bool" where
  "large_full al n \<longleftrightarrow> (case large_block_size (al_config al) n of None \<Rightarrow> True
     | Some bs \<Rightarrow> 2 ^ 32 + HEADER_SIZE \<le> bs \<or>
         (\<not> block_fits (al_arena al) bs \<and> (\<forall>f. f \<in># large_free (al_large al) \<longrightarrow> free_block_size f < bs)))"

text \<open>
  What a large allocation takes from the arena: nothing when a free block is reused, and one
  block of the rounded size when every free block is too small.
\<close>

definition large_drawn :: "Allocator \<Rightarrow> usize \<Rightarrow> Allocator \<Rightarrow> bool" where
  "large_drawn al n al' \<longleftrightarrow>
     al_arena al' = al_arena al \<and> large_regions (al_large al') = large_regions (al_large al) \<or>
     (\<exists>b bs. large_block_size (al_config al) n = Some bs \<and> (\<forall>f. f \<in># large_free (al_large al) \<longrightarrow> free_block_size f < bs) \<and>
       large_regions (al_large al') = add_mset (b, bs) (large_regions (al_large al)) \<and>
       arena_next (al_arena al') < arena_next (al_arena al) + alignment (al_config al) + bs)"

lemma allocate_large_unfold:
  assumes "large_block_size (al_config al) n = Some bs" "HEADER_SIZE < bs"
  shows "allocate_large dbg m al n = do {
    (al1, r) \<leftarrow> large_block dbg al n bs (bs - HEADER_SIZE);
    (case r of
       Inl e \<Rightarrow> Some (m, al1, Inl e)
     | Inr (b, actual, usable') \<Rightarrow> do {
         w \<leftarrow> write_large_to_block dbg m b n usable';
         (case w of
            None \<Rightarrow> Some (m, al1, Inl (out_of_memory al1 n))
          | Some (m1, _) \<Rightarrow> do {
              let user = user_ptr_from_block_start b;
              large \<leftarrow> record_live_allocation dbg (al_large al1) user b actual n usable';
              Some (m1, al1\<lparr>al_large := large\<rparr>, Inr user) }) }) }"
  using assms by (auto simp: allocate_large_def large_block_size_def checked_sub_def split: option.splits)

lemma write_large_oversized:
  "2 ^ 32 \<le> usable \<Longrightarrow> write_large_to_block dbg m b n usable = Some None"
  by (auto simp: write_large_to_block_def encode_large_fields_def u32_try_from_def split: option.splits)

lemma allocate_large_spec:
  assumes inv: "alloc_inv dbg m al tc R" and n: "max_small_request < n"
  obtains (oom) a where "allocate_large dbg m al n = Some (m, al\<lparr>al_arena := a\<rparr>, Inl (out_of_memory (al\<lparr>al_arena := a\<rparr>) n))"
      "alloc_inv dbg m (al\<lparr>al_arena := a\<rparr>) tc R" "arena_base a = arena_base (al_arena al)"
      "arena_len a = arena_len (al_arena al)" "arena_next (al_arena al) \<le> arena_next a" "large_full al n"
  | (ok) m' a l b sz where "allocate_large dbg m al n = Some (m', al\<lparr>al_arena := a, al_large := l\<rparr>, Inr (b + HEADER_SIZE))"
      "alloc_inv dbg m' (al\<lparr>al_arena := a, al_large := l\<rparr>) tc R" "arena_base a = arena_base (al_arena al)"
      "arena_len a = arena_len (al_arena al)" "arena_next (al_arena al) \<le> arena_next a"
      "live l = (b + HEADER_SIZE, large_record b sz n) # live (al_large al)" "HEADER_SIZE + n \<le> sz" "\<forall>x. x \<noteq> b \<longrightarrow> m' x = m x"
      "large_drawn al n (al\<lparr>al_arena := a, al_large := l\<rparr>)"
proof -
  note A = alloc_invD [OF inv]
  have fail: thesis if "allocate_large dbg m al n = Some (m, al, Inl (out_of_memory al n))" "large_full al n"
    using oom [of "al_arena al"] that inv by simp
  show ?thesis
  proof (cases "large_block_size (al_config al) n")
    case None
    then have "allocate_large dbg m al n = Some (m, al, Inl (out_of_memory al n))"
      by (auto simp: allocate_large_def large_block_size_def split: option.splits)
    then show ?thesis by (rule fail) (simp add: large_full_def None)
  next
    case (Some bs)
    note B = large_block_size_props [OF Some A(7)]
    have bs: "HEADER_SIZE < bs" using B(1) n by linarith
    note run = allocate_large_unfold [OF Some bs]
    show ?thesis
    proof (rule large_block_spec [OF inv bs, of n])
      assume "large_block dbg al n bs (bs - HEADER_SIZE) = Some (al, Inl (out_of_memory al n))"
        "\<not> block_fits (al_arena al) bs" "\<forall>f. f \<in># large_free (al_large al) \<longrightarrow> free_block_size f < bs"
      then show ?thesis by (intro fail) (simp_all add: run large_full_def Some)
    next
      fix a l b sz
      let ?al = "al\<lparr>al_arena := a, al_large := l\<rparr>"
      assume lb: "large_block dbg al n bs (bs - HEADER_SIZE) = Some (?al, Inr (b, sz, sz - HEADER_SIZE))" "bs \<le> sz"
        and a: "arena_wf a" "arena_base a = arena_base (al_arena al)" and len: "arena_len a = arena_len (al_arena al)"
        and a': "arena_alignment a = arena_alignment (al_arena al)" "arena_next (al_arena al) \<le> arena_next a"
        and l: "large_inv l" "live l = live (al_large al)" "set_mset (large_regions l) \<subseteq> set_mset (large_regions (al_large al))"
        and reg: "regions_ok ?al (add_mset (b, sz) (large_regions l))"
        and small: "sz < 2 ^ 32 + HEADER_SIZE \<or> sz = bs \<and> l = al_large al \<and> arena_next (al_arena al) + bs \<le> arena_next a"
        and source: "a = al_arena al \<and> large_regions (al_large al) = add_mset (b, sz) (large_regions l) \<or>
          (\<forall>f. f \<in># large_free (al_large al) \<longrightarrow> free_block_size f < bs) \<and> l = al_large al \<and> sz = bs \<and>
          arena_next a < arena_next (al_arena al) + alignment (al_config al) + bs"
      have sz: "HEADER_SIZE + n \<le> sz" using B(1) lb(2) by linarith
      have rb: "region_ok ?al (b, sz)" using reg by (simp add: regions_ok_add)
      have bd: "b + sz \<le> usize_max" using rb arena_wfD(4,5) [OF a(1)] by (simp add: region_ok_def)
      show ?thesis
      proof (cases "sz < 2 ^ 32 + HEADER_SIZE")
        case True
        define m' where "m' = write_encoded_fields m b Large_tag LARGE_CLASS_SENTINEL (word_of_nat n) (word_of_nat (sz - HEADER_SIZE)) 0"
        obtain l' where r: "record_live_allocation dbg l (b + HEADER_SIZE) b sz n (sz - HEADER_SIZE) = Some l'"
          "alloc_inv dbg m' (?al\<lparr>al_large := l'\<rparr>) tc R" "live l' = (b + HEADER_SIZE, large_record b sz n) # live (al_large al)"
          "large_free l' = large_free l"
          by (rule install_large [OF inv refl a a' l reg True sz n m'_def])
        have al: "b mod HEADER_ALIGNMENT = 0"
          using rb A(6) by (auto simp: region_ok_def HEADER_ALIGNMENT_def dvd_eq_mod_eq_0 [symmetric] intro: dvd_trans)
        have "sz - HEADER_SIZE < 2 ^ 32" "n < 2 ^ 32" "0 < n" "n \<le> sz - HEADER_SIZE" using True sz n by linarith+
        then have w: "write_large_to_block dbg m b n (sz - HEADER_SIZE) = Some (Some (m', b))"
          using al by (simp add: write_large_to_block_def encode_large_fields_def u32_try_from_def header_defs m'_def)
        have u: "user_ptr_from_block_start b = b + HEADER_SIZE" using bd sz by (simp add: user_ptr_from_block_start_def)
        have "allocate_large dbg m al n = Some (m', al\<lparr>al_arena := a, al_large := l'\<rparr>, Inr (b + HEADER_SIZE))"
          using lb(1) w u r(1) by (simp add: run Let_def)
        moreover have "\<forall>x. x \<noteq> b \<longrightarrow> m' x = m x" by (simp add: m'_def write_encoded_fields_def)
        moreover have "large_drawn al n (al\<lparr>al_arena := a, al_large := l'\<rparr>)"
        proof -
          have "large_regions l' = add_mset (b, sz) (large_regions l)"
            by (simp add: large_regions_def r(3,4) l(2) large_record_def)
          then show ?thesis using source Some by (auto simp: large_drawn_def)
        qed
        ultimately show ?thesis using ok r(2,3) a(2) len a'(2) sz by simp
      next
        case False
        then have lost: "sz = bs" "l = al_large al" using small by auto
        have big: "2 ^ 32 \<le> sz - HEADER_SIZE" using False by linarith
        then have w: "write_large_to_block dbg m b n (sz - HEADER_SIZE) = Some None" by (rule write_large_oversized)
        have al: "?al = al\<lparr>al_arena := a\<rparr>" using lost by simp
        have "allocate_large dbg m al n = Some (m, al\<lparr>al_arena := a\<rparr>, Inl (out_of_memory (al\<lparr>al_arena := a\<rparr>) n))"
          using lb(1) w by (simp add: run al)
        moreover have "alloc_inv dbg m (al\<lparr>al_arena := a\<rparr>) tc R"
          using grow_arena(1,2,4) [OF inv a a', where l = "al_large al"] A(3,4) unfolding alloc_inv_def large_ok_def by simp
        moreover have "large_full al n" using False lost by (simp add: large_full_def Some)
        ultimately show ?thesis using oom a(2) len a'(2) by simp
      qed
    qed
  qed
qed

text \<open>
  A request whose usable size exceeds the 32-bit header field is refused only after the
  space has been taken from the arena, and this space is never used again.
\<close>

lemma allocate_large_oversized:
  assumes inv: "alloc_inv dbg m al tc R" and bs: "large_block_size (al_config al) n = Some bs"
    and big: "2 ^ 32 + HEADER_SIZE \<le> bs" and fits: "block_fits (al_arena al) bs"
  obtains a where "allocate_large dbg m al n = Some (m, al\<lparr>al_arena := a\<rparr>, Inl (out_of_memory (al\<lparr>al_arena := a\<rparr>) n))"
    "arena_next (al_arena al) + bs \<le> arena_next a"
proof -
  have h: "HEADER_SIZE < bs" using big by simp
  note run = allocate_large_unfold [OF bs h]
  show ?thesis
  proof (rule large_block_spec [OF inv h, of n])
    assume "\<not> block_fits (al_arena al) bs"
    then show ?thesis using fits by blast
  next
    fix a l b sz
    assume lb: "large_block dbg al n bs (bs - HEADER_SIZE) = Some (al\<lparr>al_arena := a, al_large := l\<rparr>, Inr (b, sz, sz - HEADER_SIZE))"
      "bs \<le> sz"
      and small: "sz < 2 ^ 32 + HEADER_SIZE \<or> sz = bs \<and> l = al_large al \<and> arena_next (al_arena al) + bs \<le> arena_next a"
    then have eq: "l = al_large al" "arena_next (al_arena al) + bs \<le> arena_next a" using big by auto
    have "2 ^ 32 \<le> sz - HEADER_SIZE" using big lb(2) by linarith
    from write_large_oversized [OF this] show ?thesis using that [of a] lb(1) eq by (simp add: run)
  qed
qed

section \<open>Large deallocation\<close>

lemma live_large:
  assumes inv: "alloc_inv dbg m al tc R" and pr: "(p, r) \<in> set (live (al_large al))"
  shows "live_large_ok m p r" "region_ok al (rec_block_addr r, rec_block_size r)" "map_of (live (al_large al)) p = Some r"
    "p = rec_block_addr r + HEADER_SIZE" "rec_block_addr r + rec_block_size r \<le> usize_max" "rec_usable_size r < 2 ^ 32"
    "64 dvd rec_block_addr r"
proof -
  note A = alloc_invD [OF inv]
  have L: "large_inv (al_large al)" "regions_ok al (large_regions (al_large al))" using A(3) by (simp_all add: large_ok_def)
  show ok: "live_large_ok m p r" using A(3) pr unfolding large_ok_def by blast
  show reg: "region_ok al (rec_block_addr r, rec_block_size r)"
    using L(2) live_region [OF pr] unfolding regions_ok_def by blast
  show "map_of (live (al_large al)) p = Some r" using L(1) pr by (simp add: large_inv_def)
  show "p = rec_block_addr r + HEADER_SIZE" using ok by (simp add: live_large_ok_def)
  show "rec_block_addr r + rec_block_size r \<le> usize_max"
    using reg arena_wfD(4,5) [OF A(5)] by (simp add: region_ok_def)
  have "rec_block_size r < 2 ^ 32 + HEADER_SIZE" using A(3) live_region [OF pr] unfolding large_ok_def by fastforce
  then show "rec_usable_size r < 2 ^ 32" using ok by (simp add: live_large_ok_def)
  show "64 dvd rec_block_addr r" using reg A(6) by (auto simp: region_ok_def intro: dvd_trans)
qed

lemma decode_large_spec:
  assumes inv: "alloc_inv dbg m al tc R" and pr: "(p, r) \<in> set (live (al_large al))"
  obtains h where "decode_header m p = Some (Inr (h, Large))" "header_requested_size h = rec_requested_size r"
    "header_usable_size h = rec_usable_size r"
proof -
  note L = live_large [OF inv pr]
  let ?b = "rec_block_addr r"
  have ok: "rec_block_size r = rec_usable_size r + HEADER_SIZE" "max_small_request < rec_requested_size r"
    "rec_requested_size r \<le> rec_usable_size r" "large_header (rec_requested_size r) (rec_usable_size r) (m ?b)"
    using L(1) by (auto simp: live_large_ok_def)
  have le: "?b + HEADER_SIZE \<le> usize_max" using L(5) ok(1) by linarith
  have u: "user_ptr_from_block_start ?b = p" using le L(4) by (simp add: user_ptr_from_block_start_def)
  have small: "rec_requested_size r < 2 ^ 32" "0 < rec_requested_size r" using ok(2,3) L(6) by linarith+
  let ?h = "from_encoded_fields Large_tag LARGE_CLASS_SENTINEL (word_of_nat (rec_requested_size r))
     (word_of_nat (rec_usable_size r)) (owner_cache_id (m ?b))"
  have nz: "(word_of_nat (rec_requested_size r) :: u32) \<noteq> 0"
    using small unat_u32_of_nat [of "rec_requested_size r"] by (metis unat_0 less_irrefl)
  have ge: "\<not> (word_of_nat (rec_usable_size r) :: u32) < word_of_nat (rec_requested_size r)"
    using small L(6) ok(3) by (simp add: word_less_nat_alt)
  have "read_from_user_ptr m p = Some (Inr (?h, Large))"
    unfolding u [symmetric] using ok(4) le nz ge
    by (simp add: read_from_user_ptr_def read_prefix_def header_prefix_from_user_ptr_def
      header_prefix_from_block_start_def block_start_user_ptr_inverse validate_prefix_def
      AllocationHeaderPrefix.truncate_def large_header_def valid_tag_def)
  then have "decode_header m p = Some (Inr (?h, Large))"
    using L(4,7) by (simp add: decode_header_def checked_sub_def is_multiple_of_def HEADER_ALIGNMENT_def)
  then show ?thesis
    by (rule that) (use small L(6) in \<open>simp_all add: from_encoded_fields_def header_requested_size_def header_usable_size_def\<close>)
qed

lemma release_large_spec:
  assumes inv: "alloc_inv dbg m al tc R" and pr: "(p, r) \<in> set (live (al_large al))"
    and h: "header_requested_size h = rec_requested_size r" "header_usable_size h = rec_usable_size r"
  obtains l where "release_large al p h = Some (al\<lparr>al_large := l\<rparr>, Inr ())"
    "alloc_inv dbg m (al\<lparr>al_large := l\<rparr>) tc R" "live l = filter (\<lambda>(k, _). k \<noteq> p) (live (al_large al))"
    "large_free l = add_mset \<lparr>free_block_addr = rec_block_addr r, free_block_size = rec_block_size r\<rparr> (large_free (al_large al))"
    "large_regions l = large_regions (al_large al)"
proof -
  note A = alloc_invD [OF inv] and L = live_large [OF inv pr]
  let ?st = "al_large al" and ?f = "\<lparr>free_block_addr = rec_block_addr r, free_block_size = rec_block_size r\<rparr>"
  have li: "large_inv ?st" "regions_ok al (large_regions ?st)" using A(3) by (simp_all add: large_ok_def)
  have bnd: "live_bytes ?st + free_bytes ?st \<le> usize_max" "length (live ?st) + free_blocks ?st \<le> usize_max"
    using large_bounds [of al ?st "{#}"] A(5) li by simp_all
  have "length (live ?st) \<noteq> 0" using pr by auto
  moreover have "rec_block_size r \<le> live_bytes ?st"
    using li(1) member_le_sum_list [of "rec_block_size r" "map (rec_block_size \<circ> snd) (live ?st)"] pr
    by (force simp: large_inv_def)
  ultimately have fit: "free_blocks ?st < usize_max" "free_bytes ?st + rec_block_size r \<le> usize_max" using bnd by linarith+
  obtain l where r: "validate_and_release_live_allocation ?st p (header_requested_size h) (header_usable_size h) = Some (l, Inr ())"
    "large_inv l" "live l = filter (\<lambda>(k, _). k \<noteq> p) (live ?st)" "live_bytes l + rec_block_size r = live_bytes ?st"
    "large_free l = add_mset ?f (large_free ?st)"
    by (rule release_spec [OF li(1) L(3) _ _ fit]) (use h in simp_all)
  have "mset (live ?st) = add_mset (p, r) (mset (filter (\<lambda>(k, _). k \<noteq> p) (live ?st)))"
    by (rule live_remove) (use li(1) L(3) in \<open>simp_all add: large_inv_def\<close>)
  then have reg: "large_regions l = large_regions ?st"
    unfolding large_regions_def r(3,5) by (simp del: mset_filter)
  have "large_ok m (al\<lparr>al_large := l\<rparr>)"
    using A(3) r(2,3) unfolding large_ok_def regions_ok_def region_ok_def by (simp add: reg)
  then have "alloc_inv dbg m (al\<lparr>al_large := l\<rparr>) tc R"
    using inv unfolding alloc_inv_def al_shape_def slabs_in_def by simp
  moreover have "release_large al p h = Some (al\<lparr>al_large := l\<rparr>, Inr ())" using r(1) by (simp add: release_large_def)
  ultimately show ?thesis using that r(3,5) reg by simp
qed

end
