(* ===== verification/Allocator_Entry.thy ===== *)
theory Allocator_Entry
  imports Allocator_Large
begin

text \<open>
  The entry points of \<^verbatim>\<open>src/src/allocator.rs\<close> on one thread cache, with every outcome:
  binding the cache, allocation, both forms of deallocation, draining and statistics.
\<close>

section \<open>Binding a cache\<close>

text \<open>A cache can be used with an allocator that it is bound to, or when it is empty.\<close>

definition bindable :: "ThreadCache \<Rightarrow> Allocator \<Rightarrow> bool" where
  "bindable tc al \<longleftrightarrow> tc_owner tc = Some (al_id al) \<or> ThreadCache_is_empty tc"

lemma empty_cache_blocks:
  assumes inv: "tc_inv dbg G m tc" and e: "ThreadCache_is_empty tc"
  shows "tc_blocks m tc c = {#}"
proof -
  note T = tc_invD [OF inv, of c]
  have "lc_total_len (tclass tc c) = 0" "rr_pending_len (tremote tc c) = 0"
    using e T(1,2) by (auto simp: ThreadCache_is_empty_def list_all_length)
  then show ?thesis using lc_invD(3) [OF T(3)] T(4) by (simp add: tc_blocks_def rr_inv_def)
qed

lemma fresh_cache_inv:
  assumes "tc_classes tc = replicate NUM_CLASSES LocalClassCache_new" "tc_remote_returns tc = replicate NUM_CLASSES RemoteReturnCache_new"
    "tc_class_config tc = class_config_table (tc_config tc)"
  shows "tc_inv dbg G m tc" "tc_blocks m tc c = {#}" "ThreadCache_is_empty tc"
proof -
  have n: "tclass tc d = LocalClassCache_new" "tremote tc d = RemoteReturnCache_new" for d using assms by simp_all
  show "tc_inv dbg G m tc" using assms n by (simp add: tc_inv_def)
  show "tc_blocks m tc c = {#}" by (simp add: tc_blocks_def n)
  show "ThreadCache_is_empty tc"
    by (simp add: ThreadCache_is_empty_def assms list_all_iff LocalClassCache_new_def RemoteReturnCache_new_def)
qed

lemma bind_spec:
  assumes inv: "alloc_inv dbg m al tc R" and b: "bindable tc al"
  obtains tc0 where "bind_to_allocator tc (al_id al) (al_config al) = Some tc0" "alloc_inv dbg m al tc0 R"
    "tc_owner tc0 = Some (al_id al)" "\<forall>c. tc_blocks m tc0 c = tc_blocks m tc c" "tc_cache_id tc0 = tc_cache_id tc"
proof (cases "tc_owner tc = Some (al_id al)")
  case True
  then show ?thesis using that [of tc] inv by (simp add: bind_to_allocator_def)
next
  case False
  then have e: "ThreadCache_is_empty tc" using b by (simp add: bindable_def)
  let ?tc = "(reset_for_rebind tc)\<lparr>tc_config := al_config al, tc_class_config := class_config_table (al_config al),
      tc_owner := Some (al_id al)\<rparr>"
  note A = alloc_invD [OF inv]
  note D = held_invD [OF A(4)]
  have f: "tc_inv dbg G m ?tc" "tc_blocks m ?tc c = {#}" for G c
    by (rule fresh_cache_inv; simp add: reset_for_rebind_def)+
  have eq: "tc_blocks m ?tc c = tc_blocks m tc c" for c using f(2) empty_cache_blocks [OF D(3) e] by simp
  have "held_inv dbg m (al_central al) ?tc R" using A(4) f(1) unfolding held_inv_def eq by blast
  then have "alloc_inv dbg m al ?tc R" using inv by (simp add: alloc_inv_def)
  moreover have "bind_to_allocator tc (al_id al) (al_config al) = Some ?tc" using False e by (simp add: bind_to_allocator_def)
  ultimately show ?thesis using that [of ?tc] eq by (simp add: reset_for_rebind_def)
qed

text \<open>A cache that holds blocks of another allocator is refused: the code panics.\<close>

lemma bind_refused: "\<not> bindable tc al \<Longrightarrow> bind_to_allocator tc (al_id al) (al_config al) = None"
  by (simp add: bind_to_allocator_def bindable_def assert_that_def)

section \<open>Allocation\<close>

definition al_keeps :: "Allocator \<Rightarrow> Allocator \<Rightarrow> bool" where
  "al_keeps al al' \<longleftrightarrow> al_id al' = al_id al \<and> al_config al' = al_config al \<and>
     arena_base (al_arena al') = arena_base (al_arena al) \<and> arena_len (al_arena al') = arena_len (al_arena al) \<and>
     (\<forall>c. geos (al_central al) c \<subseteq> geos (al_central al') c)"

lemma al_grows_keeps: "al_grows al al' \<Longrightarrow> al_keeps al al'"
  by (simp add: al_grows_def al_keeps_def)

text \<open>No class can run its epoch counter over within one operation.\<close>

definition epochs_low :: "CentralPool \<Rightarrow> bool" where
  "epochs_low cp \<longleftrightarrow> (\<forall>c. cp_epoch (cpool cp c) + 4 \<le> usize_max)"

lemma epochs_lowD: "epochs_low cp \<Longrightarrow> cp_epoch (cpool cp c) + 4 \<le> usize_max" "epochs_low cp \<Longrightarrow> epoch_room cp c"
  unfolding epochs_low_def epoch_room_def by (blast, drule spec [of _ c], linarith)

text \<open>When an allocation of \<open>n\<close> bytes has to be refused.\<close>

definition exhausted :: "heap \<Rightarrow> Allocator \<Rightarrow> ThreadCache \<Rightarrow> usize \<Rightarrow> bool" where
  "exhausted m al tc n \<longleftrightarrow> (case from_request n of
      None \<Rightarrow> large_full al n
    | Some c \<Rightarrow> lc_blocks m (tclass tc c) = {#} \<and> central_blocks m (al_central al) c = {#} \<and>
        \<not> block_fits (al_arena al) (class_block_size (al_config al) c))"

text \<open>Every operation but draining raises an epoch by at most four.\<close>

definition epochs_rise :: "CentralPool \<Rightarrow> CentralPool \<Rightarrow> bool" where
  "epochs_rise cp cp' \<longleftrightarrow> (\<forall>d. cp_epoch (cpool cp' d) \<le> cp_epoch (cpool cp d) + 4)"

lemma moved_epochs_rise: "moved dbg k F R m al tc m' al' tc' \<Longrightarrow> k \<le> 2 \<Longrightarrow> epochs_rise (al_central al) (al_central al')"
  unfolding epochs_rise_def using movedD(5) by (fastforce intro: order_trans)

lemma epochs_rise_refl [simp]: "epochs_rise cp cp"
  by (simp add: epochs_rise_def)

lemma allocate_with_cache_spec:
  assumes inv: "alloc_inv dbg m al tc R" and b: "bindable tc al" and os: "madvise_ok sys" and ep: "epochs_low (al_central al)"
  obtains (zero) tc' where "n = 0" "allocate_with_cache dbg sys m al tc n = Some (m, al, tc', Inl ZeroSize)"
      "alloc_inv dbg m al tc' R" "tc_owner tc' = Some (al_id al)"
  | (failed) m' al' tc' where "0 < n"
      "allocate_with_cache dbg sys m al tc n = Some (m', al', tc', Inl (out_of_memory al' n))"
      "alloc_inv dbg m' al' tc' R" "tc_owner tc' = Some (al_id al)" "al_keeps al al'" "rest_frame (al_central al') R m m'"
      "al_large al' = al_large al" "exhausted m al tc n" "epochs_rise (al_central al) (al_central al')"
      "central_geometry (al_central al') = central_geometry (al_central al)"
  | (small) m' al' tc' c a where "from_request n = Some c"
      "allocate_with_cache dbg sys m al tc n = Some (m', al', tc', Inr (a + HEADER_SIZE))"
      "alloc_inv dbg m' al' tc' (more_blocks R c [a])" "tc_owner tc' = Some (al_id al)" "al_keeps al al'"
      "rest_frame (al_central al') R m m'" "al_large al' = al_large al" "live_header dbg c n (tc_cache_id tc) (m' a)"
      "epochs_rise (al_central al) (al_central al')" "drawn m al tc c al'"
  | (large) m' al' tc' a sz where "max_small_request < n"
      "allocate_with_cache dbg sys m al tc n = Some (m', al', tc', Inr (a + HEADER_SIZE))"
      "alloc_inv dbg m' al' tc' R" "tc_owner tc' = Some (al_id al)" "al_keeps al al'" "al_central al' = al_central al"
      "\<forall>x. x \<noteq> a \<longrightarrow> m' x = m x" "live (al_large al') = (a + HEADER_SIZE, large_record a sz n) # live (al_large al)"
      "HEADER_SIZE + n \<le> sz" "large_drawn al n al'"
proof -
  obtain tc0 where bd: "bind_to_allocator tc (al_id al) (al_config al) = Some tc0" "alloc_inv dbg m al tc0 R"
    "tc_owner tc0 = Some (al_id al)" "\<forall>c. tc_blocks m tc0 c = tc_blocks m tc c" "tc_cache_id tc0 = tc_cache_id tc"
    by (rule bind_spec [OF inv b])
  show ?thesis
  proof (cases "n = 0")
    case True
    then show ?thesis using zero [of tc0] bd by (simp add: allocate_with_cache_def)
  next
    case n: False
    show ?thesis
    proof (cases "from_request n")
      case None
      then have big: "max_small_request < n" using n by (simp add: from_request_None_iff)
      have run: "allocate_with_cache dbg sys m al tc n = do { (m1, al1, r) \<leftarrow> allocate_large dbg m al n; Some (m1, al1, tc0, r) }"
        using bd(1) n None by (simp add: allocate_with_cache_def)
      show ?thesis
      proof (rule allocate_large_spec [OF bd(2) big])
        fix a assume o: "allocate_large dbg m al n = Some (m, al\<lparr>al_arena := a\<rparr>, Inl (out_of_memory (al\<lparr>al_arena := a\<rparr>) n))"
          "alloc_inv dbg m (al\<lparr>al_arena := a\<rparr>) tc0 R" "arena_base a = arena_base (al_arena al)"
          "arena_len a = arena_len (al_arena al)" "large_full al n"
        show ?thesis by (rule failed [OF _ _ o(2)]) (use o n None bd(3) in \<open>simp_all add: run al_keeps_def exhausted_def\<close>)
      next
        fix m' a l x sz
        assume o: "allocate_large dbg m al n = Some (m', al\<lparr>al_arena := a, al_large := l\<rparr>, Inr (x + HEADER_SIZE))"
          "alloc_inv dbg m' (al\<lparr>al_arena := a, al_large := l\<rparr>) tc0 R" "arena_base a = arena_base (al_arena al)"
          "arena_len a = arena_len (al_arena al)" "live l = (x + HEADER_SIZE, large_record x sz n) # live (al_large al)"
          "HEADER_SIZE + n \<le> sz" "\<forall>y. y \<noteq> x \<longrightarrow> m' y = m y" "large_drawn al n (al\<lparr>al_arena := a, al_large := l\<rparr>)"
        show ?thesis by (rule large [OF big _ o(2)]) (use o bd(3) in \<open>simp_all add: run al_keeps_def\<close>)
      qed
    next
      case (Some c)
      have fit: "0 < n" "n \<le> payload_size c" using from_request_SomeD [OF Some] n by auto
      have run: "allocate_with_cache dbg sys m al tc n = allocate_small_with_cache dbg sys m al tc0 c n"
        using bd(1) n Some by (simp add: allocate_with_cache_def)
      have same_lc: "lc_blocks m (tclass tc0 c) = lc_blocks m (tclass tc c)"
      proof (cases "tc_owner tc = Some (al_id al)")
        case True
        then show ?thesis using bd(1) by (simp add: bind_to_allocator_def)
      next
        case False
        then have "ThreadCache_is_empty tc" using b by (simp add: bindable_def)
        then have e: "tc_blocks m tc c = {#}" by (rule empty_cache_blocks [OF held_invD(3) [OF alloc_invD(4) [OF inv]]])
        then have "tc_blocks m tc0 c = {#}" using bd(4) by simp
        then show ?thesis using e by (simp add: tc_blocks_def)
      qed
      show ?thesis
      proof (rule allocate_small_spec [OF bd(2) os epochs_lowD(1) [OF ep] fit])
        fix m' al' tc'
        assume o: "allocate_small_with_cache dbg sys m al tc0 c n = Some (m', al', tc', Inl (out_of_memory al' n))"
          "moved dbg 2 R R m al tc0 m' al' tc'" "lc_blocks m (tclass tc0 c) = {#}" "central_blocks m (al_central al) c = {#}"
          "\<not> block_fits (al_arena al) (class_block_size (al_config al) c)" "same_slabs al al'"
        note M = movedD [OF o(2)]
        have "lc_blocks m (tclass tc c) = {#}" using o(3) same_lc by simp
        then have ex: "exhausted m al tc n" using o(4,5) Some by (simp add: exhausted_def)
        have same: "al_large al' = al_large al" "tc_owner tc' = Some (al_id al)"
          using M(3,4) bd(3) by (simp_all add: al_grows_def same_cache_def)
        show ?thesis by (rule failed [OF fit(1) _ M(1) same(2) al_grows_keeps [OF M(3)] M(2) same(1) ex moved_epochs_rise [OF o(2)]])
            (use o(6) in \<open>simp_all add: run o(1) same_slabs_def\<close>)
      next
        fix m' al' tc' a
        assume o: "allocate_small_with_cache dbg sys m al tc0 c n = Some (m', al', tc', Inr (a + HEADER_SIZE))"
          "moved dbg 2 R (more_blocks R c [a]) m al tc0 m' al' tc'" "live_header dbg c n (tc_cache_id tc0) (m' a)"
          "drawn m al tc0 c al'"
        note M = movedD [OF o(2)]
        have same: "al_large al' = al_large al" "tc_owner tc' = Some (al_id al)"
          using M(3,4) bd(3) by (simp_all add: al_grows_def same_cache_def)
        have "drawn m al tc c al'" using o(4) by (simp add: drawn_def same_lc)
        then show ?thesis by (intro small [OF Some _ M(1) same(2) al_grows_keeps [OF M(3)] M(2) same(1) _ moved_epochs_rise [OF o(2)]])
            (use o(1,3) bd(5) in \<open>simp_all add: run\<close>)
      qed
    qed
  qed
qed

section \<open>Deallocation\<close>

lemma deallocate_small_spec:
  assumes inv: "alloc_inv dbg m al tc R" and b: "bindable tc al" and os: "madvise_ok sys" and ep: "epochs_low (al_central al)"
    and a: "a \<in># R c" "live_header dbg c n ow (m a)" and n: "0 < n" "n \<le> payload_size c"
  obtains m' al' tc' where "deallocate_with_cache dbg sys m al tc (a + HEADER_SIZE) = Some (m', al', tc', Inr ())"
    "deallocate_with_size_checked dbg sys m al tc (a + HEADER_SIZE) n = Some (m', al', tc', Inr ())"
    "alloc_inv dbg m' al' tc' (less_blocks R c [a])" "tc_owner tc' = Some (al_id al)" "al_keeps al al'"
    "rest_frame (al_central al') (less_blocks R c [a]) m m'" "al_large al' = al_large al" "al_grows al al'"
    "epochs_rise (al_central al) (al_central al')" "same_slabs al al'"
proof -
  obtain tc0 where bd: "bind_to_allocator tc (al_id al) (al_config al) = Some tc0" "alloc_inv dbg m al tc0 R"
    "tc_owner tc0 = Some (al_id al)" by (rule bind_spec [OF inv b])
  note dec = decode_small_spec [OF bd(2) a n]
  have rq: "header_requested_size (decoded c n ow) = n"
    using request_u32(2) [OF n(2)] by (simp add: decoded_def from_encoded_fields_def header_requested_size_def)
  obtain m' al' tc' where f: "finish_small_free dbg sys m al tc0 c a (decoded c n ow) = Some (m', al', tc')"
    "moved dbg 1 (less_blocks R c [a]) (less_blocks R c [a]) m al tc0 m' al' tc'" "same_slabs al al'"
    by (rule finish_small_spec [OF bd(2) os epochs_lowD(2) [OF ep] a])
  note M = movedD [OF f(2)]
  have same: "al_large al' = al_large al" "tc_owner tc' = Some (al_id al)"
    using M(3,4) bd(3) by (simp_all add: al_grows_def same_cache_def)
  show ?thesis
    by (rule that [OF _ _ M(1) same(2) al_grows_keeps [OF M(3)] M(2) same(1) M(3) moved_epochs_rise [OF f(2)] f(3)])
      (use bd(1) dec f(1) rq in \<open>simp_all add: deallocate_with_cache_def deallocate_with_size_checked_def deallocate_decoded_def
        deallocate_decoded_with_expected_size_def validate_expected_size_def Let_def\<close>)
qed

lemma deallocate_large_spec:
  assumes inv: "alloc_inv dbg m al tc R" and b: "bindable tc al" and pr: "(p, r) \<in> set (live (al_large al))"
  obtains l tc' where "deallocate_with_cache dbg sys m al tc p = Some (m, al\<lparr>al_large := l\<rparr>, tc', Inr ())"
    "deallocate_with_size_checked dbg sys m al tc p (rec_requested_size r) = Some (m, al\<lparr>al_large := l\<rparr>, tc', Inr ())"
    "alloc_inv dbg m (al\<lparr>al_large := l\<rparr>) tc' R" "tc_owner tc' = Some (al_id al)"
    "live l = filter (\<lambda>(k, _). k \<noteq> p) (live (al_large al))"
    "large_free l = add_mset \<lparr>free_block_addr = rec_block_addr r, free_block_size = rec_block_size r\<rparr> (large_free (al_large al))"
    "large_regions l = large_regions (al_large al)" "bind_to_allocator tc (al_id al) (al_config al) = Some tc'"
proof -
  obtain tc0 where bd: "bind_to_allocator tc (al_id al) (al_config al) = Some tc0" "alloc_inv dbg m al tc0 R"
    "tc_owner tc0 = Some (al_id al)" by (rule bind_spec [OF inv b])
  obtain h where h: "decode_header m p = Some (Inr (h, Large))" "header_requested_size h = rec_requested_size r"
    "header_usable_size h = rec_usable_size r" by (rule decode_large_spec [OF bd(2) pr])
  obtain l where l: "release_large al p h = Some (al\<lparr>al_large := l\<rparr>, Inr ())" "alloc_inv dbg m (al\<lparr>al_large := l\<rparr>) tc0 R"
    "live l = filter (\<lambda>(k, _). k \<noteq> p) (live (al_large al))"
    "large_free l = add_mset \<lparr>free_block_addr = rec_block_addr r, free_block_size = rec_block_size r\<rparr> (large_free (al_large al))"
    "large_regions l = large_regions (al_large al)"
    by (rule release_large_spec [OF bd(2) pr h(2,3)])
  show ?thesis
    by (rule that [OF _ _ l(2) bd(3) l(3-5) bd(1)])
      (use bd(1) h l(1) in \<open>simp_all add: deallocate_with_cache_def deallocate_with_size_checked_def deallocate_decoded_def
        deallocate_decoded_with_expected_size_def validate_expected_size_def\<close>)
qed

text \<open>A wrong expected size is reported with the recorded one, and nothing changes.\<close>

lemma size_mismatch_small:
  assumes inv: "alloc_inv dbg m al tc R" and b: "bindable tc al"
    and a: "a \<in># R c" "live_header dbg c n ow (m a)" and n: "0 < n" "n \<le> payload_size c" and k: "k \<noteq> n"
  obtains tc' where "deallocate_with_size_checked dbg sys m al tc (a + HEADER_SIZE) k = Some (m, al, tc', Inl (SizeMismatch k n))"
    "alloc_inv dbg m al tc' R" "tc_owner tc' = Some (al_id al)"
proof -
  obtain tc0 where bd: "bind_to_allocator tc (al_id al) (al_config al) = Some tc0" "alloc_inv dbg m al tc0 R"
    "tc_owner tc0 = Some (al_id al)" by (rule bind_spec [OF inv b])
  note dec = decode_small_spec [OF bd(2) a n]
  have "header_requested_size (decoded c n ow) = n"
    using request_u32(2) [OF n(2)] by (simp add: decoded_def from_encoded_fields_def header_requested_size_def)
  then show ?thesis
    by (intro that [OF _ bd(2,3)]) (use bd(1) dec k in \<open>simp add: deallocate_with_size_checked_def
        deallocate_decoded_with_expected_size_def validate_expected_size_def Let_def\<close>)
qed

lemma size_mismatch_large:
  assumes inv: "alloc_inv dbg m al tc R" and b: "bindable tc al" and pr: "(p, r) \<in> set (live (al_large al))"
    and k: "k \<noteq> rec_requested_size r"
  obtains tc' where "deallocate_with_size_checked dbg sys m al tc p k = Some (m, al, tc', Inl (SizeMismatch k (rec_requested_size r)))"
    "alloc_inv dbg m al tc' R" "tc_owner tc' = Some (al_id al)"
proof -
  obtain tc0 where bd: "bind_to_allocator tc (al_id al) (al_config al) = Some tc0" "alloc_inv dbg m al tc0 R"
    "tc_owner tc0 = Some (al_id al)" by (rule bind_spec [OF inv b])
  obtain h where h: "decode_header m p = Some (Inr (h, Large))" "header_requested_size h = rec_requested_size r"
    by (rule decode_large_spec [OF bd(2) pr])
  then show ?thesis
    by (intro that [OF _ bd(2,3)]) (use bd(1) h k in \<open>simp add: deallocate_with_size_checked_def
        deallocate_decoded_with_expected_size_def validate_expected_size_def\<close>)
qed

section \<open>Draining\<close>

text \<open>Blocks are multiples of 64, so that a cache holds fewer than \<open>2 ^ 58\<close> blocks of a class.\<close>

lemma class_blocks_bound:
  assumes inv: "alloc_inv dbg m al tc R"
  shows "size (lc_blocks m (tclass tc c)) \<le> 2 ^ 58"
proof -
  note A = alloc_invD [OF inv]
  note D = held_invD [OF A(4)]
  let ?xs = "central_all (al_central al) c"
  have props: "64 dvd x" "x \<le> usize_max" if "x \<in> set ?xs" for x
    using geo_blocks_props [OF D(2) [of c], of x] that by (simp_all add: geo_blocks_central)
  have "inj_on (\<lambda>x. x div 64) (set ?xs)" using props(1) by (auto simp: inj_on_def dvd_div_eq_iff)
  moreover have "(\<lambda>x. x div 64) ` set ?xs \<subseteq> {..<2 ^ 58}"
  proof
    fix y assume "y \<in> (\<lambda>x. x div 64) ` set ?xs"
    then obtain x where "y = x div 64" "x \<le> usize_max" using props(2) by auto
    then have "y \<le> usize_max div 64" by (simp add: div_le_mono)
    also have "\<dots> < 2 ^ 58" by (simp add: usize_max_def)
    finally show "y \<in> {..<2 ^ 58}" by simp
  qed
  ultimately have "card (set ?xs) \<le> card {..<(2::nat) ^ 58}" by (metis card_image card_mono finite_lessThan)
  moreover have "card {..<(2::nat) ^ 58} = 2 ^ 58" by (rule card_lessThan)
  moreover have "card (set ?xs) = length ?xs" by (rule distinct_card [OF distinct_central_all [OF D(1)]])
  moreover have "length ?xs = size (mset ?xs)" by simp
  moreover have "size (lc_blocks m (tclass tc c)) \<le> size (mset ?xs)" unfolding D(4) [of c] by (simp add: tc_blocks_def)
  ultimately show ?thesis by linarith
qed

lemma drain_thread_cache_spec:
  assumes inv: "alloc_inv dbg m al tc R" and b: "bindable tc al" and os: "madvise_ok sys"
    and ep: "\<forall>c. cp_epoch (cpool (al_central al) c) < 2 ^ 63"
  obtains m' al' tc' where "drain_thread_cache dbg sys m al tc = Some (m', al', tc')"
    "alloc_inv dbg m' al' tc' R" "tc_owner tc' = Some (al_id al)" "al_keeps al al'" "rest_frame (al_central al') R m m'"
    "al_large al' = al_large al" "\<forall>c. tc_blocks m' tc' c = {#}" "ThreadCache_is_empty tc'" "same_slabs al al'"
    "\<exists>tc0. bind_to_allocator tc (al_id al) (al_config al) = Some tc0 \<and> same_cache tc0 tc'"
proof -
  obtain tc0 where bd: "bind_to_allocator tc (al_id al) (al_config al) = Some tc0" "alloc_inv dbg m al tc0 R"
    "tc_owner tc0 = Some (al_id al)" by (rule bind_spec [OF inv b])
  note A = alloc_invD [OF bd(2)]
  have room: "cp_epoch (cpool (al_central al) c) + 2 * size (lc_blocks m (tclass tc0 c)) \<le> usize_max" for c
    using ep [rule_format, of c] class_blocks_bound [OF bd(2), of c] by (simp add: usize_max_def)
  obtain m' tc' cp' where d: "drain_all_to_central dbg sys m tc0 (al_central al) = Some (m', tc', cp')"
    "exchanged_all dbg (\<lambda>d. size (lc_blocks m (tclass tc0 d))) R m (al_central al) tc0 m' cp' tc'"
    "\<forall>c. tc_blocks m' tc' c = {#}" "ThreadCache_is_empty tc'"
    by (rule drain_all_spec [OF A(4) os room])
  let ?al = "al\<lparr>al_central := cp'\<rparr>"
  have E: "held_inv dbg m' cp' tc' R" "rest_frame (al_central al) R m m'" "central_geometry cp' = central_geometry (al_central al)"
    "same_cache tc0 tc'" using d(2) by (auto simp: exchanged_all_def)
  have run: "drain_thread_cache dbg sys m al tc = Some (m', ?al, tc')" using bd(1) d(1) by (simp add: drain_thread_cache_def)
  have fr: "rest_frame (al_central ?al) R m m'" using E(2,3) by (simp add: rest_frame_def)
  show ?thesis
    by (rule that [OF run alloc_inv_update [OF bd(2) E(1-3)] _ al_grows_keeps [OF al_grows_central [OF E(3)]] fr])
      (use E(3,4) bd(1,3) d(3,4) in \<open>simp_all add: same_cache_def\<close>)
qed

section \<open>Rejected deallocations\<close>

text \<open>Every check of the free path that fails reports its error and changes nothing but the binding of the cache.\<close>

lemma free_error:
  assumes bd: "bind_to_allocator tc (al_id al) (al_config al) = Some tc0" and dec: "decode_header m p = Some (Inl e)"
  shows "deallocate_with_cache dbg sys m al tc p = Some (m, al, tc0, Inl e)"
    "deallocate_with_size_checked dbg sys m al tc p k = Some (m, al, tc0, Inl e)"
  using assms by (simp_all add: deallocate_with_cache_def deallocate_with_size_checked_def)

lemma decode_misaligned:
  assumes "p < HEADER_SIZE \<or> \<not> 64 dvd p"
  shows "decode_header m p = Some (Inl CorruptHeader)"
proof (cases "p < HEADER_SIZE")
  case True
  then show ?thesis by (simp add: decode_header_def checked_sub_def)
next
  case False
  then have "\<not> 64 dvd p - HEADER_SIZE" using assms by (simp add: dvd_minus_self HEADER_SIZE_def)
  then have "\<not> is_multiple_of (p - HEADER_SIZE) HEADER_ALIGNMENT"
    by (simp add: is_multiple_of_def HEADER_ALIGNMENT_def dvd_eq_mod_eq_0)
  then show ?thesis using False by (simp add: decode_header_def checked_sub_def)
qed

lemma decode_header_at:
  assumes "64 dvd b" "b + HEADER_SIZE \<le> usize_max"
  shows "decode_header m (b + HEADER_SIZE) = read_from_user_ptr m (b + HEADER_SIZE)"
    "header_prefix_from_user_ptr (b + HEADER_SIZE) = b" "block_start_from_user_ptr (b + HEADER_SIZE) = b"
proof -
  have u: "user_ptr_from_block_start b = b + HEADER_SIZE" using assms(2) by (simp add: user_ptr_from_block_start_def)
  show bk: "block_start_from_user_ptr (b + HEADER_SIZE) = b" using block_start_user_ptr_inverse [of b] assms(2) by (simp add: u)
  then show "header_prefix_from_user_ptr (b + HEADER_SIZE) = b"
    by (simp add: header_prefix_from_user_ptr_def header_prefix_from_block_start_def)
  show "decode_header m (b + HEADER_SIZE) = read_from_user_ptr m (b + HEADER_SIZE)"
    using assms(1) by (simp add: decode_header_def checked_sub_def is_multiple_of_def HEADER_ALIGNMENT_def)
qed

text \<open>
  In a debug build a block that is free, and whose header has been written, cannot be freed
  again: its marker is found, or its requested size is still zero.
\<close>

lemma idle_free_rejected:
  assumes inv: "alloc_inv True m al tc R" and b: "bindable tc al"
    and x: "x \<in> set (central_all (al_central al) c)" "idle_header True c x (m x)"
  obtains tc' e where "deallocate_with_cache True sys m al tc (x + HEADER_SIZE) = Some (m, al, tc', Inl e)"
    "deallocate_with_size_checked True sys m al tc (x + HEADER_SIZE) k = Some (m, al, tc', Inl e)"
    "e = DoubleFree \<or> e = CorruptHeader" "alloc_inv True m al tc' R"
proof -
  obtain tc0 where bd: "bind_to_allocator tc (al_id al) (al_config al) = Some tc0" "alloc_inv True m al tc0 R"
    by (rule bind_spec [OF inv b])
  note B = alloc_block_bounds [OF inv x(1)]
  have al: "64 dvd x" using B(3) alloc_invD(6) [OF inv] by (rule dvd_trans [rotated])
  note dec = decode_header_at [OF al B(6)]
  have sh: "small_header c (m x)" using x(2) by (simp add: idle_header_def)
  show ?thesis
  proof (cases "requested_size (m x) = 0 \<or> usable_size (m x) < requested_size (m x)")
    case True
    then have "decode_header m (x + HEADER_SIZE) = Some (Inl CorruptHeader)"
      using sh by (auto simp: dec read_from_user_ptr_def read_prefix_def validate_prefix_def small_header_def
          valid_tag_def AllocationHeaderPrefix.truncate_def)
    from free_error [OF bd(1) this] show ?thesis using that bd(2) by blast
  next
    case False
    then have "small_block_is_marked_freed True m x"
      using x(2) by (simp add: idle_header_def small_block_is_marked_freed_def)
    then have v: "validate_small_block_for_free True m al (x + HEADER_SIZE) = Some (Inl DoubleFree)"
      using alloc_block_contained [OF inv x(1)] by (simp add: validate_small_block_for_free_def dec(3) Let_def)
    have "unat (word_of_nat (payload_size c) :: u32) = payload_size c"
      by (rule request_u32(2) [OF order_refl])
    then obtain h where h: "decode_header m (x + HEADER_SIZE) = Some (Inr (h, Small c))"
      using sh False by (auto simp: dec read_from_user_ptr_def read_prefix_def validate_prefix_def small_header_def
          valid_tag_def AllocationHeaderPrefix.truncate_def)
    have "deallocate_with_cache True sys m al tc (x + HEADER_SIZE) = Some (m, al, tc0, Inl DoubleFree)"
      "deallocate_with_size_checked True sys m al tc (x + HEADER_SIZE) k = Some (m, al, tc0, Inl DoubleFree)"
      using bd(1) h v by (simp_all add: deallocate_with_cache_def deallocate_with_size_checked_def deallocate_decoded_def
          deallocate_decoded_with_expected_size_def)
    then show ?thesis using that bd(2) by blast
  qed
qed

text \<open>A large pointer that is not registered, for instance because it has been freed, is rejected in every build.\<close>

lemma unknown_large_rejected:
  assumes bd: "bind_to_allocator tc (al_id al) (al_config al) = Some tc0"
    and h: "decode_header m p = Some (Inr (h, Large))" and un: "map_of (live (al_large al)) p = None"
  shows "deallocate_with_cache dbg sys m al tc p = Some (m, al, tc0, Inl AlreadyFreedOrUnknownLarge)"
  using assms by (simp add: deallocate_with_cache_def deallocate_decoded_def release_large_def
      validate_and_release_live_allocation_def)

lemma foreign_small_rejected:
  assumes bd: "bind_to_allocator tc (al_id al) (al_config al) = Some tc0"
    and h: "decode_header m p = Some (Inr (h, Small c))"
    and out: "contains_block_start (al_arena al) (block_start_from_user_ptr p) = Some False"
  shows "deallocate_with_cache dbg sys m al tc p = Some (m, al, tc0, Inl ForeignPointer)"
    "deallocate_with_size_checked dbg sys m al tc p k = Some (m, al, tc0, Inl ForeignPointer)"
  using assms by (simp_all add: deallocate_with_cache_def deallocate_with_size_checked_def deallocate_decoded_def
      deallocate_decoded_with_expected_size_def validate_small_block_for_free_def Let_def)

section \<open>Statistics\<close>

text \<open>The blocks of a class fit side by side into the arena, so that their bytes do not overflow.\<close>

lemma class_bytes_bound:
  assumes inv: "alloc_inv dbg m al tc R"
  shows "length (central_all (al_central al) c) * class_block_size (al_config al) c \<le> arena_len (al_arena al)"
proof -
  note A = alloc_invD [OF inv]
  let ?xs = "central_all (al_central al) c" and ?bs = "class_block_size (al_config al) c"
  let ?base = "arena_base (al_arena al)" and ?len = "arena_len (al_arena al)"
  let ?f = "\<lambda>x. (x - ?base) div ?bs"
  have bs: "0 < ?bs" using class_block_size_pos [of "al_config al" c] by simp
  have less: "?f x < ?f y" if "x + ?bs \<le> y" "?base \<le> x" for x y
  proof -
    have "(x - ?base + ?bs) div ?bs \<le> (y - ?base) div ?bs" using that by (intro div_le_mono) linarith
    moreover have "(x - ?base + ?bs) div ?bs = (x - ?base) div ?bs + 1" using bs by (intro div_add_self2) simp
    ultimately show ?thesis by linarith
  qed
  have lo: "?base \<le> x" "x + ?bs \<le> used_end al" if "x \<in> set ?xs" for x using alloc_block_bounds(1,2) [OF inv that] by auto
  have "inj_on ?f (set ?xs)"
  proof (rule inj_onI, rule ccontr)
    fix x y assume xy: "x \<in> set ?xs" "y \<in> set ?xs" "?f x = ?f y" "x \<noteq> y"
    from alloc_blocks_apart [OF inv xy(1,2,4)] have "x + ?bs \<le> y \<or> y + ?bs \<le> x" by (simp add: apart_def)
    then show False using less [of x y] less [of y x] lo(1) [OF xy(1)] lo(1) [OF xy(2)] xy(3) by auto
  qed
  moreover have "?f ` set ?xs \<subseteq> {..<?len div ?bs}"
  proof
    fix z assume "z \<in> ?f ` set ?xs"
    then obtain x where x: "x \<in> set ?xs" "z = ?f x" by blast
    have "x + ?bs \<le> ?base + ?len" using lo(2) [OF x(1)] arena_wfD(5) [OF A(5)] by linarith
    from less [OF this lo(1) [OF x(1)]] show "z \<in> {..<?len div ?bs}" by (simp add: x(2))
  qed
  ultimately have "card (set ?xs) \<le> card {..<?len div ?bs}" by (metis card_image card_mono finite_lessThan)
  moreover have "card (set ?xs) = length ?xs" by (rule distinct_card [OF distinct_central_all [OF held_invD(1) [OF A(4)]]])
  ultimately have "length ?xs \<le> ?len div ?bs" by simp
  then have "length ?xs * ?bs \<le> ?len div ?bs * ?bs" by (rule mult_right_mono) simp
  then show ?thesis using div_times_less_eq_dividend [of ?len ?bs] by linarith
qed

lemma Allocator_stats_spec:
  assumes inv: "alloc_inv dbg m al tc R"
  shows "Allocator_stats al = Some
    \<lparr>arena_capacity = arena_len (al_arena al), arena_remaining = arena_len (al_arena al) - arena_next (al_arena al),
     small_central = map (\<lambda>c. \<lparr>stats_class = c, stats_blocks = size (central_blocks m (al_central al) c),
       stats_bytes = size (central_blocks m (al_central al) c) * class_block_size (al_config al) c\<rparr>) ALL_classes,
     large_live_allocations = length (live (al_large al)),
     large_live_bytes = sum_list (map (rec_block_size \<circ> snd) (live (al_large al))),
     large_free_blocks = size (large_free (al_large al)),
     large_free_bytes = sum_mset (image_mset free_block_size (large_free (al_large al)))\<rparr>"
proof -
  note A = alloc_invD [OF inv]
  note D = held_invD [OF A(4)]
  let ?st = "\<lambda>c. \<lparr>stats_class = c, stats_blocks = size (central_blocks m (al_central al) c),
       stats_bytes = size (central_blocks m (al_central al) c) * class_block_size (al_config al) c\<rparr>"
  let ?counts = "map (\<lambda>c. size (central_blocks m (al_central al) c)) ALL_classes"
  have le: "size (central_blocks m (al_central al) c) * class_block_size (al_config al) c \<le> usize_max" for c
  proof -
    have "size (central_blocks m (al_central al) c) \<le> size (mset (central_all (al_central al) c))" unfolding D(4) by simp
    then have "size (central_blocks m (al_central al) c) * class_block_size (al_config al) c
        \<le> length (central_all (al_central al) c) * class_block_size (al_config al) c" by simp
    then show ?thesis using class_bytes_bound [OF inv, of c] arena_wfD(4) [OF A(5)] by linarith
  qed
  have "those (map (\<lambda>i. do { blocks \<leftarrow> vec_get ?counts i;
       bytes \<leftarrow> checked_mul blocks (class_block_size (al_config al) (ALL_classes ! i));
       Some \<lparr>stats_class = ALL_classes ! i, stats_blocks = blocks, stats_bytes = bytes\<rparr> }) [0..<NUM_CLASSES]) =
     Some (map (\<lambda>i. ?st (ALL_classes ! i)) [0..<NUM_CLASSES])"
    by (rule those_map_Some) (use le in \<open>simp add: vec_get_def checked_mul_def\<close>)
  also have "map (\<lambda>i. ?st (ALL_classes ! i)) [0..<NUM_CLASSES] = map ?st ALL_classes"
    by (rule nth_equalityI) simp_all
  finally show ?thesis
    using block_counts_spec [OF D(1)] A(3)
    by (simp add: Allocator_stats_def LargeObject_stats_def large_ok_def large_inv_def arena_remaining_bytes_def saturating_sub_def)
qed

end
