(* ===== verification/Simulation.thy ===== *)
theory Simulation
  imports Main
begin

text \<open>
  Labelled transition systems, their traces, and the two contracts the components are
  verified against: an invariant that every step keeps, and a simulation of a specification.
\<close>

inductive trace :: "('s \<Rightarrow> 'l \<Rightarrow> 's \<Rightarrow> bool) \<Rightarrow> 's \<Rightarrow> 'l list \<Rightarrow> 's \<Rightarrow> bool" for R where
  trace_Nil: "trace R s [] s"
| trace_Cons: "R s l s1 \<Longrightarrow> trace R s1 ls s2 \<Longrightarrow> trace R s (l # ls) s2"

inductive_simps trace_simps: "trace R s [] s'" "trace R s (l # ls) s'"

lemma trace_append: "trace R s xs t \<Longrightarrow> trace R t ys u \<Longrightarrow> trace R s (xs @ ys) u"
  by (induction rule: trace.induct) (auto intro: trace_Cons)

lemma trace_snoc: "trace R s xs t \<Longrightarrow> R t l u \<Longrightarrow> trace R s (xs @ [l]) u"
  by (rule trace_append [OF _ trace_Cons [OF _ trace_Nil]])

text \<open>\<open>env\<close> says what the environment \<open>e\<close> of the system guarantees.\<close>

locale invariant_system =
  fixes env :: "'e \<Rightarrow> bool" and init :: "'e \<Rightarrow> 's \<Rightarrow> bool" and step :: "'e \<Rightarrow> 's \<Rightarrow> 'l \<Rightarrow> 's \<Rightarrow> bool"
    and inv :: "'e \<Rightarrow> 's \<Rightarrow> bool"
  assumes init_inv: "env e \<Longrightarrow> init e s \<Longrightarrow> inv e s"
    and step_inv: "env e \<Longrightarrow> inv e s \<Longrightarrow> step e s l s' \<Longrightarrow> inv e s'"
begin

lemma trace_inv:
  assumes "trace (step e) s ls s'" "env e" "inv e s"
  shows "inv e s'"
  using assms by (induction rule: trace.induct) (auto intro: step_inv)

lemma run_inv: "env e \<Longrightarrow> init e s \<Longrightarrow> trace (step e) s ls s' \<Longrightarrow> inv e s'"
  by (blast intro: trace_inv init_inv)

end

locale simulation = invariant_system env init step inv
  for env :: "'e \<Rightarrow> bool" and init :: "'e \<Rightarrow> 's \<Rightarrow> bool" and step :: "'e \<Rightarrow> 's \<Rightarrow> 'l \<Rightarrow> 's \<Rightarrow> bool"
    and inv :: "'e \<Rightarrow> 's \<Rightarrow> bool" +
  fixes abs :: "'s \<Rightarrow> 'a" and spec :: "'a \<Rightarrow> 'l \<Rightarrow> 'a \<Rightarrow> bool" and start :: 'a
  assumes init_abs: "env e \<Longrightarrow> init e s \<Longrightarrow> abs s = start"
    and step_spec: "env e \<Longrightarrow> inv e s \<Longrightarrow> step e s l s' \<Longrightarrow> spec (abs s) l (abs s')"
begin

lemma trace_refines:
  assumes "trace (step e) s ls s'" "env e" "inv e s"
  shows "trace spec (abs s) ls (abs s')"
  using assms
proof (induction rule: trace.induct)
  case (trace_Nil s)
  show ?case by (rule trace.trace_Nil)
next
  case (trace_Cons s l s1 ls s2)
  show ?case
    by (rule trace.trace_Cons [OF step_spec [OF trace_Cons.prems trace_Cons.hyps(1)]
          trace_Cons.IH [OF trace_Cons.prems(1) step_inv [OF trace_Cons.prems trace_Cons.hyps(1)]]])
qed

lemma run_refines: "env e \<Longrightarrow> init e s \<Longrightarrow> trace (step e) s ls s' \<Longrightarrow> trace spec start ls (abs s')"
  using trace_refines init_inv init_abs by metis

end

end
