(* ===== verification/Threads.thy ===== *)
theory Threads
  imports Allocator_Entry Simulation
begin

text \<open>
  An allocator shared by any number of threads, each with its own cache. The state of the
  machine is the memory, the allocator and the list of caches; a step is one entry point
  called by one thread. Every slab block is in exactly one place, and the blocks in no pool
  and no cache (\<open>outstanding\<close>) are the live small allocations.
\<close>

section \<open>State and invariant\<close>

record world =
  w_mem :: heap
  w_al :: Allocator
  w_caches :: "ThreadCache list"
  w_next_id :: u32

abbreviation w_central :: "world \<Rightarrow> CentralPool" where
  "w_central w \<equiv> al_central (w_al w)"

definition w_held :: "world \<Rightarrow> SizeClass \<Rightarrow> addr multiset" where
  "w_held w c = sum_list (map (\<lambda>tc. tc_blocks (w_mem w) tc c) (w_caches w))"

definition outstanding :: "world \<Rightarrow> SizeClass \<Rightarrow> addr multiset" where
  "outstanding w c = mset (central_all (w_central w) c) - (central_blocks (w_mem w) (w_central w) c + w_held w c)"

definition header_live :: "bool \<Rightarrow> SizeClass \<Rightarrow> AllocationHeader \<Rightarrow> bool" where
  "header_live dbg c h \<longleftrightarrow> (let n = unat (requested_size h) in
     0 < n \<and> n \<le> payload_size c \<and> from_request n = Some c \<and> live_header dbg c n (owner_cache_id h) h)"

definition world_inv :: "bool \<Rightarrow> world \<Rightarrow> bool" where
  "world_inv dbg w \<longleftrightarrow> al_shape (w_al w) \<and> slabs_in (w_al w) \<and> large_ok (w_mem w) (w_al w) \<and>
     central_inv (idle_header dbg) (w_mem w) (w_central w) \<and> (\<forall>c. geos_ok (geos (w_central w) c)) \<and>
     (\<forall>tc\<in>set (w_caches w). tc_inv dbg (geos (w_central w)) (w_mem w) tc \<and> bindable tc (w_al w)) \<and>
     (\<forall>c. central_blocks (w_mem w) (w_central w) c + w_held w c \<subseteq># mset (central_all (w_central w) c)) \<and>
     (\<forall>c b. b \<in># outstanding w c \<longrightarrow> header_live dbg c (w_mem w b))"

text \<open>The blocks of all caches but one.\<close>

definition others :: "world \<Rightarrow> nat \<Rightarrow> SizeClass \<Rightarrow> addr multiset" where
  "others w i c = sum_list (map (\<lambda>tc. tc_blocks (w_mem w) tc c) (take i (w_caches w) @ drop (Suc i) (w_caches w)))"

abbreviation rest :: "world \<Rightarrow> nat \<Rightarrow> SizeClass \<Rightarrow> addr multiset" where
  "rest w i \<equiv> (\<lambda>c. others w i c + outstanding w c)"

lemma w_held_split:
  assumes "i < length (w_caches w)"
  shows "w_held w c = tc_blocks (w_mem w) (w_caches w ! i) c + others w i c"
proof -
  have "w_caches w = take i (w_caches w) @ w_caches w ! i # drop (Suc i) (w_caches w)" by (rule id_take_nth_drop [OF assms])
  then have "w_held w c = sum_list (map (\<lambda>tc. tc_blocks (w_mem w) tc c) (take i (w_caches w) @ w_caches w ! i # drop (Suc i) (w_caches w)))"
    unfolding w_held_def by simp
  then show ?thesis by (simp add: others_def ac_simps)
qed

lemma live_header_requested:
  assumes "live_header dbg c n ow h" "0 < n" "n \<le> payload_size c" "from_request n = Some c"
  shows "unat (requested_size h) = n" "header_live dbg c h"
proof -
  show n: "unat (requested_size h) = n" using assms request_u32(2) [OF assms(3)] by (simp add: live_header_def)
  show "header_live dbg c h" unfolding header_live_def n Let_def using assms by (simp add: live_header_def)
qed

lemma world_account:
  assumes "world_inv dbg w"
  shows "mset (central_all (w_central w) c) = central_blocks (w_mem w) (w_central w) c + w_held w c + outstanding w c"
  using assms unfolding world_inv_def outstanding_def by (simp add: subset_mset.add_diff_inverse)

lemma world_at:
  assumes inv: "world_inv dbg w" and i: "i < length (w_caches w)"
  shows "alloc_inv dbg (w_mem w) (w_al w) (w_caches w ! i) (rest w i)" "bindable (w_caches w ! i) (w_al w)"
proof -
  have t: "tc_inv dbg (geos (w_central w)) (w_mem w) (w_caches w ! i)" "bindable (w_caches w ! i) (w_al w)"
    using inv i nth_mem [OF i] unfolding world_inv_def by blast+
  have "mset (central_all (w_central w) c) = central_blocks (w_mem w) (w_central w) c +
      tc_blocks (w_mem w) (w_caches w ! i) c + (others w i c + outstanding w c)" for c
    using world_account [OF inv, of c] w_held_split [OF i, of c] by (simp add: ac_simps)
  then have "held_inv dbg (w_mem w) (w_central w) (w_caches w ! i) (rest w i)"
    using inv t(1) unfolding held_inv_def world_inv_def by blast
  then show "alloc_inv dbg (w_mem w) (w_al w) (w_caches w ! i) (rest w i)"
    using inv unfolding alloc_inv_def world_inv_def by blast
  show "bindable (w_caches w ! i) (w_al w)" by (rule t(2))
qed

text \<open>
  A step of thread \<open>i\<close> that keeps the blocks of the other caches keeps the invariant, and
  what it leaves in the rest besides those blocks is what is outstanding afterwards.
\<close>

definition updated :: "world \<Rightarrow> nat \<Rightarrow> heap \<Rightarrow> Allocator \<Rightarrow> ThreadCache \<Rightarrow> world" where
  "updated w i m al tc = w\<lparr>w_mem := m, w_al := al, w_caches := (w_caches w)[i := tc]\<rparr>"

lemma world_update:
  assumes inv: "world_inv dbg w" and i: "i < length (w_caches w)" and al: "alloc_inv dbg m' al' tc' (\<lambda>c. others w i c + Q c)"
    and own: "tc_owner tc' = Some (al_id (w_al w))" and keeps: "al_keeps (w_al w) al'"
    and same: "\<And>c x. x \<in># others w i c \<Longrightarrow> m' x = w_mem w x" and live: "\<And>c b. b \<in># Q c \<Longrightarrow> header_live dbg c (m' b)"
  shows "world_inv dbg (updated w i m' al' tc')" "outstanding (updated w i m' al' tc') = Q"
proof -
  let ?w = "updated w i m' al' tc'"
  let ?rem = "take i (w_caches w) @ drop (Suc i) (w_caches w)"
  note A = alloc_invD [OF al]
  note D = held_invD [OF A(4)]
  have sel: "w_mem ?w = m'" "w_al ?w = al'" "w_caches ?w = (w_caches w)[i := tc']" by (simp_all add: updated_def)
  have old: "tc_inv dbg (geos (w_central w)) (w_mem w) tc \<and> bindable tc (w_al w)" if "tc \<in> set ?rem" for tc
  proof -
    have "tc \<in> set (w_caches w)" using that by (auto dest: in_set_takeD in_set_dropD)
    then show ?thesis using inv unfolding world_inv_def by blast
  qed
  have mem: "x \<in># others w i c" if "tc \<in> set ?rem" "x \<in># tc_blocks (w_mem w) tc c" for x c tc
    using that unfolding others_def by auto
  have K: "tc_inv dbg (geos (al_central al')) m' tc" "tc_blocks m' tc c = tc_blocks (w_mem w) tc c" if tc: "tc \<in> set ?rem" for tc c
  proof -
    have s: "m' x = w_mem w x" if "x \<in># tc_blocks (w_mem w) tc d" for x d by (rule same [OF mem [OF tc that]])
    have "tc_inv dbg (geos (w_central w)) m' tc" by (rule tc_keep [OF conjunct1 [OF old [OF tc]]], erule s)
    then show "tc_inv dbg (geos (al_central al')) m' tc" by (rule tc_inv_mono) (use keeps in \<open>simp add: al_keeps_def\<close>)
    show "tc_blocks m' tc c = tc_blocks (w_mem w) tc c" by (rule tc_keep [OF conjunct1 [OF old [OF tc]]], erule s)
  qed
  have i': "i < length (w_caches ?w)" using i by (simp add: sel)
  have oth: "others ?w i c = others w i c" for c
  proof -
    have "map (\<lambda>tc. tc_blocks m' tc c) ?rem = map (\<lambda>tc. tc_blocks (w_mem w) tc c) ?rem"
      by (rule map_cong [OF refl]) (rule K(2))
    moreover have "take i ((w_caches w)[i := tc']) @ drop (Suc i) ((w_caches w)[i := tc']) = ?rem" by simp
    ultimately show ?thesis unfolding others_def sel by (simp only:)
  qed
  have held: "w_held ?w c = tc_blocks m' tc' c + others w i c" for c
    using w_held_split [OF i', of c] i by (simp add: sel oth)
  have acct: "mset (central_all (al_central al') c) = central_blocks m' (al_central al') c + w_held ?w c + Q c" for c
    unfolding D(4) [of c] held by (simp add: ac_simps)
  then show Q: "outstanding ?w = Q" by (simp add: outstanding_def sel fun_eq_iff)
  have "tc_inv dbg (geos (al_central al')) m' tc \<and> bindable tc al'" if "tc \<in> set ((w_caches w)[i := tc'])" for tc
  proof -
    have "tc = tc' \<or> tc \<in> set ?rem"
      using that i by (auto simp: upd_conv_take_nth_drop)
    then show ?thesis
    proof
      assume "tc = tc'"
      then show ?thesis using D(3) own keeps by (simp add: bindable_def al_keeps_def)
    next
      assume r: "tc \<in> set ?rem"
      show ?thesis using K(1) [OF r] old [OF r] keeps by (simp add: bindable_def al_keeps_def)
    qed
  qed
  then show "world_inv dbg ?w"
    unfolding world_inv_def sel Q using A(1-3) D(1,2) acct live by simp
qed

section \<open>Live allocations\<close>

text \<open>The live allocations: user pointer and requested size, read off the headers and the registry.\<close>

definition small_live :: "heap \<Rightarrow> (SizeClass \<Rightarrow> addr multiset) \<Rightarrow> (addr \<times> usize) set" where
  "small_live m P = (\<Union>c. (\<lambda>b. (b + HEADER_SIZE, unat (requested_size (m b)))) ` set_mset (P c))"

definition large_live :: "(addr \<times> LargeAllocationRecord) list \<Rightarrow> (addr \<times> usize) set" where
  "large_live l = (\<lambda>(p, r). (p, rec_requested_size r)) ` set l"

definition live_set :: "world \<Rightarrow> (addr \<times> usize) set" where
  "live_set w = small_live (w_mem w) (outstanding w) \<union> large_live (live (al_large (w_al w)))"

lemma small_live_cong: "(\<And>c b. b \<in># P c \<Longrightarrow> m' b = m b) \<Longrightarrow> small_live m' P = small_live m P"
  unfolding small_live_def by (intro SUP_cong image_cong refl) auto

lemma small_live_more:
  "small_live m (more_blocks P c [a]) = insert (a + HEADER_SIZE, unat (requested_size (m a))) (small_live m P)"
proof -
  have "set_mset (more_blocks P c [a] d) = set_mset (P d) \<union> (if d = c then {a} else {})" for d
    by (cases "d = c") auto
  then show ?thesis by (auto simp: small_live_def split: if_splits)
qed

lemma large_live_simps [simp]: "large_live [] = {}" "large_live ((p, r) # l) = insert (p, rec_requested_size r) (large_live l)"
  by (simp_all add: large_live_def)

text \<open>The region of a live allocation: its header and its payload.\<close>

lemma live_small_region:
  assumes inv: "world_inv dbg w" and b: "b \<in># outstanding w c"
  shows "b \<in> set (central_all (w_central w) c)" "0 < unat (requested_size (w_mem w b))"
    "HEADER_SIZE + unat (requested_size (w_mem w b)) \<le> class_block_size (al_config (w_al w)) c"
    "header_live dbg c (w_mem w b)"
proof -
  show "b \<in> set (central_all (w_central w) c)"
    using world_account [OF inv, of c] b by (metis set_mset_mset union_iff)
  show h: "header_live dbg c (w_mem w b)" using inv b unfolding world_inv_def by blast
  then show "0 < unat (requested_size (w_mem w b))" by (simp add: header_live_def Let_def)
  have "unat (requested_size (w_mem w b)) \<le> payload_size c" using h by (simp add: header_live_def Let_def)
  moreover have "payload_size c + HEADER_SIZE \<le> class_block_size (al_config (w_al w)) c"
    by (simp add: class_block_size_def block_size_for_alignment_props)
  ultimately show "HEADER_SIZE + unat (requested_size (w_mem w b)) \<le> class_block_size (al_config (w_al w)) c" by linarith
qed

text \<open>The invariant without a cache in view.\<close>

definition no_cache :: "Allocator \<Rightarrow> ThreadCache" where
  "no_cache al = (fst (ThreadCache_new (al_config al) 0))\<lparr>tc_owner := Some (al_id al)\<rparr>"

lemma no_cache_inv: "tc_inv dbg G m (no_cache al)" "tc_blocks m (no_cache al) c = {#}" "tc_owner (no_cache al) = Some (al_id al)"
  by (rule fresh_cache_inv; simp add: no_cache_def ThreadCache_new_def)+ (simp add: no_cache_def)

lemma world_view:
  assumes inv: "world_inv dbg w"
  shows "alloc_inv dbg (w_mem w) (w_al w) (no_cache (w_al w)) (\<lambda>c. w_held w c + outstanding w c)"
proof -
  have "mset (central_all (w_central w) c) = central_blocks (w_mem w) (w_central w) c +
      tc_blocks (w_mem w) (no_cache (w_al w)) c + (w_held w c + outstanding w c)" for c
    using world_account [OF inv, of c] by (simp add: no_cache_inv(2) ac_simps)
  then show ?thesis using inv no_cache_inv(1) unfolding alloc_inv_def held_inv_def world_inv_def by blast
qed

text \<open>The kinds of live allocation, with the block that holds each.\<close>

lemma live_set_cases:
  assumes "(p, n) \<in> live_set w"
  obtains (small) b c where "b \<in># outstanding w c" "p = b + HEADER_SIZE" "n = unat (requested_size (w_mem w b))"
  | (large) r where "(p, r) \<in> set (live (al_large (w_al w)))" "n = rec_requested_size r"
  using assms unfolding live_set_def small_live_def large_live_def by auto

lemma live_region_props:
  assumes inv: "world_inv dbg w" and p: "(p, n) \<in> live_set w"
  shows "0 < n" "HEADER_SIZE \<le> p" "arena_base (al_arena (w_al w)) + HEADER_SIZE \<le> p" "p + n \<le> used_end (w_al w)" "64 dvd p"
proof -
  note V = world_view [OF inv]
  note A = alloc_invD [OF V]
  have h: "(64::nat) dvd HEADER_SIZE" by (simp add: HEADER_SIZE_def)
  have *: "0 < n \<and> arena_base (al_arena (w_al w)) + HEADER_SIZE \<le> p \<and> p + n \<le> used_end (w_al w) \<and> 64 dvd p" using p
  proof (cases rule: live_set_cases)
    case (small b c)
    note L = live_small_region [OF inv small(1)]
    note B = alloc_block_bounds [OF V L(1)]
    have "64 dvd b" using B(3) A(6) by (rule dvd_trans [rotated])
    then show ?thesis using L B h small by simp
  next
    case (large r)
    note L = live_large [OF V large(1)]
    have "rec_block_size r = rec_usable_size r + HEADER_SIZE" "max_small_request < rec_requested_size r"
      "rec_requested_size r \<le> rec_usable_size r" using L(1) by (auto simp: live_large_ok_def)
    then show ?thesis using L(2,4,7) h large by (simp add: region_ok_def)
  qed
  then show "0 < n" "arena_base (al_arena (w_al w)) + HEADER_SIZE \<le> p" "p + n \<le> used_end (w_al w)" "64 dvd p" by auto
  then show "HEADER_SIZE \<le> p" by simp
qed

text \<open>Distinct live allocations do not overlap, their headers included.\<close>

lemma large_pair_apart:
  assumes inv: "alloc_inv dbg m al tc R" and p: "(p, r) \<in> set (live (al_large al))" "(q, s) \<in> set (live (al_large al))" "(p, r) \<noteq> (q, s)"
  shows "apart (rec_block_addr r, rec_block_size r) (rec_block_addr s, rec_block_size s)"
proof -
  have "{#(p, r), (q, s)#} \<subseteq># mset (live (al_large al))"
  proof (rule mset_subset_eqI)
    fix x
    have "count {#(p, r), (q, s)#} x \<le> (if x \<in> set (live (al_large al)) then 1 else 0)" using p by auto
    also have "\<dots> \<le> count (mset (live (al_large al))) x" by (simp add: Suc_le_eq)
    finally show "count {#(p, r), (q, s)#} x \<le> count (mset (live (al_large al))) x" .
  qed
  then have "{#(rec_block_addr r, rec_block_size r), (rec_block_addr s, rec_block_size s)#} \<subseteq># large_regions (al_large al)"
    using image_mset_subseteq_mono [of "{#(p, r), (q, s)#}" "mset (live (al_large al))" "\<lambda>(p, r). (rec_block_addr r, rec_block_size r)"]
    unfolding large_regions_def by (simp add: subset_mset.add_increasing2)
  then show ?thesis using alloc_invD(3) [OF inv] unfolding large_ok_def regions_ok_def pairwise_apart_def by blast
qed

lemma live_apart:
  assumes inv: "world_inv dbg w" and p: "(p, n) \<in> live_set w" and q: "(q, k) \<in> live_set w" and ne: "(p, n) \<noteq> (q, k)"
  shows "p + n \<le> q - HEADER_SIZE \<or> q + k \<le> p - HEADER_SIZE"
proof -
  note V = world_view [OF inv]
  have mixed: "x + HEADER_SIZE + unat (requested_size (w_mem w x)) \<le> rec_block_addr r \<or>
      rec_block_addr r + HEADER_SIZE + rec_requested_size r \<le> x"
    if x: "x \<in># outstanding w c" and r: "(z, r) \<in> set (live (al_large (w_al w)))" for x c z r
  proof -
    note L = live_small_region [OF inv x] and M = live_large [OF V r]
    have "apart (rec_block_addr r, rec_block_size r) (x, class_block_size (al_config (w_al w)) c)"
      by (rule region_not_block(1) [OF V M(2) L(1)])
    moreover have "HEADER_SIZE + rec_requested_size r \<le> rec_block_size r" using M(1) by (simp add: live_large_ok_def)
    ultimately show ?thesis using L(3) by (auto simp: apart_def)
  qed
  from p show ?thesis
  proof (cases rule: live_set_cases)
    case a: (small x c)
    from q show ?thesis
    proof (cases rule: live_set_cases)
      case b: (small y d)
      note L = live_small_region [OF inv a(1)] and M = live_small_region [OF inv b(1)]
      have "x \<noteq> y" using ne a b by auto
      then have "apart (x, class_block_size (al_config (w_al w)) c) (y, class_block_size (al_config (w_al w)) d)"
        by (rule alloc_blocks_apart [OF V L(1) M(1)])
      then show ?thesis using L(3) M(3) a b by (auto simp: apart_def)
    next
      case b: (large s)
      note S = live_large(4) [OF V b(1)]
      show ?thesis using mixed [OF a(1) b(1)] a b S by auto
    qed
  next
    case a: (large r)
    note R = live_large [OF V a(1)]
    from q show ?thesis
    proof (cases rule: live_set_cases)
      case b: (small y d)
      show ?thesis using mixed [OF b(1) a(1)] a b R(4) by auto
    next
      case b: (large s)
      note S = live_large [OF V b(1)]
      have sz: "HEADER_SIZE + rec_requested_size r \<le> rec_block_size r" "HEADER_SIZE + rec_requested_size s \<le> rec_block_size s"
        using R(1) S(1) by (simp_all add: live_large_ok_def)
      have "(p, r) \<noteq> (q, s)" using ne a b by auto
      from large_pair_apart [OF V a(1) b(1) this] show ?thesis using sz a b R(4) S(4) by (auto simp: apart_def)
    qed
  qed
qed

section \<open>Steps\<close>

datatype event = Alloc usize addr | Alloc_refused usize AllocError | Free addr | Free_refused addr FreeError
  | Drain nat | Start

text \<open>
  The epoch counter of a class moves by at most four per operation and is checked; the
  machine is considered while every counter is below \<open>2 ^ 63\<close>.
\<close>

definition epochs_ok :: "world \<Rightarrow> bool" where
  "epochs_ok w \<longleftrightarrow> (\<forall>c. cp_epoch (cpool (w_central w) c) < 2 ^ 63)"

text \<open>
  A free that succeeds is called with a live pointer, as the contract of the unsafe entry
  points demands. Of a free that is refused nothing is assumed.
\<close>

inductive step :: "bool \<Rightarrow> os \<Rightarrow> world \<Rightarrow> event \<Rightarrow> world \<Rightarrow> bool" for dbg sys where
  allocate: "i < length (w_caches w) \<Longrightarrow> epochs_ok w \<Longrightarrow>
     allocate_with_cache dbg sys (w_mem w) (w_al w) (w_caches w ! i) n = Some (m, al, tc, Inr p) \<Longrightarrow>
     step dbg sys w (Alloc n p) (updated w i m al tc)"
| refuse: "i < length (w_caches w) \<Longrightarrow> epochs_ok w \<Longrightarrow>
     allocate_with_cache dbg sys (w_mem w) (w_al w) (w_caches w ! i) n = Some (m, al, tc, Inl e) \<Longrightarrow>
     step dbg sys w (Alloc_refused n e) (updated w i m al tc)"
| free: "i < length (w_caches w) \<Longrightarrow> epochs_ok w \<Longrightarrow> (p, n) \<in> live_set w \<Longrightarrow>
     deallocate_with_cache dbg sys (w_mem w) (w_al w) (w_caches w ! i) p = Some (m, al, tc, Inr ()) \<Longrightarrow>
     step dbg sys w (Free p) (updated w i m al tc)"
| free_sized: "i < length (w_caches w) \<Longrightarrow> epochs_ok w \<Longrightarrow> (p, n) \<in> live_set w \<Longrightarrow>
     deallocate_with_size_checked dbg sys (w_mem w) (w_al w) (w_caches w ! i) p k = Some (m, al, tc, Inr ()) \<Longrightarrow>
     step dbg sys w (Free p) (updated w i m al tc)"
| reject: "i < length (w_caches w) \<Longrightarrow>
     deallocate_with_cache dbg sys (w_mem w) (w_al w) (w_caches w ! i) p = Some (m, al, tc, Inl e) \<Longrightarrow>
     step dbg sys w (Free_refused p e) (updated w i m al tc)"
| reject_sized: "i < length (w_caches w) \<Longrightarrow>
     deallocate_with_size_checked dbg sys (w_mem w) (w_al w) (w_caches w ! i) p k = Some (m, al, tc, Inl e) \<Longrightarrow>
     step dbg sys w (Free_refused p e) (updated w i m al tc)"
| drain: "i < length (w_caches w) \<Longrightarrow> epochs_ok w \<Longrightarrow>
     drain_thread_cache dbg sys (w_mem w) (w_al w) (w_caches w ! i) = Some (m, al, tc) \<Longrightarrow>
     step dbg sys w (Drain i) (updated w i m al tc)"
| start: "ThreadCache_new (al_config (w_al w)) (w_next_id w) = (tc, next_id) \<Longrightarrow>
     step dbg sys w Start (w\<lparr>w_caches := w_caches w @ [tc], w_next_id := next_id\<rparr>)"

text \<open>An allocator that has just been created, before the first thread uses it.\<close>

definition initial :: "os \<Rightarrow> world \<Rightarrow> bool" where
  "initial sys w \<longleftrightarrow> (\<exists>cfg i j. Allocator_new sys cfg i = (Inr (w_al w), j)) \<and> w_caches w = []"

definition reachable :: "bool \<Rightarrow> os \<Rightarrow> world \<Rightarrow> bool" where
  "reachable dbg sys w \<longleftrightarrow> (\<exists>v es. initial sys v \<and> trace (step dbg sys) v es w)"

text \<open>What is assumed of the operating system: mappings lie in the address space, and advising
  a range leaves the headers outside it alone.\<close>

definition os_ok :: "os \<Rightarrow> bool" where
  "os_ok sys \<longleftrightarrow> mapping_ok sys \<and> madvise_ok sys"

section \<open>The specification of an allocator\<close>

text \<open>
  What a client may rely on, over the set of live allocations alone: an allocation is new
  memory, aligned to the header, that overlaps no live allocation, and a free ends exactly
  the allocation it names.
\<close>

definition fresh_region :: "(addr \<times> usize) set \<Rightarrow> addr \<Rightarrow> usize \<Rightarrow> bool" where
  "fresh_region S p n \<longleftrightarrow> (\<forall>(q, k)\<in>S. p + n \<le> q \<or> q + k \<le> p)"

inductive spec_step :: "(addr \<times> usize) set \<Rightarrow> event \<Rightarrow> (addr \<times> usize) set \<Rightarrow> bool" where
  spec_alloc: "0 < n \<Longrightarrow> 64 dvd p \<Longrightarrow> fresh_region S p n \<Longrightarrow> spec_step S (Alloc n p) (insert (p, n) S)"
| spec_refuse: "spec_step S (Alloc_refused n e) S"
| spec_free: "(p, n) \<in> S \<Longrightarrow> spec_step S (Free p) (S - {(p, n)})"
| spec_reject: "spec_step S (Free_refused p e) S"
| spec_drain: "spec_step S (Drain i) S"
| spec_start: "spec_step S Start S"

inductive_cases spec_allocE: "spec_step S (Alloc n p) S'"
inductive_cases spec_freeE: "spec_step S (Free p) S'"

section \<open>Preservation\<close>

lemma epochs_ok_low:
  assumes "epochs_ok w"
  shows "epochs_low (w_central w)"
  unfolding epochs_low_def
proof
  fix c
  have "cp_epoch (cpool (w_central w) c) < 2 ^ 63" using assms by (simp add: epochs_ok_def)
  then show "cp_epoch (cpool (w_central w) c) + 4 \<le> usize_max" by (simp add: usize_max_def)
qed

lemma live_set_eq:
  assumes "outstanding w' = outstanding w" "\<And>c b. b \<in># outstanding w c \<Longrightarrow> w_mem w' b = w_mem w b"
    "live (al_large (w_al w')) = live (al_large (w_al w))"
  shows "live_set w' = live_set w"
  unfolding live_set_def assms(1,3) by (simp add: small_live_cong [where m' = "w_mem w'" and m = "w_mem w", OF assms(2)])

lemma initial_inv:
  assumes i: "initial sys w" and os: "mapping_ok sys"
  shows "world_inv dbg w" "live_set w = {}"
proof -
  obtain cfg i j where n: "Allocator_new sys cfg i = (Inr (w_al w), j)" and c: "w_caches w = []"
    using i by (auto simp: initial_def)
  obtain a where v: "validate_allocator_config cfg = Inr ()" and a: "Arena_new sys cfg = Inr a"
    and al: "w_al w = \<lparr>al_id = i, al_config = cfg, al_arena = a, al_central = CentralPool_new, al_large = LargeObjectState_default\<rparr>"
    using n by (auto simp: Allocator_new_def split: sum.splits)
  note A = Arena_new_wf [OF a os]
  have sh: "al_shape (w_al w)" using A(1,4) v by (simp add: al al_shape_def validate_allocator_config_def split: if_splits)
  have li: "large_inv LargeObjectState_default" "large_regions LargeObjectState_default = {#}" "live LargeObjectState_default = []"
    by (simp_all add: large_inv_def LargeObjectState_default_def buckets_ok_def btree_ok_def large_free_def btree_values_def
        large_regions_def)
  have geo: "central_geometry CentralPool_new d = []" for d
    by (rule central_inv_new(3))
  have ci: "central_inv (idle_header dbg) (w_mem w) CentralPool_new" "central_blocks (w_mem w) CentralPool_new d = {#}" for d
    by (rule central_inv_new)+
  have all: "central_all CentralPool_new d = []" for d by (simp add: central_all_def geo)
  have out: "outstanding w d = {#}" for d by (simp add: outstanding_def al all)
  show "world_inv dbg w"
    unfolding world_inv_def out using sh ci c
    by (simp add: al slabs_in_def geo large_ok_def li regions_ok_def w_held_def all geos_ok_def)
  show "live_set w = {}" by (auto simp: live_set_def small_live_def out al li)
qed

lemma start_inv:
  assumes inv: "world_inv dbg w" and tc: "ThreadCache_new (al_config (w_al w)) (w_next_id w) = (tc, next_id)"
  defines "w' \<equiv> w\<lparr>w_caches := w_caches w @ [tc], w_next_id := next_id\<rparr>"
  shows "world_inv dbg w'" "live_set w' = live_set w"
proof -
  have f: "tc_inv dbg G m tc" "tc_blocks m tc c = {#}" "ThreadCache_is_empty tc" for G m c
    by (rule fresh_cache_inv; use tc in \<open>auto simp: ThreadCache_new_def\<close>)+
  have h: "w_held w' = w_held w" by (simp add: w_held_def w'_def f fun_eq_iff)
  then have o: "outstanding w' = outstanding w" by (simp add: outstanding_def fun_eq_iff w'_def)
  show "world_inv dbg w'" using inv f unfolding world_inv_def h o by (auto simp: w'_def bindable_def)
  show "live_set w' = live_set w" by (rule live_set_eq [OF o]) (simp_all add: w'_def)
qed

lemma outstanding_unique:
  assumes inv: "world_inv dbg w" and b: "b \<in># outstanding w c"
  shows "b \<in># outstanding w d \<Longrightarrow> d = c" "b \<notin># outstanding w c - {#b#}" "b \<notin># others w i c"
proof -
  have C: "central_inv (idle_header dbg) (w_mem w) (w_central w)" using inv by (simp add: world_inv_def)
  show "b \<in># outstanding w d \<Longrightarrow> d = c"
    using central_all_disjoint [OF C, of b c d] live_small_region(1) [OF inv] b by blast
  have "dset (mset (central_all (w_central w) c))" by (simp add: distinct_central_all [OF C])
  then have ds: "dset (w_held w c + outstanding w c)" unfolding world_account [OF inv, of c] by (auto simp: dset_union)
  then have "count (outstanding w c) b \<le> 1" by (simp add: dset_union) (simp add: dset_def)
  then show "b \<notin># outstanding w c - {#b#}" by (simp add: not_in_iff)
  have "b \<notin># w_held w c" using ds b by (auto simp: dset_union)
  moreover have "x \<in># w_held w c" if "x \<in># others w i c" for x
    using that unfolding others_def w_held_def by (auto dest: in_set_takeD in_set_dropD)
  ultimately show "b \<notin># others w i c" by blast
qed

lemma small_not_large:
  assumes inv: "world_inv dbg w" and b: "b \<in> set (central_all (w_central w) c)"
  shows "(b + HEADER_SIZE, r) \<notin> set (live (al_large (w_al w)))"
proof
  assume r: "(b + HEADER_SIZE, r) \<in> set (live (al_large (w_al w)))"
  note V = world_view [OF inv]
  show False using region_not_block(2) [OF V live_large(2) [OF V r] b] live_large(4) [OF V r] by simp
qed

lemma rest_more_less:
  "more_blocks (rest w i) c [a] = (\<lambda>d. others w i d + more_blocks (outstanding w) c [a] d)"
  "a \<in># outstanding w c \<Longrightarrow> less_blocks (rest w i) c [a] = (\<lambda>d. others w i d + less_blocks (outstanding w) c [a] d)"
  by (auto simp: more_blocks_def less_blocks_def fun_eq_iff)

lemma allocate_small_refines:
  assumes inv: "world_inv dbg w" and i: "i < length (w_caches w)" and c: "from_request n = Some c"
    and al: "alloc_inv dbg m' al' tc' (more_blocks (rest w i) c [a])" and own: "tc_owner tc' = Some (al_id (w_al w))"
    and keeps: "al_keeps (w_al w) al'" and fr: "rest_frame (al_central al') (rest w i) (w_mem w) m'"
    and la: "al_large al' = al_large (w_al w)" and h: "live_header dbg c n ow (m' a)"
  defines "w' \<equiv> updated w i m' al' tc'"
  shows "world_inv dbg w'" "live_set w' = insert (a + HEADER_SIZE, n) (live_set w)" "fresh_region (live_set w) (a + HEADER_SIZE) n"
    "64 dvd a + HEADER_SIZE"
proof -
  let ?Q = "more_blocks (outstanding w) c [a]"
  have n: "0 < n" "n \<le> payload_size c" using from_request_SomeD [OF c] by auto
  note H = live_header_requested [OF h n c]
  have same: "m' x = w_mem w x" if "x \<in># others w i d \<or> x \<in># outstanding w d" for x d
    by (rule rest_frameD [OF fr, of x d]) (use that in auto)
  have Q: "b = a \<and> d = c \<or> b \<in># outstanding w d" if "b \<in># ?Q d" for b d using that by (cases "d = c") auto
  note al' = al [unfolded rest_more_less]
  have live: "header_live dbg d (m' b)" if "b \<in># ?Q d" for b d
    using Q [OF that] H(2) same live_small_region(4) [OF inv] by metis
  show inv': "world_inv dbg w'" unfolding w'_def
    by (rule world_update(1) [OF inv i al' own keeps]) (use same live in auto)
  have out: "outstanding w' = ?Q" unfolding w'_def
    by (rule world_update(2) [OF inv i al' own keeps]) (use same live in auto)
  have sel: "w_mem w' = m'" "w_al w' = al'" by (simp_all add: w'_def updated_def)
  have a: "a \<in># outstanding w' c" by (simp add: out)
  have new: "(a + HEADER_SIZE, n) \<notin> live_set w"
  proof
    assume "(a + HEADER_SIZE, n) \<in> live_set w"
    then show False
    proof (cases rule: live_set_cases)
      case (small b d)
      then have "a \<in># outstanding w' d" using out by (cases "d = c") auto
      then have "d = c" by (rule outstanding_unique(1) [OF inv' a])
      then show False using outstanding_unique(2) [OF inv' a] small by (simp add: out)
    next
      case (large r)
      then show False using small_not_large [OF inv' live_small_region(1) [OF inv' a], of r] by (simp add: sel la)
    qed
  qed
  have "small_live m' (outstanding w) = small_live (w_mem w) (outstanding w)" by (rule small_live_cong) (use same in blast)
  then show eq: "live_set w' = insert (a + HEADER_SIZE, n) (live_set w)"
    unfolding live_set_def out sel la small_live_more H(1) by simp
  show "fresh_region (live_set w) (a + HEADER_SIZE) n" unfolding fresh_region_def
  proof (clarify)
    fix q k assume q: "(q, k) \<in> live_set w" "\<not> q + k \<le> a + HEADER_SIZE"
    have "(a + HEADER_SIZE, n) \<noteq> (q, k)" using new q(1) by blast
    from live_apart [OF inv' _ _ this] q show "a + HEADER_SIZE + n \<le> q" by (auto simp: eq)
  qed
  show "64 dvd a + HEADER_SIZE" by (rule live_region_props(5) [OF inv', of _ n]) (simp add: eq)
qed

lemma allocate_large_refines:
  assumes inv: "world_inv dbg w" and i: "i < length (w_caches w)" and n: "max_small_request < n"
    and al: "alloc_inv dbg m' al' tc' (rest w i)" and own: "tc_owner tc' = Some (al_id (w_al w))"
    and keeps: "al_keeps (w_al w) al'" and cen: "al_central al' = w_central w" and same: "\<forall>x. x \<noteq> a \<longrightarrow> m' x = w_mem w x"
    and la: "live (al_large al') = (a + HEADER_SIZE, large_record a sz n) # live (al_large (w_al w))"
  defines "w' \<equiv> updated w i m' al' tc'"
  shows "world_inv dbg w'" "live_set w' = insert (a + HEADER_SIZE, n) (live_set w)" "fresh_region (live_set w) (a + HEADER_SIZE) n"
    "64 dvd a + HEADER_SIZE"
proof -
  have rec: "(a + HEADER_SIZE, large_record a sz n) \<in> set (live (al_large al'))" by (simp add: la)
  note L = live_large [OF al rec]
  have reg: "region_ok al' (a, sz)" using L(2) by (simp add: large_record_def)
  have keep: "m' x = w_mem w x" if "x \<in> set (central_all (w_central w) d)" for x d
    using region_not_block(2) [OF al reg, of x d] that same by (simp add: cen)
  have oth: "x \<in> set (central_all (w_central w) d)" if "x \<in># others w i d \<or> x \<in># outstanding w d" for x d
    using held_apart(5) [OF alloc_invD(4) [OF world_at(1) [OF inv i]], of x d] that by auto
  have live: "header_live dbg d (m' b)" if "b \<in># outstanding w d" for b d
    using keep oth live_small_region(4) [OF inv that] that by metis
  show inv': "world_inv dbg w'" unfolding w'_def
    by (rule world_update(1) [OF inv i al own keeps]) (use keep oth live in auto)
  have out: "outstanding w' = outstanding w" unfolding w'_def
    by (rule world_update(2) [OF inv i al own keeps]) (use keep oth live in auto)
  have sel: "w_mem w' = m'" "w_al w' = al'" by (simp_all add: w'_def updated_def)
  have new: "(a + HEADER_SIZE, n) \<notin> live_set w"
  proof
    assume "(a + HEADER_SIZE, n) \<in> live_set w"
    then show False
    proof (cases rule: live_set_cases)
      case (small b d)
      then show False using small_not_large [OF inv' live_small_region(1) [OF inv'], of b d] rec by (simp add: sel out)
    next
      case (large r)
      moreover have "distinct (map fst (live (al_large al')))"
        using alloc_invD(3) [OF al] by (simp add: large_ok_def large_inv_def)
      ultimately show False by (force simp: la)
    qed
  qed
  have "small_live m' (outstanding w) = small_live (w_mem w) (outstanding w)" by (rule small_live_cong) (use keep oth in blast)
  then show eq: "live_set w' = insert (a + HEADER_SIZE, n) (live_set w)"
    unfolding live_set_def out sel la by (simp add: large_record_def)
  show "fresh_region (live_set w) (a + HEADER_SIZE) n" unfolding fresh_region_def
  proof (clarify)
    fix q k assume q: "(q, k) \<in> live_set w" "\<not> q + k \<le> a + HEADER_SIZE"
    have "(a + HEADER_SIZE, n) \<noteq> (q, k)" using new q(1) by blast
    from live_apart [OF inv' _ _ this] q show "a + HEADER_SIZE + n \<le> q" by (auto simp: eq)
  qed
  show "64 dvd a + HEADER_SIZE" by (rule live_region_props(5) [OF inv', of _ n]) (simp add: eq)
qed

lemma free_small_refines:
  assumes inv: "world_inv dbg w" and i: "i < length (w_caches w)" and a: "a \<in># outstanding w c"
    and al: "alloc_inv dbg m' al' tc' (less_blocks (rest w i) c [a])" and own: "tc_owner tc' = Some (al_id (w_al w))"
    and keeps: "al_keeps (w_al w) al'" and fr: "rest_frame (al_central al') (less_blocks (rest w i) c [a]) (w_mem w) m'"
    and la: "al_large al' = al_large (w_al w)"
  defines "w' \<equiv> updated w i m' al' tc'"
  shows "world_inv dbg w'" "live_set w' = live_set w - {(a + HEADER_SIZE, unat (requested_size (w_mem w a)))}"
proof -
  let ?Q = "less_blocks (outstanding w) c [a]"
  note al' = al [unfolded rest_more_less(2) [OF a]] and fr' = fr [unfolded rest_more_less(2) [OF a]]
  have same: "m' x = w_mem w x" if "x \<in># others w i d \<or> x \<in># ?Q d" for x d
    by (rule rest_frameD [OF fr', of x d]) (use that in auto)
  have Q: "b \<in># ?Q d \<longleftrightarrow> b \<in># outstanding w d \<and> b \<noteq> a" for b d
  proof (cases "d = c")
    case True
    then show ?thesis using outstanding_unique(2) [OF inv a] by (auto simp: in_diff_count dest: in_diffD)
  next
    case False
    then show ?thesis using outstanding_unique(1) [OF inv a] by auto
  qed
  have live: "header_live dbg d (m' b)" if "b \<in># ?Q d" for b d
    using same that live_small_region(4) [OF inv, of b d] Q by metis
  show inv': "world_inv dbg w'" unfolding w'_def
    by (rule world_update(1) [OF inv i al' own keeps]) (use same live in auto)
  have out: "outstanding w' = ?Q" unfolding w'_def
    by (rule world_update(2) [OF inv i al' own keeps]) (use same live in auto)
  have sel: "w_mem w' = m'" "w_al w' = al'" by (simp_all add: w'_def updated_def)
  have "small_live m' ?Q = small_live (w_mem w) ?Q" by (rule small_live_cong) (use same in blast)
  moreover have "small_live (w_mem w) ?Q = small_live (w_mem w) (outstanding w) - {(a + HEADER_SIZE, unat (requested_size (w_mem w a)))}"
  proof -
    have "set_mset (?Q d) = set_mset (outstanding w d) - {a}" for d using Q by blast
    then show ?thesis by (auto simp: small_live_def)
  qed
  moreover have "(a + HEADER_SIZE, k) \<notin> large_live (live (al_large (w_al w)))" for k
    using small_not_large [OF inv live_small_region(1) [OF inv a]] by (auto simp: large_live_def)
  ultimately show "live_set w' = live_set w - {(a + HEADER_SIZE, unat (requested_size (w_mem w a)))}"
    unfolding live_set_def out sel la by blast
qed

lemma free_large_refines:
  assumes inv: "world_inv dbg w" and i: "i < length (w_caches w)" and pr: "(p, r) \<in> set (live (al_large (w_al w)))"
    and al: "alloc_inv dbg (w_mem w) ((w_al w)\<lparr>al_large := l\<rparr>) tc' (rest w i)" and own: "tc_owner tc' = Some (al_id (w_al w))"
    and l: "live l = filter (\<lambda>(k, _). k \<noteq> p) (live (al_large (w_al w)))"
  defines "w' \<equiv> updated w i (w_mem w) ((w_al w)\<lparr>al_large := l\<rparr>) tc'"
  shows "world_inv dbg w'" "live_set w' = live_set w - {(p, rec_requested_size r)}"
proof -
  have keeps: "al_keeps (w_al w) ((w_al w)\<lparr>al_large := l\<rparr>)" by (simp add: al_keeps_def)
  note live = live_small_region(4) [OF inv]
  show "world_inv dbg w'" unfolding w'_def by (rule world_update(1) [OF inv i al own keeps]) (use live in auto)
  have out: "outstanding w' = outstanding w" unfolding w'_def
    by (rule world_update(2) [OF inv i al own keeps]) (use live in auto)
  have sel: "w_mem w' = w_mem w" "al_large (w_al w') = l" by (simp_all add: w'_def updated_def)
  note V = world_view [OF inv]
  have "(p, k) \<notin> small_live (w_mem w) (outstanding w)" for k
  proof
    assume "(p, k) \<in> small_live (w_mem w) (outstanding w)"
    then obtain b d where "b \<in># outstanding w d" "p = b + HEADER_SIZE" by (auto simp: small_live_def)
    then show False using small_not_large [OF inv live_small_region(1) [OF inv]] pr by blast
  qed
  moreover have "large_live (live l) = large_live (live (al_large (w_al w))) - {(p, rec_requested_size r)}"
  proof -
    have "s = r" if "(p, s) \<in> set (live (al_large (w_al w)))" for s
      using live_large(3) [OF V that] live_large(3) [OF V pr] by simp
    then show ?thesis unfolding large_live_def l by force
  qed
  ultimately show "live_set w' = live_set w - {(p, rec_requested_size r)}"
    unfolding live_set_def out sel by blast
qed

lemma keep_live_refines:
  assumes inv: "world_inv dbg w" and i: "i < length (w_caches w)" and al: "alloc_inv dbg m' al' tc' (rest w i)"
    and own: "tc_owner tc' = Some (al_id (w_al w))" and keeps: "al_keeps (w_al w) al'"
    and same: "\<And>x d. x \<in># others w i d \<or> x \<in># outstanding w d \<Longrightarrow> m' x = w_mem w x"
    and la: "live (al_large al') = live (al_large (w_al w))"
  defines "w' \<equiv> updated w i m' al' tc'"
  shows "world_inv dbg w'" "live_set w' = live_set w"
proof -
  have live: "header_live dbg d (m' b)" if "b \<in># outstanding w d" for b d
    using same [of b d] that live_small_region(4) [OF inv, of b d] by simp
  show "world_inv dbg w'" unfolding w'_def by (rule world_update(1) [OF inv i al own keeps]) (use same live in auto)
  have out: "outstanding w' = outstanding w" unfolding w'_def
    by (rule world_update(2) [OF inv i al own keeps]) (use same live in auto)
  show "live_set w' = live_set w" by (rule live_set_eq [OF out]) (use same la in \<open>auto simp: w'_def updated_def\<close>)
qed

lemma keep_refines:
  assumes inv: "world_inv dbg w" and i: "i < length (w_caches w)" and al: "alloc_inv dbg m' al' tc' (rest w i)"
    and own: "tc_owner tc' = Some (al_id (w_al w))" and keeps: "al_keeps (w_al w) al'"
    and fr: "rest_frame (al_central al') (rest w i) (w_mem w) m'" and la: "al_large al' = al_large (w_al w)"
  shows "world_inv dbg (updated w i m' al' tc')" "live_set (updated w i m' al' tc') = live_set w"
proof -
  have same: "m' x = w_mem w x" if "x \<in># others w i d \<or> x \<in># outstanding w d" for x d
    by (rule rest_frameD [OF fr, of x d]) (use that in auto)
  show "world_inv dbg (updated w i m' al' tc')" "live_set (updated w i m' al' tc') = live_set w"
    by (rule keep_live_refines [OF inv i al own keeps], erule same, simp add: la)+
qed

section \<open>Entry points\<close>

text \<open>Every call of \<open>allocate_with_cache\<close> returns, and the outcome is one the specification allows.\<close>

lemma allocate_outcome:
  assumes inv: "world_inv dbg w" and i: "i < length (w_caches w)" and ep: "epochs_ok w" and os: "madvise_ok sys"
  shows "\<exists>m al tc r. allocate_with_cache dbg sys (w_mem w) (w_al w) (w_caches w ! i) n = Some (m, al, tc, r) \<and>
    world_inv dbg (updated w i m al tc) \<and> al_keeps (w_al w) al \<and>
    (case r of
       Inl e \<Rightarrow> live_set (updated w i m al tc) = live_set w \<and>
         (n = 0 \<and> e = ZeroSize \<or> 0 < n \<and> e = out_of_memory al n \<and> exhausted (w_mem w) (w_al w) (w_caches w ! i) n)
     | Inr p \<Rightarrow> 0 < n \<and> 64 dvd p \<and> fresh_region (live_set w) p n \<and>
         live_set (updated w i m al tc) = insert (p, n) (live_set w))"
proof (rule allocate_with_cache_spec [OF world_at [OF inv i] os epochs_ok_low [OF ep], where n = n])
  fix tc assume z: "n = 0" "allocate_with_cache dbg sys (w_mem w) (w_al w) (w_caches w ! i) n = Some (w_mem w, w_al w, tc, Inl ZeroSize)"
    "alloc_inv dbg (w_mem w) (w_al w) tc (rest w i)" "tc_owner tc = Some (al_id (w_al w))"
  have k: "al_keeps (w_al w) (w_al w)" by (simp add: al_keeps_def)
  from keep_refines [OF inv i z(3,4) k rest_frame_refl refl] show ?thesis using z(1,2) k by simp
next
  fix m al tc
  assume f: "0 < n" "allocate_with_cache dbg sys (w_mem w) (w_al w) (w_caches w ! i) n = Some (m, al, tc, Inl (out_of_memory al n))"
    "alloc_inv dbg m al tc (rest w i)" "tc_owner tc = Some (al_id (w_al w))" "al_keeps (w_al w) al"
    "rest_frame (al_central al) (rest w i) (w_mem w) m" "al_large al = al_large (w_al w)"
    "exhausted (w_mem w) (w_al w) (w_caches w ! i) n"
  from keep_refines [OF inv i f(3-7)] show ?thesis using f(1,2,5,8) by simp
next
  fix m al tc c a
  assume f: "from_request n = Some c" "allocate_with_cache dbg sys (w_mem w) (w_al w) (w_caches w ! i) n = Some (m, al, tc, Inr (a + HEADER_SIZE))"
    "alloc_inv dbg m al tc (more_blocks (rest w i) c [a])" "tc_owner tc = Some (al_id (w_al w))" "al_keeps (w_al w) al"
    "rest_frame (al_central al) (rest w i) (w_mem w) m" "al_large al = al_large (w_al w)"
    "live_header dbg c n (tc_cache_id (w_caches w ! i)) (m a)"
  from allocate_small_refines [OF inv i f(1,3-8)] show ?thesis using f(2,5) from_request_SomeD(1) [OF f(1)] by simp
next
  fix m al tc a sz
  assume f: "max_small_request < n" "allocate_with_cache dbg sys (w_mem w) (w_al w) (w_caches w ! i) n = Some (m, al, tc, Inr (a + HEADER_SIZE))"
    "alloc_inv dbg m al tc (rest w i)" "tc_owner tc = Some (al_id (w_al w))" "al_keeps (w_al w) al"
    "al_central al = w_central w" "\<forall>x. x \<noteq> a \<longrightarrow> m x = w_mem w x"
    "live (al_large al) = (a + HEADER_SIZE, large_record a sz n) # live (al_large (w_al w))"
  from allocate_large_refines [OF inv i f(1,3-8)] show ?thesis using f(1,2,5) by simp
qed

text \<open>A live pointer can be freed by any thread; the sized form checks the size.\<close>

lemma free_outcome:
  assumes inv: "world_inv dbg w" and i: "i < length (w_caches w)" and ep: "epochs_ok w" and os: "madvise_ok sys"
    and p: "(p, n) \<in> live_set w"
  shows "\<exists>m al tc. deallocate_with_cache dbg sys (w_mem w) (w_al w) (w_caches w ! i) p = Some (m, al, tc, Inr ()) \<and>
    deallocate_with_size_checked dbg sys (w_mem w) (w_al w) (w_caches w ! i) p n = Some (m, al, tc, Inr ()) \<and>
    world_inv dbg (updated w i m al tc) \<and> live_set (updated w i m al tc) = live_set w - {(p, n)}"
    "k \<noteq> n \<Longrightarrow> \<exists>tc. deallocate_with_size_checked dbg sys (w_mem w) (w_al w) (w_caches w ! i) p k =
       Some (w_mem w, w_al w, tc, Inl (SizeMismatch k n))"
proof -
  note W = world_at [OF inv i]
  have both: "(\<exists>m al tc. deallocate_with_cache dbg sys (w_mem w) (w_al w) (w_caches w ! i) p = Some (m, al, tc, Inr ()) \<and>
    deallocate_with_size_checked dbg sys (w_mem w) (w_al w) (w_caches w ! i) p n = Some (m, al, tc, Inr ()) \<and>
    world_inv dbg (updated w i m al tc) \<and> live_set (updated w i m al tc) = live_set w - {(p, n)}) \<and>
    (k \<noteq> n \<longrightarrow> (\<exists>tc. deallocate_with_size_checked dbg sys (w_mem w) (w_al w) (w_caches w ! i) p k =
       Some (w_mem w, w_al w, tc, Inl (SizeMismatch k n))))" using p
  proof (cases rule: live_set_cases)
    case (small b c)
    note L = live_small_region [OF inv small(1)]
    have h: "live_header dbg c n (owner_cache_id (w_mem w b)) (w_mem w b)" "n \<le> payload_size c"
      using L(4) small(3) by (auto simp: header_live_def Let_def)
    have pos: "0 < n" using L(2) small(3) by simp
    have r: "b \<in># rest w i c" using small(1) by simp
    obtain m al tc where d: "deallocate_with_cache dbg sys (w_mem w) (w_al w) (w_caches w ! i) (b + HEADER_SIZE) = Some (m, al, tc, Inr ())"
      "deallocate_with_size_checked dbg sys (w_mem w) (w_al w) (w_caches w ! i) (b + HEADER_SIZE) n = Some (m, al, tc, Inr ())"
      "alloc_inv dbg m al tc (less_blocks (rest w i) c [b])" "tc_owner tc = Some (al_id (w_al w))" "al_keeps (w_al w) al"
      "rest_frame (al_central al) (less_blocks (rest w i) c [b]) (w_mem w) m" "al_large al = al_large (w_al w)"
      by (rule deallocate_small_spec [OF W os epochs_ok_low [OF ep] r h(1) pos h(2)])
    note F = free_small_refines [OF inv i small(1) d(3-7)]
    obtain tc' where "k \<noteq> n \<longrightarrow> deallocate_with_size_checked dbg sys (w_mem w) (w_al w) (w_caches w ! i) (b + HEADER_SIZE) k =
        Some (w_mem w, w_al w, tc', Inl (SizeMismatch k n))"
      using size_mismatch_small [OF W r h(1) pos h(2)] by metis
    then show ?thesis using d(1,2) F small(2,3) by blast
  next
    case (large r)
    obtain l tc where d: "deallocate_with_cache dbg sys (w_mem w) (w_al w) (w_caches w ! i) p = Some (w_mem w, (w_al w)\<lparr>al_large := l\<rparr>, tc, Inr ())"
      "deallocate_with_size_checked dbg sys (w_mem w) (w_al w) (w_caches w ! i) p (rec_requested_size r) =
         Some (w_mem w, (w_al w)\<lparr>al_large := l\<rparr>, tc, Inr ())"
      "alloc_inv dbg (w_mem w) ((w_al w)\<lparr>al_large := l\<rparr>) tc (rest w i)" "tc_owner tc = Some (al_id (w_al w))"
      "live l = filter (\<lambda>(k, _). k \<noteq> p) (live (al_large (w_al w)))"
      by (rule deallocate_large_spec [OF W large(1)])
    note F = free_large_refines [OF inv i large(1) d(3-5)]
    obtain tc' where "k \<noteq> n \<longrightarrow> deallocate_with_size_checked dbg sys (w_mem w) (w_al w) (w_caches w ! i) p k =
        Some (w_mem w, w_al w, tc', Inl (SizeMismatch k n))"
      using size_mismatch_large [OF W large(1)] large(2) by metis
    then show ?thesis using d(1,2) F large(2) by blast
  qed
  from both show "\<exists>m al tc. deallocate_with_cache dbg sys (w_mem w) (w_al w) (w_caches w ! i) p = Some (m, al, tc, Inr ()) \<and>
    deallocate_with_size_checked dbg sys (w_mem w) (w_al w) (w_caches w ! i) p n = Some (m, al, tc, Inr ()) \<and>
    world_inv dbg (updated w i m al tc) \<and> live_set (updated w i m al tc) = live_set w - {(p, n)}" by blast
  from both show "k \<noteq> n \<Longrightarrow> \<exists>tc. deallocate_with_size_checked dbg sys (w_mem w) (w_al w) (w_caches w ! i) p k =
       Some (w_mem w, w_al w, tc, Inl (SizeMismatch k n))" by blast
qed

lemma drain_outcome:
  assumes inv: "world_inv dbg w" and i: "i < length (w_caches w)" and ep: "epochs_ok w" and os: "madvise_ok sys"
  shows "\<exists>m al tc. drain_thread_cache dbg sys (w_mem w) (w_al w) (w_caches w ! i) = Some (m, al, tc) \<and>
    world_inv dbg (updated w i m al tc) \<and> live_set (updated w i m al tc) = live_set w \<and>
    ThreadCache_is_empty tc \<and> (\<forall>c. tc_blocks m tc c = {#})"
proof -
  have e: "\<forall>c. cp_epoch (cpool (al_central (w_al w)) c) < 2 ^ 63" using ep by (simp add: epochs_ok_def)
  obtain m al tc where d: "drain_thread_cache dbg sys (w_mem w) (w_al w) (w_caches w ! i) = Some (m, al, tc)"
    "alloc_inv dbg m al tc (rest w i)" "tc_owner tc = Some (al_id (w_al w))" "al_keeps (w_al w) al"
    "rest_frame (al_central al) (rest w i) (w_mem w) m" "al_large al = al_large (w_al w)" "\<forall>c. tc_blocks m tc c = {#}"
    "ThreadCache_is_empty tc" by (rule drain_thread_cache_spec [OF world_at [OF inv i] os e])
  from keep_refines [OF inv i d(2-6)] show ?thesis using d(1,7,8) by blast
qed

text \<open>A refused free changes nothing, whatever the pointer was; at most it binds the cache.\<close>

lemma release_large_refused: "release_large al p h = Some (al', Inl e) \<Longrightarrow> al' = al"
  by (auto simp: release_large_def validate_and_release_live_allocation_def run_elims split: option.splits if_splits)

lemma decoded_refused:
  shows "deallocate_decoded dbg sys m al tc p h kd = Some (m', al', tc', Inl e) \<Longrightarrow> m' = m \<and> al' = al \<and> tc' = tc"
    "deallocate_decoded_with_expected_size dbg sys m al tc p h kd n = Some (m', al', tc', Inl e) \<Longrightarrow> m' = m \<and> al' = al \<and> tc' = tc"
proof -
  consider (large) "kd = Large" | (stuck) c where "kd = Small c" "validate_small_block_for_free dbg m al p = None"
    | (bad) c x where "kd = Small c" "validate_small_block_for_free dbg m al p = Some (Inl x)"
    | (good) c b where "kd = Small c" "validate_small_block_for_free dbg m al p = Some (Inr b)"
    by (cases kd; cases "validate_small_block_for_free dbg m al p") (auto, metis sum.exhaust)
  then have "(deallocate_decoded dbg sys m al tc p h kd = Some (m', al', tc', Inl e) \<longrightarrow> m' = m \<and> al' = al \<and> tc' = tc) \<and>
    (deallocate_decoded_with_expected_size dbg sys m al tc p h kd n = Some (m', al', tc', Inl e) \<longrightarrow> m' = m \<and> al' = al \<and> tc' = tc)"
    by cases (cases "validate_expected_size h n"; auto simp: deallocate_decoded_def deallocate_decoded_with_expected_size_def
        run_elims dest: release_large_refused)+
  then show "deallocate_decoded dbg sys m al tc p h kd = Some (m', al', tc', Inl e) \<Longrightarrow> m' = m \<and> al' = al \<and> tc' = tc"
    "deallocate_decoded_with_expected_size dbg sys m al tc p h kd n = Some (m', al', tc', Inl e) \<Longrightarrow> m' = m \<and> al' = al \<and> tc' = tc"
    by blast+
qed

lemma dealloc_refused:
  shows "deallocate_with_cache dbg sys m al tc p = Some (m', al', tc', Inl e) \<Longrightarrow>
      m' = m \<and> al' = al \<and> bind_to_allocator tc (al_id al) (al_config al) = Some tc'"
    "deallocate_with_size_checked dbg sys m al tc p k = Some (m', al', tc', Inl e) \<Longrightarrow>
      m' = m \<and> al' = al \<and> bind_to_allocator tc (al_id al) (al_config al) = Some tc'"
proof -
  consider (stuck) "decode_header m p = None" | (bad) x where "decode_header m p = Some (Inl x)"
    | (good) h kd where "decode_header m p = Some (Inr (h, kd))"
    by (cases "decode_header m p") (auto, metis sum.exhaust surj_pair)
  then have "(deallocate_with_cache dbg sys m al tc p = Some (m', al', tc', Inl e) \<longrightarrow>
      m' = m \<and> al' = al \<and> bind_to_allocator tc (al_id al) (al_config al) = Some tc') \<and>
    (deallocate_with_size_checked dbg sys m al tc p k = Some (m', al', tc', Inl e) \<longrightarrow>
      m' = m \<and> al' = al \<and> bind_to_allocator tc (al_id al) (al_config al) = Some tc')"
    by cases (auto simp: deallocate_with_cache_def deallocate_with_size_checked_def run_elims dest: decoded_refused)
  then show "deallocate_with_cache dbg sys m al tc p = Some (m', al', tc', Inl e) \<Longrightarrow>
      m' = m \<and> al' = al \<and> bind_to_allocator tc (al_id al) (al_config al) = Some tc'"
    "deallocate_with_size_checked dbg sys m al tc p k = Some (m', al', tc', Inl e) \<Longrightarrow>
      m' = m \<and> al' = al \<and> bind_to_allocator tc (al_id al) (al_config al) = Some tc'" by blast+
qed

lemma refused_outcome:
  assumes inv: "world_inv dbg w" and i: "i < length (w_caches w)"
    and bd: "bind_to_allocator (w_caches w ! i) (al_id (w_al w)) (al_config (w_al w)) = Some tc"
  shows "world_inv dbg (updated w i (w_mem w) (w_al w) tc)" "live_set (updated w i (w_mem w) (w_al w) tc) = live_set w"
proof -
  obtain tc0 where "bind_to_allocator (w_caches w ! i) (al_id (w_al w)) (al_config (w_al w)) = Some tc0"
    "alloc_inv dbg (w_mem w) (w_al w) tc0 (rest w i)" "tc_owner tc0 = Some (al_id (w_al w))"
    by (rule bind_spec [OF world_at [OF inv i]])
  then have b: "alloc_inv dbg (w_mem w) (w_al w) tc (rest w i)" "tc_owner tc = Some (al_id (w_al w))" using bd by auto
  have "al_keeps (w_al w) (w_al w)" by (simp add: al_keeps_def)
  from keep_refines [OF inv i b this rest_frame_refl refl]
  show "world_inv dbg (updated w i (w_mem w) (w_al w) tc)" "live_set (updated w i (w_mem w) (w_al w) tc) = live_set w" by auto
qed

lemma step_refines:
  assumes st: "step dbg sys w e w'" and inv: "world_inv dbg w" and os: "madvise_ok sys"
  shows "world_inv dbg w' \<and> spec_step (live_set w) e (live_set w')"
  using st
proof cases
  case (allocate i n m al tc p)
  then show ?thesis using allocate_outcome [OF inv allocate(3,4) os, of n] by (auto intro: spec_alloc)
next
  case (refuse i n m al tc e)
  then show ?thesis using allocate_outcome [OF inv refuse(3,4) os, of n] by (auto intro: spec_refuse)
next
  case (free i p n m al tc)
  then show ?thesis using free_outcome(1) [OF inv free(3,4) os free(5)] by (auto intro: spec_free)
next
  case (free_sized i p n k m al tc)
  have k: "k = n" using free_outcome(2) [OF inv free_sized(3,4) os free_sized(5), of k] free_sized(6) by fastforce
  then show ?thesis using free_outcome(1) [OF inv free_sized(3,4) os free_sized(5)] free_sized by (auto intro: spec_free)
next
  case (reject i p m al tc e)
  note r = dealloc_refused(1) [OF reject(4)]
  show ?thesis using refused_outcome [OF inv reject(3)] r reject(1,2) spec_reject by auto
next
  case (reject_sized i p k m al tc e)
  note r = dealloc_refused(2) [OF reject_sized(4)]
  show ?thesis using refused_outcome [OF inv reject_sized(3)] r reject_sized(1,2) spec_reject by auto
next
  case (drain i m al tc)
  then show ?thesis using drain_outcome [OF inv drain(3,4) os] spec_drain by auto
next
  case (start tc next_id)
  then show ?thesis using start_inv [OF inv start(3)] spec_start by simp
qed

interpretation threads: simulation "\<lambda>(dbg, sys). os_ok sys" "\<lambda>(dbg, sys). initial sys" "\<lambda>(dbg, sys). step dbg sys"
    "\<lambda>(dbg, sys). world_inv dbg" live_set spec_step "{}"
  by unfold_locales (auto simp: os_ok_def initial_inv dest: step_refines)

lemma reachable_inv: "reachable dbg sys w \<Longrightarrow> os_ok sys \<Longrightarrow> world_inv dbg w"
  using threads.run_inv [of "(dbg, sys)"] by (auto simp: reachable_def)

lemma reachable_step: "reachable dbg sys w \<Longrightarrow> step dbg sys w e w' \<Longrightarrow> reachable dbg sys w'"
  unfolding reachable_def using trace_snoc by metis

lemma step_alloc_live:
  assumes "reachable dbg sys w" "os_ok sys" "step dbg sys w (Alloc n p) w'"
  shows "reachable dbg sys w'" "live_set w' = insert (p, n) (live_set w)"
proof -
  show "reachable dbg sys w'" by (rule reachable_step [OF assms(1,3)])
  have "spec_step (live_set w) (Alloc n p) (live_set w')"
    using step_refines [OF assms(3) reachable_inv [OF assms(1,2)]] assms(2) by (simp add: os_ok_def)
  then show "live_set w' = insert (p, n) (live_set w)" by (rule spec_allocE)
qed

end
