(* ===== verification/Sample.thy ===== *)
theory Sample
  imports Threads "HOL-Library.Code_Target_Numeral"
begin

text \<open>
  A concrete run of the machine, evaluated in the kernel: an allocator with a small
  configuration, two threads, and calls of the entry points. The runs show that the
  hypotheses of the theorems about reachable states can be met.
\<close>

definition demo_os :: os where
  "demo_os = \<lparr>sysconf_page_size = 4096, map_anon = (\<lambda>n. if n \<le> 2 ^ 40 then Inr 4095 else Inl 12),
     madvise_free = (\<lambda>_ _ m. (0, m)), has_madvise = True\<rparr>"

definition demo_config :: AllocatorConfig where
  "demo_config = \<lparr>arena_size = 2 ^ 26, alignment = 64, refill_target_bytes = 256, local_cache_target_bytes = 256\<rparr>"

definition demo_memory :: heap where
  "demo_memory = (\<lambda>_. from_encoded_fields Small_tag 0 0 64 0)"

definition demo_allocator :: Allocator where
  "demo_allocator = \<lparr>al_id = 0, al_config = demo_config,
     al_arena = \<lparr>arena_base = 4096, arena_len = 2 ^ 26, arena_next = 0, arena_alignment = 64\<rparr>,
     al_central = CentralPool_new, al_large = LargeObjectState_default\<rparr>"

definition demo_cache :: "u32 \<Rightarrow> ThreadCache" where
  "demo_cache i = fst (ThreadCache_new demo_config i)"

definition demo_0 :: world where
  "demo_0 = \<lparr>w_mem = demo_memory, w_al = demo_allocator, w_caches = [], w_next_id = 1\<rparr>"

definition demo_2 :: world where
  "demo_2 = \<lparr>w_mem = demo_memory, w_al = demo_allocator, w_caches = [demo_cache 1, demo_cache 2], w_next_id = 3\<rparr>"

text \<open>The world after a call by thread \<open>i\<close>.\<close>

definition after_call :: "world \<Rightarrow> nat \<Rightarrow> (heap \<times> Allocator \<times> ThreadCache \<times> 'r) option \<Rightarrow> world" where
  "after_call w i r = (case r of None \<Rightarrow> w | Some (m, al, tc, _) \<Rightarrow> updated w i m al tc)"

definition call_allocate :: "world \<Rightarrow> nat \<Rightarrow> usize \<Rightarrow> (heap \<times> Allocator \<times> ThreadCache \<times> (AllocError + addr)) option" where
  "call_allocate w i n = allocate_with_cache True demo_os (w_mem w) (w_al w) (w_caches w ! i) n"

definition call_free :: "world \<Rightarrow> nat \<Rightarrow> addr \<Rightarrow> (heap \<times> Allocator \<times> ThreadCache \<times> (FreeError + unit)) option" where
  "call_free w i p = deallocate_with_cache True demo_os (w_mem w) (w_al w) (w_caches w ! i) p"

definition low_epochs :: "Allocator \<Rightarrow> bool" where
  "low_epochs al \<longleftrightarrow> list_all (\<lambda>c. cp_epoch (cpool (al_central al) c) < 2 ^ 63) ALL_classes"

text \<open>Thread 0 allocates 10 bytes; then thread 1 allocates 20000000 bytes, or thread 0 frees its block.\<close>

definition demo_3 :: world where
  "demo_3 = after_call demo_2 0 (call_allocate demo_2 0 10)"

definition demo_4 :: world where
  "demo_4 = after_call demo_3 1 (call_allocate demo_3 1 20000000)"

definition demo_freed :: world where
  "demo_freed = after_call demo_3 0 (call_free demo_3 0 4160)"

section \<open>Evaluation\<close>

definition returns :: "('r \<Rightarrow> heap \<Rightarrow> Allocator \<Rightarrow> bool) \<Rightarrow> (heap \<times> Allocator \<times> ThreadCache \<times> 'r) option \<Rightarrow> bool" where
  "returns P r \<longleftrightarrow> (case r of None \<Rightarrow> False | Some (m, al, tc, x) \<Rightarrow> P x m al)"

lemma returnsE:
  assumes "returns P r"
  obtains m al tc x where "r = Some (m, al, tc, x)" "P x m al"
  using assms by (auto simp: returns_def split: option.splits)

lemma demo_3_eval: "returns (\<lambda>x m al. x = Inr 4160 \<and> low_epochs al) (call_allocate demo_2 0 10) \<and> low_epochs demo_allocator"
  by code_simp

lemma demo_4_eval: "returns (\<lambda>x m al. x = Inr 4416) (call_allocate demo_3 1 20000000)"
  by code_simp

lemma demo_freed_eval:
  "returns (\<lambda>x m al. x = Inr () \<and> 4096 \<in> set (central_all (al_central al) B64) \<and> idle_header True B64 4096 (m 4096))
     (call_free demo_3 0 4160)"
  by code_simp

section \<open>The run\<close>

lemma demo_os_ok: "os_ok demo_os"
  by (auto simp: os_ok_def mapping_ok_def madvise_ok_def demo_os_def usize_max_def split: if_splits)

lemma demo_initial: "initial demo_os demo_0"
proof -
  have "is_power_of_two 64" unfolding is_power_of_two_iff by (rule exI [of _ 6]) simp
  then have "Allocator_new demo_os demo_config 0 = (Inr demo_allocator, 1)"
    by (simp add: Allocator_new_def Arena_new_def demo_os_def demo_config_def validate_config_def BLOCK_ALIGNMENT_def
        validate_allocator_config_def HEADER_ALIGNMENT_def demo_allocator_def checked_add_def usize_max_def arena_align_up_def
        wrapping_add_def)
  then show ?thesis unfolding initial_def by (auto simp: demo_0_def)
qed

lemma low_epochs: "low_epochs (w_al w) \<Longrightarrow> epochs_ok w"
  unfolding low_epochs_def epochs_ok_def list_all_iff by (metis ALL_classes_index index_less length_ALL_classes nth_mem)

lemma call_allocate_step:
  assumes "epochs_ok w" "i < length (w_caches w)" "returns (\<lambda>x m al. x = Inr p \<and> P m al) (call_allocate w i n)"
  defines "w' \<equiv> after_call w i (call_allocate w i n)"
  shows "step True demo_os w (Alloc n p) w'" "P (w_mem w') (w_al w')"
proof -
  obtain m al tc where r: "call_allocate w i n = Some (m, al, tc, Inr p)" "P m al" using assms(3) by (auto elim: returnsE)
  then have w': "w' = updated w i m al tc" by (simp add: w'_def after_call_def)
  show "step True demo_os w (Alloc n p) w'"
    unfolding w' using step.allocate [OF assms(2,1)] r(1) by (simp add: call_allocate_def)
  show "P (w_mem w') (w_al w')" using r(2) by (simp add: w' updated_def)
qed

lemma call_free_step:
  assumes "epochs_ok w" "i < length (w_caches w)" "(p, n) \<in> live_set w"
    "returns (\<lambda>x m al. x = Inr () \<and> P m al) (call_free w i p)"
  defines "w' \<equiv> after_call w i (call_free w i p)"
  shows "step True demo_os w (Free p) w'" "P (w_mem w') (w_al w')"
proof -
  obtain m al tc where r: "call_free w i p = Some (m, al, tc, Inr ())" "P m al" using assms(4) by (auto elim: returnsE)
  then have w': "w' = updated w i m al tc" by (simp add: w'_def after_call_def)
  show "step True demo_os w (Free p) w'"
    unfolding w' using step.free [OF assms(2,1,3)] r(1) by (simp add: call_free_def)
  show "P (w_mem w') (w_al w')" using r(2) by (simp add: w' updated_def)
qed

lemma after_call_threads [simp]: "length (w_caches (after_call w i r)) = length (w_caches w)"
  by (simp add: after_call_def updated_def split: option.splits prod.splits)

lemma demo_2_trace: "trace (step True demo_os) demo_0 [Start, Start] demo_2"
proof -
  let ?w = "demo_0\<lparr>w_caches := [demo_cache 1], w_next_id := 2\<rparr>"
  have a: "step True demo_os demo_0 Start ?w"
    using step.start [of demo_0 "demo_cache 1" 2] by (simp add: demo_0_def demo_cache_def ThreadCache_new_def demo_allocator_def)
  have b: "step True demo_os ?w Start demo_2"
    using step.start [of ?w "demo_cache 2" 3] by (simp add: demo_0_def demo_2_def demo_cache_def ThreadCache_new_def demo_allocator_def)
  show ?thesis using a b by (auto simp: trace_simps)
qed

lemma demo_2_reachable: "reachable True demo_os demo_2" "live_set demo_2 = {}" "length (w_caches demo_2) = 2"
proof -
  show "reachable True demo_os demo_2" unfolding reachable_def using demo_initial demo_2_trace by blast
  have "trace spec_step {} [Start, Start] (live_set demo_2)"
    using threads.run_refines [of "(True, demo_os)"] demo_os_ok demo_initial demo_2_trace by simp
  then show "live_set demo_2 = {}" by (auto simp: trace_simps elim: spec_step.cases)
  show "length (w_caches demo_2) = 2" by (simp add: demo_2_def)
qed

lemma demo_2_epochs: "epochs_ok demo_2"
  using demo_3_eval by (intro low_epochs) (simp add: demo_2_def)

lemma demo_3_reachable: "reachable True demo_os demo_3" "live_set demo_3 = {(4160, 10)}" "length (w_caches demo_3) = 2" "epochs_ok demo_3"
proof -
  note st = call_allocate_step [where w = demo_2 and i = 0 and P = "\<lambda>_ al. low_epochs al",
      OF demo_2_epochs _ conjunct1 [OF demo_3_eval], folded demo_3_def]
  have st: "step True demo_os demo_2 (Alloc 10 4160) demo_3" "low_epochs (w_al demo_3)"
    by (rule st; simp add: demo_2_reachable(3))+
  show "reachable True demo_os demo_3" "live_set demo_3 = {(4160, 10)}"
    using step_alloc_live [OF demo_2_reachable(1) demo_os_ok st(1)] demo_2_reachable(2) by simp_all
  show "length (w_caches demo_3) = 2" by (simp add: demo_3_def demo_2_reachable(3))
  show "epochs_ok demo_3" by (rule low_epochs [OF st(2)])
qed

lemma demo_3_trace: "trace (step True demo_os) demo_0 [Start, Start, Alloc 10 4160] demo_3"
proof -
  have "step True demo_os demo_2 (Alloc 10 4160) demo_3" unfolding demo_3_def
    by (rule call_allocate_step(1) [where P = "\<lambda>_ al. low_epochs al", OF demo_2_epochs])
      (use demo_3_eval in \<open>simp_all add: demo_2_reachable(3)\<close>)
  from trace_snoc [OF demo_2_trace this] show ?thesis by simp
qed

lemma demo_4_reachable: "reachable True demo_os demo_4" "live_set demo_4 = {(4416, 20000000), (4160, 10)}"
proof -
  have "step True demo_os demo_3 (Alloc 20000000 4416) demo_4"
    unfolding demo_4_def
    by (rule call_allocate_step(1) [where P = "\<lambda>_ _. True", OF demo_3_reachable(4)])
      (use demo_4_eval in \<open>simp_all add: demo_3_reachable(3)\<close>)
  then show "reachable True demo_os demo_4" "live_set demo_4 = {(4416, 20000000), (4160, 10)}"
    using step_alloc_live [OF demo_3_reachable(1) demo_os_ok] demo_3_reachable(2) by simp_all
qed

lemma demo_4_threads: "length (w_caches demo_4) = 2"
  by (simp add: demo_4_def demo_3_reachable(3))

lemma demo_4_large: "\<exists>r. (4416, r) \<in> set (live (al_large (w_al demo_4)))"
proof -
  note inv = reachable_inv [OF demo_4_reachable(1) demo_os_ok]
  have "(4416, 20000000) \<in> live_set demo_4" by (simp add: demo_4_reachable(2))
  then show ?thesis
  proof (cases rule: live_set_cases)
    case (small b c)
    have "unat (requested_size (w_mem demo_4 b)) \<le> payload_size c"
      using live_small_region(4) [OF inv small(1)] by (simp add: header_live_def Let_def)
    also have "\<dots> \<le> 2 ^ 24" by (cases c) simp_all
    finally show ?thesis using small(3) by simp
  qed blast
qed

lemma demo_freed_reachable:
  "reachable True demo_os demo_freed" "length (w_caches demo_freed) = 2"
  "4096 \<in> set (central_all (w_central demo_freed) B64)" "idle_header True B64 4096 (w_mem demo_freed 4096)"
proof -
  note st = call_free_step [where w = demo_3 and i = 0 and n = 10 and
      P = "\<lambda>m al. 4096 \<in> set (central_all (al_central al) B64) \<and> idle_header True B64 4096 (m 4096)",
      OF demo_3_reachable(4) _ _ demo_freed_eval, folded demo_freed_def]
  have st: "step True demo_os demo_3 (Free 4160) demo_freed"
    "4096 \<in> set (central_all (w_central demo_freed) B64) \<and> idle_header True B64 4096 (w_mem demo_freed 4096)"
    by (rule st; simp add: demo_3_reachable)+
  show "reachable True demo_os demo_freed" by (rule reachable_step [OF demo_3_reachable(1) st(1)])
  show "length (w_caches demo_freed) = 2" by (simp add: demo_freed_def demo_3_reachable(3))
  show "4096 \<in> set (central_all (w_central demo_freed) B64)" "idle_header True B64 4096 (w_mem demo_freed 4096)"
    using st(2) by auto
qed

text \<open>An allocator with an arena of \<open>2 ^ 34\<close> bytes and one thread.\<close>

definition demo_big :: world where
  "demo_big = \<lparr>w_mem = demo_memory, w_al = demo_allocator\<lparr>al_config := demo_config\<lparr>arena_size := 2 ^ 34\<rparr>,
     al_arena := \<lparr>arena_base = 4096, arena_len = 2 ^ 34, arena_next = 0, arena_alignment = 64\<rparr>\<rparr>, w_caches = [fst (ThreadCache_new (demo_config\<lparr>arena_size := 2 ^ 34\<rparr>) 1)], w_next_id = 2\<rparr>"

lemma demo_big_reachable: "reachable True demo_os demo_big"
proof -
  let ?v = "demo_big\<lparr>w_caches := [], w_next_id := 1\<rparr>"
  have "is_power_of_two 64" unfolding is_power_of_two_iff by (rule exI [of _ 6]) simp
  then have "Allocator_new demo_os (demo_config\<lparr>arena_size := 2 ^ 34\<rparr>) 0 = (Inr (w_al demo_big), 1)"
    by (simp add: Allocator_new_def Arena_new_def demo_os_def demo_config_def validate_config_def BLOCK_ALIGNMENT_def
        validate_allocator_config_def HEADER_ALIGNMENT_def demo_allocator_def checked_add_def usize_max_def arena_align_up_def
        wrapping_add_def demo_big_def)
  then have init: "initial demo_os ?v" unfolding initial_def by auto
  have "step True demo_os ?v Start demo_big"
    using step.start [of ?v "fst (ThreadCache_new (demo_config\<lparr>arena_size := 2 ^ 34\<rparr>) 1)" 2]
    by (simp add: demo_big_def ThreadCache_new_def demo_allocator_def)
  then have "trace (step True demo_os) ?v [Start] demo_big" by (simp add: trace_simps)
  then show ?thesis unfolding reachable_def using init by blast
qed

end
