(* ===== verification/Stages.thy ===== *)
theory Stages
  imports Allocator
begin

text \<open>
  The entry points of \<^verbatim>\<open>src/src/allocator.rs\<close> cut into sections that a thread executes without
  interference: every section takes at most one of the locks of the central pool and of the
  large-object registry, or makes one successful update of the arena's bump pointer, and
  otherwise touches only the thread's cache and blocks. A free is a single section
  (\<open>deallocate_with_cache\<close>); an allocation that has to go to the arena or that is large, and
  the draining of a cache, consist of several. Run without interruption the sections are
  exactly the functions of the allocator.
\<close>

section \<open>Sections\<close>

text \<open>What a thread still has to do, with the local variables of the interrupted function.\<close>

datatype pc =
    Idle
  | Carve SizeClass usize                 \<comment> \<open>the central pool was empty: reserve a span\<close>
  | Register SizeClass usize ReservedSpan \<comment> \<open>register the reserved span as a slab\<close>
  | Reserve usize usize usize             \<comment> \<open>no large block to reuse: request, block size, usable size\<close>
  | Record usize addr usize usize         \<comment> \<open>header written: request, block, its size, usable size\<close>
  | Report usize                          \<comment> \<open>out of memory: read what remains of the arena\<close>
  | Flush "SizeClass list"                \<comment> \<open>draining: remote returns of these classes\<close>
  | Empty "SizeClass list"                \<comment> \<open>draining: cached blocks of these classes\<close>

datatype outcome = Pending pc | Allocated addr | Refused AllocError | Drained

type_synonym section_result = "(heap \<times> Allocator \<times> ThreadCache \<times> outcome) run"

text \<open>The local end of a small allocation.\<close>

definition serve :: "bool \<Rightarrow> heap \<Rightarrow> Allocator \<Rightarrow> ThreadCache \<Rightarrow> SizeClass \<Rightarrow> usize \<Rightarrow> section_result" where
  "serve dbg m al tc c request = do {
     (b, reuse, tc1) \<leftarrow> pop_available_unchecked dbg m tc c;
     let m1 = clear_small_free_metadata dbg m b;
     m2 \<leftarrow> prepare_header dbg m1 b reuse c request (tc_cache_id tc1);
     Some (m2, al, tc1, Allocated (user_ptr_from_block_start b)) }"

text \<open>The header of a large block is written before the block is recorded.\<close>

definition write_large ::
    "bool \<Rightarrow> heap \<Rightarrow> Allocator \<Rightarrow> ThreadCache \<Rightarrow> usize \<Rightarrow> addr \<Rightarrow> usize \<Rightarrow> usize \<Rightarrow> section_result" where
  "write_large dbg m al tc request b actual usable = do {
     w \<leftarrow> write_large_to_block dbg m b request usable;
     (case w of
        None \<Rightarrow> Some (m, al, tc, Pending (Report request))
      | Some (m1, _) \<Rightarrow> Some (m1, al, tc, Pending (Record request b actual usable))) }"

definition begin_large ::
    "bool \<Rightarrow> heap \<Rightarrow> Allocator \<Rightarrow> ThreadCache \<Rightarrow> usize \<Rightarrow> section_result" where
  "begin_large dbg m al tc request =
     (case checked_add HEADER_SIZE request of
        None \<Rightarrow> Some (m, al, tc, Pending (Report request))
      | Some total_size \<Rightarrow>
        (case align_up_checked total_size (alignment (al_config al)) of
           None \<Rightarrow> Some (m, al, tc, Pending (Report request))
         | Some bs \<Rightarrow>
           (case checked_sub bs HEADER_SIZE of
              None \<Rightarrow> Some (m, al, tc, Pending (Report request))
            | Some usable \<Rightarrow> do {
                (large, reused) \<leftarrow> take_reusable_block dbg (al_large al) bs;
                (case reused of
                   None \<Rightarrow> Some (m, al\<lparr>al_large := large\<rparr>, tc, Pending (Reserve request bs usable))
                 | Some block \<Rightarrow> do {
                     b \<leftarrow> FreeLargeBlock_block_start block;
                     u \<leftarrow> FreeLargeBlock_usable_size block;
                     write_large dbg m (al\<lparr>al_large := large\<rparr>) tc request b (free_block_size block) u }) })))"

definition begin_small ::
    "bool \<Rightarrow> os \<Rightarrow> heap \<Rightarrow> Allocator \<Rightarrow> ThreadCache \<Rightarrow> SizeClass \<Rightarrow> usize \<Rightarrow> section_result" where
  "begin_small dbg sys m al tc c request = do {
     need \<leftarrow> needs_refill tc c;
     if \<not> need then serve dbg m al tc c request
     else do {
       (m1, tc1, central, moved) \<leftarrow> refill_from_central dbg sys m tc c (al_central al);
       let al1 = al\<lparr>al_central := central\<rparr>;
       if moved \<noteq> 0 then serve dbg m1 al1 tc1 c request
       else Some (m1, al1, tc1, Pending (Carve c request)) } }"

text \<open>The first section of \<open>allocate_with_cache\<close> and of \<open>drain_thread_cache\<close>.\<close>

definition begin_alloc ::
    "bool \<Rightarrow> os \<Rightarrow> heap \<Rightarrow> Allocator \<Rightarrow> ThreadCache \<Rightarrow> usize \<Rightarrow> section_result" where
  "begin_alloc dbg sys m al tc request = do {
     tc0 \<leftarrow> bind_to_allocator tc (al_id al) (al_config al);
     if request = 0 then Some (m, al, tc0, Refused ZeroSize)
     else (case from_request request of
         None \<Rightarrow> begin_large dbg m al tc0 request
       | Some c \<Rightarrow> begin_small dbg sys m al tc0 c request) }"

definition begin_drain :: "heap \<Rightarrow> Allocator \<Rightarrow> ThreadCache \<Rightarrow> section_result" where
  "begin_drain m al tc = do {
     tc0 \<leftarrow> bind_to_allocator tc (al_id al) (al_config al);
     Some (m, al, tc0, Pending (Flush ALL_classes)) }"

text \<open>The further sections.\<close>

definition resume :: "bool \<Rightarrow> os \<Rightarrow> heap \<Rightarrow> Allocator \<Rightarrow> ThreadCache \<Rightarrow> pc \<Rightarrow> section_result" where
  "resume dbg sys m al tc k =
     (case k of
        Idle \<Rightarrow> None
      | Carve c request \<Rightarrow>
        (case reserve_block_span (al_arena al) (block_size_for_alignment c (alignment (al_config al)))
                (refill_count (al_config al) c) of
           Inl e \<Rightarrow> Some (m, al, tc, Refused (with_request request e))
         | Inr None \<Rightarrow> Some (m, al, tc, Pending (Report request))
         | Inr (Some (arena, span)) \<Rightarrow> Some (m, al\<lparr>al_arena := arena\<rparr>, tc, Pending (Register c request span)))
      | Register c request span \<Rightarrow> do {
          let bs = block_size_for_alignment c (alignment (al_config al));
          let carved = span_size span div bs;
          (m1, central) \<leftarrow> register_slab dbg sys m (al_central al) c (span_start span) bs carved;
          tc1 \<leftarrow> push_owned_slab dbg tc c (span_start span) bs carved;
          let al1 = al\<lparr>al_central := central\<rparr>;
          if carved = 0 then Some (m1, al1, tc1, Pending (Report request))
          else serve dbg m1 al1 tc1 c request }
      | Reserve request bs usable \<Rightarrow>
        (case allocate_block (al_arena al) bs of
           Inl e \<Rightarrow> Some (m, al, tc, Refused (with_request request e))
         | Inr (arena, b) \<Rightarrow> write_large dbg m (al\<lparr>al_arena := arena\<rparr>) tc request b bs usable)
      | Record request b actual usable \<Rightarrow> do {
          let user = user_ptr_from_block_start b;
          large \<leftarrow> record_live_allocation dbg (al_large al) user b actual request usable;
          Some (m, al\<lparr>al_large := large\<rparr>, tc, Allocated user) }
      | Report request \<Rightarrow> Some (m, al, tc, Refused (out_of_memory al request))
      | Flush cs \<Rightarrow>
        (case cs of
           [] \<Rightarrow> Some (m, al, tc, Pending (Empty ALL_classes))
         | c # cs' \<Rightarrow> do {
             (m1, tc1, central, _) \<leftarrow> flush_remote_returns_for_class dbg m tc c (al_central al);
             Some (m1, al\<lparr>al_central := central\<rparr>, tc1, Pending (Flush cs')) })
      | Empty cs \<Rightarrow>
        (case cs of
           [] \<Rightarrow> Some (m, al, tc, Drained)
         | c # cs' \<Rightarrow> do {
             lc \<leftarrow> vec_get (tc_classes tc) (index c);
             if lc_total_len lc = 0 then Some (m, al, tc, Pending (Empty cs'))
             else do {
               (m1, lc1, batch) \<leftarrow> lc_pop_batch dbg m lc (lc_total_len lc) c;
               (m2, central) \<leftarrow> return_batch dbg sys m1 (al_central al) c batch;
               Some (m2, al\<lparr>al_central := central\<rparr>, tc_set_class tc c lc1, Pending (Empty (c # cs'))) } }))"

section \<open>Uninterrupted runs\<close>

text \<open>At most \<open>k\<close> further sections in a row; \<open>None\<close> when they do not suffice.\<close>

fun drive :: "bool \<Rightarrow> os \<Rightarrow> nat \<Rightarrow> heap \<times> Allocator \<times> ThreadCache \<times> outcome \<Rightarrow> section_result" where
  "drive dbg sys 0 (m, al, tc, r) = (case r of Pending _ \<Rightarrow> None | _ \<Rightarrow> Some (m, al, tc, r))"
| "drive dbg sys (Suc k) (m, al, tc, r) =
     (case r of Pending p \<Rightarrow> Option.bind (resume dbg sys m al tc p) (drive dbg sys k) | _ \<Rightarrow> Some (m, al, tc, r))"

definition alloc_outcome :: "AllocError + addr \<Rightarrow> outcome" where
  "alloc_outcome r = (case r of Inl e \<Rightarrow> Refused e | Inr p \<Rightarrow> Allocated p)"

lemma drive_done [simp]: "(\<And>p. r \<noteq> Pending p) \<Longrightarrow> drive dbg sys k (m, al, tc, r) = Some (m, al, tc, r)"
  by (cases k; cases r) auto

lemma drive_serve [simp]: "Option.bind (serve dbg m al tc c n) (drive dbg sys k) = serve dbg m al tc c n"
  by (auto simp: serve_def Let_def split: Option.bind_splits)

definition finished :: "heap \<times> Allocator \<times> ThreadCache \<times> (AllocError + addr) \<Rightarrow> heap \<times> Allocator \<times> ThreadCache \<times> outcome" where
  "finished = (\<lambda>(m, al, tc, r). (m, al, tc, alloc_outcome r))"

lemma drive_small:
  "Option.bind (begin_small dbg sys m al tc c n) (drive dbg sys 3) =
     map_option finished (allocate_small_with_cache dbg sys m al tc c n)"
proof -
  have serve: "serve dbg m al tc c n = map_option finished (do {
      (b, reuse, tc2) \<leftarrow> pop_available_unchecked dbg m tc c;
      let m2 = clear_small_free_metadata dbg m b;
      m3 \<leftarrow> prepare_header dbg m2 b reuse c n (tc_cache_id tc2);
      Some (m3, al, tc2, Inr (user_ptr_from_block_start b)) })" for m al tc
    by (auto simp: serve_def finished_def alloc_outcome_def Let_def split: Option.bind_splits)
  have arena: "drive dbg sys 3 (m, al, tc, Pending (Carve c n)) = map_option finished (do {
      (m2, al2, tc2, r) \<leftarrow> refill_cache_from_arena dbg sys m al tc c n;
      (case (case r of Inl e \<Rightarrow> Inl e | Inr carved \<Rightarrow> if carved = 0 then Inl (out_of_memory al2 n) else Inr ()) of
         Inl e \<Rightarrow> Some (m2, al2, tc2, Inl e)
       | Inr _ \<Rightarrow> do {
          (b, reuse, tc3) \<leftarrow> pop_available_unchecked dbg m2 tc2 c;
          let m3 = clear_small_free_metadata dbg m2 b;
          m4 \<leftarrow> prepare_header dbg m3 b reuse c n (tc_cache_id tc3);
          Some (m4, al2, tc3, Inr (user_ptr_from_block_start b)) }) })" for m al tc
  proof -
    let ?bs = "block_size_for_alignment c (alignment (al_config al))"
    consider (err) e where "reserve_block_span (al_arena al) ?bs (refill_count (al_config al) c) = Inl e"
      | (full) "reserve_block_span (al_arena al) ?bs (refill_count (al_config al) c) = Inr None"
      | (got) a span where "reserve_block_span (al_arena al) ?bs (refill_count (al_config al) c) = Inr (Some (a, span))"
      by (metis not_None_eq sum.exhaust surj_pair)
    then show ?thesis
    proof cases
      case (got a span)
      show ?thesis
      proof (cases "span_size span div ?bs = 0")
        case True
        then show ?thesis using got
          by (auto simp: numeral_3_eq_3 resume_def refill_cache_from_arena_def finished_def alloc_outcome_def out_of_memory_def Let_def
              simp del: div_eq_0_iff split: Option.bind_splits)
      next
        case False
        then show ?thesis using got
          by (auto simp: numeral_3_eq_3 resume_def refill_cache_from_arena_def serve finished_def alloc_outcome_def Let_def
              simp del: div_eq_0_iff split: Option.bind_splits)
      qed
    qed (simp_all add: numeral_3_eq_3 resume_def refill_cache_from_arena_def finished_def alloc_outcome_def Let_def)
  qed
  show ?thesis
  proof (cases "needs_refill tc c")
    case None
    then show ?thesis by (simp add: begin_small_def allocate_small_with_cache_def ensure_available_def)
  next
    case (Some need)
    show ?thesis
    proof (cases need)
      case False
      then show ?thesis using Some drive_serve [of dbg m al tc c n sys 3]
        by (simp add: begin_small_def allocate_small_with_cache_def ensure_available_def) (simp add: serve)
    next
      case need: True
      show ?thesis
      proof (cases "refill_from_central dbg sys m tc c (al_central al)")
        case None
        then show ?thesis using Some need by (simp add: begin_small_def allocate_small_with_cache_def ensure_available_def)
      next
        case (Some x)
        obtain m1 tc1 cp1 k where x: "x = (m1, tc1, cp1, k)" by (cases x)
        show ?thesis
        proof (cases "k = 0")
          case True
          then show ?thesis using \<open>needs_refill tc c = Some need\<close> need Some x
            by (cases "refill_cache_from_arena dbg sys m1 (al\<lparr>al_central := cp1\<rparr>) tc1 c n")
              (auto simp: begin_small_def allocate_small_with_cache_def ensure_available_def arena Let_def split: sum.splits)
        next
          case False
          then show ?thesis using \<open>needs_refill tc c = Some need\<close> need Some x drive_serve [of dbg m1 "al\<lparr>al_central := cp1\<rparr>" tc1 c n sys 3]
            by (simp add: begin_small_def allocate_small_with_cache_def ensure_available_def) (simp add: serve)
        qed
      qed
    qed
  qed
qed

lemma drive_large:
  "Option.bind (begin_large dbg m al tc n) (drive dbg sys 3) =
     map_option finished (do { (m1, al1, r) \<leftarrow> allocate_large dbg m al n; Some (m1, al1, tc, r) })"
  supply checked_add_eq_Some [simp del] checked_add_eq_None [simp del] checked_sub_eq_Some [simp del] checked_sub_eq_None [simp del]
proof -
  have wr: "Option.bind (write_large dbg m al tc n b sz u) (drive dbg sys (Suc k)) =
      map_option finished (do {
        w \<leftarrow> write_large_to_block dbg m b n u;
        (case w of
           None \<Rightarrow> Some (m, al, tc, Inl (out_of_memory al n))
         | Some (m1, _) \<Rightarrow> do {
             let user = user_ptr_from_block_start b;
             large \<leftarrow> record_live_allocation dbg (al_large al) user b sz n u;
             Some (m1, al\<lparr>al_large := large\<rparr>, tc, Inr user) }) })" for m al b sz u k
    by (auto simp: write_large_def resume_def finished_def alloc_outcome_def Let_def split: Option.bind_splits option.splits)
  consider (no_size) "checked_add HEADER_SIZE n = None"
    | (no_block) t where "checked_add HEADER_SIZE n = Some t" "align_up_checked t (alignment (al_config al)) = None"
    | (fits) t bs where "checked_add HEADER_SIZE n = Some t" "align_up_checked t (alignment (al_config al)) = Some bs"
    by (metis not_None_eq)
  then show ?thesis
  proof cases
    case t: (fits t bs)
    show ?thesis
    proof (cases "checked_sub bs HEADER_SIZE")
      case None
      then show ?thesis using t
        by (simp add: begin_large_def allocate_large_def numeral_3_eq_3 resume_def finished_def alloc_outcome_def)
    next
      case (Some u)
      consider (stuck) "take_reusable_block dbg (al_large al) bs = None"
        | (none) l where "take_reusable_block dbg (al_large al) bs = Some (l, None)"
        | (reuse) l f where "take_reusable_block dbg (al_large al) bs = Some (l, Some f)"
        by (metis not_None_eq surj_pair)
      then show ?thesis
      proof cases
        case stuck
        then show ?thesis using t Some by (simp add: begin_large_def allocate_large_def large_block_def)
      next
        case (none l)
        show ?thesis
        proof (cases "allocate_block (al_arena al) bs")
          case (Inl e)
          then show ?thesis using t Some none
            by (simp add: begin_large_def allocate_large_def large_block_def numeral_3_eq_3 resume_def finished_def alloc_outcome_def)
        next
          case (Inr x)
          obtain a b where x: "x = (a, b)" by (cases x)
          have "Option.bind (begin_large dbg m al tc n) (drive dbg sys 3) =
              Option.bind (write_large dbg m (al\<lparr>al_large := l, al_arena := a\<rparr>) tc n b bs u) (drive dbg sys (Suc (Suc 0)))"
            using t Some none Inr x by (simp add: begin_large_def numeral_3_eq_3 resume_def)
          then show ?thesis unfolding wr using t Some none Inr x
            by (auto simp: allocate_large_def large_block_def Let_def finished_def split: Option.bind_splits option.splits)
        qed
      next
        case (reuse l f)
        have "Option.bind (begin_large dbg m al tc n) (drive dbg sys 3) = Option.bind (FreeLargeBlock_block_start f) (\<lambda>b.
            Option.bind (FreeLargeBlock_usable_size f) (\<lambda>v.
              Option.bind (write_large dbg m (al\<lparr>al_large := l\<rparr>) tc n b (free_block_size f) v) (drive dbg sys (Suc (Suc (Suc 0))))))"
          using t Some reuse by (simp add: begin_large_def numeral_3_eq_3)
        then show ?thesis unfolding wr using t Some reuse
          by (auto simp: allocate_large_def large_block_def Let_def finished_def split: Option.bind_splits option.splits)
      qed
    qed
  qed (simp_all add: begin_large_def allocate_large_def numeral_3_eq_3 resume_def finished_def alloc_outcome_def)
qed

lemma drive_alloc:
  "Option.bind (begin_alloc dbg sys m al tc n) (drive dbg sys 3) = map_option finished (allocate_with_cache dbg sys m al tc n)"
proof (cases "bind_to_allocator tc (al_id al) (al_config al)")
  case None
  then show ?thesis by (simp add: begin_alloc_def allocate_with_cache_def)
next
  case (Some tc0)
  show ?thesis
  proof (cases "n = 0 \<or> from_request n = None")
    case True
    then show ?thesis using Some
      by (auto simp: begin_alloc_def allocate_with_cache_def drive_large finished_def alloc_outcome_def)
  next
    case False
    then show ?thesis using Some drive_small by (auto simp: begin_alloc_def allocate_with_cache_def)
  qed
qed

lemma set_same:
  "al_central al = cp \<Longrightarrow> al\<lparr>al_central := cp\<rparr> = al" "tc_classes tc ! index c = lc \<Longrightarrow> tc_set_class tc c lc = tc"
  by (auto simp: tc_set_class_def)

text \<open>Draining: the sections of one class, of the remote returns, and of the whole cache.\<close>

lemma drive_flush:
  "flush_classes dbg cs m tc (al_central al) = Some (m1, tc1, cp1) \<Longrightarrow>
   drive dbg sys (Suc (length cs) + k) (m, al, tc, Pending (Flush cs)) =
   drive dbg sys k (m1, al\<lparr>al_central := cp1\<rparr>, tc1, Pending (Empty ALL_classes))"
proof (induction cs arbitrary: m tc al)
  case Nil
  then show ?case by (auto simp: resume_def set_same)
next
  case (Cons c cs)
  then obtain m2 tc2 cp2 j where f: "flush_remote_returns_for_class dbg m tc c (al_central al) = Some (m2, tc2, cp2, j)"
    "flush_classes dbg cs m2 tc2 cp2 = Some (m1, tc1, cp1)" by (auto simp: run_elims)
  from Cons.IH [of m2 tc2 "al\<lparr>al_central := cp2\<rparr>"] f show ?case by (simp add: resume_def)
qed

lemma drive_empty_class:
  assumes "drain_class_loop dbg sys c m lc cp = Some (m1, lc1, cp1)"
    "tc_classes tc ! index c = lc" "index c < length (tc_classes tc)" "al_central al = cp"
  shows "\<exists>j. \<forall>k. drive dbg sys (j + k) (m, al, tc, Pending (Empty (c # cs))) =
    drive dbg sys k (m1, al\<lparr>al_central := cp1\<rparr>, tc_set_class tc c lc1, Pending (Empty cs))"
  using assms
proof (induction dbg sys c m lc cp "(m1, lc1, cp1)" arbitrary: al tc
    rule: drain_class_loop.raw_induct [rotated, consumes 1, case_names 1])
  case (1 rec dbg sys c m lc cp)
  show ?case
  proof (cases "lc_total_len lc = 0")
    case True
    then have "m1 = m" "lc1 = lc" "cp1 = cp" using 1 by auto
    then show ?thesis using True 1(2-5)
      by (intro exI [of _ 1]) (simp add: resume_def vec_get_def set_same)
  next
    case False
    then obtain m2 lc2 batch m3 cp2 where s: "lc_pop_batch dbg m lc (lc_total_len lc) c = Some (m2, lc2, batch)"
      "return_batch dbg sys m2 cp c batch = Some (m3, cp2)" "rec dbg sys c m3 lc2 cp2 = Some (m1, lc1, cp1)"
      using 1 by (auto simp: run_elims)
    let ?tc = "tc_set_class tc c lc2" and ?al = "al\<lparr>al_central := cp2\<rparr>"
    have "tc_classes ?tc ! index c = lc2" "index c < length (tc_classes ?tc)" "al_central ?al = cp2"
      using 1 by (simp_all add: tc_set_class_def)
    from 1(1) [OF s(3) this] obtain j where j: "\<forall>k. drive dbg sys (j + k) (m3, ?al, ?tc, Pending (Empty (c # cs))) =
        drive dbg sys k (m1, ?al\<lparr>al_central := cp1\<rparr>, tc_set_class ?tc c lc1, Pending (Empty cs))" by blast
    have "tc_set_class ?tc c lc1 = tc_set_class tc c lc1" by (simp add: tc_set_class_def)
    then have "drive dbg sys (Suc j + k) (m, al, tc, Pending (Empty (c # cs))) =
        drive dbg sys k (m1, al\<lparr>al_central := cp1\<rparr>, tc_set_class tc c lc1, Pending (Empty cs))" for k
      using j False s 1 by (simp add: resume_def vec_get_def)
    then show ?thesis by blast
  qed
qed

lemma drive_empty:
  "drain_classes dbg sys cs m tc (al_central al) = Some (m1, tc1, cp1) \<Longrightarrow>
   \<exists>j. \<forall>k. drive dbg sys (j + k) (m, al, tc, Pending (Empty cs)) = Some (m1, al\<lparr>al_central := cp1\<rparr>, tc1, Drained)"
proof (induction cs arbitrary: m tc al)
  case Nil
  then show ?case by (intro exI [of _ 1]) (auto simp: resume_def set_same)
next
  case (Cons c cs)
  then obtain lc m2 lc2 cp2 where d: "vec_get (tc_classes tc) (index c) = Some lc"
    "drain_class_loop dbg sys c m lc (al_central al) = Some (m2, lc2, cp2)"
    "drain_classes dbg sys cs m2 (tc_set_class tc c lc2) cp2 = Some (m1, tc1, cp1)" by (auto simp: run_elims)
  have lc: "tc_classes tc ! index c = lc" "index c < length (tc_classes tc)" using d(1) by (auto simp: vec_get_def split: if_splits)
  obtain j where j: "\<forall>k. drive dbg sys (j + k) (m, al, tc, Pending (Empty (c # cs))) =
      drive dbg sys k (m2, al\<lparr>al_central := cp2\<rparr>, tc_set_class tc c lc2, Pending (Empty cs))"
    using drive_empty_class [OF d(2) lc refl] by blast
  obtain i where i: "\<forall>k. drive dbg sys (i + k) (m2, al\<lparr>al_central := cp2\<rparr>, tc_set_class tc c lc2, Pending (Empty cs)) =
      Some (m1, al\<lparr>al_central := cp2, al_central := cp1\<rparr>, tc1, Drained)"
    using Cons.IH [of m2 "tc_set_class tc c lc2" "al\<lparr>al_central := cp2\<rparr>"] d(3) by auto
  have "drive dbg sys (j + i + k) (m, al, tc, Pending (Empty (c # cs))) = Some (m1, al\<lparr>al_central := cp1\<rparr>, tc1, Drained)" for k
    using j [rule_format, of "i + k"] i [rule_format, of k] by (simp add: add.assoc)
  then show ?case by blast
qed

lemma drive_drain:
  assumes "drain_thread_cache dbg sys m al tc = Some (m', al', tc')"
  shows "\<exists>j. Option.bind (begin_drain m al tc) (drive dbg sys j) = Some (m', al', tc', Drained)"
proof -
  obtain tc0 m1 tc1 cp1 cp2 where d: "bind_to_allocator tc (al_id al) (al_config al) = Some tc0"
    "flush_classes dbg ALL_classes m tc0 (al_central al) = Some (m1, tc1, cp1)"
    "drain_classes dbg sys ALL_classes m1 tc1 cp1 = Some (m', tc', cp2)" "al' = al\<lparr>al_central := cp2\<rparr>"
    using assms by (auto simp: drain_thread_cache_def drain_all_to_central_def flush_all_remote_returns_def run_elims)
  obtain j where "\<forall>k. drive dbg sys (j + k) (m1, al\<lparr>al_central := cp1\<rparr>, tc1, Pending (Empty ALL_classes)) = Some (m', al', tc', Drained)"
    using drive_empty [where al = "al\<lparr>al_central := cp1\<rparr>" and cs = ALL_classes and m = m1 and tc = tc1] d(3,4) by fastforce
  then have "drive dbg sys (Suc (length ALL_classes) + (j + 0)) (m, al, tc0, Pending (Flush ALL_classes)) = Some (m', al', tc', Drained)"
    unfolding drive_flush [OF d(2)] by blast
  moreover have "Option.bind (begin_drain m al tc) (drive dbg sys i) = drive dbg sys i (m, al, tc0, Pending (Flush ALL_classes))" for i
    using d(1) by (simp add: begin_drain_def)
  ultimately show ?thesis by metis
qed

end
