(* ===== verification/Sections.thy ===== *)
theory Sections
  imports Allocator_Entry Stages
begin

text \<open>
  Every section of an interrupted operation keeps the invariant of the allocator. Between two
  sections a thread may own a region of the arena that is neither a slab nor a large block
  of the registry: a reserved span, or a large block that is not yet recorded. These pending
  regions are apart from everything else, whatever other threads do in between.
\<close>

section \<open>Pending regions\<close>

definition pc_regions :: "pc \<Rightarrow> (addr \<times> usize) multiset" where
  "pc_regions k = (case k of
      Register c n span \<Rightarrow> {#(span_start span, span_size span)#}
    | Record n b sz u \<Rightarrow> {#(b, sz)#}
    | _ \<Rightarrow> {#})"

definition pc_ok :: "heap \<Rightarrow> Allocator \<Rightarrow> ThreadCache \<Rightarrow> pc \<Rightarrow> bool" where
  "pc_ok m al tc k \<longleftrightarrow> (k = Idle \<or> tc_owner tc = Some (al_id al)) \<and> (case k of
      Carve c n \<Rightarrow> from_request n = Some c
    | Register c n span \<Rightarrow> from_request n = Some c \<and> (\<exists>j>0. span_size span = class_block_size (al_config al) c * j)
    | Reserve n bs u \<Rightarrow> max_small_request < n \<and> large_block_size (al_config al) n = Some bs \<and> u = bs - HEADER_SIZE
    | Record n b sz u \<Rightarrow> max_small_request < n \<and> HEADER_SIZE + n \<le> sz \<and> sz < 2 ^ 32 + HEADER_SIZE \<and> u = sz - HEADER_SIZE \<and>
        write_encoded_fields m b Large_tag LARGE_CLASS_SENTINEL (word_of_nat n) (word_of_nat u) 0 = m
    | Report n \<Rightarrow> 0 < n
    | _ \<Rightarrow> True)"

definition regs_ok :: "Allocator \<Rightarrow> (addr \<times> usize) multiset \<Rightarrow> bool" where
  "regs_ok al P \<longleftrightarrow> regions_ok al (large_regions (al_large al) + P)"

lemma regs_okD:
  assumes "regs_ok al (add_mset r P)"
  shows "region_ok al r" "s \<in># large_regions (al_large al) \<or> s \<in># P \<Longrightarrow> apart r s" "regs_ok al P"
proof -
  have r: "regions_ok al (large_regions (al_large al) + P) \<and> region_ok al r \<and> (\<forall>s. s \<in># large_regions (al_large al) + P \<longrightarrow> apart r s)"
    using assms unfolding regs_ok_def union_mset_add_mset_right regions_ok_add by blast
  then show "region_ok al r" "regs_ok al P" by (simp_all add: regs_ok_def)
  show "apart r s" if "s \<in># large_regions (al_large al) \<or> s \<in># P" using r that unfolding union_iff by blast
qed

lemma regs_ok_region: "regs_ok al P \<Longrightarrow> r \<in># P \<Longrightarrow> region_ok al r"
  by (simp add: regs_ok_def regions_ok_def)

lemma regs_ok_grows:
  assumes "al_grows al al'" "regs_ok al P"
  shows "regs_ok al' P"
proof -
  have e: "al_large al' = al_large al" "arena_next (al_arena al) \<le> arena_next (al_arena al')" using assms(1) by (auto simp: al_grows_def)
  show ?thesis using assms(2) region_ok_grows [OF assms(1)] e(2) unfolding regs_ok_def regions_ok_def e(1) by (meson order_trans)
qed

text \<open>New arena space is apart from every region handed out before.\<close>

lemma regs_ok_new:
  assumes gr: "al_grows al al'" and P: "regs_ok al P" and r: "region_ok al' r" "used_end al \<le> fst r"
    "arena_next (al_arena al) + snd r \<le> arena_next (al_arena al')"
  shows "regs_ok al' (add_mset r P)"
proof -
  have old: "regs_ok al' P" by (rule regs_ok_grows [OF gr P])
  have e: "al_large al' = al_large al" using gr by (simp add: al_grows_def)
  have "apart r s" if "s \<in># large_regions (al_large al) + P" for s
  proof -
    have "fst s + snd s \<le> used_end al" using P that by (auto simp: regs_ok_def regions_ok_def region_ok_def)
    then show ?thesis using r(2) by (simp add: apart_def)
  qed
  moreover have "snd r + sum_mset (image_mset snd (large_regions (al_large al) + P)) \<le> arena_next (al_arena al')"
    using P r(3) unfolding regs_ok_def regions_ok_def by linarith
  ultimately show ?thesis using old r(1) by (simp add: regs_ok_def regions_ok_add e)
qed

lemma region_frame:
  assumes "rest_frame (al_central al) R m m'" "region_ok al r"
  shows "m' (fst r) = m (fst r)"
proof -
  have "\<forall>c. \<forall>g\<in>geos (al_central al) c. fst r + HEADER_SIZE \<le> fst g \<or> fst (snd g) \<le> fst r"
    using assms(2) unfolding region_ok_def by fastforce
  then show ?thesis using assms(1) unfolding rest_frame_def by blast
qed

text \<open>
  What a section that allocates nothing guarantees to the other threads: their blocks \<open>R\<close>
  and their pending regions \<open>P\<close> are as they were.
\<close>

definition quiet ::
    "bool \<Rightarrow> (SizeClass \<Rightarrow> addr multiset) \<Rightarrow> (addr \<times> usize) multiset \<Rightarrow> heap \<Rightarrow> Allocator \<Rightarrow>
     heap \<Rightarrow> Allocator \<Rightarrow> ThreadCache \<Rightarrow> pc \<Rightarrow> bool" where
  "quiet dbg R P m al m' al' tc' k' \<longleftrightarrow> alloc_inv dbg m' al' tc' R \<and> tc_owner tc' = Some (al_id al) \<and> al_keeps al al' \<and>
     live (al_large al') = live (al_large al) \<and> (\<forall>c x. x \<in># R c \<longrightarrow> m' x = m x) \<and>
     (\<forall>r. r \<in># P \<longrightarrow> m' (fst r) = m (fst r)) \<and> regs_ok al' (pc_regions k' + P) \<and> pc_ok m' al' tc' k'"

lemma moved_frames:
  assumes mv: "moved dbg j R R' m al tc m' al' tc'" and P: "regs_ok al P"
  shows "\<forall>c x. x \<in># R c \<longrightarrow> m' x = m x" "\<forall>r. r \<in># P \<longrightarrow> m' (fst r) = m (fst r)" "regs_ok al' P"
    "al_keeps al al'" "al_large al' = al_large al" "al_id al' = al_id al" "tc_owner tc' = tc_owner tc"
proof -
  note M = movedD [OF mv]
  show "\<forall>c x. x \<in># R c \<longrightarrow> m' x = m x" using rest_frameD [OF M(2)] by blast
  show r: "regs_ok al' P" by (rule regs_ok_grows [OF M(3) P])
  show "\<forall>r. r \<in># P \<longrightarrow> m' (fst r) = m (fst r)" using region_frame [OF M(2)] regs_ok_region [OF r] by blast
  show "al_keeps al al'" by (rule al_grows_keeps [OF M(3)])
  show "al_large al' = al_large al" "al_id al' = al_id al" "tc_owner tc' = tc_owner tc"
    using M(3,4) by (simp_all add: al_grows_def same_cache_def)
qed

lemma quiet_moved:
  assumes mv: "moved dbg j R R m al tc m' al' tc'" and own: "tc_owner tc = Some (al_id al)" and P: "regs_ok al P"
    and k: "pc_regions k' = {#}" "pc_ok m' al' tc' k'"
  shows "quiet dbg R P m al m' al' tc' k'"
  using moved_frames [OF mv P] movedD(1) [OF mv] own k by (simp add: quiet_def)

lemma quiet_same:
  assumes "alloc_inv dbg m al tc R" "tc_owner tc = Some (al_id al)" "regs_ok al P" "pc_regions k' = {#}" "pc_ok m al tc k'"
  shows "quiet dbg R P m al m al tc k'"
  by (rule quiet_moved [OF moved_refl [OF assms(1)] assms(2-5)])

text \<open>Writing the header of a pending block.\<close>

lemma write_pending:
  assumes inv: "alloc_inv dbg m al tc R" and P: "regs_ok al (add_mset (b, sz) P)" and same: "\<And>x. x \<noteq> b \<Longrightarrow> m' x = m x"
  shows "alloc_inv dbg m' al tc R" "\<forall>c x. x \<in># R c \<longrightarrow> m' x = m x" "\<forall>r. r \<in># P \<longrightarrow> m' (fst r) = m (fst r)"
proof -
  note A = alloc_invD [OF inv] and D = regs_okD [OF P]
  have blk: "m' x = m x" if "x \<in> set (central_all (al_central al) c)" for x c
    by (rule same) (rule region_not_block(2) [OF inv D(1) that])
  have h: "held_inv dbg m' (al_central al) tc R" by (rule held_outside [OF A(4) blk])
  have pos: "0 < sz" using D(1) by (simp add: region_ok_def HEADER_SIZE_def)
  have other: "fst r \<noteq> b" if r: "r \<in># large_regions (al_large al) \<or> r \<in># P" for r
  proof -
    have "region_ok al r" using r P by (auto simp: regs_ok_def regions_ok_def)
    then have "0 < snd r" by (simp add: region_ok_def)
    then show ?thesis using D(2) [OF r] pos by (auto simp: apart_def)
  qed
  have "live_large_ok m' p r" if pr: "(p, r) \<in> set (live (al_large al))" for p r
  proof -
    have "rec_block_addr r \<noteq> b" using other [OF disjI1 [OF live_region [OF pr]]] by simp
    then show ?thesis using live_large(1) [OF inv pr] same by (simp add: live_large_ok_def)
  qed
  then have "large_ok m' al" using A(3) by (simp add: large_ok_def)
  then show "alloc_inv dbg m' al tc R" using A(1,2) h by (simp add: alloc_inv_def)
  show "\<forall>c x. x \<in># R c \<longrightarrow> m' x = m x" using held_apart(5) [OF A(4)] blk by blast
  show "\<forall>r. r \<in># P \<longrightarrow> m' (fst r) = m (fst r)" using other same by blast
qed

lemma write_encoded_idem:
  "write_encoded_fields (write_encoded_fields m b t c r u w) b t c r u w = write_encoded_fields m b t c r u w"
  by (simp add: write_encoded_fields_def)

lemma write_large_section:
  assumes inv: "alloc_inv dbg m al tc R" and own: "tc_owner tc = Some (al_id al)" and P: "regs_ok al (add_mset (b, sz) P)"
    and n: "max_small_request < n" "HEADER_SIZE + n \<le> sz"
  obtains m' k' where "write_large dbg m al tc n b sz (sz - HEADER_SIZE) = Some (m', al, tc, Pending k')" "quiet dbg R P m al m' al tc k'"
proof (cases "sz < 2 ^ 32 + HEADER_SIZE")
  case True
  define m' where "m' = write_encoded_fields m b Large_tag LARGE_CLASS_SENTINEL (word_of_nat n) (word_of_nat (sz - HEADER_SIZE)) 0"
  have "b mod HEADER_ALIGNMENT = 0"
    using regs_okD(1) [OF P] alloc_invD(6) [OF inv]
    by (auto simp: region_ok_def HEADER_ALIGNMENT_def dvd_eq_mod_eq_0 [symmetric] intro: dvd_trans)
  moreover have "sz - HEADER_SIZE < 2 ^ 32" "n < 2 ^ 32" "0 < n" "n \<le> sz - HEADER_SIZE" using True n by linarith+
  ultimately have "write_large dbg m al tc n b sz (sz - HEADER_SIZE) = Some (m', al, tc, Pending (Record n b sz (sz - HEADER_SIZE)))"
    by (simp add: write_large_def write_large_to_block_def encode_large_fields_def u32_try_from_def header_defs m'_def)
  moreover have "m' x = m x" if "x \<noteq> b" for x using that by (simp add: m'_def write_encoded_fields_def)
  note W = write_pending [OF inv P this]
  have "quiet dbg R P m al m' al tc (Record n b sz (sz - HEADER_SIZE))"
    unfolding quiet_def using W P own n True
    by (simp add: pc_regions_def pc_ok_def al_keeps_def m'_def write_encoded_idem)
  ultimately show ?thesis by (rule that)
next
  case False
  then have "2 ^ 32 \<le> sz - HEADER_SIZE" by linarith
  then have "write_large dbg m al tc n b sz (sz - HEADER_SIZE) = Some (m, al, tc, Pending (Report n))"
    by (simp add: write_large_def write_large_oversized)
  moreover have "quiet dbg R P m al m al tc (Report n)"
    by (rule quiet_same [OF inv own regs_okD(3) [OF P]]) (use own n in \<open>simp_all add: pc_regions_def pc_ok_def\<close>)
  ultimately show ?thesis by (rule that)
qed

section \<open>The sections of an operation\<close>

definition got_small ::
    "bool \<Rightarrow> (SizeClass \<Rightarrow> addr multiset) \<Rightarrow> (addr \<times> usize) multiset \<Rightarrow> heap \<Rightarrow> Allocator \<Rightarrow>
     heap \<Rightarrow> Allocator \<Rightarrow> ThreadCache \<Rightarrow> SizeClass \<Rightarrow> usize \<Rightarrow> addr \<Rightarrow> bool" where
  "got_small dbg R P m al m' al' tc' c n b \<longleftrightarrow> alloc_inv dbg m' al' tc' (more_blocks R c [b]) \<and>
     tc_owner tc' = Some (al_id al) \<and> al_keeps al al' \<and> al_large al' = al_large al \<and>
     rest_frame (al_central al') R m m' \<and> (\<exists>ow. live_header dbg c n ow (m' b)) \<and>
     (\<forall>r. r \<in># P \<longrightarrow> m' (fst r) = m (fst r)) \<and> regs_ok al' P"

definition got_large ::
    "bool \<Rightarrow> (SizeClass \<Rightarrow> addr multiset) \<Rightarrow> (addr \<times> usize) multiset \<Rightarrow> heap \<Rightarrow> Allocator \<Rightarrow>
     Allocator \<Rightarrow> ThreadCache \<Rightarrow> usize \<Rightarrow> addr \<Rightarrow> usize \<Rightarrow> bool" where
  "got_large dbg R P m al al' tc' n b sz \<longleftrightarrow> alloc_inv dbg m al' tc' R \<and> tc_owner tc' = Some (al_id al) \<and>
     al_keeps al al' \<and> al_central al' = al_central al \<and>
     live (al_large al') = (b + HEADER_SIZE, large_record b sz n) # live (al_large al) \<and> regs_ok al' P"

text \<open>
  The contract of a section for a request of \<open>n\<close> bytes: it leaves everything of the other
  threads alone, and a pointer it returns belongs to a block that was nobody's.
\<close>

definition section_ok ::
    "bool \<Rightarrow> (SizeClass \<Rightarrow> addr multiset) \<Rightarrow> (addr \<times> usize) multiset \<Rightarrow> usize \<Rightarrow> heap \<Rightarrow> Allocator \<Rightarrow>
     heap \<times> Allocator \<times> ThreadCache \<times> outcome \<Rightarrow> bool" where
  "section_ok dbg R P n m al res \<longleftrightarrow> (case res of (m', al', tc', r) \<Rightarrow>
     (case r of
        Pending k \<Rightarrow> quiet dbg R P m al m' al' tc' k
      | Allocated p \<Rightarrow>
          (\<exists>c b. from_request n = Some c \<and> p = b + HEADER_SIZE \<and> got_small dbg R P m al m' al' tc' c n b) \<or>
          (\<exists>b sz. max_small_request < n \<and> p = b + HEADER_SIZE \<and> m' = m \<and> got_large dbg R P m al al' tc' n b sz)
      | Refused _ \<Rightarrow> quiet dbg R P m al m' al' tc' Idle
      | Drained \<Rightarrow> quiet dbg R P m al m' al' tc' Idle))"

definition request :: "pc \<Rightarrow> usize" where
  "request k = (case k of Carve c n \<Rightarrow> n | Register c n span \<Rightarrow> n | Reserve n bs u \<Rightarrow> n | Record n b sz u \<Rightarrow> n
     | Report n \<Rightarrow> n | _ \<Rightarrow> 0)"

lemma idle_simps [simp]: "pc_regions Idle = {#}" "pc_ok m al tc Idle"
  by (simp_all add: pc_regions_def pc_ok_def)

lemma serve_section:
  assumes q: "quiet dbg R P m al m1 al1 tc1 Idle" and fr: "rest_frame (al_central al1) R m m1" and la: "al_large al1 = al_large al"
    and ne: "lc_blocks m1 (tclass tc1 c) \<noteq> {#}" and c: "from_request n = Some c"
  shows "\<exists>res. serve dbg m1 al1 tc1 c n = Some res \<and> section_ok dbg R P n m al res"
proof -
  have Q: "alloc_inv dbg m1 al1 tc1 R" "tc_owner tc1 = Some (al_id al)" "al_keeps al al1"
    "\<forall>r. r \<in># P \<longrightarrow> m1 (fst r) = m (fst r)" "regs_ok al1 P" using q by (simp_all add: quiet_def)
  have n: "0 < n" "n \<le> payload_size c" using from_request_SomeD [OF c] by auto
  obtain b reuse tc2 m2 where s: "pop_available_unchecked dbg m1 tc1 c = Some (b, reuse, tc2)"
    "prepare_header dbg (clear_small_free_metadata dbg m1 b) b reuse c n (tc_cache_id tc2) = Some m2"
    "moved dbg 0 R (more_blocks R c [b]) m1 al1 tc1 m2 al1 tc2" "live_header dbg c n (tc_cache_id tc1) (m2 b)"
    "user_ptr_from_block_start b = b + HEADER_SIZE" by (rule serve_block [OF Q(1) ne n])
  note M = movedD [OF s(3)] and F = moved_frames [OF s(3) Q(5)]
  have "serve dbg m1 al1 tc1 c n = Some (m2, al1, tc2, Allocated (b + HEADER_SIZE))" using s(1,2,5) by (simp add: serve_def Let_def)
  moreover have "rest_frame (al_central al1) R m m2" using fr M(2) unfolding rest_frame_def by simp
  then have "got_small dbg R P m al m2 al1 tc2 c n b"
    unfolding got_small_def using M(1) F(2,3,7) Q(2,3,4) la s(4) by auto
  ultimately show ?thesis using c by (auto simp: section_ok_def)
qed

lemma begin_small_section:
  assumes inv: "alloc_inv dbg m al tc R" and own: "tc_owner tc = Some (al_id al)" and P: "regs_ok al P"
    and os: "madvise_ok sys" and epoch: "epoch_room (al_central al) c" and c: "from_request n = Some c"
  shows "\<exists>res. begin_small dbg sys m al tc c n = Some res \<and> section_ok dbg R P n m al res"
proof -
  note A = alloc_invD [OF inv]
  note T = tc_invD [OF held_invD(3) [OF A(4)], of c]
  have len: "lc_total_len (tclass tc c) = size (lc_blocks m (tclass tc c))" by (rule lc_invD(3) [OF T(3)])
  have need: "needs_refill tc c = Some (lc_blocks m (tclass tc c) = {#})" using T(1) len by (simp add: needs_refill_def)
  show ?thesis
  proof (cases "lc_blocks m (tclass tc c) = {#}")
    case False
    from serve_section [OF quiet_same [OF inv own P idle_simps] rest_frame_refl refl False c]
    show ?thesis using False need by (simp add: begin_small_def)
  next
    case True
    obtain m1 tc1 cp1 k where r: "refill_from_central dbg sys m tc c (al_central al) = Some (m1, tc1, cp1, k)"
      "exchanged dbg c 1 R m (al_central al) tc m1 cp1 tc1"
      "size (lc_blocks m1 (tclass tc1 c)) = size (lc_blocks m (tclass tc c)) + k"
      "k = 0 \<longleftrightarrow> central_blocks m (al_central al) c = {#}"
      by (rule refill_from_central_spec [OF A(4) os epoch])
    have mv: "moved dbg 1 R R m al tc m1 (al\<lparr>al_central := cp1\<rparr>) tc1" by (rule moved_exchanged [OF inv r(2)])
    note F = moved_frames [OF mv P]
    show ?thesis
    proof (cases "k = 0")
      case False
      have ne: "lc_blocks m1 (tclass tc1 c) \<noteq> {#}" using r(3) False by force
      from serve_section [OF quiet_moved [OF mv own P idle_simps] movedD(2) [OF mv] F(5) ne c]
      show ?thesis using need True r(1) False by (simp add: begin_small_def Let_def)
    next
      case z: True
      have "quiet dbg R P m al m1 (al\<lparr>al_central := cp1\<rparr>) tc1 (Carve c n)"
        by (rule quiet_moved [OF mv own P]) (use own c F(7) in \<open>simp_all add: pc_regions_def pc_ok_def\<close>)
      then show ?thesis using need True r(1) z by (simp add: begin_small_def section_ok_def Let_def)
    qed
  qed
qed

lemma begin_large_section:
  assumes inv: "alloc_inv dbg m al tc R" and own: "tc_owner tc = Some (al_id al)" and P: "regs_ok al P" and n: "max_small_request < n"
  shows "\<exists>res. begin_large dbg m al tc n = Some res \<and> section_ok dbg R P n m al res"
proof -
  note A = alloc_invD [OF inv]
  have report: "quiet dbg R P m al m al tc (Report n)"
    by (rule quiet_same [OF inv own P]) (use own n in \<open>simp_all add: pc_regions_def pc_ok_def\<close>)
  show ?thesis
  proof (cases "large_block_size (al_config al) n")
    case None
    then have "begin_large dbg m al tc n = Some (m, al, tc, Pending (Report n))"
      by (auto simp: begin_large_def large_block_size_def split: option.splits)
    then show ?thesis using report by (simp add: section_ok_def)
  next
    case (Some bs)
    note B = large_block_size_props [OF Some A(7)]
    have bs: "HEADER_SIZE < bs" using B(1) n by linarith
    have run: "begin_large dbg m al tc n = do {
        (large, reused) \<leftarrow> take_reusable_block dbg (al_large al) bs;
        (case reused of
           None \<Rightarrow> Some (m, al\<lparr>al_large := large\<rparr>, tc, Pending (Reserve n bs (bs - HEADER_SIZE)))
         | Some block \<Rightarrow> do {
             b \<leftarrow> FreeLargeBlock_block_start block;
             u \<leftarrow> FreeLargeBlock_usable_size block;
             write_large dbg m (al\<lparr>al_large := large\<rparr>) tc n b (free_block_size block) u }) }"
      using Some bs by (auto simp: begin_large_def large_block_size_def checked_sub_def split: option.splits)
    have L: "large_inv (al_large al)" "regions_ok al (large_regions (al_large al))" using A(3) by (auto simp: large_ok_def)
    obtain l r where t: "take_best_fit_block dbg (al_large al) bs = Some (l, r)" "large_inv l" "live l = live (al_large al)"
      "case r of None \<Rightarrow> l = al_large al \<and> (\<forall>b. b \<in># large_free (al_large al) \<longrightarrow> free_block_size b < bs)
       | Some b \<Rightarrow> large_free (al_large al) = add_mset b (large_free l) \<and> bs \<le> free_block_size b \<and>
          (\<forall>c. c \<in># large_free (al_large al) \<longrightarrow> bs \<le> free_block_size c \<longrightarrow> free_block_size b \<le> free_block_size c)"
      by (rule take_best_fit_block_spec [OF L(1)])
    show ?thesis
    proof (cases r)
      case None
      then have "begin_large dbg m al tc n = Some (m, al, tc, Pending (Reserve n bs (bs - HEADER_SIZE)))"
        using t(1,4) bs by (simp add: run take_reusable_block_def)
      moreover have "quiet dbg R P m al m al tc (Reserve n bs (bs - HEADER_SIZE))"
        by (rule quiet_same [OF inv own P]) (use own n Some in \<open>simp_all add: pc_regions_def pc_ok_def\<close>)
      ultimately show ?thesis by (simp add: section_ok_def)
    next
      case (Some f)
      let ?b = "free_block_addr f" and ?sz = "free_block_size f" and ?al = "al\<lparr>al_large := l\<rparr>"
      have free: "large_free (al_large al) = add_mset f (large_free l)" "bs \<le> ?sz" using t(4) Some by auto
      have reg: "large_regions (al_large al) = add_mset (?b, ?sz) (large_regions l)"
        by (simp add: large_regions_def t(3) free(1))
      have rg: "region_ok ?al x = region_ok al x" for x by (simp add: region_ok_def)
      have P': "regs_ok ?al (add_mset (?b, ?sz) P)" using P unfolding regs_ok_def regions_ok_def rg by (simp add: reg)
      have "large_ok m ?al"
        using A(3) t(2,3) L(2) unfolding large_ok_def regions_ok_add reg by (simp add: regions_ok_def rg)
      then have inv': "alloc_inv dbg m ?al tc R" using inv unfolding alloc_inv_def al_shape_def slabs_in_def by simp
      have sz: "HEADER_SIZE + n \<le> ?sz" using B(1) free(2) by linarith
      have own': "tc_owner tc = Some (al_id ?al)" using own by simp
      obtain m' k' where w: "write_large dbg m ?al tc n ?b ?sz (?sz - HEADER_SIZE) = Some (m', ?al, tc, Pending k')"
        "quiet dbg R P m ?al m' ?al tc k'" by (rule write_large_section [OF inv' own' P' n sz])
      have "0 < ?b" using regs_okD(1) [OF P'] arena_wfD(3) [OF A(5)] by (simp add: region_ok_def)
      then have "begin_large dbg m al tc n = Some (m', ?al, tc, Pending k')"
        using t(1) Some free(2) bs w(1) by (simp add: run take_reusable_block_def
          FreeLargeBlock_block_start_def FreeLargeBlock_usable_size_def checked_sub_def)
      moreover have "quiet dbg R P m al m' ?al tc k'" using w(2) t(3) by (simp add: quiet_def al_keeps_def)
      ultimately show ?thesis by (simp add: section_ok_def)
    qed
  qed
qed

lemma begin_alloc_section:
  assumes inv: "alloc_inv dbg m al tc R" and b: "bindable tc al" and P: "regs_ok al P"
    and os: "madvise_ok sys" and ep: "epochs_low (al_central al)"
  shows "\<exists>res. begin_alloc dbg sys m al tc n = Some res \<and> section_ok dbg R P n m al res"
proof -
  obtain tc0 where bd: "bind_to_allocator tc (al_id al) (al_config al) = Some tc0" "alloc_inv dbg m al tc0 R"
    "tc_owner tc0 = Some (al_id al)" by (rule bind_spec [OF inv b])
  show ?thesis
  proof (cases "n = 0")
    case True
    then show ?thesis using bd(1) quiet_same [OF bd(2,3) P idle_simps] by (simp add: begin_alloc_def section_ok_def)
  next
    case False
    show ?thesis
    proof (cases "from_request n")
      case None
      then have "max_small_request < n" using False by (simp add: from_request_None_iff)
      from begin_large_section [OF bd(2,3) P this] show ?thesis using bd(1) False None by (simp add: begin_alloc_def)
    next
      case (Some c)
      from begin_small_section [OF bd(2,3) P os epochs_lowD(2) [OF ep] Some]
      show ?thesis using bd(1) False Some by (simp add: begin_alloc_def)
    qed
  qed
qed

lemma begin_drain_section:
  assumes inv: "alloc_inv dbg m al tc R" and b: "bindable tc al" and P: "regs_ok al P"
  shows "\<exists>res. begin_drain m al tc = Some res \<and> section_ok dbg R P n m al res"
proof -
  obtain tc0 where bd: "bind_to_allocator tc (al_id al) (al_config al) = Some tc0" "alloc_inv dbg m al tc0 R"
    "tc_owner tc0 = Some (al_id al)" by (rule bind_spec [OF inv b])
  have "quiet dbg R P m al m al tc0 (Flush ALL_classes)"
    by (rule quiet_same [OF bd(2,3) P]) (use bd(3) in \<open>simp_all add: pc_regions_def pc_ok_def\<close>)
  then show ?thesis using bd(1) by (simp add: begin_drain_def section_ok_def)
qed

lemma carve_section:
  assumes inv: "alloc_inv dbg m al tc R" and own: "tc_owner tc = Some (al_id al)" and P: "regs_ok al P" and c: "from_request n = Some c"
  shows "\<exists>res. resume dbg sys m al tc (Carve c n) = Some res \<and> section_ok dbg R P n m al res"
proof (rule reserve_region [OF inv, of c])
  assume f: "reserve_block_span (al_arena al) (class_block_size (al_config al) c) (refill_count (al_config al) c) = Inr None"
  have "quiet dbg R P m al m al tc (Report n)"
    by (rule quiet_same [OF inv own P]) (use own from_request_SomeD(1) [OF c] in \<open>simp_all add: pc_regions_def pc_ok_def\<close>)
  then show ?thesis using f by (simp add: resume_def class_block_size_def section_ok_def)
next
  fix a span k
  let ?bs = "class_block_size (al_config al) c" and ?al = "al\<lparr>al_arena := a\<rparr>"
  assume r: "reserve_block_span (al_arena al) ?bs (refill_count (al_config al) c) = Inr (Some (a, span))" "0 < k"
    "span_size span = ?bs * k" "used_end al \<le> span_start span" "al_grows al ?al" "alloc_inv dbg m ?al tc R"
    "region_ok ?al (span_start span, ?bs * k)" "arena_next (al_arena al) + span_size span \<le> arena_next a"
  have new: "regs_ok ?al (add_mset (span_start span, span_size span) P)"
    by (rule regs_ok_new [OF r(5) P]) (use r(3,4,7,8) in simp_all)
  have "quiet dbg R P m al m ?al tc (Register c n span)"
    unfolding quiet_def using r(2,3,6) new own al_grows_keeps [OF r(5)] c by (auto simp: pc_regions_def pc_ok_def)
  then show ?thesis using r(1) by (simp add: resume_def class_block_size_def section_ok_def)
qed

lemma register_section:
  assumes inv: "alloc_inv dbg m al tc R" and own: "tc_owner tc = Some (al_id al)" and os: "madvise_ok sys"
    and epoch: "epoch_room (al_central al) c" and P: "regs_ok al (add_mset (span_start span, span_size span) P)"
    and c: "from_request n = Some c" and k: "0 < k" "span_size span = class_block_size (al_config al) c * k"
  shows "\<exists>res. resume dbg sys m al tc (Register c n span) = Some res \<and> section_ok dbg R P n m al res"
proof -
  let ?bs = "class_block_size (al_config al) c" and ?r = "(span_start span, class_block_size (al_config al) c * k)"
  note D = regs_okD [OF P [unfolded k(2)]]
  obtain m1 cp1 tc1 where i: "register_slab dbg sys m (al_central al) c (span_start span) ?bs k = Some (m1, cp1)"
    "push_owned_slab dbg tc c (span_start span) ?bs k = Some tc1"
    "alloc_inv dbg m1 (al\<lparr>al_central := cp1\<rparr>) tc1 R" "rest_frame cp1 R m m1"
    "central_geometry cp1 = (central_geometry (al_central al))(c := central_geometry (al_central al) c @ [span_geometry (al_config al) c (span_start span) k])"
    "same_cache tc tc1" "\<forall>d. cp_epoch (cpool cp1 d) \<le> cp_epoch (cpool (al_central al) d) + 2"
    "lc_blocks m1 (tclass tc1 c) \<noteq> {#}"
    by (rule install_span [OF inv os epoch k(1) D(1)]) (use D(2) in blast)+
  let ?al = "al\<lparr>al_central := cp1\<rparr>"
  have reg: "region_ok ?al s" if s: "region_ok al s" "apart ?r s" for s
  proof -
    have "fst s + snd s \<le> fst g \<or> fst (snd g) \<le> fst s" if "g \<in> geos cp1 d" for d g
    proof -
      have "g \<in> geos (al_central al) d \<or> g = span_geometry (al_config al) c (span_start span) k"
        using that by (auto simp: i(5) split: if_splits)
      then show ?thesis using s unfolding region_ok_def by (auto simp: apart_def)
    qed
    then show ?thesis using s(1) by (auto simp: region_ok_def)
  qed
  have regs: "regs_ok ?al P" unfolding regs_ok_def regions_ok_def
  proof (intro conjI ballI)
    fix s assume s: "s \<in># large_regions (al_large ?al) + P"
    have "region_ok al s" using D(3) s unfolding regs_ok_def regions_ok_def by simp
    then show "region_ok ?al s" by (rule reg) (use D(2) s in auto)
  qed (use D(3) in \<open>simp_all add: regs_ok_def regions_ok_def\<close>)
  have fr: "rest_frame (al_central ?al) R m m1" using i(4) by simp
  have Rfr: "\<forall>d x. x \<in># R d \<longrightarrow> m1 x = m x" using rest_frameD [OF fr] by blast
  have Pfr: "\<forall>r. r \<in># P \<longrightarrow> m1 (fst r) = m (fst r)" using region_frame [OF fr] regs_ok_region [OF regs] by blast
  have "al_keeps al ?al" by (auto simp: al_keeps_def i(5))
  then have q: "quiet dbg R P m al m1 ?al tc1 Idle"
    unfolding quiet_def using i(3,6) own regs Rfr Pfr by (simp add: same_cache_def)
  obtain res where "serve dbg m1 ?al tc1 c n = Some res" "section_ok dbg R P n m al res"
    using serve_section [OF q fr _ i(8) c] by auto
  moreover have "span_size span div ?bs = k" using k class_block_size_pos [of "al_config al" c] by simp
  ultimately show ?thesis using i(1,2) k(1) by (simp add: resume_def class_block_size_def Let_def)
qed

lemma reserve_section:
  assumes inv: "alloc_inv dbg m al tc R" and own: "tc_owner tc = Some (al_id al)" and P: "regs_ok al P"
    and n: "max_small_request < n" and bs: "large_block_size (al_config al) n = Some bs"
  shows "\<exists>res. resume dbg sys m al tc (Reserve n bs (bs - HEADER_SIZE)) = Some res \<and> section_ok dbg R P n m al res"
proof -
  note A = alloc_invD [OF inv] and B = large_block_size_props [OF bs alloc_invD(7) [OF inv]]
  have h: "HEADER_SIZE < bs" using B(1) n by linarith
  show ?thesis
  proof (rule reserve_large [OF inv h, of n])
    fix e assume "allocate_block (al_arena al) bs = Inl e"
    then show ?thesis using quiet_same [OF inv own P idle_simps] by (simp add: resume_def section_ok_def)
  next
    fix a b
    let ?al = "al\<lparr>al_arena := a\<rparr>"
    assume g: "allocate_block (al_arena al) bs = Inr (a, b)" "arena_wf a" "arena_base a = arena_base (al_arena al)"
      "arena_len a = arena_len (al_arena al)" "arena_alignment a = arena_alignment (al_arena al)"
      "arena_next (al_arena al) + bs \<le> arena_next a" "used_end al \<le> b" "region_ok ?al (b, bs)"
    have gr: "al_grows al ?al" using g(3,4,6) by (simp add: al_grows_def)
    have "alloc_inv dbg m ?al tc R"
      using grow_arena(1,2,4) [OF inv g(2,3,5), where l = "al_large al"] A(3,4) g(6) unfolding alloc_inv_def large_ok_def by simp
    moreover have "regs_ok ?al (add_mset (b, bs) P)" by (rule regs_ok_new [OF gr P g(8)]) (use g(6,7) in simp_all)
    moreover have "tc_owner tc = Some (al_id ?al)" using own by simp
    ultimately obtain m' k' where w: "write_large dbg m ?al tc n b bs (bs - HEADER_SIZE) = Some (m', ?al, tc, Pending k')"
      "quiet dbg R P m ?al m' ?al tc k'" using write_large_section n B(1) by metis
    have "quiet dbg R P m al m' ?al tc k'" using w(2) g(3,4) by (simp add: quiet_def al_keeps_def)
    then show ?thesis using g(1) w(1) by (simp add: resume_def section_ok_def)
  qed
qed

lemma record_section:
  assumes inv: "alloc_inv dbg m al tc R" and k: "pc_ok m al tc (Record n b sz u)" and P: "regs_ok al (add_mset (b, sz) P)"
  shows "\<exists>res. resume dbg sys m al tc (Record n b sz u) = Some res \<and> section_ok dbg R P n m al res"
proof -
  have own: "tc_owner tc = Some (al_id al)" and n: "max_small_request < n" and sz: "sz < 2 ^ 32 + HEADER_SIZE" "HEADER_SIZE + n \<le> sz"
    and u: "u = sz - HEADER_SIZE"
    and w: "m = write_encoded_fields m b Large_tag LARGE_CLASS_SENTINEL (word_of_nat n) (word_of_nat (sz - HEADER_SIZE)) 0"
    using k by (auto simp: pc_ok_def)
  note A = alloc_invD [OF inv] and D = regs_okD [OF P]
  have L: "large_inv (al_large al)" using A(3) by (simp add: large_ok_def)
  have reg: "regions_ok al (add_mset (b, sz) (large_regions (al_large al)))"
  proof -
    have "regions_ok al (large_regions (al_large al))" using A(3) by (simp add: large_ok_def)
    moreover have "sum_mset (image_mset snd (large_regions (al_large al) + add_mset (b, sz) P)) \<le> arena_next (al_arena al)"
      using P unfolding regs_ok_def regions_ok_def by blast
    then have "sz + sum_mset (image_mset snd (large_regions (al_large al))) \<le> arena_next (al_arena al)" by simp
    moreover have "\<forall>s. s \<in># large_regions (al_large al) \<longrightarrow> apart (b, sz) s" using D(2) by blast
    ultimately show ?thesis unfolding regions_ok_add using D(1) by simp
  qed
  have same: "al = al\<lparr>al_arena := al_arena al, al_large := al_large al\<rparr>" by simp
  obtain l' where r: "record_live_allocation dbg (al_large al) (b + HEADER_SIZE) b sz n (sz - HEADER_SIZE) = Some l'"
    "alloc_inv dbg m (al\<lparr>al_large := l'\<rparr>) tc R" "live l' = (b + HEADER_SIZE, large_record b sz n) # live (al_large al)"
    "large_free l' = large_free (al_large al)"
    by (rule install_large [OF inv same A(5) refl refl order_refl L refl order_refl reg sz n w])
  have "b + sz \<le> usize_max" using D(1) arena_wfD(4,5) [OF A(5)] by (simp add: region_ok_def)
  then have user: "user_ptr_from_block_start b = b + HEADER_SIZE" using sz(2) by (simp add: user_ptr_from_block_start_def)
  have "large_regions l' = add_mset (b, sz) (large_regions (al_large al))"
    by (simp add: large_regions_def r(3,4) large_record_def)
  then have "regs_ok (al\<lparr>al_large := l'\<rparr>) P"
    using P by (simp add: regs_ok_def regions_ok_def region_ok_def)
  then have "got_large dbg R P m al (al\<lparr>al_large := l'\<rparr>) tc n b sz"
    unfolding got_large_def using r(2,3) own by (simp add: al_keeps_def)
  then show ?thesis using r(1) user u n by (auto simp: resume_def section_ok_def)
qed

lemma drain_sections:
  assumes inv: "alloc_inv dbg m al tc R" and own: "tc_owner tc = Some (al_id al)" and P: "regs_ok al P"
    and os: "madvise_ok sys" and ep: "epochs_low (al_central al)"
  shows "\<exists>res. resume dbg sys m al tc (Flush cs) = Some res \<and> section_ok dbg R P n m al res"
    "\<exists>res. resume dbg sys m al tc (Empty cs) = Some res \<and> section_ok dbg R P n m al res"
proof -
  note A = alloc_invD [OF inv]
  have next_pc: "quiet dbg R P m al m' al' tc' k" if "moved dbg 1 R R m al tc m' al' tc'" "k = Flush cs' \<or> k = Empty cs'" for m' al' tc' k cs'
    by (rule quiet_moved [OF that(1) own P])
      (use that own moved_frames(6,7) [OF that(1) P] in \<open>auto simp: pc_regions_def pc_ok_def\<close>)
  have stay: "moved dbg 1 R R m al tc m al tc" by (rule moved_refl [OF inv])
  show "\<exists>res. resume dbg sys m al tc (Flush cs) = Some res \<and> section_ok dbg R P n m al res"
  proof (cases cs)
    case Nil
    then show ?thesis using next_pc [OF stay disjI2 [OF refl], of ALL_classes] by (simp add: resume_def section_ok_def)
  next
    case (Cons c cs')
    obtain m2 tc2 cp2 k where d: "flush_remote_returns_for_class dbg m tc c (al_central al) = Some (m2, tc2, cp2, k)"
      "exchanged dbg c 1 R m (al_central al) tc m2 cp2 tc2" by (rule flush_class_spec [OF A(4), of c])
    from next_pc [OF moved_exchanged [OF inv d(2)] disjI1 [OF refl], of cs'] d(1) Cons
    show ?thesis by (simp add: resume_def section_ok_def)
  qed
  show "\<exists>res. resume dbg sys m al tc (Empty cs) = Some res \<and> section_ok dbg R P n m al res"
  proof (cases cs)
    case Nil
    then show ?thesis using quiet_same [OF inv own P idle_simps] by (simp add: resume_def section_ok_def)
  next
    case (Cons c cs')
    note T = tc_invD [OF held_invD(3) [OF A(4)], of c]
    have len: "lc_total_len (tclass tc c) = size (lc_blocks m (tclass tc c))" by (rule lc_invD(3) [OF T(3)])
    show ?thesis
    proof (cases "lc_blocks m (tclass tc c) = {#}")
      case True
      then show ?thesis using next_pc [OF stay disjI2 [OF refl], of cs'] Cons T(1) len by (simp add: resume_def section_ok_def)
    next
      case False
      then have pos: "0 < lc_total_len (tclass tc c)" using len by (simp add: nonempty_has_size)
      obtain m1 lc batch m2 cp' where r: "lc_pop_batch dbg m (tclass tc c) (lc_total_len (tclass tc c)) c = Some (m1, lc, batch)"
        "return_batch dbg sys m1 (al_central al) c batch = Some (m2, cp')"
        "exchanged dbg c 1 R m (al_central al) tc m2 cp' (tc_set_class tc c lc)"
        by (rule drain_round [OF A(4) os epochs_lowD(2) [OF ep] False pos])
      from next_pc [OF moved_exchanged [OF inv r(3)] disjI2 [OF refl], of "c # cs'"] r(1,2) Cons T(1) pos
      show ?thesis by (simp add: resume_def section_ok_def)
    qed
  qed
qed

lemma resume_section:
  assumes inv: "alloc_inv dbg m al tc R" and k: "pc_ok m al tc k" "k \<noteq> Idle" and P: "regs_ok al (pc_regions k + P)"
    and os: "madvise_ok sys" and ep: "epochs_low (al_central al)"
  shows "\<exists>res. resume dbg sys m al tc k = Some res \<and> section_ok dbg R P (request k) m al res"
proof -
  have own: "tc_owner tc = Some (al_id al)" using k by (simp add: pc_ok_def)
  show ?thesis
  proof (cases k)
    case (Carve c n)
    then show ?thesis using carve_section [OF inv own] P k(1) by (simp add: pc_regions_def request_def pc_ok_def)
  next
    case (Register c n span)
    then obtain j where j: "from_request n = Some c" "0 < j" "span_size span = class_block_size (al_config al) c * j"
      using k(1) by (auto simp: pc_ok_def)
    have "regs_ok al (add_mset (span_start span, span_size span) P)" using P Register by (simp add: pc_regions_def)
    from register_section [OF inv own os epochs_lowD(2) [OF ep] this j] Register show ?thesis by (simp add: request_def)
  next
    case (Reserve n bs u)
    then show ?thesis using reserve_section [OF inv own, of P n bs sys] P k(1) by (simp add: pc_regions_def request_def pc_ok_def)
  next
    case (Record n b sz u)
    then show ?thesis using record_section [OF inv, of n b sz u P sys] P k(1) by (simp add: pc_regions_def request_def)
  next
    case (Report n)
    then show ?thesis using quiet_same [OF inv own _ idle_simps, of P] P by (simp add: pc_regions_def resume_def section_ok_def)
  next
    case (Flush cs)
    then show ?thesis using drain_sections(1) [OF inv own _ os ep] P by (simp add: pc_regions_def)
  next
    case (Empty cs)
    then show ?thesis using drain_sections(2) [OF inv own _ os ep] P by (simp add: pc_regions_def)
  qed (use k(2) in simp)
qed

section \<open>Progress\<close>

text \<open>What a thread has left to do, as a triple that every section decreases lexicographically.\<close>

definition left :: "ThreadCache \<Rightarrow> pc \<Rightarrow> nat \<times> nat \<times> nat" where
  "left tc k = (case k of
      Idle \<Rightarrow> (0, 0, 0)
    | Carve c n \<Rightarrow> (0, 3, 0)
    | Register c n span \<Rightarrow> (0, 2, 0)
    | Reserve n bs u \<Rightarrow> (0, 2, 0)
    | Record n b sz u \<Rightarrow> (0, 1, 0)
    | Report n \<Rightarrow> (0, 1, 0)
    | Flush cs \<Rightarrow> (2, length cs, 0)
    | Empty cs \<Rightarrow> (1, length cs, (case cs of [] \<Rightarrow> 0 | c # _ \<Rightarrow> lc_total_len (tclass tc c))))"

abbreviation lex3 :: "((nat \<times> nat \<times> nat) \<times> (nat \<times> nat \<times> nat)) set" where
  "lex3 \<equiv> less_than <*lex*> less_than <*lex*> less_than"

lemma serve_not_pending [simp]: "serve dbg m al tc c n \<noteq> Some (m', al', tc', Pending k)"
  by (auto simp: serve_def Let_def run_elims)

lemma write_large_pending:
  "write_large dbg m al tc n b sz u = Some (m', al', tc', Pending k) \<Longrightarrow> k = Report n \<or> k = Record n b sz u"
  by (auto simp: write_large_def run_elims split: option.splits)

lemma resume_left:
  assumes inv: "alloc_inv dbg m al tc R" and os: "madvise_ok sys" and ep: "epochs_low (al_central al)"
    and r: "resume dbg sys m al tc k = Some (m', al', tc', Pending k')"
  shows "(left tc' k', left tc k) \<in> lex3"
proof (cases k)
  case (Carve c n)
  then show ?thesis using r by (auto simp: resume_def left_def split: sum.splits option.splits)
next
  case (Register c n span)
  then show ?thesis using r by (auto simp: resume_def left_def run_elims Let_def split: if_splits)
next
  case (Reserve n bs u)
  then show ?thesis using r by (auto simp: resume_def left_def split: sum.splits dest!: write_large_pending)
next
  case (Record n b sz u)
  then show ?thesis using r by (auto simp: resume_def run_elims Let_def)
next
  case (Flush cs)
  then show ?thesis using r by (cases cs) (auto simp: resume_def left_def run_elims)
next
  case (Empty cs)
  show ?thesis
  proof (cases cs)
    case Nil
    then show ?thesis using r Empty by (simp add: resume_def)
  next
    case (Cons c cs')
    note A = alloc_invD [OF inv]
    note T = tc_invD [OF held_invD(3) [OF A(4)], of c]
    have len: "lc_total_len (tclass tc c) = size (lc_blocks m (tclass tc c))" by (rule lc_invD(3) [OF T(3)])
    show ?thesis
    proof (cases "lc_total_len (tclass tc c) = 0")
      case True
      then have "k' = Empty cs'" using r Empty Cons T(1) by (simp add: resume_def)
      then show ?thesis using Empty Cons by (simp add: left_def)
    next
      case False
      then have ne: "lc_blocks m (tclass tc c) \<noteq> {#}" and pos: "0 < lc_total_len (tclass tc c)" using len by (auto simp: nonempty_has_size)
      obtain m1 lc batch m2 cp' where d: "lc_pop_batch dbg m (tclass tc c) (lc_total_len (tclass tc c)) c = Some (m1, lc, batch)"
        "return_batch dbg sys m1 (al_central al) c batch = Some (m2, cp')"
        "exchanged dbg c 1 R m (al_central al) tc m2 cp' (tc_set_class tc c lc)" "0 < batch_len batch"
        "batch_len batch \<le> lc_total_len (tclass tc c)"
        "size (lc_blocks m (tclass tc c)) = batch_len batch + size (lc_blocks m2 lc)"
        by (rule drain_round [OF A(4) os epochs_lowD(2) [OF ep] ne pos])
      have k': "k' = Empty (c # cs')" "tc' = tc_set_class tc c lc" using r Empty Cons T(1) d(1,2) pos by (auto simp: resume_def)
      have "lc_inv dbg c (tc_cache_id (tc_set_class tc c lc)) (geos cp' c) m2 lc"
        using tc_invD(3) [OF held_invD(3) [OF exchangedD(1) [OF d(3)]], of c] T(1) by simp
      then have "lc_total_len lc = size (lc_blocks m2 lc)" by (rule lc_invD(3))
      then have "lc_total_len (tclass tc' c) < lc_total_len (tclass tc c)" using k'(2) T(1) d(4,6) len by simp
      then show ?thesis using Empty Cons k'(1) by (simp add: left_def)
    qed
  qed
qed (use r in \<open>simp_all add: resume_def\<close>)

end
