(* ===== verification/Interleaving.thy ===== *)
theory Interleaving
  imports Threads Sections
begin

text \<open>
  The threads of \<open>Threads\<close> at the granularity of the locks: a step is one section of one
  thread, so that the sections of different operations interleave freely. What a client
  sees is the same: every run is a run of the specification of an allocator, in which the
  sections that neither return nor refuse a call are silent.
\<close>

section \<open>The machine\<close>

record machine =
  mc_world :: world
  mc_pcs :: "pc list"

abbreviation mc_mem :: "machine \<Rightarrow> heap" where
  "mc_mem f \<equiv> w_mem (mc_world f)"

abbreviation mc_al :: "machine \<Rightarrow> Allocator" where
  "mc_al f \<equiv> w_al (mc_world f)"

abbreviation mc_caches :: "machine \<Rightarrow> ThreadCache list" where
  "mc_caches f \<equiv> w_caches (mc_world f)"

definition next_pc :: "outcome \<Rightarrow> pc" where
  "next_pc r = (case r of Pending k \<Rightarrow> k | _ \<Rightarrow> Idle)"

definition visible :: "nat \<Rightarrow> usize \<Rightarrow> outcome \<Rightarrow> event option" where
  "visible i n r = (case r of
      Pending k \<Rightarrow> None | Allocated p \<Rightarrow> Some (Alloc n p) | Refused e \<Rightarrow> Some (Alloc_refused n e) | Drained \<Rightarrow> Some (Drain i))"

definition advance :: "machine \<Rightarrow> nat \<Rightarrow> heap \<Rightarrow> Allocator \<Rightarrow> ThreadCache \<Rightarrow> pc \<Rightarrow> machine" where
  "advance f i m al tc k = \<lparr>mc_world = updated (mc_world f) i m al tc, mc_pcs = (mc_pcs f)[i := k]\<rparr>"

definition idle_thread :: "machine \<Rightarrow> nat \<Rightarrow> bool" where
  "idle_thread f i \<longleftrightarrow> i < length (mc_caches f) \<and> mc_pcs f ! i = Idle"

inductive section_step :: "bool \<Rightarrow> os \<Rightarrow> machine \<Rightarrow> event option \<Rightarrow> machine \<Rightarrow> bool" for dbg sys where
  begin_allocation: "idle_thread f i \<Longrightarrow> epochs_ok (mc_world f) \<Longrightarrow>
     begin_alloc dbg sys (mc_mem f) (mc_al f) (mc_caches f ! i) n = Some (m, al, tc, r) \<Longrightarrow>
     section_step dbg sys f (visible i n r) (advance f i m al tc (next_pc r))"
| begin_draining: "idle_thread f i \<Longrightarrow> epochs_ok (mc_world f) \<Longrightarrow>
     begin_drain (mc_mem f) (mc_al f) (mc_caches f ! i) = Some (m, al, tc, r) \<Longrightarrow>
     section_step dbg sys f (visible i 0 r) (advance f i m al tc (next_pc r))"
| continue: "i < length (mc_caches f) \<Longrightarrow> mc_pcs f ! i = k \<Longrightarrow> k \<noteq> Idle \<Longrightarrow> epochs_ok (mc_world f) \<Longrightarrow>
     resume dbg sys (mc_mem f) (mc_al f) (mc_caches f ! i) k = Some (m, al, tc, r) \<Longrightarrow>
     section_step dbg sys f (visible i (request k) r) (advance f i m al tc (next_pc r))"
| free_section: "idle_thread f i \<Longrightarrow> epochs_ok (mc_world f) \<Longrightarrow> (p, n) \<in> live_set (mc_world f) \<Longrightarrow>
     deallocate_with_cache dbg sys (mc_mem f) (mc_al f) (mc_caches f ! i) p = Some (m, al, tc, Inr ()) \<Longrightarrow>
     section_step dbg sys f (Some (Free p)) (advance f i m al tc Idle)"
| free_sized_section: "idle_thread f i \<Longrightarrow> epochs_ok (mc_world f) \<Longrightarrow> (p, n) \<in> live_set (mc_world f) \<Longrightarrow>
     deallocate_with_size_checked dbg sys (mc_mem f) (mc_al f) (mc_caches f ! i) p j = Some (m, al, tc, Inr ()) \<Longrightarrow>
     section_step dbg sys f (Some (Free p)) (advance f i m al tc Idle)"
| reject_section: "idle_thread f i \<Longrightarrow>
     deallocate_with_cache dbg sys (mc_mem f) (mc_al f) (mc_caches f ! i) p = Some (m, al, tc, Inl e) \<Longrightarrow>
     section_step dbg sys f (Some (Free_refused p e)) (advance f i m al tc Idle)"
| reject_sized_section: "idle_thread f i \<Longrightarrow>
     deallocate_with_size_checked dbg sys (mc_mem f) (mc_al f) (mc_caches f ! i) p j = Some (m, al, tc, Inl e) \<Longrightarrow>
     section_step dbg sys f (Some (Free_refused p e)) (advance f i m al tc Idle)"
| start_thread: "ThreadCache_new (al_config (mc_al f)) (w_next_id (mc_world f)) = (tc, next_id) \<Longrightarrow>
     section_step dbg sys f (Some Start)
       \<lparr>mc_world = (mc_world f)\<lparr>w_caches := mc_caches f @ [tc], w_next_id := next_id\<rparr>, mc_pcs = mc_pcs f @ [Idle]\<rparr>"

definition machine_initial :: "os \<Rightarrow> machine \<Rightarrow> bool" where
  "machine_initial sys f \<longleftrightarrow> initial sys (mc_world f) \<and> mc_pcs f = []"

definition machine_reachable :: "bool \<Rightarrow> os \<Rightarrow> machine \<Rightarrow> bool" where
  "machine_reachable dbg sys f \<longleftrightarrow> (\<exists>f0 es. machine_initial sys f0 \<and> trace (section_step dbg sys) f0 es f)"

text \<open>The specification with silent steps.\<close>

definition machine_spec :: "(addr \<times> usize) set \<Rightarrow> event option \<Rightarrow> (addr \<times> usize) set \<Rightarrow> bool" where
  "machine_spec S e S' \<longleftrightarrow> (case e of None \<Rightarrow> S' = S | Some ev \<Rightarrow> spec_step S ev S')"

section \<open>The invariant\<close>

definition pending :: "pc list \<Rightarrow> (addr \<times> usize) multiset" where
  "pending ks = sum_list (map pc_regions ks)"

definition pending_others :: "nat \<Rightarrow> pc list \<Rightarrow> (addr \<times> usize) multiset" where
  "pending_others i ks = pending (take i ks @ drop (Suc i) ks)"

definition machine_inv :: "bool \<Rightarrow> machine \<Rightarrow> bool" where
  "machine_inv dbg f \<longleftrightarrow> world_inv dbg (mc_world f) \<and> length (mc_pcs f) = length (mc_caches f) \<and>
     regs_ok (mc_al f) (pending (mc_pcs f)) \<and>
     (\<forall>i<length (mc_caches f). pc_ok (mc_mem f) (mc_al f) (mc_caches f ! i) (mc_pcs f ! i))"

lemma pending_split:
  assumes "i < length ks"
  shows "pending ks = pc_regions (ks ! i) + pending_others i ks" "pending (ks[i := k]) = pc_regions k + pending_others i ks"
proof -
  have "pending ks = pending (take i ks @ ks ! i # drop (Suc i) ks)" by (simp add: id_take_nth_drop [OF assms, symmetric])
  then show "pending ks = pc_regions (ks ! i) + pending_others i ks" by (simp add: pending_others_def pending_def ac_simps)
  show "pending (ks[i := k]) = pc_regions k + pending_others i ks"
    by (simp add: upd_conv_take_nth_drop [OF assms] pending_others_def pending_def ac_simps)
qed

lemma pending_mem: "j < length ks \<Longrightarrow> j \<noteq> i \<Longrightarrow> r \<in># pc_regions (ks ! j) \<Longrightarrow> i < length ks \<Longrightarrow> r \<in># pending_others i ks"
proof -
  assume j: "j < length ks" "j \<noteq> i" "r \<in># pc_regions (ks ! j)" and i: "i < length ks"
  have "ks ! j \<in> set (take i ks @ drop (Suc i) ks)"
  proof (cases "j < i")
    case True
    then have "take i ks ! j = ks ! j" "j < length (take i ks)" using i by simp_all
    then show ?thesis by (metis Un_iff nth_mem set_append)
  next
    case False
    then have e: "Suc i + (j - Suc i) = j" "j - Suc i < length (drop (Suc i) ks)" using j by simp_all
    then have "drop (Suc i) ks ! (j - Suc i) = ks ! j" using i by (simp add: nth_drop)
    then show ?thesis using nth_mem [OF e(2)] by simp
  qed
  then show "r \<in># pending_others i ks" using j(3) by (auto simp: pending_others_def pending_def)
qed

lemma pc_ok_frame:
  assumes ok: "pc_ok m al tc k" and al: "al_id al' = al_id al" "al_config al' = al_config al"
    and same: "\<And>r. r \<in># pc_regions k \<Longrightarrow> m' (fst r) = m (fst r)"
  shows "pc_ok m' al' tc k"
proof (cases k)
  case (Record n b sz u)
  then have "m' b = m b" using same [of "(b, sz)"] by (simp add: pc_regions_def)
  then show ?thesis using ok Record al by (auto simp: pc_ok_def write_encoded_fields_def fun_upd_idem_iff)
qed (use ok al in \<open>simp_all add: pc_ok_def\<close>)

text \<open>A step of thread \<open>i\<close> keeps the invariant when it spares the pending regions of the others.\<close>

lemma advance_inv:
  assumes inv: "machine_inv dbg f" and i: "i < length (mc_caches f)" and w: "world_inv dbg (updated (mc_world f) i m al tc)"
    and keeps: "al_keeps (mc_al f) al" and regs: "regs_ok al (pc_regions k + pending_others i (mc_pcs f))" and k: "pc_ok m al tc k"
    and same: "\<And>r. r \<in># pending_others i (mc_pcs f) \<Longrightarrow> m (fst r) = mc_mem f (fst r)"
  shows "machine_inv dbg (advance f i m al tc k)"
proof -
  have len: "length (mc_pcs f) = length (mc_caches f)" using inv by (simp add: machine_inv_def)
  have il: "i < length (mc_pcs f)" using i len by simp
  have id: "al_id al = al_id (mc_al f)" "al_config al = al_config (mc_al f)" using keeps by (simp_all add: al_keeps_def)
  have "pc_ok m al ((mc_caches f)[i := tc] ! j) ((mc_pcs f)[i := k] ! j)" if j: "j < length (mc_caches f)" for j
  proof (cases "j = i")
    case True
    then show ?thesis using k i il by simp
  next
    case False
    have old: "pc_ok (mc_mem f) (mc_al f) (mc_caches f ! j) (mc_pcs f ! j)" using inv j by (simp add: machine_inv_def)
    have "pc_ok m al (mc_caches f ! j) (mc_pcs f ! j)"
      by (rule pc_ok_frame [OF old id]) (use same pending_mem [OF _ False _ il] j len in simp)
    then show ?thesis using False by simp
  qed
  then show ?thesis
    using w len regs pending_split(2) [OF il, of k] by (simp add: machine_inv_def advance_def updated_def)
qed

section \<open>Steps\<close>

text \<open>What thread \<open>i\<close> sees: its own view of the allocator, and the regions of the others.\<close>

lemma machine_view:
  assumes inv: "machine_inv dbg f" and i: "i < length (mc_caches f)"
  shows "alloc_inv dbg (mc_mem f) (mc_al f) (mc_caches f ! i) (rest (mc_world f) i)" "bindable (mc_caches f ! i) (mc_al f)"
    "regs_ok (mc_al f) (pc_regions (mc_pcs f ! i) + pending_others i (mc_pcs f))"
    "pc_ok (mc_mem f) (mc_al f) (mc_caches f ! i) (mc_pcs f ! i)"
proof -
  have w: "world_inv dbg (mc_world f)" and il: "i < length (mc_pcs f)" using inv i by (simp_all add: machine_inv_def)
  show "alloc_inv dbg (mc_mem f) (mc_al f) (mc_caches f ! i) (rest (mc_world f) i)" "bindable (mc_caches f ! i) (mc_al f)"
    by (rule world_at [OF w i])+
  show "regs_ok (mc_al f) (pc_regions (mc_pcs f ! i) + pending_others i (mc_pcs f))"
    using inv pending_split(1) [OF il] by (simp add: machine_inv_def)
  show "pc_ok (mc_mem f) (mc_al f) (mc_caches f ! i) (mc_pcs f ! i)" using inv i by (simp add: machine_inv_def)
qed

lemma idle_view:
  assumes "machine_inv dbg f" "idle_thread f i"
  shows "i < length (mc_caches f)" "regs_ok (mc_al f) (pending_others i (mc_pcs f))"
  using assms machine_view(3) [of dbg f i] by (simp_all add: idle_thread_def)

lemma quiet_step:
  assumes inv: "machine_inv dbg f" and i: "i < length (mc_caches f)"
    and q: "quiet dbg (rest (mc_world f) i) (pending_others i (mc_pcs f)) (mc_mem f) (mc_al f) m al tc k"
  shows "machine_inv dbg (advance f i m al tc k)" "live_set (updated (mc_world f) i m al tc) = live_set (mc_world f)"
proof -
  have w: "world_inv dbg (mc_world f)" using inv by (simp add: machine_inv_def)
  have Q: "alloc_inv dbg m al tc (rest (mc_world f) i)" "tc_owner tc = Some (al_id (mc_al f))" "al_keeps (mc_al f) al"
    "live (al_large al) = live (al_large (mc_al f))" "\<And>c x. x \<in># rest (mc_world f) i c \<Longrightarrow> m x = mc_mem f x"
    "\<And>r. r \<in># pending_others i (mc_pcs f) \<Longrightarrow> m (fst r) = mc_mem f (fst r)"
    "regs_ok al (pc_regions k + pending_others i (mc_pcs f))" "pc_ok m al tc k" using q by (auto simp: quiet_def)
  have same: "m x = mc_mem f x" if "x \<in># others (mc_world f) i d \<or> x \<in># outstanding (mc_world f) d" for x d
    by (rule Q(5) [of x d]) (use that in auto)
  have w': "world_inv dbg (updated (mc_world f) i m al tc)" by (rule keep_live_refines(1) [OF w i Q(1-3)]) (use same Q(4) in auto)
  show "live_set (updated (mc_world f) i m al tc) = live_set (mc_world f)"
    by (rule keep_live_refines(2) [OF w i Q(1-3)]) (use same Q(4) in auto)
  show "machine_inv dbg (advance f i m al tc k)" by (rule advance_inv [OF inv i w' Q(3,7,8)]) (erule Q(6))
qed

lemma allocated_step:
  assumes inv: "machine_inv dbg f" and i: "i < length (mc_caches f)"
    and s: "section_ok dbg (rest (mc_world f) i) (pending_others i (mc_pcs f)) n (mc_mem f) (mc_al f) (m, al, tc, Allocated p)"
  shows "machine_inv dbg (advance f i m al tc Idle)"
    "spec_step (live_set (mc_world f)) (Alloc n p) (live_set (updated (mc_world f) i m al tc))"
proof -
  have w: "world_inv dbg (mc_world f)" using inv by (simp add: machine_inv_def)
  let ?P = "pending_others i (mc_pcs f)" and ?w = "updated (mc_world f) i m al tc"
  consider (small) c b where "from_request n = Some c" "p = b + HEADER_SIZE"
      "got_small dbg (rest (mc_world f) i) ?P (mc_mem f) (mc_al f) m al tc c n b"
    | (large) b sz where "max_small_request < n" "p = b + HEADER_SIZE" "m = mc_mem f"
      "got_large dbg (rest (mc_world f) i) ?P (mc_mem f) (mc_al f) al tc n b sz"
    using s by (auto simp: section_ok_def)
  then have "machine_inv dbg (advance f i m al tc Idle) \<and> spec_step (live_set (mc_world f)) (Alloc n p) (live_set ?w)"
  proof cases
    case (small c b)
    obtain ow where g: "alloc_inv dbg m al tc (more_blocks (rest (mc_world f) i) c [b])" "tc_owner tc = Some (al_id (mc_al f))"
      "al_keeps (mc_al f) al" "rest_frame (al_central al) (rest (mc_world f) i) (mc_mem f) m" "al_large al = al_large (mc_al f)"
      "live_header dbg c n ow (m b)" "\<And>r. r \<in># ?P \<Longrightarrow> m (fst r) = mc_mem f (fst r)" "regs_ok al ?P"
      using small(3) unfolding got_small_def by blast
    note A = allocate_small_refines [OF w i small(1) g(1-6)]
    have "machine_inv dbg (advance f i m al tc Idle)" by (rule advance_inv [OF inv i A(1) g(3)]) (use g(7,8) in simp_all)
    moreover have "spec_step (live_set (mc_world f)) (Alloc n p) (live_set ?w)"
      unfolding A(2) small(2) by (rule spec_alloc [OF from_request_SomeD(1) [OF small(1)] A(4,3)])
    ultimately show ?thesis by blast
  next
    case (large b sz)
    have g: "alloc_inv dbg m al tc (rest (mc_world f) i)" "tc_owner tc = Some (al_id (mc_al f))" "al_keeps (mc_al f) al"
      "al_central al = al_central (mc_al f)" "\<forall>x. x \<noteq> b \<longrightarrow> m x = mc_mem f x"
      "live (al_large al) = (b + HEADER_SIZE, large_record b sz n) # live (al_large (mc_al f))" "regs_ok al ?P"
      using large(3,4) by (auto simp: got_large_def)
    note A = allocate_large_refines [OF w i large(1) g(1-6)]
    have "machine_inv dbg (advance f i m al tc Idle)" by (rule advance_inv [OF inv i A(1) g(3)]) (use g(7) large(3) in simp_all)
    moreover have n: "0 < n" using large(1) by simp
    have "spec_step (live_set (mc_world f)) (Alloc n p) (live_set ?w)"
      unfolding A(2) large(2) by (rule spec_alloc [OF n A(4,3)])
    ultimately show ?thesis by blast
  qed
  then show "machine_inv dbg (advance f i m al tc Idle)"
    "spec_step (live_set (mc_world f)) (Alloc n p) (live_set ?w)" by blast+
qed

lemma section_refines:
  assumes inv: "machine_inv dbg f" and i: "i < length (mc_caches f)"
    and s: "section_ok dbg (rest (mc_world f) i) (pending_others i (mc_pcs f)) n (mc_mem f) (mc_al f) (m, al, tc, r)"
  shows "machine_inv dbg (advance f i m al tc (next_pc r)) \<and>
    machine_spec (live_set (mc_world f)) (visible i n r) (live_set (mc_world (advance f i m al tc (next_pc r))))"
proof -
  have q: "quiet dbg (rest (mc_world f) i) (pending_others i (mc_pcs f)) (mc_mem f) (mc_al f) m al tc (next_pc r)" if "\<forall>p. r \<noteq> Allocated p"
    using s that by (cases r) (simp_all add: section_ok_def next_pc_def)
  show ?thesis
  proof (cases r)
    case (Allocated p)
    then show ?thesis using allocated_step [OF inv i s [unfolded Allocated]]
      by (simp add: next_pc_def visible_def machine_spec_def advance_def)
  next
    case (Pending k)
    then show ?thesis using quiet_step [OF inv i q] by (simp add: visible_def machine_spec_def advance_def)
  next
    case (Refused e)
    then show ?thesis using quiet_step [OF inv i q] by (simp add: visible_def machine_spec_def advance_def spec_refuse)
  next
    case Drained
    then show ?thesis using quiet_step [OF inv i q] by (simp add: visible_def machine_spec_def advance_def spec_drain)
  qed
qed

text \<open>A live pointer can be freed while other threads are in the middle of their operations.\<close>

lemma free_section_refines:
  assumes inv: "machine_inv dbg f" and idle: "idle_thread f i" and ep: "epochs_ok (mc_world f)" and os: "madvise_ok sys"
    and p: "(p, n) \<in> live_set (mc_world f)"
  shows "\<exists>m al tc. deallocate_with_cache dbg sys (mc_mem f) (mc_al f) (mc_caches f ! i) p = Some (m, al, tc, Inr ()) \<and>
    deallocate_with_size_checked dbg sys (mc_mem f) (mc_al f) (mc_caches f ! i) p n = Some (m, al, tc, Inr ()) \<and>
    machine_inv dbg (advance f i m al tc Idle) \<and>
    live_set (updated (mc_world f) i m al tc) = live_set (mc_world f) - {(p, n)}"
proof -
  let ?w = "mc_world f" and ?P = "pending_others i (mc_pcs f)"
  have w: "world_inv dbg ?w" using inv by (simp add: machine_inv_def)
  note I = idle_view [OF inv idle]
  note W = world_at [OF w I(1)]
  show ?thesis using p
  proof (cases rule: live_set_cases)
    case (small b c)
    note L = live_small_region [OF w small(1)]
    have h: "live_header dbg c n (owner_cache_id (mc_mem f b)) (mc_mem f b)" "n \<le> payload_size c" "0 < n"
      using L(2,4) small(3) by (auto simp: header_live_def Let_def)
    have r: "b \<in># rest ?w i c" using small(1) by simp
    obtain m al tc where d: "deallocate_with_cache dbg sys (mc_mem f) (mc_al f) (mc_caches f ! i) (b + HEADER_SIZE) = Some (m, al, tc, Inr ())"
      "deallocate_with_size_checked dbg sys (mc_mem f) (mc_al f) (mc_caches f ! i) (b + HEADER_SIZE) n = Some (m, al, tc, Inr ())"
      "alloc_inv dbg m al tc (less_blocks (rest ?w i) c [b])" "tc_owner tc = Some (al_id (mc_al f))" "al_keeps (mc_al f) al"
      "rest_frame (al_central al) (less_blocks (rest ?w i) c [b]) (mc_mem f) m" "al_large al = al_large (mc_al f)"
      "al_grows (mc_al f) al"
      by (rule deallocate_small_spec [OF W os epochs_ok_low [OF ep] r h(1,3,2)])
    note F = free_small_refines [OF w I(1) small(1) d(3-7)]
    have regs: "regs_ok al ?P" by (rule regs_ok_grows [OF d(8) I(2)])
    have "machine_inv dbg (advance f i m al tc Idle)"
      by (rule advance_inv [OF inv I(1) F(1) d(5)]) (use regs region_frame [OF d(6)] regs_ok_region [OF regs] in simp_all)
    then show ?thesis using d(1,2) F(2) small(2,3) by auto
  next
    case (large r)
    obtain l tc where d: "deallocate_with_cache dbg sys (mc_mem f) (mc_al f) (mc_caches f ! i) p = Some (mc_mem f, (mc_al f)\<lparr>al_large := l\<rparr>, tc, Inr ())"
      "deallocate_with_size_checked dbg sys (mc_mem f) (mc_al f) (mc_caches f ! i) p (rec_requested_size r) =
         Some (mc_mem f, (mc_al f)\<lparr>al_large := l\<rparr>, tc, Inr ())"
      "alloc_inv dbg (mc_mem f) ((mc_al f)\<lparr>al_large := l\<rparr>) tc (rest ?w i)" "tc_owner tc = Some (al_id (mc_al f))"
      "live l = filter (\<lambda>(k, _). k \<noteq> p) (live (al_large (mc_al f)))"
      "large_free l = add_mset \<lparr>free_block_addr = rec_block_addr r, free_block_size = rec_block_size r\<rparr> (large_free (al_large (mc_al f)))"
      "large_regions l = large_regions (al_large (mc_al f))"
      by (rule deallocate_large_spec [OF W large(1)])
    note F = free_large_refines [OF w I(1) large(1) d(3-5)]
    have regs: "regs_ok ((mc_al f)\<lparr>al_large := l\<rparr>) ?P"
      using I(2) by (simp add: regs_ok_def regions_ok_def region_ok_def d(7))
    have "machine_inv dbg (advance f i (mc_mem f) ((mc_al f)\<lparr>al_large := l\<rparr>) tc Idle)"
      by (rule advance_inv [OF inv I(1) F(1)]) (use regs in \<open>simp_all add: al_keeps_def\<close>)
    then show ?thesis using d(1,2) F(2) large(2) by auto
  qed
qed

lemma refused_section:
  assumes inv: "machine_inv dbg f" and idle: "idle_thread f i"
    and bd: "bind_to_allocator (mc_caches f ! i) (al_id (mc_al f)) (al_config (mc_al f)) = Some tc"
  shows "machine_inv dbg (advance f i (mc_mem f) (mc_al f) tc Idle)"
    "live_set (updated (mc_world f) i (mc_mem f) (mc_al f) tc) = live_set (mc_world f)"
proof -
  note I = idle_view [OF inv idle]
  obtain tc0 where b: "bind_to_allocator (mc_caches f ! i) (al_id (mc_al f)) (al_config (mc_al f)) = Some tc0"
    "alloc_inv dbg (mc_mem f) (mc_al f) tc0 (rest (mc_world f) i)" "tc_owner tc0 = Some (al_id (mc_al f))"
    by (rule bind_spec [OF machine_view(1,2) [OF inv I(1)]])
  have tc: "tc0 = tc" using b(1) bd by simp
  show "machine_inv dbg (advance f i (mc_mem f) (mc_al f) tc Idle)"
    "live_set (updated (mc_world f) i (mc_mem f) (mc_al f) tc) = live_set (mc_world f)"
    using quiet_step [OF inv I(1) quiet_same [OF b(2,3) I(2) idle_simps]] unfolding tc by blast+
qed

lemma start_section:
  assumes inv: "machine_inv dbg f" and tc: "ThreadCache_new (al_config (mc_al f)) (w_next_id (mc_world f)) = (tc, next_id)"
  defines "f' \<equiv> \<lparr>mc_world = (mc_world f)\<lparr>w_caches := mc_caches f @ [tc], w_next_id := next_id\<rparr>, mc_pcs = mc_pcs f @ [Idle]\<rparr>"
  shows "machine_inv dbg f'" "live_set (mc_world f') = live_set (mc_world f)"
proof -
  have w: "world_inv dbg (mc_world f)" and len: "length (mc_pcs f) = length (mc_caches f)" using inv by (simp_all add: machine_inv_def)
  note S = start_inv [OF w tc]
  have "pc_ok (mc_mem f) (mc_al f) ((mc_caches f @ [tc]) ! j) ((mc_pcs f @ [Idle]) ! j)" if "j < Suc (length (mc_caches f))" for j
    using that inv len by (cases "j < length (mc_caches f)") (auto simp: nth_append machine_inv_def less_Suc_eq)
  then show "machine_inv dbg f'" using inv S(1) by (simp add: machine_inv_def f'_def pending_def)
  show "live_set (mc_world f') = live_set (mc_world f)" using S(2) by (simp add: f'_def)
qed

lemma section_step_refines:
  assumes st: "section_step dbg sys f e f'" and inv: "machine_inv dbg f" and os: "madvise_ok sys"
  shows "machine_inv dbg f' \<and> machine_spec (live_set (mc_world f)) e (live_set (mc_world f'))"
  using st
proof cases
  case (begin_allocation i n m al tc r)
  note I = idle_view [OF inv begin_allocation(3)] and V = machine_view(1,2) [OF inv idle_view(1) [OF inv begin_allocation(3)]]
  from begin_alloc_section [OF V I(2) os epochs_ok_low [OF begin_allocation(4)], of n] begin_allocation(5)
  show ?thesis unfolding begin_allocation(1,2) by (intro section_refines [OF inv I(1)]) simp
next
  case (begin_draining i m al tc r)
  note I = idle_view [OF inv begin_draining(3)] and V = machine_view(1,2) [OF inv idle_view(1) [OF inv begin_draining(3)]]
  from begin_drain_section [OF V I(2), of 0] begin_draining(5)
  show ?thesis unfolding begin_draining(1,2) by (intro section_refines [OF inv I(1)]) simp
next
  case (continue i k m al tc r)
  note V = machine_view [OF inv continue(3), unfolded continue(4)]
  from resume_section [OF V(1,4) continue(5) V(3) os epochs_ok_low [OF continue(6)]] continue(7)
  show ?thesis unfolding continue(1,2) by (intro section_refines [OF inv continue(3)]) simp
next
  case (free_section i p n m al tc)
  from free_section_refines [OF inv free_section(3,4) os free_section(5)] free_section(1,2,5,6)
  show ?thesis by (auto simp: machine_spec_def advance_def intro: spec_free)
next
  case (free_sized_section i p n j m al tc)
  have w: "world_inv dbg (mc_world f)" using inv by (simp add: machine_inv_def)
  have "j = n" using free_outcome(2) [OF w idle_view(1) [OF inv free_sized_section(3)] free_sized_section(4) os free_sized_section(5), of j]
      free_sized_section(6) by fastforce
  then show ?thesis using free_section_refines [OF inv free_sized_section(3,4) os free_sized_section(5)] free_sized_section(1,2,5,6)
    by (auto simp: machine_spec_def advance_def intro: spec_free)
next
  case (reject_section i p m al tc e)
  note r = dealloc_refused(1) [OF reject_section(4)]
  from refused_section [OF inv reject_section(3)] r reject_section(1,2)
  show ?thesis by (auto simp: machine_spec_def advance_def intro: spec_reject)
next
  case (reject_sized_section i p j m al tc e)
  note r = dealloc_refused(2) [OF reject_sized_section(4)]
  from refused_section [OF inv reject_sized_section(3)] r reject_sized_section(1,2)
  show ?thesis by (auto simp: machine_spec_def advance_def intro: spec_reject)
next
  case (start_thread tc next_id)
  then show ?thesis using start_section [OF inv start_thread(3)] by (simp add: machine_spec_def spec_start)
qed

lemma machine_initial_inv:
  assumes "machine_initial sys f" "mapping_ok sys"
  shows "machine_inv dbg f" "live_set (mc_world f) = {}"
proof -
  have w: "initial sys (mc_world f)" and p: "mc_pcs f = []" using assms(1) by (simp_all add: machine_initial_def)
  note I = initial_inv [OF w assms(2)]
  have "mc_caches f = []" using w by (simp add: initial_def)
  moreover have "regs_ok (mc_al f) {#}" using I(1) by (simp add: world_inv_def large_ok_def regs_ok_def)
  ultimately show "machine_inv dbg f" using I(1) p by (simp add: machine_inv_def pending_def)
  show "live_set (mc_world f) = {}" by (rule I(2))
qed

interpretation machine: simulation "\<lambda>(dbg, sys). os_ok sys" "\<lambda>(dbg, sys). machine_initial sys" "\<lambda>(dbg, sys). section_step dbg sys"
    "\<lambda>(dbg, sys). machine_inv dbg" "\<lambda>f. live_set (mc_world f)" machine_spec "{}"
  by unfold_locales (auto simp: os_ok_def machine_initial_inv dest: section_step_refines)

lemma machine_reachable_inv: "machine_reachable dbg sys f \<Longrightarrow> os_ok sys \<Longrightarrow> machine_inv dbg f"
  using machine.run_inv [of "(dbg, sys)"] by (auto simp: machine_reachable_def)

text \<open>Silent steps can be dropped from a run of the specification.\<close>

definition visible_events :: "event option list \<Rightarrow> event list" where
  "visible_events es = List.map_filter id es"

lemma visible_trace: "trace machine_spec S es S' \<Longrightarrow> trace spec_step S (visible_events es) S'"
proof (induction rule: trace.induct)
  case (trace_Cons s l s1 ls s2)
  then show ?case
    by (cases l) (auto simp: machine_spec_def visible_events_def List.map_filter_simps trace_simps)
qed (simp add: visible_events_def trace_simps)

end
