(* ===== verification/Schedule.thy ===== *)
theory Schedule
  imports Sample Interleaving
begin

text \<open>
  An executable scheduler for the machine of sections, sound for its step relation, and a
  schedule evaluated in the kernel: two threads find the central pool empty, reserve a span
  each, and register their slabs in the opposite order.
\<close>

datatype choice = Begin usize | Go

definition play_step :: "os \<Rightarrow> machine \<Rightarrow> nat \<times> choice \<Rightarrow> (event option \<times> machine) option" where
  "play_step sys f ch = (case ch of (i, c) \<Rightarrow>
     if i < length (mc_caches f) \<and> low_epochs (mc_al f)
     then (case c of
         Begin n \<Rightarrow>
           if mc_pcs f ! i \<noteq> Idle then None
           else (case begin_alloc True sys (mc_mem f) (mc_al f) (mc_caches f ! i) n of
               None \<Rightarrow> None
             | Some (m, al, tc, r) \<Rightarrow> Some (visible i n r, advance f i m al tc (next_pc r)))
       | Go \<Rightarrow>
           if mc_pcs f ! i = Idle then None
           else (case resume True sys (mc_mem f) (mc_al f) (mc_caches f ! i) (mc_pcs f ! i) of
               None \<Rightarrow> None
             | Some (m, al, tc, r) \<Rightarrow> Some (visible i (request (mc_pcs f ! i)) r, advance f i m al tc (next_pc r))))
     else None)"

fun play :: "os \<Rightarrow> machine \<Rightarrow> (nat \<times> choice) list \<Rightarrow> (event option list \<times> machine) option" where
  "play sys f [] = Some ([], f)"
| "play sys f (c # cs) =
     (case play_step sys f c of
        None \<Rightarrow> None
      | Some (e, f1) \<Rightarrow> (case play sys f1 cs of None \<Rightarrow> None | Some (es, f2) \<Rightarrow> Some (e # es, f2)))"

lemma play_step_sound:
  assumes "play_step sys f c = Some (e, f')"
  shows "section_step True sys f e f'"
proof -
  obtain i ch where c: "c = (i, ch)" by (cases c)
  have i: "i < length (mc_caches f)" "epochs_ok (mc_world f)"
    using assms by (auto simp: play_step_def c split: if_splits dest: low_epochs)
  show ?thesis
  proof (cases ch)
    case (Begin n)
    then obtain m al tc r where r: "mc_pcs f ! i = Idle"
      "begin_alloc True sys (mc_mem f) (mc_al f) (mc_caches f ! i) n = Some (m, al, tc, r)"
      "e = visible i n r" "f' = advance f i m al tc (next_pc r)"
      using assms by (auto simp: play_step_def c split: if_splits option.splits)
    show ?thesis unfolding r(3,4)
      by (rule section_step.begin_allocation) (use r(1,2) i in \<open>simp_all add: idle_thread_def\<close>)
  next
    case Go
    then obtain m al tc r where r: "mc_pcs f ! i \<noteq> Idle"
      "resume True sys (mc_mem f) (mc_al f) (mc_caches f ! i) (mc_pcs f ! i) = Some (m, al, tc, r)"
      "e = visible i (request (mc_pcs f ! i)) r" "f' = advance f i m al tc (next_pc r)"
      using assms by (auto simp: play_step_def c split: if_splits option.splits)
    show ?thesis unfolding r(3,4) by (rule section_step.continue [OF i(1) refl r(1) i(2) r(2)])
  qed
qed

lemma play_sound: "play sys f cs = Some (es, f') \<Longrightarrow> trace (section_step True sys) f es f'"
proof (induction cs arbitrary: f es)
  case Nil
  then show ?case by (simp add: trace_simps)
next
  case (Cons c cs)
  then obtain e f1 es' where p: "play_step sys f c = Some (e, f1)" "play sys f1 cs = Some (es', f')" "es = e # es'"
    by (auto split: option.splits)
  from trace_Cons [OF play_step_sound [OF p(1)] Cons.IH [OF p(2)]] show ?case unfolding p(3) .
qed

inductive_simps spec_step_iff: "spec_step S Start S'" "spec_step S (Alloc n p) S'"

section \<open>A schedule\<close>

definition race_0 :: machine where
  "race_0 = \<lparr>mc_world = demo_0, mc_pcs = []\<rparr>"

definition race_2 :: machine where
  "race_2 = \<lparr>mc_world = demo_2, mc_pcs = [Idle, Idle]\<rparr>"

definition race_opening :: "(nat \<times> choice) list" where
  "race_opening = [(0, Begin 10), (1, Begin 20), (0, Go), (1, Go)]"

definition race_close :: "(nat \<times> choice) list" where
  "race_close = [(1, Go), (0, Go)]"

definition race_mid :: machine where
  "race_mid = (case play demo_os race_2 race_opening of None \<Rightarrow> race_2 | Some (_, f) \<Rightarrow> f)"

definition race_end :: machine where
  "race_end = (case play demo_os race_mid race_close of None \<Rightarrow> race_mid | Some (_, f) \<Rightarrow> f)"

definition is_register :: "pc \<Rightarrow> bool" where
  "is_register k = (case k of Register c n span \<Rightarrow> True | _ \<Rightarrow> False)"

lemma race_opening_eval:
  "(case play demo_os race_2 race_opening of
      None \<Rightarrow> False
    | Some (es, f) \<Rightarrow> es = [None, None, None, None] \<and> list_all is_register (mc_pcs f) \<and> length (mc_pcs f) = 2 \<and> low_epochs (mc_al f))"
  by code_simp

lemma race_close_eval:
  "(case play demo_os race_mid race_close of
      None \<Rightarrow> False
    | Some (es, f) \<Rightarrow> es = [Some (Alloc 20 4416), Some (Alloc 10 4160)] \<and> mc_pcs f = [Idle, Idle] \<and> length (mc_caches f) = 2 \<and> low_epochs (mc_al f))"
  by code_simp

lemma race_2_trace: "machine_initial demo_os race_0" "trace (section_step True demo_os) race_0 [Some Start, Some Start] race_2"
proof -
  show "machine_initial demo_os race_0" using demo_initial by (simp add: machine_initial_def race_0_def)
  let ?f = "\<lparr>mc_world = demo_0\<lparr>w_caches := [demo_cache 1], w_next_id := 2\<rparr>, mc_pcs = [Idle]\<rparr>"
  have a: "section_step True demo_os race_0 (Some Start) ?f"
    using section_step.start_thread [of race_0 "demo_cache 1" 2]
    by (simp add: race_0_def demo_0_def demo_cache_def ThreadCache_new_def demo_allocator_def)
  have b: "section_step True demo_os ?f (Some Start) race_2"
    using section_step.start_thread [of ?f "demo_cache 2" 3]
    by (simp add: race_2_def demo_0_def demo_2_def demo_cache_def ThreadCache_new_def demo_allocator_def)
  show "trace (section_step True demo_os) race_0 [Some Start, Some Start] race_2" using a b by (auto simp: trace_simps)
qed

lemma race_mid_reachable:
  "trace (section_step True demo_os) race_0 [Some Start, Some Start, None, None, None, None] race_mid"
  "machine_reachable True demo_os race_mid" "length (mc_caches race_mid) = 2" "mc_pcs race_mid ! 0 \<noteq> Idle" "epochs_ok (mc_world race_mid)"
proof -
  obtain f where p: "play demo_os race_2 race_opening = Some ([None, None, None, None], f)" "list_all is_register (mc_pcs f)"
    "length (mc_pcs f) = 2" "low_epochs (mc_al f)" using race_opening_eval by (auto split: option.splits)
  have f: "race_mid = f" using p(1) by (simp add: race_mid_def)
  have "trace (section_step True demo_os) race_0 ([Some Start, Some Start] @ [None, None, None, None]) race_mid"
    unfolding f by (rule trace_append [OF race_2_trace(2) play_sound [OF p(1)]])
  then show t: "trace (section_step True demo_os) race_0 [Some Start, Some Start, None, None, None, None] race_mid" by simp
  then show r: "machine_reachable True demo_os race_mid" unfolding machine_reachable_def using race_2_trace(1) by blast
  show "length (mc_caches race_mid) = 2" using machine_reachable_inv [OF r demo_os_ok] p(3) f by (simp add: machine_inv_def)
  have "is_register (mc_pcs race_mid ! 0)" using p(2,3) f by (simp add: list_all_length)
  then show "mc_pcs race_mid ! 0 \<noteq> Idle" by (auto simp: is_register_def)
  show "epochs_ok (mc_world race_mid)" using low_epochs p(4) f by blast
qed

lemma race_end_reachable:
  "trace (section_step True demo_os) race_0
     [Some Start, Some Start, None, None, None, None, Some (Alloc 20 4416), Some (Alloc 10 4160)] race_end"
  "machine_reachable True demo_os race_end" "live_set (mc_world race_end) = {(4160, 10), (4416, 20)}"
proof -
  obtain f where p: "play demo_os race_mid race_close = Some ([Some (Alloc 20 4416), Some (Alloc 10 4160)], f)"
    using race_close_eval by (auto split: option.splits)
  have f: "race_end = f" using p by (simp add: race_end_def)
  from trace_append [OF race_mid_reachable(1) play_sound [OF p]]
  show t: "trace (section_step True demo_os) race_0
     [Some Start, Some Start, None, None, None, None, Some (Alloc 20 4416), Some (Alloc 10 4160)] race_end" unfolding f by simp
  then show "machine_reachable True demo_os race_end" unfolding machine_reachable_def using race_2_trace(1) by blast
  have "trace machine_spec {} [Some Start, Some Start, None, None, None, None, Some (Alloc 20 4416), Some (Alloc 10 4160)]
      (live_set (mc_world race_end))"
    using machine.run_refines [of "(True, demo_os)"] demo_os_ok race_2_trace(1) t by simp
  from visible_trace [OF this]
  have "trace spec_step {} [Start, Start, Alloc 20 4416, Alloc 10 4160] (live_set (mc_world race_end))"
    by (simp add: visible_events_def List.map_filter_simps)
  then show "live_set (mc_world race_end) = {(4160, 10), (4416, 20)}"
    by (auto simp: trace_simps spec_step_iff)
qed

lemma race_end_idle: "idle_thread race_end 0" "epochs_ok (mc_world race_end)"
  using race_close_eval low_epochs by (auto simp: race_end_def idle_thread_def split: option.splits)

end
