(* ===== verification/Api.thy ===== *)
theory Api
  imports Allocator
begin

text \<open>
  \<^verbatim>\<open>src/src/lib.rs\<close> and \<^verbatim>\<open>src/src/api.rs\<close>: the process-global allocator, the thread-local
  cache slot and the public functions over them.

  The statics of the crate are the fields of \<open>process\<close>: the lazily created global
  allocator, the two id counters and the memory. The thread-local \<open>RefCell\<close> of the calling
  thread is a \<open>tls_slot\<close>: the slot of a thread that is exiting is destroyed, and a slot whose
  cell is mutably borrowed belongs to a call in progress on the same thread.
\<close>

section \<open>The process state\<close>

record process =
  pr_memory :: heap
  pr_global :: "(InitError + Allocator) option"
  pr_next_allocator_id :: usize
  pr_next_cache_id :: u32

datatype tls_slot = Destroyed | Borrowed | Cell "ThreadCacheHandle option"

text \<open>
  \<open>global_allocator\<close> forces the \<open>LazyLock\<close>: the first call creates the allocator with the
  default configuration, later calls return the stored result.
\<close>

definition global_allocator :: "os \<Rightarrow> process \<Rightarrow> process \<times> (InitError + Allocator)" where
  "global_allocator sys pr =
     (case pr_global pr of
        Some g \<Rightarrow> (pr, g)
      | None \<Rightarrow> (let (g, next_id) = Allocator_new sys default_config (pr_next_allocator_id pr)
                in (pr\<lparr>pr_global := Some g, pr_next_allocator_id := next_id\<rparr>, g)))"

text \<open>
  The operation \<open>f\<close> of a caller works on the memory, the allocator and the cache. A
  destroyed slot and a borrowed cell both give \<open>Ok(None)\<close>, and the cache is created on the
  first use of the thread.
\<close>

type_synonym 'r cache_op = "heap \<Rightarrow> Allocator \<Rightarrow> ThreadCache \<Rightarrow> (heap \<times> Allocator \<times> ThreadCache \<times> 'r) run"

definition try_with_thread_cache ::
    "os \<Rightarrow> 'r cache_op \<Rightarrow> process \<Rightarrow> tls_slot \<Rightarrow> (process \<times> tls_slot \<times> (InitError + 'r option)) run" where
  "try_with_thread_cache sys f pr slot =
     (case global_allocator sys pr of
        (pr1, Inl e) \<Rightarrow> Some (pr1, slot, Inl e)
      | (pr1, Inr al) \<Rightarrow>
        (case slot of
           Destroyed \<Rightarrow> Some (pr1, slot, Inr None)
         | Borrowed \<Rightarrow> Some (pr1, slot, Inr None)
         | Cell cell \<Rightarrow>
           (let (handle, next_id) = (case cell of
                  Some h \<Rightarrow> (h, pr_next_cache_id pr1)
                | None \<Rightarrow> ThreadCacheHandle_new al (pr_next_cache_id pr1))
            in do {
              (m, al1, handle1, r) \<leftarrow> with_parts f (pr_memory pr1) al handle;
              Some (pr1\<lparr>pr_memory := m, pr_global := Some (Inr al1), pr_next_cache_id := next_id\<rparr>,
                    Cell (Some handle1), Inr (Some r)) })))"

section \<open>The public functions\<close>

definition api_allocate ::
    "bool \<Rightarrow> os \<Rightarrow> usize \<Rightarrow> process \<Rightarrow> tls_slot \<Rightarrow> (process \<times> tls_slot \<times> (AllocError + addr)) run" where
  "api_allocate dbg sys sz pr slot = do {
     (pr1, slot1, r) \<leftarrow> try_with_thread_cache sys (\<lambda>m al tc. allocate_with_cache dbg sys m al tc sz) pr slot;
     Some (pr1, slot1,
       (case r of
          Inl _ \<Rightarrow> Inl AllocGlobalInitFailed
        | Inr None \<Rightarrow> Inl AllocGlobalInitFailed
        | Inr (Some res) \<Rightarrow> res)) }"

definition api_deallocate ::
    "bool \<Rightarrow> os \<Rightarrow> addr \<Rightarrow> process \<Rightarrow> tls_slot \<Rightarrow> (process \<times> tls_slot \<times> (FreeError + unit)) run" where
  "api_deallocate dbg sys ptr pr slot = do {
     (pr1, slot1, r) \<leftarrow> try_with_thread_cache sys (\<lambda>m al tc. deallocate_with_cache dbg sys m al tc ptr) pr slot;
     Some (pr1, slot1,
       (case r of
          Inl _ \<Rightarrow> Inl FreeGlobalInitFailed
        | Inr None \<Rightarrow> Inl FreeGlobalInitFailed
        | Inr (Some res) \<Rightarrow> res)) }"

definition api_deallocate_with_size ::
    "bool \<Rightarrow> os \<Rightarrow> addr \<Rightarrow> usize \<Rightarrow> process \<Rightarrow> tls_slot \<Rightarrow> (process \<times> tls_slot \<times> (FreeError + unit)) run" where
  "api_deallocate_with_size dbg sys ptr sz pr slot = do {
     (pr1, slot1, r) \<leftarrow> try_with_thread_cache sys
       (\<lambda>m al tc. deallocate_with_size_checked dbg sys m al tc ptr sz) pr slot;
     Some (pr1, slot1,
       (case r of
          Inl _ \<Rightarrow> Inl FreeGlobalInitFailed
        | Inr None \<Rightarrow> Inl FreeGlobalInitFailed
        | Inr (Some res) \<Rightarrow> res)) }"

definition global_stats :: "os \<Rightarrow> process \<Rightarrow> (process \<times> (InitError + AllocatorStats)) run" where
  "global_stats sys pr =
     (case global_allocator sys pr of
        (pr1, Inl e) \<Rightarrow> Some (pr1, Inl e)
      | (pr1, Inr al) \<Rightarrow> do { st \<leftarrow> Allocator_stats al; Some (pr1, Inr st) })"

text \<open>
  The end of a thread: the slot is destroyed, and dropping the handle in it drains the
  cache into the central pool.
\<close>

definition thread_exit :: "bool \<Rightarrow> os \<Rightarrow> process \<Rightarrow> tls_slot \<Rightarrow> (process \<times> tls_slot) run" where
  "thread_exit dbg sys pr slot =
     (case slot of
        Cell (Some h) \<Rightarrow>
          (case pr_global pr of
             Some (Inr al) \<Rightarrow> do {
               (m, al1) \<leftarrow> ThreadCacheHandle_drop dbg sys (pr_memory pr) al h;
               Some (pr\<lparr>pr_memory := m, pr_global := Some (Inr al1)\<rparr>, Destroyed) }
           | _ \<Rightarrow> None)
      | _ \<Rightarrow> Some (pr, Destroyed))"

end
