(* ===== verification/Global_Alloc.thy ===== *)
theory Global_Alloc
  imports Api
begin

text \<open>
  \<^verbatim>\<open>src/src/global_alloc.rs\<close>: the adapter behind Rust's \<open>GlobalAlloc\<close> trait.

  The system allocator \<open>std::alloc::System\<close> is not code of the crate: its two functions are
  the fields of \<open>system_allocator\<close>, over a state of their own. A fallback block carries a
  prefix of three words directly below the user pointer. Such prefixes live in memory of
  the system allocator (\<open>ga_prefixes\<close>, by address). Below the user pointer of an Orthotope
  block the same 24 bytes are the tail padding of the block header, and reading a prefix
  there decodes that padding (least significant byte first).
\<close>

record Layout =
  layout_size :: usize
  layout_align :: usize

definition isize_max :: usize where
  "isize_max = 9223372036854775807"

text \<open>\<open>Layout::from_size_align\<close> of the standard library.\<close>

definition from_size_align :: "usize \<Rightarrow> usize \<Rightarrow> Layout option" where
  "from_size_align sz al =
     (if \<not> is_power_of_two al \<or> sz > isize_max - (al - 1) then None
      else Some \<lparr>layout_size = sz, layout_align = al\<rparr>)"

datatype Backend = Orthotope | System

definition FALLBACK_EMPTY :: usize where
  "FALLBACK_EMPTY = 0"

definition FALLBACK_MAGIC :: usize where
  "FALLBACK_MAGIC = 0x4f52544846535953"

record SystemFallbackPrefix =
  fp_magic :: usize
  fp_raw_addr :: usize
  fp_user_addr :: usize

definition PREFIX_SIZE :: usize where
  "PREFIX_SIZE = 24"

definition PREFIX_ALIGN :: usize where
  "PREFIX_ALIGN = 8"

record 's system_allocator =
  system_alloc :: "Layout \<Rightarrow> 's \<Rightarrow> addr \<times> 's"
  system_dealloc :: "addr \<Rightarrow> Layout \<Rightarrow> 's \<Rightarrow> 's"

record 's ga_state =
  ga_process :: process
  ga_prefixes :: "addr \<Rightarrow> SystemFallbackPrefix option"
  ga_system :: 's

definition select_backend :: "Layout \<Rightarrow> Backend" where
  "select_backend l =
     (if layout_size l = 0 \<or> layout_align l > HEADER_ALIGNMENT then System else Orthotope)"

definition ga_align_up :: "usize \<Rightarrow> usize \<Rightarrow> usize option" where
  "ga_align_up v al =
     (let remainder = v mod al
      in if remainder = 0 then Some v else checked_add v (al - remainder))"

interpretation ga_al: aligner ga_align_up
  by unfold_locales (simp add: ga_align_up_def Let_def)

definition fallback_alignment :: "Layout \<Rightarrow> usize" where
  "fallback_alignment l = (if layout_align l > PREFIX_ALIGN then layout_align l else PREFIX_ALIGN)"

definition try_fallback_layout :: "Layout \<Rightarrow> Layout option" where
  "try_fallback_layout l = do {
     let al = fallback_alignment l;
     n \<leftarrow> checked_add (layout_size l) PREFIX_SIZE;
     sz \<leftarrow> checked_add n (al - 1);
     from_size_align sz al }"

definition fallback_alloc ::
    "'s system_allocator \<Rightarrow> Layout \<Rightarrow> 's ga_state \<Rightarrow> ('s ga_state \<times> addr) run" where
  "fallback_alloc sa l ga =
     (case try_fallback_layout l of
        None \<Rightarrow> Some (ga, 0)
      | Some raw_layout \<Rightarrow>
        (case system_alloc sa raw_layout (ga_system ga) of
           (raw, s1) \<Rightarrow>
             if raw = 0 then Some (ga\<lparr>ga_system := s1\<rparr>, 0)
             else do {
               first \<leftarrow> checked_add raw PREFIX_SIZE;
               (case ga_align_up first (fallback_alignment l) of
                  None \<Rightarrow> Some (ga\<lparr>ga_system := system_dealloc sa raw raw_layout s1\<rparr>, 0)
                | Some user \<Rightarrow>
                  Some (ga\<lparr>ga_system := s1,
                    ga_prefixes := (ga_prefixes ga)(wrapping_sub user PREFIX_SIZE \<mapsto>
                      \<lparr>fp_magic = FALLBACK_MAGIC, fp_raw_addr = raw, fp_user_addr = user\<rparr>)\<rparr>, user)) }))"

text \<open>The 24 bytes below a user pointer, read as a prefix.\<close>

definition le_word :: "u8 list \<Rightarrow> usize" where
  "le_word bytes = foldr (\<lambda>b acc. unat b + 256 * acc) bytes 0"

definition prefix_of_bytes :: "u8 list \<Rightarrow> SystemFallbackPrefix" where
  "prefix_of_bytes bytes =
     \<lparr>fp_magic = le_word (take 8 bytes), fp_raw_addr = le_word (take 8 (drop 8 bytes)),
      fp_user_addr = le_word (take 8 (drop 16 bytes))\<rparr>"

definition read_fallback_prefix :: "'s ga_state \<Rightarrow> addr \<Rightarrow> SystemFallbackPrefix" where
  "read_fallback_prefix ga p =
     (case ga_prefixes ga p of
        Some x \<Rightarrow> x
      | None \<Rightarrow> prefix_of_bytes (tail_padding (pr_memory (ga_process ga) (p + PREFIX_SIZE - HEADER_SIZE))))"

definition fallback_raw_ptr :: "'s ga_state \<Rightarrow> addr \<Rightarrow> addr option" where
  "fallback_raw_ptr ga ptr = do {
     prefix_addr \<leftarrow> checked_sub ptr PREFIX_SIZE;
     if prefix_addr = FALLBACK_EMPTY then None
     else let prefix = read_fallback_prefix ga prefix_addr
          in if fp_magic prefix \<noteq> FALLBACK_MAGIC \<or> fp_user_addr prefix \<noteq> ptr then None
             else Some (fp_raw_addr prefix) }"

text \<open>
  \<open>panicking\<close> is \<open>std::thread::panicking()\<close>. The result of a \<open>dealloc\<close> is the new state, or
  an abort of the process.
\<close>

definition collapse_dealloc_result ::
    "bool \<Rightarrow> (InitError + (FreeError + unit) option) \<Rightarrow> FreeError + unit" where
  "collapse_dealloc_result panicking r =
     (case r of
        Inr (Some (Inl e)) \<Rightarrow> Inl e
      | Inr (Some (Inr _)) \<Rightarrow> Inr ()
      | Inr None \<Rightarrow> if panicking then Inr () else Inl FreeGlobalInitFailed
      | Inl _ \<Rightarrow> Inl FreeGlobalInitFailed)"

definition ga_alloc ::
    "bool \<Rightarrow> os \<Rightarrow> 's system_allocator \<Rightarrow> Layout \<Rightarrow> 's ga_state \<Rightarrow> tls_slot \<Rightarrow> ('s ga_state \<times> tls_slot \<times> addr) run" where
  "ga_alloc dbg sys sa l ga slot =
     (case select_backend l of
        System \<Rightarrow>
          (case system_alloc sa l (ga_system ga) of
             (p, s1) \<Rightarrow> Some (ga\<lparr>ga_system := s1\<rparr>, slot, p))
      | Orthotope \<Rightarrow> do {
          (pr, slot1, r) \<leftarrow> try_with_thread_cache sys
            (\<lambda>m al tc. allocate_with_cache dbg sys m al tc (layout_size l)) (ga_process ga) slot;
          let ga1 = ga\<lparr>ga_process := pr\<rparr>;
          (case r of
             Inr (Some (Inr ptr)) \<Rightarrow> Some (ga1, slot1, ptr)
           | Inr (Some (Inl _)) \<Rightarrow> Some (ga1, slot1, 0)
           | Inl _ \<Rightarrow> Some (ga1, slot1, 0)
           | Inr None \<Rightarrow> do { (ga2, p) \<leftarrow> fallback_alloc sa l ga1; Some (ga2, slot1, p) }) })"

datatype 'a exit = Returns 'a | Aborts

definition ga_dealloc ::
    "bool \<Rightarrow> os \<Rightarrow> 's system_allocator \<Rightarrow> bool \<Rightarrow> addr \<Rightarrow> Layout \<Rightarrow> 's ga_state \<Rightarrow> tls_slot \<Rightarrow>
     ('s ga_state \<times> tls_slot) exit run" where
  "ga_dealloc dbg sys sa panicking ptr l ga slot =
     (case select_backend l of
        System \<Rightarrow> Some (Returns (ga\<lparr>ga_system := system_dealloc sa ptr l (ga_system ga)\<rparr>, slot))
      | Orthotope \<Rightarrow>
        if ptr = 0 then Some (Returns (ga, slot))
        else (case fallback_raw_ptr ga ptr of
            Some raw \<Rightarrow>
              (case try_fallback_layout l of
                 None \<Rightarrow> Some Aborts
               | Some raw_layout \<Rightarrow>
                 Some (Returns (ga\<lparr>ga_system := system_dealloc sa raw raw_layout (ga_system ga),
                   ga_prefixes := (ga_prefixes ga)(ptr - PREFIX_SIZE := None)\<rparr>, slot)))
          | None \<Rightarrow> do {
              (pr, slot1, r) \<leftarrow> try_with_thread_cache sys
                (\<lambda>m al tc. deallocate_with_size_checked dbg sys m al tc ptr (layout_size l)) (ga_process ga) slot;
              Some (case collapse_dealloc_result panicking r of
                  Inl _ \<Rightarrow> Aborts
                | Inr _ \<Rightarrow> Returns (ga\<lparr>ga_process := pr\<rparr>, slot1)) }))"

end
