(* ===== verification/Api_Threads.thy ===== *)
theory Api_Threads
  imports Threads Global_Alloc
begin

text \<open>
  The process-global API (\<^verbatim>\<open>src/src/lib.rs\<close>, \<^verbatim>\<open>src/src/api.rs\<close>) and the \<open>GlobalAlloc\<close>
  adapter (\<^verbatim>\<open>src/src/global_alloc.rs\<close>) on top of the machine of threads: the statics of the
  process represent a reachable world, the slot of a thread holds one of its caches, and a
  call of the API is a step of that world.
\<close>

section \<open>Representation\<close>

definition represents :: "process \<Rightarrow> world \<Rightarrow> bool" where
  "represents pr w \<longleftrightarrow> pr_memory pr = w_mem w \<and> pr_global pr = Some (Inr (w_al w)) \<and> pr_next_cache_id pr = w_next_id w"

text \<open>The world in which the slot of the calling thread has its cache, and the index of the cache.\<close>

definition started :: "world \<Rightarrow> world" where
  "started w = (case ThreadCache_new (al_config (w_al w)) (w_next_id w) of
     (tc, next_id) \<Rightarrow> w\<lparr>w_caches := w_caches w @ [tc], w_next_id := next_id\<rparr>)"

definition entered :: "world \<Rightarrow> tls_slot \<Rightarrow> world" where
  "entered w slot = (case slot of Cell None \<Rightarrow> started w | _ \<Rightarrow> w)"

definition slot_at :: "world \<Rightarrow> tls_slot \<Rightarrow> nat \<Rightarrow> bool" where
  "slot_at w slot i \<longleftrightarrow> (case slot of
      Cell None \<Rightarrow> i = length (w_caches w)
    | Cell (Some h) \<Rightarrow> i < length (w_caches w) \<and> th_cache h = w_caches w ! i
    | _ \<Rightarrow> False)"

definition leaves :: "process \<Rightarrow> world \<Rightarrow> process" where
  "leaves pr w = pr\<lparr>pr_memory := w_mem w, pr_global := Some (Inr (w_al w)), pr_next_cache_id := w_next_id w\<rparr>"

definition same_arena :: "world \<Rightarrow> world \<Rightarrow> bool" where
  "same_arena w w' \<longleftrightarrow> arena_base (al_arena (w_al w')) = arena_base (al_arena (w_al w)) \<and>
     arena_len (al_arena (w_al w')) = arena_len (al_arena (w_al w))"

lemma leaves_represents [simp]: "represents (leaves pr w) w"
  by (simp add: leaves_def represents_def)

lemma entered_props:
  assumes r: "reachable dbg sys w" "os_ok sys" and s: "slot_at w slot i"
  shows "reachable dbg sys (entered w slot)" "live_set (entered w slot) = live_set w" "i < length (w_caches (entered w slot))"
    "w_mem (entered w slot) = w_mem w" "w_al (entered w slot) = w_al w" "\<And>j. j < length (w_caches w) \<Longrightarrow> w_caches (entered w slot) ! j = w_caches w ! j"
proof -
  obtain tc nx where tc: "ThreadCache_new (al_config (w_al w)) (w_next_id w) = (tc, nx)" by (cases "ThreadCache_new (al_config (w_al w)) (w_next_id w)")
  have st: "started w = w\<lparr>w_caches := w_caches w @ [tc], w_next_id := nx\<rparr>" by (simp add: started_def tc)
  have step: "step dbg sys w Start (started w)" unfolding st by (rule step.start [OF tc])
  note S = reachable_step [OF r(1) step] start_inv(2) [OF reachable_inv [OF r] tc, folded st]
  show "reachable dbg sys (entered w slot)" "live_set (entered w slot) = live_set w"
    using S r(1) by (auto simp: entered_def split: tls_slot.splits option.splits)
  show "i < length (w_caches (entered w slot))" "w_mem (entered w slot) = w_mem w" "w_al (entered w slot) = w_al w"
    using s by (auto simp: entered_def slot_at_def st split: tls_slot.splits option.splits)
  show "w_caches (entered w slot) ! j = w_caches w ! j" if "j < length (w_caches w)" for j
    using that by (auto simp: entered_def st nth_append split: tls_slot.splits option.splits)
qed

text \<open>A call through the API is the call on the cache of the thread.\<close>

lemma try_with_thread_cache_run:
  assumes rep: "represents pr w" and s: "slot_at w slot i"
    and f: "f (w_mem w) (w_al w) (w_caches (entered w slot) ! i) = Some (m, al, tc, r)"
  shows "try_with_thread_cache sys f pr slot =
    Some (leaves pr (updated (entered w slot) i m al tc), Cell (Some \<lparr>th_cache = tc\<rparr>), Inr (Some r))"
proof -
  have g: "global_allocator sys pr = (pr, Inr (w_al w))" "pr_memory pr = w_mem w" "pr_next_cache_id pr = w_next_id w"
    using rep by (auto simp: represents_def global_allocator_def)
  obtain c where c: "slot = Cell c" using s by (cases slot) (auto simp: slot_at_def)
  obtain tc0 nx where new: "ThreadCache_new (al_config (w_al w)) (w_next_id w) = (tc0, nx)" by (cases "ThreadCache_new (al_config (w_al w)) (w_next_id w)")
  show ?thesis
  proof (cases c)
    case None
    have st: "entered w slot = w\<lparr>w_caches := w_caches w @ [tc0], w_next_id := nx\<rparr>" by (simp add: entered_def started_def c None new)
    have i: "w_caches (entered w slot) ! i = tc0" unfolding st using s by (simp add: slot_at_def c None)
    show ?thesis using f [unfolded i] unfolding st
      by (simp add: try_with_thread_cache_def g c None ThreadCacheHandle_new_def new with_parts_def leaves_def updated_def)
  next
    case (Some h)
    have st: "entered w slot = w" "w_caches w ! i = th_cache h" using s by (simp_all add: entered_def c Some slot_at_def)
    show ?thesis using f [unfolded st] unfolding st(1)
      by (cases h) (simp add: try_with_thread_cache_def g c Some with_parts_def leaves_def updated_def)
  qed
qed

text \<open>A slot that is destroyed or in use gives no access to a cache.\<close>

lemma try_with_thread_cache_unavailable:
  assumes "slot = Destroyed \<or> slot = Borrowed" "global_allocator sys pr = (pr1, Inr al)"
  shows "try_with_thread_cache sys f pr slot = Some (pr1, slot, Inr None)"
  using assms by (auto simp: try_with_thread_cache_def)

text \<open>Forcing the global allocator creates an initial world.\<close>

lemma global_allocator_init:
  assumes "pr_global pr = None" "global_allocator sys pr = (pr1, Inr al)"
  shows "initial sys \<lparr>w_mem = pr_memory pr1, w_al = al, w_caches = [], w_next_id = pr_next_cache_id pr1\<rparr>"
    "represents pr1 \<lparr>w_mem = pr_memory pr1, w_al = al, w_caches = [], w_next_id = pr_next_cache_id pr1\<rparr>"
  using assms by (auto simp: global_allocator_def initial_def represents_def split: prod.splits)

section \<open>The public functions\<close>

lemma api_allocate_outcome:
  assumes r: "reachable dbg sys w" "os_ok sys" and rep: "represents pr w" and s: "slot_at w slot i" and ep: "epochs_ok w"
  shows "\<exists>w' tc res. api_allocate dbg sys n pr slot = Some (leaves pr w', Cell (Some \<lparr>th_cache = tc\<rparr>), res) \<and>
    reachable dbg sys w' \<and> slot_at w' (Cell (Some \<lparr>th_cache = tc\<rparr>)) i \<and> same_arena w w' \<and>
    (\<forall>j < length (w_caches w). j \<noteq> i \<longrightarrow> w_caches w' ! j = w_caches w ! j) \<and>
    (case res of
       Inl e \<Rightarrow> live_set w' = live_set w \<and> (n = 0 \<and> e = ZeroSize \<or> 0 < n \<and> e = out_of_memory (w_al w') n)
     | Inr p \<Rightarrow> 0 < n \<and> 64 dvd p \<and> fresh_region (live_set w) p n \<and> live_set w' = insert (p, n) (live_set w))"
proof -
  note E = entered_props [OF r s]
  have ep': "epochs_ok (entered w slot)" using ep by (simp add: epochs_ok_def E(5))
  have md: "madvise_ok sys" using r(2) by (simp add: os_ok_def)
  obtain m al tc res where a: "allocate_with_cache dbg sys (w_mem w) (w_al w) (w_caches (entered w slot) ! i) n = Some (m, al, tc, res)"
    "case res of
       Inl e \<Rightarrow> live_set (updated (entered w slot) i m al tc) = live_set w \<and>
         (n = 0 \<and> e = ZeroSize \<or> 0 < n \<and> e = out_of_memory al n \<and> exhausted (w_mem w) (w_al w) (w_caches (entered w slot) ! i) n)
     | Inr p \<Rightarrow> 0 < n \<and> 64 dvd p \<and> fresh_region (live_set w) p n \<and>
         live_set (updated (entered w slot) i m al tc) = insert (p, n) (live_set w)" "al_keeps (w_al w) al"
    using allocate_outcome [OF reachable_inv [OF E(1) r(2)] E(3) ep' md, of n] unfolding E(2,4,5) by blast
  let ?w = "updated (entered w slot) i m al tc"
  note run = try_with_thread_cache_run [OF rep s, where f = "\<lambda>m al tc. allocate_with_cache dbg sys m al tc n", OF a(1), of sys]
  have st: "reachable dbg sys ?w"
  proof (cases res)
    case (Inl e)
    then show ?thesis
      using reachable_step [OF E(1) step.refuse [OF E(3) ep']] a(1) by (simp add: E(4,5))
  next
    case (Inr p)
    then show ?thesis
      using reachable_step [OF E(1) step.allocate [OF E(3) ep']] a(1) by (simp add: E(4,5))
  qed
  have "slot_at ?w (Cell (Some \<lparr>th_cache = tc\<rparr>)) i" using E(3) by (simp add: slot_at_def updated_def)
  moreover have "\<forall>j < length (w_caches w). j \<noteq> i \<longrightarrow> w_caches ?w ! j = w_caches w ! j" using E(6) by (simp add: updated_def)
  moreover have "w_al ?w = al" "same_arena w ?w" using a(3) by (simp_all add: updated_def same_arena_def al_keeps_def)
  ultimately show ?thesis using run a(2) st
    by (intro exI [of _ ?w] exI [of _ tc] exI [of _ res]) (auto simp: api_allocate_def split: sum.splits)
qed

lemma api_deallocate_outcome:
  assumes r: "reachable dbg sys w" "os_ok sys" and rep: "represents pr w" and s: "slot_at w slot i" and ep: "epochs_ok w"
    and p: "(p, n) \<in> live_set w"
  shows "\<exists>w' tc. api_deallocate dbg sys p pr slot = Some (leaves pr w', Cell (Some \<lparr>th_cache = tc\<rparr>), Inr ()) \<and>
    api_deallocate_with_size dbg sys p n pr slot = Some (leaves pr w', Cell (Some \<lparr>th_cache = tc\<rparr>), Inr ()) \<and>
    try_with_thread_cache sys (\<lambda>m al tc. deallocate_with_size_checked dbg sys m al tc p n) pr slot =
      Some (leaves pr w', Cell (Some \<lparr>th_cache = tc\<rparr>), Inr (Some (Inr ()))) \<and>
    reachable dbg sys w' \<and> slot_at w' (Cell (Some \<lparr>th_cache = tc\<rparr>)) i \<and>
    (\<forall>j < length (w_caches w). j \<noteq> i \<longrightarrow> w_caches w' ! j = w_caches w ! j) \<and> live_set w' = live_set w - {(p, n)}"
proof -
  note E = entered_props [OF r s]
  have ep': "epochs_ok (entered w slot)" using ep by (simp add: epochs_ok_def E(5))
  have md: "madvise_ok sys" using r(2) by (simp add: os_ok_def)
  have p': "(p, n) \<in> live_set (entered w slot)" using p by (simp add: E(2))
  obtain m al tc where a: "deallocate_with_cache dbg sys (w_mem w) (w_al w) (w_caches (entered w slot) ! i) p = Some (m, al, tc, Inr ())"
    "deallocate_with_size_checked dbg sys (w_mem w) (w_al w) (w_caches (entered w slot) ! i) p n = Some (m, al, tc, Inr ())"
    "live_set (updated (entered w slot) i m al tc) = live_set w - {(p, n)}"
    using free_outcome(1) [OF reachable_inv [OF E(1) r(2)] E(3) ep' md p'] unfolding E(2,4,5) by blast
  let ?w = "updated (entered w slot) i m al tc"
  note run = try_with_thread_cache_run [OF rep s, where f = "\<lambda>m al tc. deallocate_with_cache dbg sys m al tc p", OF a(1), of sys]
    try_with_thread_cache_run [OF rep s, where f = "\<lambda>m al tc. deallocate_with_size_checked dbg sys m al tc p n", OF a(2), of sys]
  have "reachable dbg sys ?w"
    using reachable_step [OF E(1) step.free [OF E(3) ep' p']] a(1) by (simp add: E(4,5))
  moreover have "slot_at ?w (Cell (Some \<lparr>th_cache = tc\<rparr>)) i" using E(3) by (simp add: slot_at_def updated_def)
  moreover have "\<forall>j < length (w_caches w). j \<noteq> i \<longrightarrow> w_caches ?w ! j = w_caches w ! j" using E(6) by (simp add: updated_def)
  ultimately show ?thesis using run a(3)
    by (intro exI [of _ ?w] exI [of _ tc]) (simp add: api_deallocate_def api_deallocate_with_size_def)
qed

text \<open>A thread that exits returns all its blocks to the central pool.\<close>

lemma thread_exit_outcome:
  assumes r: "reachable dbg sys w" "os_ok sys" and rep: "represents pr w" and i: "i < length (w_caches w)" and ep: "epochs_ok w"
  shows "\<exists>w'. thread_exit dbg sys pr (Cell (Some \<lparr>th_cache = w_caches w ! i\<rparr>)) = Some (leaves pr w', Destroyed) \<and>
    reachable dbg sys w' \<and> live_set w' = live_set w \<and> (\<forall>c. tc_blocks (w_mem w') (w_caches w' ! i) c = {#})"
proof -
  have md: "madvise_ok sys" using r(2) by (simp add: os_ok_def)
  obtain m al tc where d: "drain_thread_cache dbg sys (w_mem w) (w_al w) (w_caches w ! i) = Some (m, al, tc)"
    "live_set (updated w i m al tc) = live_set w" "\<forall>c. tc_blocks m tc c = {#}"
    using drain_outcome [OF reachable_inv [OF r] i ep md] by blast
  have "reachable dbg sys (updated w i m al tc)" by (rule reachable_step [OF r(1) step.drain [OF i ep d(1)]])
  moreover have "thread_exit dbg sys pr (Cell (Some \<lparr>th_cache = w_caches w ! i\<rparr>)) = Some (leaves pr (updated w i m al tc), Destroyed)"
    using rep d(1) by (simp add: thread_exit_def represents_def ThreadCacheHandle_drop_def leaves_def updated_def)
  ultimately show ?thesis using d(2,3) i by (intro exI [of _ "updated w i m al tc"]) (simp add: updated_def)
qed

section \<open>The adapter for \<open>GlobalAlloc\<close>\<close>

text \<open>What the adapter relies on of the system allocator: a block has the alignment of its
  layout and lies in the address space.\<close>

definition system_ok :: "'s system_allocator \<Rightarrow> bool" where
  "system_ok sa \<longleftrightarrow> (\<forall>l s p s'. system_alloc sa l s = (p, s') \<longrightarrow> p \<noteq> 0 \<longrightarrow>
     layout_align l dvd p \<and> p + layout_size l \<le> usize_max)"

lemma fallback_alignment_props:
  assumes "is_power_of_two (layout_align l)"
  shows "layout_align l dvd fallback_alignment l" "0 < fallback_alignment l"
proof -
  have 8: "is_power_of_two PREFIX_ALIGN" unfolding is_power_of_two_iff PREFIX_ALIGN_def by (rule exI [of _ 3]) simp
  show "layout_align l dvd fallback_alignment l"
    using power_of_two_dvd_le [OF assms 8] by (simp add: fallback_alignment_def)
  show "0 < fallback_alignment l" by (simp add: fallback_alignment_def PREFIX_ALIGN_def)
qed

lemma try_fallback_layoutD:
  assumes "try_fallback_layout l = Some rl"
  shows "layout_size rl = layout_size l + PREFIX_SIZE + (fallback_alignment l - 1)" "layout_align rl = fallback_alignment l"
  using assms by (auto simp: try_fallback_layout_def from_size_align_def run_elims Let_def split: if_splits)

lemma fallback_alloc_spec:
  assumes sa: "system_ok sa" and al: "is_power_of_two (layout_align l)"
  obtains (none) ga' where "fallback_alloc sa l ga = Some (ga', 0)" "ga_process ga' = ga_process ga" "ga_prefixes ga' = ga_prefixes ga"
  | (some) ga' raw user rl where "fallback_alloc sa l ga = Some (ga', user)" "try_fallback_layout l = Some rl"
      "0 < raw" "raw + PREFIX_SIZE \<le> user" "user + layout_size l \<le> raw + layout_size rl" "layout_align l dvd user"
      "ga_process ga' = ga_process ga" "fallback_raw_ptr ga' user = Some raw"
proof (cases "try_fallback_layout l")
  case None
  then show ?thesis using none by (simp add: fallback_alloc_def)
next
  case (Some rl)
  note L = try_fallback_layoutD [OF Some] and F = fallback_alignment_props [OF al]
  obtain raw s where a: "system_alloc sa rl (ga_system ga) = (raw, s)" by (cases "system_alloc sa rl (ga_system ga)")
  show ?thesis
  proof (cases "raw = 0")
    case True
    then show ?thesis using none [of "ga\<lparr>ga_system := s\<rparr>"] Some a by (simp add: fallback_alloc_def)
  next
    case False
    then have in_range: "raw + layout_size rl \<le> usize_max" using sa a unfolding system_ok_def by blast
    then have first: "raw + PREFIX_SIZE \<le> usize_max" using L(1) by simp
    show ?thesis
    proof (cases "ga_align_up (raw + PREFIX_SIZE) (fallback_alignment l)")
      case None
      then show ?thesis using none [of "ga\<lparr>ga_system := system_dealloc sa raw rl s\<rparr>"] Some a False first
        by (simp add: fallback_alloc_def checked_add_def)
    next
      case user: (Some user)
      note U = ga_al.round_up_SomeD [OF user F(2)]
      have pre: "wrapping_sub user PREFIX_SIZE = user - PREFIX_SIZE"
        using U(2,4) first by (simp add: wrapping_sub_small)
      let ?ga = "ga\<lparr>ga_system := s, ga_prefixes := (ga_prefixes ga)(user - PREFIX_SIZE \<mapsto>
          \<lparr>fp_magic = FALLBACK_MAGIC, fp_raw_addr = raw, fp_user_addr = user\<rparr>)\<rparr>"
      have "fallback_alloc sa l ga = Some (?ga, user)"
        using Some a False first user by (simp add: fallback_alloc_def checked_add_def pre)
      moreover have "fallback_raw_ptr ?ga user = Some raw"
        using U(2) False by (simp add: fallback_raw_ptr_def checked_sub_def FALLBACK_EMPTY_def read_fallback_prefix_def)
      moreover have "user + layout_size l \<le> raw + layout_size rl" using U(3) L(1) F(2) by linarith
      moreover have "layout_align l dvd user" using F(1) U(1) by (rule dvd_trans)
      ultimately show ?thesis using some [OF _ Some, of ?ga user raw] False U(2) by simp
    qed
  qed
qed

lemma le_word_zeros: "le_word (replicate n 0) = 0"
  by (induction n) (simp_all add: le_word_def)

lemma orthotope_prefix:
  assumes "tail_padding h = replicate HEADER_TAIL_PADDING_SIZE 0"
  shows "fp_magic (prefix_of_bytes (tail_padding h)) \<noteq> FALLBACK_MAGIC"
  by (simp add: assms prefix_of_bytes_def le_word_zeros FALLBACK_MAGIC_def)

lemma live_not_fallback:
  assumes inv: "world_inv dbg w" and p: "(p, n) \<in> live_set w" and mem: "pr_memory (ga_process ga) = w_mem w"
    and pre: "ga_prefixes ga (p - PREFIX_SIZE) = None"
  shows "fallback_raw_ptr ga p = None"
proof -
  note V = world_view [OF inv]
  have "tail_padding (w_mem w (p - HEADER_SIZE)) = replicate HEADER_TAIL_PADDING_SIZE 0" using p
  proof (cases rule: live_set_cases)
    case (small b c)
    then show ?thesis using live_small_region(4) [OF inv small(1)]
      by (simp add: header_live_def Let_def live_header_def small_header_def)
  next
    case (large r)
    then show ?thesis using live_large(1,4) [OF V large(1)] by (simp add: live_large_ok_def large_header_def)
  qed
  moreover have "PREFIX_SIZE \<le> p" using live_region_props(2) [OF inv p] by (simp add: PREFIX_SIZE_def HEADER_SIZE_def)
  ultimately show ?thesis
    using pre mem orthotope_prefix [of "w_mem w (p - HEADER_SIZE)"]
    by (simp add: fallback_raw_ptr_def checked_sub_def read_fallback_prefix_def Let_def)
qed

lemma ga_alloc_outcome:
  assumes r: "reachable dbg sys w" "os_ok sys" and rep: "represents (ga_process ga) w" and s: "slot_at w slot i" and ep: "epochs_ok w"
    and l: "select_backend l = Orthotope" "is_power_of_two (layout_align l)"
  shows "\<exists>w' tc p. ga_alloc dbg sys sa l ga slot = Some (ga\<lparr>ga_process := leaves (ga_process ga) w'\<rparr>, Cell (Some \<lparr>th_cache = tc\<rparr>), p) \<and>
    reachable dbg sys w' \<and> slot_at w' (Cell (Some \<lparr>th_cache = tc\<rparr>)) i \<and> same_arena w w' \<and>
    (p = 0 \<and> live_set w' = live_set w \<or>
     p \<noteq> 0 \<and> layout_align l dvd p \<and> fresh_region (live_set w) p (layout_size l) \<and> live_set w' = insert (p, layout_size l) (live_set w))"
proof -
  obtain w' tc res where a: "api_allocate dbg sys (layout_size l) (ga_process ga) slot = Some (leaves (ga_process ga) w', Cell (Some \<lparr>th_cache = tc\<rparr>), res)"
    "reachable dbg sys w'" "slot_at w' (Cell (Some \<lparr>th_cache = tc\<rparr>)) i"
    "same_arena w w'" "case res of Inl e \<Rightarrow> live_set w' = live_set w \<and> (layout_size l = 0 \<and> e = ZeroSize \<or> 0 < layout_size l \<and> e = out_of_memory (w_al w') (layout_size l))
     | Inr p \<Rightarrow> 0 < layout_size l \<and> 64 dvd p \<and> fresh_region (live_set w) p (layout_size l) \<and> live_set w' = insert (p, layout_size l) (live_set w)"
    using api_allocate_outcome [OF r rep s ep, of "layout_size l"] by blast
  let ?f = "\<lambda>m al tc. allocate_with_cache dbg sys m al tc (layout_size l)"
  have "is_power_of_two 64" unfolding is_power_of_two_iff by (rule exI [of _ 6]) simp
  moreover have "layout_align l \<le> 64" using l(1) by (auto simp: select_backend_def HEADER_ALIGNMENT_def split: if_splits)
  ultimately have al: "layout_align l dvd 64" by (rule power_of_two_dvd_le [OF l(2)])
  from a(1) obtain x where x: "try_with_thread_cache sys ?f (ga_process ga) slot = Some (leaves (ga_process ga) w', Cell (Some \<lparr>th_cache = tc\<rparr>), x)"
    "res = (case x of Inl _ \<Rightarrow> Inl AllocGlobalInitFailed | Inr None \<Rightarrow> Inl AllocGlobalInitFailed | Inr (Some y) \<Rightarrow> y)"
    by (auto simp: api_allocate_def run_elims)
  show ?thesis
  proof (cases res)
    case (Inl e)
    then have "e = ZeroSize \<or> e = out_of_memory (w_al w') (layout_size l)" using a(5) by auto
    then have "x = Inr (Some (Inl e))" using x(2) Inl by (auto simp: out_of_memory_def split: sum.splits option.splits)
    then show ?thesis using x(1) a(2-5) l(1) Inl by (auto simp: ga_alloc_def Let_def)
  next
    case (Inr p)
    then have y: "x = Inr (Some (Inr p))" using x(2) by (auto split: sum.splits option.splits)
    have "(p, layout_size l) \<in> live_set w'" using a(5) Inr by simp
    from live_region_props(2) [OF reachable_inv [OF a(2) r(2)] this] have "p \<noteq> 0" by (simp add: HEADER_SIZE_def)
    moreover have "layout_align l dvd p" using a(5) Inr al by (auto intro: dvd_trans)
    ultimately show ?thesis using x(1) y a(2-5) l(1) Inr by (auto simp: ga_alloc_def Let_def)
  qed
qed

lemma ga_dealloc_outcome:
  assumes r: "reachable dbg sys w" "os_ok sys" and rep: "represents (ga_process ga) w" and s: "slot_at w slot i" and ep: "epochs_ok w"
    and l: "select_backend l = Orthotope" and p: "(p, layout_size l) \<in> live_set w" and pre: "ga_prefixes ga (p - PREFIX_SIZE) = None"
  shows "\<exists>w' tc. ga_dealloc dbg sys sa panicking p l ga slot =
      Some (Returns (ga\<lparr>ga_process := leaves (ga_process ga) w'\<rparr>, Cell (Some \<lparr>th_cache = tc\<rparr>))) \<and>
    reachable dbg sys w' \<and> slot_at w' (Cell (Some \<lparr>th_cache = tc\<rparr>)) i \<and> live_set w' = live_set w - {(p, layout_size l)}"
proof -
  obtain w' tc where a: "try_with_thread_cache sys (\<lambda>m al tc. deallocate_with_size_checked dbg sys m al tc p (layout_size l)) (ga_process ga) slot =
      Some (leaves (ga_process ga) w', Cell (Some \<lparr>th_cache = tc\<rparr>), Inr (Some (Inr ())))"
    "reachable dbg sys w'" "slot_at w' (Cell (Some \<lparr>th_cache = tc\<rparr>)) i" "live_set w' = live_set w - {(p, layout_size l)}"
    using api_deallocate_outcome [OF r rep s ep p] by blast
  have "fallback_raw_ptr ga p = None"
    by (rule live_not_fallback [OF reachable_inv [OF r] p _ pre]) (use rep in \<open>simp add: represents_def\<close>)
  moreover have "p \<noteq> 0" using live_region_props(2) [OF reachable_inv [OF r] p] by (simp add: HEADER_SIZE_def)
  ultimately show ?thesis using a l by (auto simp: ga_dealloc_def collapse_dealloc_result_def)
qed

end
