(* ===== verification/Footprint.thy ===== *)
theory Footprint
  imports Threads
begin

text \<open>
  How much memory the allocator holds. The counters of a cache stay within the limits of the
  configuration (\<^verbatim>\<open>thread_cache.rs\<close>), a slab holds at most one refill of blocks, and the arena
  is drawn on only when no cached or pooled block can serve the caller. Together these bound
  the blocks of a class by the peak demand of the client plus a constant per thread.
\<close>

section \<open>The counters of a cache\<close>

named_theorems totals \<open>effect of the cache operations on the counter of a class\<close>

lemma lc_set_slab_total [totals]: "lc_set_slab lc i s = Some lc' \<Longrightarrow> lc_total_len lc' = lc_total_len lc"
  by (auto simp: lc_set_slab_def run_elims)

lemma mark_slab_available_total [totals]: "mark_slab_available lc i = Some lc' \<Longrightarrow> lc_total_len lc' = lc_total_len lc"
  by (auto simp: mark_slab_available_def run_elims Let_def split: if_splits dest!: lc_set_slab_total)

lemma mark_slab_unavailable_total [totals]:
  "mark_slab_unavailable dbg lc i = Some lc' \<Longrightarrow> lc_total_len lc' = lc_total_len lc"
  by (auto simp: mark_slab_unavailable_def run_elims Let_def split: if_splits option.splits dest!: lc_set_slab_total)

lemma lc_pop_block_total: "lc_pop_block_unchecked dbg m lc = Some (b, r, lc') \<Longrightarrow> lc_total_len lc' = lc_total_len lc - 1"
  by (auto simp: lc_pop_block_unchecked_def run_elims Let_def checked_sub_def split: if_splits option.splits
      dest!: totals)

lemma push_spilled_total: "push_spilled_block dbg m lc b = Some (m', lc') \<Longrightarrow> lc_total_len lc' = lc_total_len lc"
  by (auto simp: push_spilled_block_def push_to_slab_def run_elims Let_def split: if_splits option.splits dest!: totals)

lemma lc_push_block_total: "lc_push_block dbg m lc b = Some (m', lc') \<Longrightarrow> lc_total_len lc' = lc_total_len lc + 1"
  by (auto simp: lc_push_block_def run_elims Let_def checked_add_def split: if_splits option.splits dest!: push_spilled_total)

lemma push_shared_total: "push_shared_batch dbg m lc batch = Some (m', lc') \<Longrightarrow> lc_total_len lc' = lc_total_len lc + batch_len batch"
  by (auto simp: push_shared_batch_def run_elims Let_def checked_add_def split: if_splits)

lemma push_owned_total: "lc_push_owned_slab dbg lc start bs cap = Some lc' \<Longrightarrow> lc_total_len lc' = lc_total_len lc + cap"
  by (auto simp: lc_push_owned_slab_def run_elims Let_def checked_add_def split: if_splits sum.splits dest!: totals)

definition cache_limit :: "AllocatorConfig \<Rightarrow> SizeClass \<Rightarrow> usize" where
  "cache_limit cfg c = max (local_limit cfg c) (refill_count cfg c)"

definition cache_bounded :: "ThreadCache \<Rightarrow> bool" where
  "cache_bounded tc \<longleftrightarrow> (\<forall>c. lc_total_len (tclass tc c) \<le> cache_limit (tc_config tc) c \<and>
     rr_pending_len (tremote tc c) < drain_count (tc_config tc) c)"

definition slab_caps :: "AllocatorConfig \<Rightarrow> CentralPool \<Rightarrow> bool" where
  "slab_caps cfg cp \<longleftrightarrow> (\<forall>c. \<forall>(start, fin, bs, cap)\<in>geos cp c. cap \<le> refill_count cfg c)"

lemma slab_caps_cong: "central_geometry cp' = central_geometry cp \<Longrightarrow> slab_caps cfg cp' = slab_caps cfg cp"
  by (simp add: slab_caps_def)

lemma cache_bounded_new: "cache_bounded (fst (ThreadCache_new cfg i))"
  by (simp add: cache_bounded_def ThreadCache_new_def LocalClassCache_new_def RemoteReturnCache_new_def)

lemma cache_bounded_class:
  assumes "cache_bounded tc" "index c < length (tc_classes tc)" "lc_total_len lc \<le> cache_limit (tc_config tc) c"
  shows "cache_bounded (tc_set_class tc c lc)"
proof -
  have "tc_config (tc_set_class tc c lc) = tc_config tc" "tc_remote_returns (tc_set_class tc c lc) = tc_remote_returns tc"
    by (simp_all add: tc_set_class_def)
  then show ?thesis using assms by (simp add: cache_bounded_def)
qed

lemma tremote_set [simp]:
  "index c < length (tc_remote_returns tc) \<Longrightarrow> tremote (tc_set_remote tc c rr) d = (if d = c then rr else tremote tc d)"
  by (auto simp: tc_set_remote_def nth_list_update)

lemma cache_bounded_remote:
  assumes "cache_bounded tc" "index c < length (tc_remote_returns tc)" "rr_pending_len rr < drain_count (tc_config tc) c"
  shows "cache_bounded (tc_set_remote tc c rr)"
proof -
  have "tc_config (tc_set_remote tc c rr) = tc_config tc" "tc_classes (tc_set_remote tc c rr) = tc_classes tc"
    by (simp_all add: tc_set_remote_def)
  then show ?thesis using assms by (simp add: cache_bounded_def)
qed

lemma bind_bounded:
  assumes "bind_to_allocator tc i cfg = Some tc'" "cache_bounded tc"
  shows "cache_bounded tc'"
  using assms by (auto simp: bind_to_allocator_def reset_for_rebind_def cache_bounded_def LocalClassCache_new_def
      RemoteReturnCache_new_def run_elims split: if_splits)

section \<open>Every operation keeps the limits\<close>

lemma refill_from_central_bounded:
  assumes inv: "held_inv dbg m cp tc R" and os: "madvise_ok sys" and ep: "epoch_room cp c" and b: "cache_bounded tc"
    and caps: "slab_caps (tc_config tc) cp" and zero: "lc_total_len (tclass tc c) = 0"
    and run: "refill_from_central dbg sys m tc c cp = Some (m', tc', cp', k)"
  shows "cache_bounded tc'"
proof -
  note T = tc_invD [OF held_invD(3) [OF inv], of c]
  obtain m1 cp1 r xs where t: "take_refill dbg sys m cp c (refill_count (tc_config tc) c) = Some (m1, cp1, r)"
    "central_step (idle_header dbg) c (set_mset (central_blocks m cp c)) m cp m1 cp1"
    "refill_rep (idle_header dbg c) m1 (cpool cp1 c) r xs" "\<forall>b. r = Refill_Batch b \<longrightarrow> length xs \<le> refill_count (tc_config tc) c"
    by (rule take_refill_spec [OF held_invD(1) [OF inv] idle_link_insensitive os refill_count_pos ep])
  have geo: "central_geometry cp1 = central_geometry cp" using t(2) by (simp add: central_step_def)
  have le: "refill_count (tc_config tc) c \<le> cache_limit (tc_config tc) c" by (simp add: cache_limit_def)
  show ?thesis
  proof (cases r)
    case Refill_Empty
    then show ?thesis using run t(1) T b by (simp add: refill_from_central_def)
  next
    case (Refill_Batch batch)
    then have "batch_len batch \<le> refill_count (tc_config tc) c" using t(3,4) by (auto simp: refill_rep_def batch_rep_def)
    then show ?thesis using run t(1) T Refill_Batch zero le
      by (auto simp: refill_from_central_def run_elims dest!: push_shared_total intro!: cache_bounded_class [OF b])
  next
    case (Refill_Slab start bs cap)
    then have "(start, start + bs * cap, bs, cap) \<in> geos cp1 c" using t(3) by (simp add: refill_rep_def central_geometry_def)
    then have "(start, start + bs * cap, bs, cap) \<in> geos cp c" by (simp only: geo)
    then have "cap \<le> refill_count (tc_config tc) c" using caps unfolding slab_caps_def by fastforce
    then show ?thesis using run t(1) T Refill_Slab zero le
      by (auto simp: refill_from_central_def run_elims dest!: push_owned_total intro!: cache_bounded_class [OF b])
  qed
qed

lemma refill_arena_bounded:
  assumes inv: "alloc_inv dbg m al tc R" and b: "cache_bounded tc" and cfg: "tc_config tc = al_config al"
    and zero: "lc_total_len (tclass tc c) = 0" and run: "refill_cache_from_arena dbg sys m al tc c n = Some (m', al', tc', r)"
  shows "cache_bounded tc'"
proof -
  note T = tc_invD [OF held_invD(3) [OF alloc_invD(4) [OF inv]], of c]
  have bs: "block_size_for_alignment c (alignment (al_config al)) = class_block_size (al_config al) c" by (simp add: class_block_size_def)
  show ?thesis
  proof (rule reserve_region [OF inv, of c])
    assume "reserve_block_span (al_arena al) (class_block_size (al_config al) c) (refill_count (al_config al) c) = Inr None"
    then show ?thesis using run b by (simp add: refill_cache_from_arena_def bs)
  next
    fix a span k
    assume s: "reserve_block_span (al_arena al) (class_block_size (al_config al) c) (refill_count (al_config al) c) = Inr (Some (a, span))"
      "span_size span = class_block_size (al_config al) c * k" "k \<le> refill_count (al_config al) c"
    have "span_size span div class_block_size (al_config al) c = k"
      using s(2) class_block_size_pos [of "al_config al" c] by simp
    moreover have "k \<le> cache_limit (tc_config tc) c" using s(3) cfg by (simp add: cache_limit_def)
    ultimately show ?thesis using run s(1) T(1) zero
      by (auto simp: refill_cache_from_arena_def bs Let_def push_owned_slab_def run_elims dest!: push_owned_total
          intro!: cache_bounded_class [OF b])
  qed
qed

lemma ensure_available_bounded:
  assumes inv: "alloc_inv dbg m al tc R" and os: "madvise_ok sys" and ep: "cp_epoch (cpool (al_central al) c) + 4 \<le> usize_max"
    and b: "cache_bounded tc" and cfg: "tc_config tc = al_config al" and caps: "slab_caps (al_config al) (al_central al)"
    and run: "ensure_available dbg sys m al tc c n = Some (m', al', tc', r)"
  shows "cache_bounded tc'"
proof (cases "lc_total_len (tclass tc c) = 0")
  case False
  then show ?thesis using run b tc_invD(1) [OF held_invD(3) [OF alloc_invD(4) [OF inv]], of c]
    by (simp add: ensure_available_def needs_refill_def)
next
  case zero: True
  note A = alloc_invD [OF inv]
  note T = tc_invD [OF held_invD(3) [OF A(4)], of c]
  have room: "epoch_room (al_central al) c" using ep by (simp add: epoch_room_def)
  obtain m1 tc1 cp1 k where c: "refill_from_central dbg sys m tc c (al_central al) = Some (m1, tc1, cp1, k)"
    "exchanged dbg c 1 R m (al_central al) tc m1 cp1 tc1"
    "size (lc_blocks m1 (tclass tc1 c)) = size (lc_blocks m (tclass tc c)) + k"
    by (rule refill_from_central_spec [OF A(4) os room])
  have b1: "cache_bounded tc1" by (rule refill_from_central_bounded [OF A(4) os room b _ zero c(1)]) (use caps cfg in simp)
  note M = movedD [OF moved_exchanged [OF inv c(2)]]
  show ?thesis
  proof (cases "k = 0")
    case False
    then show ?thesis using run zero c(1) b1 T(1) by (simp add: ensure_available_def needs_refill_def Let_def)
  next
    case True
    have "lc_total_len (tclass tc c) = size (lc_blocks m (tclass tc c))" by (rule lc_invD(3) [OF T(3)])
    moreover have "lc_total_len (tclass tc1 c) = size (lc_blocks m1 (tclass tc1 c))"
      by (rule lc_invD(3) [OF tc_invD(3) [OF held_invD(3) [OF alloc_invD(4) [OF M(1)]]]])
    ultimately have "lc_total_len (tclass tc1 c) = 0" using zero c(3) True by simp
    moreover have "tc_config tc1 = al_config (al\<lparr>al_central := cp1\<rparr>)" using M(4) cfg by (simp add: same_cache_def)
    moreover obtain r' where "refill_cache_from_arena dbg sys m1 (al\<lparr>al_central := cp1\<rparr>) tc1 c n = Some (m', al', tc', r')"
      using run zero c(1) True T(1) by (auto simp: ensure_available_def needs_refill_def Let_def run_elims)
    ultimately show ?thesis using refill_arena_bounded [OF M(1) b1] by blast
  qed
qed

lemma allocate_small_bounded:
  assumes inv: "alloc_inv dbg m al tc R" and os: "madvise_ok sys" and ep: "cp_epoch (cpool (al_central al) c) + 4 \<le> usize_max"
    and b: "cache_bounded tc" and cfg: "tc_config tc = al_config al" and caps: "slab_caps (al_config al) (al_central al)"
    and run: "allocate_small_with_cache dbg sys m al tc c n = Some (m', al', tc', r)"
  shows "cache_bounded tc'"
proof -
  obtain m1 al1 tc1 e where e: "ensure_available dbg sys m al tc c n = Some (m1, al1, tc1, e)"
    using run by (auto simp: allocate_small_with_cache_def run_elims)
  have b1: "cache_bounded tc1" by (rule ensure_available_bounded [OF inv os ep b cfg caps e])
  show ?thesis
  proof (cases e)
    case (Inl x)
    then show ?thesis using run e b1 by (simp add: allocate_small_with_cache_def)
  next
    case (Inr x)
    obtain lc' x1 x2 where p: "index c < length (tc_classes tc1)" "lc_pop_block_unchecked dbg m1 (tclass tc1 c) = Some (x1, x2, lc')"
      "tc' = tc_set_class tc1 c lc'"
      using run e Inr by (auto simp: allocate_small_with_cache_def pop_available_unchecked_def run_elims vec_get_def Let_def
          split: if_splits)
    have "lc_total_len lc' \<le> cache_limit (tc_config tc1) c"
      using lc_pop_block_total [OF p(2)] b1 by (metis cache_bounded_def diff_le_self le_trans)
    then show ?thesis using cache_bounded_class [OF b1 p(1)] p(3) by simp
  qed
qed

lemma tc_set_remote_twice [simp]: "tc_set_remote (tc_set_remote tc c a) c b = tc_set_remote tc c b"
  by (simp add: tc_set_remote_def)

lemma set_class_simps [simp]:
  "tc_config (tc_set_class tc c lc) = tc_config tc" "tc_class_config (tc_set_class tc c lc) = tc_class_config tc"
  "length (tc_classes (tc_set_class tc c lc)) = length (tc_classes tc)"
  "tc_config (tc_set_remote tc c rr) = tc_config tc" "tc_class_config (tc_set_remote tc c rr) = tc_class_config tc"
  "length (tc_remote_returns (tc_set_remote tc c rr)) = length (tc_remote_returns tc)"
  by (simp_all add: tc_set_class_def tc_set_remote_def)

text \<open>A block pushed over the limit of its class makes room again by draining at least one block.\<close>

lemma push_local_bounded:
  assumes inv: "held_inv dbg m cp tc R" and os: "madvise_ok sys" and ep: "epoch_room cp c" and bd: "cache_bounded tc"
    and b: "b \<in># R c" "local_header dbg c (tc_cache_id tc) b (m b)"
    and push: "push_and_should_drain dbg m tc c b = Some (m1, tc1, drain)"
  shows "\<not> drain \<Longrightarrow> cache_bounded tc1"
    "drain \<Longrightarrow> drain_excess_to_central dbg sys m1 tc1 c cp = Some (m2, tc2, cp2, k) \<Longrightarrow> cache_bounded tc2"
proof -
  note T = tc_invD [OF held_invD(3) [OF inv], of c]
  obtain lc where lc: "lc_push_block dbg m (tclass tc c) b = Some (m1, lc)" "tc1 = tc_set_class tc c lc"
    "drain = (lc_total_len lc > local_limit (tc_config tc) c)"
    using push T by (auto simp: push_and_should_drain_def run_elims)
  note n = lc_push_block_total [OF lc(1)]
  have old: "lc_total_len (tclass tc c) \<le> cache_limit (tc_config tc) c" using bd by (simp add: cache_bounded_def)
  show "\<not> drain \<Longrightarrow> cache_bounded tc1"
    using cache_bounded_class [OF bd T(1), of lc] lc(2,3) by (simp add: cache_limit_def)
  assume dr: "drain" and run: "drain_excess_to_central dbg sys m1 tc1 c cp = Some (m2, tc2, cp2, k)"
  have held: "held_inv dbg m1 cp tc1 (less_blocks R c [b])"
    using push_and_should_drain_spec [OF inv b] push by (metis option.inject prod.inject)
  have over: "lc_total_len (tclass tc1 c) > local_limit (tc_config tc1) c" using dr lc(2,3) T(1) by simp
  have "0 < k \<and> lc_total_len (tclass tc1 c) = k + lc_total_len (tclass tc2 c)"
    using drain_excess_spec [OF held os ep over] run by (metis option.inject prod.inject)
  moreover obtain lc2 where lc2: "tc2 = tc_set_class tc1 c lc2"
    using run by (auto simp: drain_excess_to_central_def run_elims Let_def)
  ultimately have "lc_total_len lc2 \<le> cache_limit (tc_config tc) c" using n old lc(2) T(1) by simp
  then show "cache_bounded tc2" using cache_bounded_class [OF bd T(1)] lc(2) lc2 by simp
qed

lemma push_remote_bounded:
  assumes inv: "held_inv dbg m cp tc R" and bd: "cache_bounded tc"
    and push: "push_remote_return m tc c b = Some (m1, tc1)" "should_flush_remote_returns tc1 c = Some fl"
  shows "\<not> fl \<Longrightarrow> cache_bounded tc1"
    "fl \<Longrightarrow> flush_remote_returns_for_class dbg m1 tc1 c cp = Some (m2, tc2, cp2, k) \<Longrightarrow> cache_bounded tc2"
proof -
  note T = tc_invD [OF held_invD(3) [OF inv], of c]
  obtain rr where rr: "rr_push_block m (tremote tc c) b = Some (m1, rr)" "tc1 = tc_set_remote tc c rr"
    using push(1) T by (auto simp: push_remote_return_def run_elims)
  have fl: "fl = (rr_pending_len rr \<ge> drain_count (tc_config tc) c)"
    using push(2) rr(2) T by (simp add: should_flush_remote_returns_def)
  show "\<not> fl \<Longrightarrow> cache_bounded tc1"
    using cache_bounded_remote [OF bd T(2), of rr] rr(2) fl by simp
  assume f: "fl" and run: "flush_remote_returns_for_class dbg m1 tc1 c cp = Some (m2, tc2, cp2, k)"
  have "rr_pending_len rr \<noteq> 0" using f fl drain_count_pos [of "tc_config tc" c] by linarith
  then obtain l where "tc2 = tc_set_remote tc c (rr\<lparr>rr_pending := l, rr_pending_len := 0\<rparr>)"
    using run rr(2) T(2) by (auto simp: flush_remote_returns_for_class_def take_all_unchecked_def run_elims Let_def)
  then show "cache_bounded tc2" using cache_bounded_remote [OF bd T(2)] drain_count_pos [of "tc_config tc" c] by simp
qed

lemma route_small_bounded:
  assumes inv: "alloc_inv dbg m al tc R" and os: "madvise_ok sys" and ep: "epoch_room (al_central al) c" and bd: "cache_bounded tc"
    and b: "b \<in># R c" "idle_header dbg c b (m b)"
    and run: "route_small_freed_block dbg sys m al tc c b (owner_cache_id (m b)) = Some (m', al', tc')"
  shows "cache_bounded tc'"
proof -
  note A = alloc_invD [OF inv]
  show ?thesis
  proof (cases "owner_cache_id (m b) = tc_cache_id tc")
    case True
    then have h: "local_header dbg c (tc_cache_id tc) b (m b)" using b(2) by (simp add: local_header_def)
    obtain m1 tc1 drain where p: "push_and_should_drain dbg m tc c b = Some (m1, tc1, drain)"
      using run True by (auto simp: route_small_freed_block_def run_elims)
    note P = push_local_bounded [OF A(4) os ep bd b(1) h p]
    show ?thesis
      by (cases drain) (use run True p P in \<open>auto simp: route_small_freed_block_def run_elims\<close>)
  next
    case False
    obtain m1 tc1 fl where p: "push_remote_return m tc c b = Some (m1, tc1)" "should_flush_remote_returns tc1 c = Some fl"
      using run False by (auto simp: route_small_freed_block_def run_elims)
    note P = push_remote_bounded [OF A(4) bd p]
    show ?thesis
      by (cases fl) (use run False p P in \<open>auto simp: route_small_freed_block_def run_elims\<close>)
  qed
qed

section \<open>The entry points\<close>

definition cache_fits :: "Allocator \<Rightarrow> ThreadCache \<Rightarrow> bool" where
  "cache_fits al tc \<longleftrightarrow> cache_bounded tc \<and> (tc_owner tc = Some (al_id al) \<longrightarrow> tc_config tc = al_config al)"

definition frugal :: "Allocator \<Rightarrow> ThreadCache \<Rightarrow> bool" where
  "frugal al tc \<longleftrightarrow> slab_caps (al_config al) (al_central al) \<and> cache_fits al tc"

lemma bind_fits:
  assumes "bind_to_allocator tc (al_id al) (al_config al) = Some tc0" "cache_fits al tc"
  shows "cache_bounded tc0" "tc_config tc0 = al_config al"
proof -
  show "cache_bounded tc0" using assms bind_bounded by (auto simp: cache_fits_def)
  show "tc_config tc0 = al_config al"
    using assms by (auto simp: cache_fits_def bind_to_allocator_def run_elims split: if_splits)
qed

lemma frugalI:
  assumes "cache_bounded tc" "tc_config tc = al_config al" "slab_caps (al_config al) (al_central al)"
  shows "frugal al tc"
  using assms by (simp add: frugal_def cache_fits_def)

lemma drawn_caps:
  assumes "drawn m al tc c al'" "slab_caps (al_config al) (al_central al)"
  shows "slab_caps (al_config al) (al_central al')"
  using assms unfolding drawn_def same_slabs_def span_drawn_def slab_caps_def by (fastforce split: if_splits)

lemma allocate_frugal:
  assumes inv: "alloc_inv dbg m al tc R" and b: "bindable tc al" and os: "madvise_ok sys" and ep: "epochs_low (al_central al)"
    and fr: "frugal al tc" and run: "allocate_with_cache dbg sys m al tc n = Some (m', al', tc', r)"
  shows "frugal al' tc'"
proof -
  have fit: "slab_caps (al_config al) (al_central al)" "cache_fits al tc" using fr by (simp_all add: frugal_def)
  obtain tc0 where bd: "bind_to_allocator tc (al_id al) (al_config al) = Some tc0" "alloc_inv dbg m al tc0 R"
    by (rule bind_spec [OF inv b])
  note B = bind_fits [OF bd(1) fit(2)]
  consider (zero) "n = 0" | (large) "n \<noteq> 0" "from_request n = None" | (small) c where "n \<noteq> 0" "from_request n = Some c" by blast
  then show ?thesis
  proof cases
    case zero
    then show ?thesis using run bd(1) B fit(1) by (auto simp: allocate_with_cache_def intro: frugalI)
  next
    case large
    then have big: "max_small_request < n" by (simp add: from_request_None_iff)
    obtain a l where "al' = al\<lparr>al_arena := a, al_large := l\<rparr>" "tc' = tc0"
    proof (rule allocate_large_spec [OF bd(2) big])
      fix a assume "allocate_large dbg m al n = Some (m, al\<lparr>al_arena := a\<rparr>, Inl (out_of_memory (al\<lparr>al_arena := a\<rparr>) n))"
      then show ?thesis using run bd(1) large that [where a = a and l = "al_large al"] by (auto simp: allocate_with_cache_def)
    next
      fix m2 a l b sz assume "allocate_large dbg m al n = Some (m2, al\<lparr>al_arena := a, al_large := l\<rparr>, Inr (b + HEADER_SIZE))"
      then show ?thesis using run bd(1) large that [where a = a and l = l] by (simp add: allocate_with_cache_def)
    qed
    then show ?thesis using B fit(1) by (auto intro: frugalI)
  next
    case small
    have fit': "0 < n" "n \<le> payload_size c" using from_request_SomeD [OF small(2)] small(1) by auto
    have run': "allocate_small_with_cache dbg sys m al tc0 c n = Some (m', al', tc', r)"
      using run bd(1) small by (simp add: allocate_with_cache_def)
    have bounded: "cache_bounded tc'" by (rule allocate_small_bounded [OF bd(2) os epochs_lowD(1) [OF ep] B fit(1) run'])
    obtain F R' where "moved dbg 2 F R' m al tc0 m' al' tc'" "drawn m al tc0 c al'"
    proof (rule allocate_small_spec [OF bd(2) os epochs_lowD(1) [OF ep] fit'])
      fix m2 al2 tc2
      assume "allocate_small_with_cache dbg sys m al tc0 c n = Some (m2, al2, tc2, Inl (out_of_memory al2 n))"
        "moved dbg 2 R R m al tc0 m2 al2 tc2" "same_slabs al al2"
      then show ?thesis using run' that [of R R] by (simp add: drawn_def)
    next
      fix m2 al2 tc2 b2
      assume "allocate_small_with_cache dbg sys m al tc0 c n = Some (m2, al2, tc2, Inr (b2 + HEADER_SIZE))"
        "moved dbg 2 R (more_blocks R c [b2]) m al tc0 m2 al2 tc2" "drawn m al tc0 c al2"
      then show ?thesis using run' that by simp
    qed
    note M = movedD [OF this(1)] and dr = this(2)
    have cfg: "al_config al' = al_config al" "tc_config tc' = tc_config tc0"
      using M(3,4) by (simp_all add: al_grows_def same_cache_def)
    then show ?thesis using drawn_caps [OF dr fit(1)] bounded B(2) by (simp add: frugalI)
  qed
qed

lemma deallocate_small_frugal:
  assumes inv: "alloc_inv dbg m al tc R" and b: "bindable tc al" and os: "madvise_ok sys" and ep: "epochs_low (al_central al)"
    and a: "a \<in># R c" "live_header dbg c n ow (m a)" and n: "0 < n" "n \<le> payload_size c" and fr: "frugal al tc"
    and run: "deallocate_with_cache dbg sys m al tc (a + HEADER_SIZE) = Some (m', al', tc', Inr ())"
  shows "frugal al' tc'"
proof -
  have fit: "slab_caps (al_config al) (al_central al)" "cache_fits al tc" using fr by (simp_all add: frugal_def)
  obtain tc0 where bd: "bind_to_allocator tc (al_id al) (al_config al) = Some tc0" "alloc_inv dbg m al tc0 R"
    by (rule bind_spec [OF inv b])
  note B = bind_fits [OF bd(1) fit(2)]
  note dec = decode_small_spec [OF bd(2) a n]
  let ?m = "mark_small_block_freed dbg m a"
  have f: "finish_small_free dbg sys m al tc0 c a (decoded c n ow) = Some (m', al', tc')"
    using run bd(1) dec by (auto simp: deallocate_with_cache_def deallocate_decoded_def run_elims)
  obtain m2 al2 tc2 where s: "finish_small_free dbg sys m al tc0 c a (decoded c n ow) = Some (m2, al2, tc2)"
    "moved dbg 1 (less_blocks R c [a]) (less_blocks R c [a]) m al tc0 m2 al2 tc2" "same_slabs al al2"
    by (rule finish_small_spec [OF bd(2) os epochs_lowD(2) [OF ep] a])
  have eq: "m2 = m'" "al2 = al'" "tc2 = tc'" using f s(1) by simp_all
  note M = movedD [OF s(2) [unfolded eq]]
  note inv' = movedD(1) [OF mark_freed_moved(1) [OF bd(2) a]] and h = mark_freed_moved(2,3) [OF bd(2) a]
  have "route_small_freed_block dbg sys ?m al tc0 c a (owner_cache_id (?m a)) = Some (m', al', tc')"
    using f h(2) by (simp add: finish_small_free_def decoded_def from_encoded_fields_def small_owner_cache_id_after_kind_decode_def)
  from route_small_bounded [OF inv' os epochs_lowD(2) [OF ep] B(1) a(1) h(1) this]
  have "cache_bounded tc'" .
  moreover have "al_config al' = al_config al" "tc_config tc' = tc_config tc0" "slab_caps (al_config al) (al_central al')"
    using M(3,4) s(3) fit(1) by (simp_all add: al_grows_def same_cache_def eq same_slabs_def slab_caps_def)
  ultimately show ?thesis using B(2) by (simp add: frugalI)
qed

section \<open>Threads\<close>

text \<open>What an allocation by thread \<open>i\<close> does to the shared parts, beside the outcome of \<open>allocate_outcome\<close>.\<close>

lemma allocate_effect:
  assumes inv: "world_inv dbg w" and i: "i < length (w_caches w)" and ep: "epochs_ok w" and os: "madvise_ok sys"
    and run: "allocate_with_cache dbg sys (w_mem w) (w_al w) (w_caches w ! i) n = Some (m, al, tc, r)"
  shows "epochs_rise (w_central w) (al_central al)" "al_keeps (w_al w) al"
    "r = Inl e \<Longrightarrow> central_geometry (al_central al) = central_geometry (w_central w)"
    "r = Inr p \<Longrightarrow> from_request n = Some c \<Longrightarrow>
       drawn (w_mem w) (w_al w) (w_caches w ! i) c al \<and> al_large al = al_large (w_al w)"
    "r = Inr p \<Longrightarrow> from_request n = None \<Longrightarrow> large_drawn (w_al w) n al \<and> al_central al = w_central w"
proof -
  have "epochs_rise (w_central w) (al_central al) \<and> al_keeps (w_al w) al \<and>
    (case r of Inl e \<Rightarrow> central_geometry (al_central al) = central_geometry (w_central w)
     | Inr p \<Rightarrow> (case from_request n of
           Some c \<Rightarrow> drawn (w_mem w) (w_al w) (w_caches w ! i) c al \<and> al_large al = al_large (w_al w)
         | None \<Rightarrow> large_drawn (w_al w) n al \<and> al_central al = w_central w))"
  proof (rule allocate_with_cache_spec [OF world_at [OF inv i] os epochs_ok_low [OF ep], where n = n])
    fix tc' assume "allocate_with_cache dbg sys (w_mem w) (w_al w) (w_caches w ! i) n = Some (w_mem w, w_al w, tc', Inl ZeroSize)"
    then show ?thesis using run by (auto simp: al_keeps_def)
  next
    fix m' al' tc'
    assume "allocate_with_cache dbg sys (w_mem w) (w_al w) (w_caches w ! i) n = Some (m', al', tc', Inl (out_of_memory al' n))"
      "al_keeps (w_al w) al'" "epochs_rise (w_central w) (al_central al')"
      "central_geometry (al_central al') = central_geometry (w_central w)"
    then show ?thesis using run by auto
  next
    fix m' al' tc' c a
    assume "from_request n = Some c"
      "allocate_with_cache dbg sys (w_mem w) (w_al w) (w_caches w ! i) n = Some (m', al', tc', Inr (a + HEADER_SIZE))"
      "al_keeps (w_al w) al'" "al_large al' = al_large (w_al w)" "epochs_rise (w_central w) (al_central al')"
      "drawn (w_mem w) (w_al w) (w_caches w ! i) c al'"
    then show ?thesis using run by auto
  next
    fix m' al' tc' a sz
    assume "max_small_request < n"
      "allocate_with_cache dbg sys (w_mem w) (w_al w) (w_caches w ! i) n = Some (m', al', tc', Inr (a + HEADER_SIZE))"
      "al_keeps (w_al w) al'" "al_central al' = w_central w" "large_drawn (w_al w) n al'"
    then show ?thesis using run from_request_None_iff [of n] by auto
  qed
  then show "epochs_rise (w_central w) (al_central al)" "al_keeps (w_al w) al"
    "r = Inl e \<Longrightarrow> central_geometry (al_central al) = central_geometry (w_central w)"
    "r = Inr p \<Longrightarrow> from_request n = Some c \<Longrightarrow>
       drawn (w_mem w) (w_al w) (w_caches w ! i) c al \<and> al_large al = al_large (w_al w)"
    "r = Inr p \<Longrightarrow> from_request n = None \<Longrightarrow> large_drawn (w_al w) n al \<and> al_central al = w_central w" by auto
qed

lemma free_effect:
  assumes inv: "world_inv dbg w" and i: "i < length (w_caches w)" and ep: "epochs_ok w" and os: "madvise_ok sys"
    and p: "(p, n) \<in> live_set w" and fr: "frugal (w_al w) (w_caches w ! i)"
    and run: "deallocate_with_cache dbg sys (w_mem w) (w_al w) (w_caches w ! i) p = Some (m, al, tc, Inr ())"
  shows "epochs_rise (w_central w) (al_central al)" "al_keeps (w_al w) al" "same_slabs (w_al w) al"
    "large_regions (al_large al) = large_regions (al_large (w_al w))" "frugal al tc"
proof -
  note W = world_at [OF inv i]
  have "epochs_rise (w_central w) (al_central al) \<and> al_keeps (w_al w) al \<and> same_slabs (w_al w) al \<and>
    large_regions (al_large al) = large_regions (al_large (w_al w)) \<and> frugal al tc" using p
  proof (cases rule: live_set_cases)
    case (small b c)
    note L = live_small_region [OF inv small(1)]
    have h: "live_header dbg c n (owner_cache_id (w_mem w b)) (w_mem w b)" "n \<le> payload_size c" "0 < n"
      using L(2,4) small(3) by (auto simp: header_live_def Let_def)
    have r: "b \<in># rest w i c" using small(1) by simp
    obtain m' al' tc' where d: "deallocate_with_cache dbg sys (w_mem w) (w_al w) (w_caches w ! i) (b + HEADER_SIZE) = Some (m', al', tc', Inr ())"
      "deallocate_with_size_checked dbg sys (w_mem w) (w_al w) (w_caches w ! i) (b + HEADER_SIZE) n = Some (m', al', tc', Inr ())"
      "alloc_inv dbg m' al' tc' (less_blocks (rest w i) c [b])" "tc_owner tc' = Some (al_id (w_al w))" "al_keeps (w_al w) al'"
      "rest_frame (al_central al') (less_blocks (rest w i) c [b]) (w_mem w) m'" "al_large al' = al_large (w_al w)"
      "al_grows (w_al w) al'" "epochs_rise (w_central w) (al_central al')" "same_slabs (w_al w) al'"
      by (rule deallocate_small_spec [OF W os epochs_ok_low [OF ep] r h(1,3,2)])
    have "frugal al' tc'" by (rule deallocate_small_frugal [OF W os epochs_ok_low [OF ep] r h(1,3,2) fr d(1)])
    then show ?thesis using d(1,5,7,9,10) run small(2) by simp
  next
    case (large r)
    obtain l tc' where d: "deallocate_with_cache dbg sys (w_mem w) (w_al w) (w_caches w ! i) p = Some (w_mem w, (w_al w)\<lparr>al_large := l\<rparr>, tc', Inr ())"
      "deallocate_with_size_checked dbg sys (w_mem w) (w_al w) (w_caches w ! i) p (rec_requested_size r) =
         Some (w_mem w, (w_al w)\<lparr>al_large := l\<rparr>, tc', Inr ())"
      "alloc_inv dbg (w_mem w) ((w_al w)\<lparr>al_large := l\<rparr>) tc' (rest w i)" "tc_owner tc' = Some (al_id (w_al w))"
      "live l = filter (\<lambda>(k, _). k \<noteq> p) (live (al_large (w_al w)))"
      "large_free l = add_mset \<lparr>free_block_addr = rec_block_addr r, free_block_size = rec_block_size r\<rparr> (large_free (al_large (w_al w)))"
      "large_regions l = large_regions (al_large (w_al w))"
      "bind_to_allocator (w_caches w ! i) (al_id (w_al w)) (al_config (w_al w)) = Some tc'"
      by (rule deallocate_large_spec [OF W large(1)])
    have "cache_bounded tc'" "tc_config tc' = al_config (w_al w)" using bind_fits [OF d(8)] fr by (simp_all add: frugal_def)
    then have "frugal ((w_al w)\<lparr>al_large := l\<rparr>) tc'" using fr by (intro frugalI) (simp_all add: frugal_def)
    then show ?thesis using d(1,7) run by (auto simp: al_keeps_def same_slabs_def)
  qed
  then show "epochs_rise (w_central w) (al_central al)" "al_keeps (w_al w) al" "same_slabs (w_al w) al"
    "large_regions (al_large al) = large_regions (al_large (w_al w))" "frugal al tc" by blast+
qed

definition frugal_world :: "world \<Rightarrow> bool" where
  "frugal_world w \<longleftrightarrow> slab_caps (al_config (w_al w)) (w_central w) \<and> (\<forall>tc\<in>set (w_caches w). cache_fits (w_al w) tc)"

lemma frugal_worldD:
  assumes "frugal_world w" "i < length (w_caches w)"
  shows "frugal (w_al w) (w_caches w ! i)"
  using assms by (simp add: frugal_world_def frugal_def)

lemma frugal_updated:
  assumes fr: "frugal_world w" and k: "al_keeps (w_al w) al" and new: "frugal al tc"
  shows "frugal_world (updated w i m al tc)"
proof -
  have same: "al_id al = al_id (w_al w)" "al_config al = al_config (w_al w)" using k by (simp_all add: al_keeps_def)
  have "cache_fits al x" if x: "x \<in> set ((w_caches w)[i := tc])" for x
  proof (cases "x = tc")
    case True
    then show ?thesis using new by (simp add: frugal_def)
  next
    case False
    then have "x \<in> set (w_caches w)" using x set_update_subset_insert by fastforce
    then show ?thesis using fr same by (simp add: frugal_world_def cache_fits_def)
  qed
  then show ?thesis using new by (simp add: frugal_world_def updated_def frugal_def)
qed

lemma initial_central:
  assumes "initial sys w"
  shows "central_geometry (w_central w) c = []"
proof -
  obtain cfg i j where n: "Allocator_new sys cfg i = (Inr (w_al w), j)" using assms by (auto simp: initial_def)
  then obtain a where "w_al w = \<lparr>al_id = i, al_config = cfg, al_arena = a, al_central = CentralPool_new, al_large = LargeObjectState_default\<rparr>"
    by (auto simp: Allocator_new_def split: sum.splits dest: sym)
  then show ?thesis by (simp add: central_geometry_def CentralPool_new_def ClassPool_new_def)
qed

lemma initial_frugal:
  assumes "initial sys w"
  shows "frugal_world w"
proof -
  have "w_caches w = []" using assms by (simp add: initial_def)
  then show ?thesis by (simp add: frugal_world_def slab_caps_def initial_central [OF assms])
qed

text \<open>Every step keeps the limits, and the slabs of the classes change only when an allocation draws a span.\<close>

definition span_step :: "world \<Rightarrow> world \<Rightarrow> bool" where
  "span_step w w' \<longleftrightarrow> (\<exists>i c. i < length (w_caches w) \<and> lc_blocks (w_mem w) (tclass (w_caches w ! i) c) = {#} \<and>
     central_blocks (w_mem w) (w_central w) c = {#} \<and> span_drawn (w_al w) c (w_al w'))"

lemma refused_frugal:
  assumes fr: "frugal_world w" and i: "i < length (w_caches w)"
    and bd: "bind_to_allocator (w_caches w ! i) (al_id (w_al w)) (al_config (w_al w)) = Some tc"
  shows "frugal_world (updated w i (w_mem w) (w_al w) tc)"
proof (rule frugal_updated [OF fr])
  show "al_keeps (w_al w) (w_al w)" by (simp add: al_keeps_def)
  note F = frugal_worldD [OF fr i]
  show "frugal (w_al w) tc" using bind_fits [OF bd] F by (intro frugalI) (simp_all add: frugal_def)
qed

lemma empty_cache_bounded:
  assumes "tc_inv dbg G m tc" "ThreadCache_is_empty tc"
  shows "cache_bounded tc"
proof -
  have "lc_total_len (tclass tc c) = 0" "rr_pending_len (tremote tc c) = 0" for c
    using assms(2) tc_invD(1,2) [OF assms(1), of c] by (simp_all add: ThreadCache_is_empty_def list_all_length)
  then show ?thesis by (simp add: cache_bounded_def)
qed

lemma drain_frugal:
  assumes inv: "world_inv dbg w" and i: "i < length (w_caches w)" and ep: "epochs_ok w" and os: "madvise_ok sys"
    and fr: "frugal_world w" and run: "drain_thread_cache dbg sys (w_mem w) (w_al w) (w_caches w ! i) = Some (m, al, tc)"
  shows "frugal_world (updated w i m al tc)" "same_slabs (w_al w) al" "al_keeps (w_al w) al"
proof -
  note F = frugal_worldD [OF fr i]
  have e: "\<forall>c. cp_epoch (cpool (al_central (w_al w)) c) < 2 ^ 63" using ep by (simp add: epochs_ok_def)
  have "alloc_inv dbg m al tc (rest w i) \<and> al_keeps (w_al w) al \<and> ThreadCache_is_empty tc \<and> same_slabs (w_al w) al \<and>
    (\<exists>tc0. bind_to_allocator (w_caches w ! i) (al_id (w_al w)) (al_config (w_al w)) = Some tc0 \<and> same_cache tc0 tc)"
    by (rule drain_thread_cache_spec [OF world_at [OF inv i] os e]) (use run in auto)
  then obtain tc0 where d: "alloc_inv dbg m al tc (rest w i)" "al_keeps (w_al w) al" "ThreadCache_is_empty tc" "same_slabs (w_al w) al"
    "bind_to_allocator (w_caches w ! i) (al_id (w_al w)) (al_config (w_al w)) = Some tc0" "same_cache tc0 tc" by auto
  show "same_slabs (w_al w) al" "al_keeps (w_al w) al" by (rule d(4), rule d(2))
  have "tc_config tc = al_config (w_al w)"
    using d(6) bind_fits(2) [OF d(5)] F by (simp add: frugal_def same_cache_def)
  moreover have "cache_bounded tc" by (rule empty_cache_bounded [OF held_invD(3) [OF alloc_invD(4) [OF d(1)]] d(3)])
  moreover have "slab_caps (al_config (w_al w)) (al_central al)" "al_config al = al_config (w_al w)"
    using F d(2,4) by (simp_all add: frugal_def same_slabs_def slab_caps_def al_keeps_def)
  ultimately show "frugal_world (updated w i m al tc)" by (intro frugal_updated [OF fr d(2)] frugalI) simp_all
qed

lemma step_frugal:
  assumes st: "step dbg sys w e w'" and inv: "world_inv dbg w" and os: "madvise_ok sys" and fr: "frugal_world w"
  shows "frugal_world w'" "central_geometry (w_central w') = central_geometry (w_central w) \<or> span_step w w'"
    "al_config (w_al w') = al_config (w_al w)"
proof -
  have sel: "w_al (updated w i m al tc) = al" for i m al tc by (simp add: updated_def)
  have "frugal_world w' \<and> (central_geometry (w_central w') = central_geometry (w_central w) \<or> span_step w w') \<and>
    al_config (w_al w') = al_config (w_al w)" using st
  proof cases
    case (allocate i n m al tc p)
    note E = allocate_effect [OF inv allocate(3,4) os allocate(5)]
    have f: "frugal al tc"
      by (rule allocate_frugal [OF world_at [OF inv allocate(3)] os epochs_ok_low [OF allocate(4)] frugal_worldD [OF fr allocate(3)] allocate(5)])
    have "central_geometry (al_central al) = central_geometry (w_central w) \<or> span_step w (updated w i m al tc)"
      using E(4,5) allocate(3) by (cases "from_request n") (auto simp: drawn_def same_slabs_def span_step_def sel)
    then show ?thesis using frugal_updated [OF fr E(2) f] E(2) allocate(2) by (simp add: sel al_keeps_def)
  next
    case (refuse i n m al tc e)
    note E = allocate_effect [OF inv refuse(3,4) os refuse(5)]
    have f: "frugal al tc"
      by (rule allocate_frugal [OF world_at [OF inv refuse(3)] os epochs_ok_low [OF refuse(4)] frugal_worldD [OF fr refuse(3)] refuse(5)])
    then show ?thesis using frugal_updated [OF fr E(2) f] E(2,3) refuse(2) by (simp add: sel al_keeps_def)
  next
    case (free i p n m al tc)
    note E = free_effect [OF inv free(3,4) os free(5) frugal_worldD [OF fr free(3)] free(6)]
    show ?thesis using frugal_updated [OF fr E(2,5)] E(2,3) free(2) by (simp add: sel al_keeps_def same_slabs_def)
  next
    case (free_sized i p n k m al tc)
    have k: "k = n" using free_outcome(2) [OF inv free_sized(3,4) os free_sized(5), of k] free_sized(6) by fastforce
    then have r: "deallocate_with_cache dbg sys (w_mem w) (w_al w) (w_caches w ! i) p = Some (m, al, tc, Inr ())"
      using free_outcome(1) [OF inv free_sized(3,4) os free_sized(5)] free_sized(6) by auto
    note E = free_effect [OF inv free_sized(3,4) os free_sized(5) frugal_worldD [OF fr free_sized(3)] r]
    show ?thesis using frugal_updated [OF fr E(2,5)] E(2,3) free_sized(2) by (simp add: sel al_keeps_def same_slabs_def)
  next
    case (reject i p m al tc e)
    then show ?thesis using refused_frugal [OF fr reject(3)] dealloc_refused(1) [OF reject(4)] by (auto simp: sel)
  next
    case (reject_sized i p k m al tc e)
    then show ?thesis using refused_frugal [OF fr reject_sized(3)] dealloc_refused(2) [OF reject_sized(4)] by (auto simp: sel)
  next
    case (drain i m al tc)
    note D = drain_frugal [OF inv drain(3,4) os fr drain(5)]
    show ?thesis using D drain(2) by (simp add: sel same_slabs_def al_keeps_def)
  next
    case (start tc next_id)
    have "cache_bounded tc" "tc_owner tc = None" using start(3) cache_bounded_new by (auto simp: ThreadCache_new_def)
    then show ?thesis using fr start(2) by (simp add: frugal_world_def cache_fits_def)
  qed
  then show "frugal_world w'" "central_geometry (w_central w') = central_geometry (w_central w) \<or> span_step w w'"
    "al_config (w_al w') = al_config (w_al w)" by auto
qed

section \<open>The blocks of a class\<close>

text \<open>What one thread may keep back from the others.\<close>

definition thread_slack :: "AllocatorConfig \<Rightarrow> SizeClass \<Rightarrow> nat" where
  "thread_slack cfg c = cache_limit cfg c + (drain_count cfg c - 1)"

lemma tc_blocks_size:
  assumes "tc_inv dbg G m tc" "cache_bounded tc"
  shows "size (tc_blocks m tc c) \<le> thread_slack (tc_config tc) c"
proof -
  note T = tc_invD [OF assms(1), of c]
  have "size (lc_blocks m (tclass tc c)) = lc_total_len (tclass tc c)" using lc_invD(3) [OF T(3)] by simp
  moreover have "length (rr_blocks m (tremote tc c)) = rr_pending_len (tremote tc c)" using T(4) by (simp add: rr_inv_def)
  moreover have "lc_total_len (tclass tc c) \<le> cache_limit (tc_config tc) c" "rr_pending_len (tremote tc c) < drain_count (tc_config tc) c"
    using assms(2) by (simp_all add: cache_bounded_def)
  ultimately show ?thesis by (simp add: tc_blocks_def thread_slack_def)
qed

lemma w_held_size:
  assumes inv: "world_inv dbg w" and fr: "frugal_world w"
  shows "size (w_held w c) \<le> length (w_caches w) * thread_slack (al_config (w_al w)) c"
proof -
  let ?s = "thread_slack (al_config (w_al w)) c"
  have one: "size (tc_blocks (w_mem w) tc c) \<le> ?s" if tc: "tc \<in> set (w_caches w)" for tc
  proof (cases "tc_owner tc = Some (al_id (w_al w))")
    case True
    then have "tc_config tc = al_config (w_al w)" "cache_bounded tc" using fr tc by (auto simp: frugal_world_def cache_fits_def)
    then show ?thesis using tc_blocks_size inv tc unfolding world_inv_def by metis
  next
    case False
    then have "tc_inv dbg (geos (w_central w)) (w_mem w) tc" "ThreadCache_is_empty tc"
      using inv tc by (auto simp: world_inv_def bindable_def)
    then show ?thesis by (simp add: empty_cache_blocks)
  qed
  have "size (sum_list (map (\<lambda>tc. tc_blocks (w_mem w) tc c) xs)) \<le> length xs * ?s" if "set xs \<subseteq> set (w_caches w)" for xs
    using that by (induction xs) (auto dest: one)
  then show ?thesis by (simp add: w_held_def)
qed

abbreviation class_count :: "world \<Rightarrow> SizeClass \<Rightarrow> nat" where
  "class_count w c \<equiv> length (central_all (w_central w) c)"

lemma class_count_sizes:
  assumes "world_inv dbg w"
  shows "class_count w c = size (central_blocks (w_mem w) (w_central w) c) + size (w_held w c) + size (outstanding w c)"
  using world_account [OF assms, of c] by (metis size_mset size_union)

lemma span_drawn_count:
  assumes "span_drawn al c al'"
  obtains k where "0 < k" "k \<le> refill_count (al_config al) c"
    "length (central_all (al_central al') c) = length (central_all (al_central al) c) + k"
    "\<forall>d. d \<noteq> c \<longrightarrow> central_all (al_central al') d = central_all (al_central al) d"
    "arena_next (al_arena al') < arena_next (al_arena al) + alignment (al_config al) + class_block_size (al_config al) c * k"
  using assms by (auto simp: span_drawn_def central_all_def blocks_of_def)

definition class_bound :: "AllocatorConfig \<Rightarrow> nat \<Rightarrow> nat \<Rightarrow> SizeClass \<Rightarrow> nat" where
  "class_bound cfg peak n_threads c = peak + n_threads * thread_slack cfg c + refill_count cfg c"

lemma step_class_count:
  assumes st: "step dbg sys w e w'" and inv: "world_inv dbg w" and os: "madvise_ok sys" and fr: "frugal_world w"
    and n: "length (w_caches w) \<le> T" "size (outstanding w c) \<le> P" "class_count w c \<le> class_bound (al_config (w_al w)) P T c"
  shows "class_count w' c \<le> class_bound (al_config (w_al w)) P T c"
proof (cases "central_geometry (w_central w') = central_geometry (w_central w)")
  case True
  then show ?thesis using n(3) by (simp add: central_all_def)
next
  case False
  then have "span_step w w'" using step_frugal(2) [OF st inv os fr] by blast
  then obtain i d where d: "i < length (w_caches w)" "central_blocks (w_mem w) (w_central w) d = {#}" "span_drawn (w_al w) d (w_al w')"
    by (auto simp: span_step_def)
  from d(3) obtain k where k: "0 < k" "k \<le> refill_count (al_config (w_al w)) d" "class_count w' d = class_count w d + k"
    "\<forall>x. x \<noteq> d \<longrightarrow> central_all (w_central w') x = central_all (w_central w) x" by (rule span_drawn_count)
  show ?thesis
  proof (cases "c = d")
    case False
    then show ?thesis using k(4) n(3) by simp
  next
    case True
    have "length (w_caches w) * thread_slack (al_config (w_al w)) d \<le> T * thread_slack (al_config (w_al w)) d"
      using n(1) by (rule mult_right_mono) simp
    then have "class_count w d \<le> T * thread_slack (al_config (w_al w)) d + P"
      using class_count_sizes [OF inv, of d] w_held_size [OF inv fr, of d] n(2) unfolding True d(2) size_empty by linarith
    then show ?thesis using k(2,3) True by (simp add: class_bound_def)
  qed
qed

section \<open>Runs below a peak demand\<close>

text \<open>A step of a run in which at most \<open>T\<close> threads exist and at most \<open>P\<close> allocations of class \<open>c\<close> are live.\<close>

definition demand_step :: "bool \<Rightarrow> os \<Rightarrow> nat \<Rightarrow> nat \<Rightarrow> SizeClass \<Rightarrow> world \<Rightarrow> event \<Rightarrow> world \<Rightarrow> bool" where
  "demand_step dbg sys T P c w e w' \<longleftrightarrow> step dbg sys w e w' \<and> length (w_caches w) \<le> T \<and> size (outstanding w c) \<le> P"

interpretation footprint: invariant_system "\<lambda>(dbg, sys, T, P, c). os_ok sys" "\<lambda>(dbg, sys, T, P, c). initial sys"
    "\<lambda>(dbg, sys, T, P, c). demand_step dbg sys T P c"
    "\<lambda>(dbg, sys, T, P, c) w. world_inv dbg w \<and> frugal_world w \<and> class_count w c \<le> class_bound (al_config (w_al w)) P T c"
proof (unfold_locales, goal_cases)
  case (1 e w)
  obtain dbg sys T P c where e: "e = (dbg, sys, T, P, c)" by (metis surj_pair)
  have w: "initial sys w" "mapping_ok sys" using 1 by (simp_all add: e os_ok_def)
  then have "central_all (w_central w) c = []" using initial_central [OF w(1)] by (simp add: central_all_def)
  then show ?case using initial_inv(1) [OF w] initial_frugal [OF w(1)] by (simp add: e)
next
  case (2 e w l w')
  obtain dbg sys T P c where e: "e = (dbg, sys, T, P, c)" by (metis surj_pair)
  have st: "step dbg sys w l w'" "length (w_caches w) \<le> T" "size (outstanding w c) \<le> P" and os: "os_ok sys" "madvise_ok sys"
    and inv: "world_inv dbg w" "frugal_world w" "class_count w c \<le> class_bound (al_config (w_al w)) P T c"
    using 2 by (simp_all add: e demand_step_def os_ok_def)
  have "world_inv dbg w'" using threads.step_inv [of "(dbg, sys)" w l w'] os(1) inv(1) st(1) by simp
  then show ?case using step_frugal(1,3) [OF st(1) inv(1) os(2) inv(2)] step_class_count [OF st(1) inv(1) os(2) inv(2) st(2,3) inv(3)]
    by (simp add: e)
qed

text \<open>Every run has a peak.\<close>

lemma trace_peak:
  assumes "trace (step dbg sys) v es w"
  shows "\<exists>T P. trace (demand_step dbg sys T P c) v es w"
proof -
  have mono: "trace (demand_step dbg sys T' P' c) v es w" if "trace (demand_step dbg sys T P c) v es w" "T \<le> T'" "P \<le> P'" for T P T' P' v es w
    using that by (induction rule: trace.induct) (auto simp: demand_step_def intro: trace.intros)
  show ?thesis using assms
  proof (induction rule: trace.induct)
    case (trace_Nil s)
    then show ?case by (auto intro: trace.intros)
  next
    case (trace_Cons s l s1 ls s2)
    then obtain T P where t: "trace (demand_step dbg sys T P c) s1 ls s2" by blast
    let ?T = "max T (length (w_caches s))" and ?P = "max P (size (outstanding s c))"
    have "demand_step dbg sys ?T ?P c s l s1" using trace_Cons.hyps(1) by (simp add: demand_step_def)
    then have "trace (demand_step dbg sys ?T ?P c) s (l # ls) s2" by (rule trace.trace_Cons) (rule mono [OF t]; simp)
    then show ?case by blast
  qed
qed

end
