(* ===== verification/Capacity.thy ===== *)
theory Capacity
  imports Footprint
begin

text \<open>
  When its clients can rely on the allocator. If the arena has room for the peak demand of
  the threads, counted in spans per size class and in blocks for one large size, then no
  allocation that stays within this demand is refused: the room is a resource that every
  operation preserves. \<open>T\<close> bounds the number of threads.
\<close>

section \<open>Demand\<close>

text \<open>The sizes of the live allocations, and how many of them belong to a class.\<close>

definition demand :: "(addr \<times> usize) set \<Rightarrow> usize multiset" where
  "demand S = image_mset snd (mset_set S)"

definition requests_in :: "usize multiset \<Rightarrow> SizeClass \<Rightarrow> nat" where
  "requests_in D c = size (filter_mset (\<lambda>n. from_request n = Some c) D)"

definition large_requests :: "usize multiset \<Rightarrow> nat" where
  "large_requests D = size (filter_mset (\<lambda>n. from_request n = None) D)"

lemma size_filter_demand:
  assumes "finite S"
  shows "size (filter_mset P (demand S)) = card {x \<in> S. P (snd x)}"
  unfolding demand_def filter_mset_image_mset
  using assms by (simp add: filter_mset_mset_set)

lemma requests_in_mono: "D \<subseteq># E \<Longrightarrow> requests_in D c \<le> requests_in E c"
  unfolding requests_in_def by (intro size_mset_mono multiset_filter_mono)

lemma large_requests_mono: "D \<subseteq># E \<Longrightarrow> large_requests D \<le> large_requests E"
  unfolding large_requests_def by (intro size_mset_mono multiset_filter_mono)

lemma requests_in_add [simp]:
  "requests_in (add_mset n D) c = requests_in D c + (if from_request n = Some c then 1 else 0)"
  "large_requests (add_mset n D) = large_requests D + (if from_request n = None then 1 else 0)"
  by (simp_all add: requests_in_def large_requests_def)

lemma finite_classes [simp]: "finite (UNIV :: SizeClass set)"
  by (metis set_ALL_classes finite_set)

lemma live_set_finite: "finite (live_set w)"
proof -
  have "finite (small_live (w_mem w) (outstanding w))" unfolding small_live_def by (rule finite_UN_I) simp_all
  then show ?thesis by (simp add: live_set_def large_live_def)
qed

lemma demand_small:
  assumes inv: "world_inv dbg w"
  shows "requests_in (demand (live_set w)) c = size (outstanding w c)"
proof -
  let ?f = "\<lambda>b. (b + HEADER_SIZE, unat (requested_size (w_mem w b)))"
  have cls: "from_request (unat (requested_size (w_mem w b))) = Some d" if "b \<in># outstanding w d" for b d
    using live_small_region(4) [OF inv that] by (simp add: header_live_def Let_def)
  have big: "from_request (rec_requested_size r) = None" if "(p, r) \<in> set (live (al_large (w_al w)))" for p r
    using inv that by (auto simp: world_inv_def large_ok_def live_large_ok_def from_request_None_iff)
  have "{x \<in> live_set w. from_request (snd x) = Some c} = ?f ` set_mset (outstanding w c)"
    using cls big by (fastforce simp: live_set_def small_live_def large_live_def)
  moreover have "inj_on ?f (set_mset (outstanding w c))" by (auto simp: inj_on_def)
  moreover have "size (outstanding w c) = card (set_mset (outstanding w c))"
  proof -
    have "count (outstanding w c) b = 1" if "b \<in># outstanding w c" for b
      using outstanding_unique(2) [OF inv that] that by (simp add: not_in_iff count_eq_zero_iff le_Suc_eq)
    then have "mset_set (set_mset (outstanding w c)) = outstanding w c"
      by (intro multiset_eqI) (auto simp: count_mset_set' count_eq_zero_iff)
    then show ?thesis by (metis size_mset_set)
  qed
  ultimately show ?thesis unfolding requests_in_def size_filter_demand [OF live_set_finite] by (simp add: card_image)
qed

lemma demand_large:
  assumes inv: "world_inv dbg w"
  shows "large_requests (demand (live_set w)) = length (live (al_large (w_al w)))"
proof -
  let ?l = "live (al_large (w_al w))" and ?g = "\<lambda>(p, r). (p, rec_requested_size r)"
  have cls: "from_request (unat (requested_size (w_mem w b))) = Some d" if "b \<in># outstanding w d" for b d
    using live_small_region(4) [OF inv that] by (simp add: header_live_def Let_def)
  have big: "from_request (rec_requested_size r) = None" if "(p, r) \<in> set ?l" for p r
    using inv that by (auto simp: world_inv_def large_ok_def live_large_ok_def from_request_None_iff)
  have keys: "distinct (map fst ?l)" using inv by (simp add: world_inv_def large_ok_def large_inv_def)
  have "{x \<in> live_set w. from_request (snd x) = None} = ?g ` set ?l"
    using cls big by (fastforce simp: live_set_def small_live_def large_live_def)
  moreover have "inj_on ?g (set ?l)" by (auto simp: inj_on_def dest: eq_key_imp_eq_value [OF keys])
  moreover have "card (set ?l) = length ?l" using keys by (intro distinct_card) (simp add: distinct_map)
  ultimately show ?thesis unfolding large_requests_def size_filter_demand [OF live_set_finite] by (simp add: card_image)
qed

section \<open>Room in the arena\<close>

definition span_cost :: "AllocatorConfig \<Rightarrow> SizeClass \<Rightarrow> nat" where
  "span_cost cfg c = alignment cfg + class_block_size cfg c * refill_count cfg c"

text \<open>The spans a class may still ask for, of which each brings at least one block.\<close>

definition class_room :: "AllocatorConfig \<Rightarrow> nat \<Rightarrow> usize multiset \<Rightarrow> nat \<Rightarrow> SizeClass \<Rightarrow> nat" where
  "class_room cfg T D blocks c =
     (if requests_in D c = 0 then 0 else (requests_in D c + T * thread_slack cfg c - blocks) * span_cost cfg c)"

definition small_room :: "AllocatorConfig \<Rightarrow> nat \<Rightarrow> usize multiset \<Rightarrow> (SizeClass \<Rightarrow> nat) \<Rightarrow> nat" where
  "small_room cfg T D blocks = sum_list (map (\<lambda>c. class_room cfg T D (blocks c) c) ALL_classes)"

definition large_room :: "AllocatorConfig \<Rightarrow> usize multiset \<Rightarrow> nat \<Rightarrow> usize \<Rightarrow> nat" where
  "large_room cfg D regions bs = (large_requests D - regions) * (alignment cfg + bs)"

definition one_large_size :: "AllocatorConfig \<Rightarrow> usize multiset \<Rightarrow> usize \<Rightarrow> bool" where
  "one_large_size cfg D bs \<longleftrightarrow> (\<forall>n. n \<in># D \<longrightarrow> from_request n = None \<longrightarrow>
     large_block_size cfg n = Some bs \<and> bs < 2 ^ 32 + HEADER_SIZE)"

definition capacity :: "nat \<Rightarrow> usize multiset \<Rightarrow> usize \<Rightarrow> world \<Rightarrow> bool" where
  "capacity T D bs w \<longleftrightarrow> length (w_caches w) \<le> T \<and> 0 \<notin># D \<and> one_large_size (al_config (w_al w)) D bs \<and>
     (\<forall>reg\<in>#large_regions (al_large (w_al w)). snd reg = bs) \<and>
     arena_next (al_arena (w_al w)) + small_room (al_config (w_al w)) T D (class_count w) +
       large_room (al_config (w_al w)) D (size (large_regions (al_large (w_al w)))) bs \<le> arena_len (al_arena (w_al w))"

lemma room_fits:
  assumes "arena_wf a" "arena_next a + arena_alignment a + bs \<le> arena_len a"
  shows "block_fits a bs"
proof -
  obtain s where s: "arena_align_up (arena_next a) (arena_alignment a) = Some s"
    using arena_align_up_total [OF assms(1) arena_wfD(5) [OF assms(1)]] by blast
  note S = arena_al.round_up_SomeD [OF s arena_wfD(1) [OF assms(1)]]
  then show ?thesis unfolding block_fits_def using assms(2) by (intro exI [of _ s]) auto
qed

text \<open>A class that has fewer blocks than it may need has at least one span of room, and a new span uses no more.\<close>

lemma small_room_split:
  "small_room cfg T D blocks = class_room cfg T D (blocks c) c + (\<Sum>d\<in>UNIV - {c}. class_room cfg T D (blocks d) d)"
proof -
  have "distinct ALL_classes" by (simp add: ALL_classes_def)
  then have "small_room cfg T D blocks = (\<Sum>d\<in>UNIV. class_room cfg T D (blocks d) d)"
    by (simp add: small_room_def sum_list_distinct_conv_sum_set)
  then show ?thesis by (simp add: sum.remove [of _ c])
qed

lemma small_room_update:
  assumes "\<forall>d. d \<noteq> c \<longrightarrow> blocks' d = blocks d" "0 < requests_in D c" "blocks c < requests_in D c + T * thread_slack cfg c"
    "blocks c < blocks' c"
  shows "small_room cfg T D blocks' + span_cost cfg c \<le> small_room cfg T D blocks"
proof -
  let ?x = "requests_in D c + T * thread_slack cfg c"
  have "?x - blocks' c + 1 \<le> ?x - blocks c" using assms(3,4) by linarith
  then have "(?x - blocks' c + 1) * span_cost cfg c \<le> (?x - blocks c) * span_cost cfg c" by (rule mult_right_mono) simp
  then have "class_room cfg T D (blocks' c) c + span_cost cfg c \<le> class_room cfg T D (blocks c) c"
    using assms(2) by (simp add: class_room_def)
  moreover have "(\<Sum>d\<in>UNIV - {c}. class_room cfg T D (blocks' d) d) = (\<Sum>d\<in>UNIV - {c}. class_room cfg T D (blocks d) d)"
    by (rule sum.cong) (use assms(1) in auto)
  ultimately show ?thesis by (simp add: small_room_split [of cfg T D _ c])
qed

lemma small_room_one:
  assumes "0 < requests_in D c" "blocks c < requests_in D c + T * thread_slack cfg c"
  shows "span_cost cfg c \<le> small_room cfg T D blocks"
  using small_room_update [of c "blocks(c := Suc (blocks c))" blocks D T cfg] assms by simp

text \<open>
  A class without free blocks in its pool has at most the live blocks and what the caches
  keep back, which is below the demand as long as one more request fits into it.
\<close>

lemma class_below_demand:
  assumes inv: "world_inv dbg w" and fr: "frugal_world w" and one: "length (w_caches w) \<le> T"
    and dem: "add_mset n (demand (live_set w)) \<subseteq># D" and c: "from_request n = Some c"
    and empty: "central_blocks (w_mem w) (w_central w) c = {#}"
  shows "0 < requests_in D c" "class_count w c < requests_in D c + T * thread_slack (al_config (w_al w)) c"
proof -
  have le: "size (outstanding w c) + 1 \<le> requests_in D c"
    using requests_in_mono [OF dem, of c] c demand_small [OF inv, of c] by simp
  then show "0 < requests_in D c" by linarith
  have "length (w_caches w) * thread_slack (al_config (w_al w)) c \<le> T * thread_slack (al_config (w_al w)) c"
    using one by (rule mult_right_mono) simp
  then have "size (w_held w c) \<le> T * thread_slack (al_config (w_al w)) c" using w_held_size [OF inv fr, of c] by linarith
  then show "class_count w c < requests_in D c + T * thread_slack (al_config (w_al w)) c"
    using class_count_sizes [OF inv, of c] le unfolding empty size_empty by linarith
qed

lemma large_below_demand:
  assumes inv: "world_inv dbg w" and cap: "capacity T D bs w" and dem: "add_mset n (demand (live_set w)) \<subseteq># D"
    and n: "from_request n = None" and full: "\<forall>f. f \<in># large_free (al_large (w_al w)) \<longrightarrow> free_block_size f < bs"
  shows "size (large_regions (al_large (w_al w))) < large_requests D"
proof -
  have "free_block_size f = bs" if "f \<in># large_free (al_large (w_al w))" for f
  proof -
    have "(free_block_addr f, free_block_size f) \<in># large_regions (al_large (w_al w))" using that by (auto simp: large_regions_def)
    then show ?thesis using cap unfolding capacity_def by fastforce
  qed
  then have "large_free (al_large (w_al w)) = {#}" using full by (metis less_irrefl multiset_nonemptyE)
  then have "size (large_regions (al_large (w_al w))) = length (live (al_large (w_al w)))" by (simp add: large_regions_def)
  then show ?thesis using large_requests_mono [OF dem] n demand_large [OF inv] by simp
qed

lemma class_block_le_span: "alignment cfg + class_block_size cfg c \<le> span_cost cfg c"
  using refill_count_pos [of cfg c] by (simp add: span_cost_def Suc_leI)

text \<open>An allocation within the demand is not refused.\<close>

lemma capacity_not_exhausted:
  assumes inv: "world_inv dbg w" and fr: "frugal_world w" and cap: "capacity T D bs w"
    and dem: "add_mset n (demand (live_set w)) \<subseteq># D"
  shows "\<not> exhausted (w_mem w) (w_al w) (w_caches w ! i) n"
proof
  assume ex: "exhausted (w_mem w) (w_al w) (w_caches w ! i) n"
  let ?cfg = "al_config (w_al w)" and ?a = "al_arena (w_al w)"
  have sh: "arena_wf ?a" "arena_alignment ?a = alignment ?cfg" using inv by (simp_all add: world_inv_def al_shape_def)
  note C = cap [unfolded capacity_def]
  show False
  proof (cases "from_request n")
    case (Some c)
    then have e: "central_blocks (w_mem w) (w_central w) c = {#}" "\<not> block_fits ?a (class_block_size ?cfg c)"
      using ex by (simp_all add: exhausted_def)
    have "length (w_caches w) \<le> T" using C by blast
    then have "span_cost ?cfg c \<le> small_room ?cfg T D (class_count w)"
      by (intro small_room_one class_below_demand [OF inv fr _ dem Some e(1)])
    then have "arena_next ?a + arena_alignment ?a + class_block_size ?cfg c \<le> arena_len ?a"
      using C class_block_le_span [of ?cfg c] sh(2) by linarith
    then show False using room_fits [OF sh(1)] e(2) by blast
  next
    case None
    have "n \<in># D" using dem by (simp add: insert_subset_eq_iff)
    then have b: "large_block_size ?cfg n = Some bs" "bs < 2 ^ 32 + HEADER_SIZE" using C None by (auto simp: one_large_size_def)
    then have e: "\<not> block_fits ?a bs" "\<forall>f. f \<in># large_free (al_large (w_al w)) \<longrightarrow> free_block_size f < bs"
      using ex None by (auto simp: exhausted_def large_full_def)
    have "alignment ?cfg + bs \<le> large_room ?cfg D (size (large_regions (al_large (w_al w)))) bs"
      using large_below_demand [OF inv cap dem None e(2)] by (simp add: large_room_def Suc_leI)
    then have "arena_next ?a + arena_alignment ?a + bs \<le> arena_len ?a" using C sh(2) by linarith
    then show False using room_fits [OF sh(1)] e(1) by blast
  qed
qed

section \<open>Every operation preserves the room\<close>

text \<open>Operations that change neither slabs nor large regions keep the capacity.\<close>

lemma capacity_same:
  assumes cap: "capacity T D bs w" and k: "al_keeps (w_al w) al" and s: "same_slabs (w_al w) al"
    and l: "large_regions (al_large al) = large_regions (al_large (w_al w))"
  shows "capacity T D bs (updated w i m al tc)"
proof -
  have eq: "al_config al = al_config (w_al w)" "al_arena al = al_arena (w_al w)" "central_geometry (al_central al) = central_geometry (w_central w)"
    using k s by (simp_all add: al_keeps_def same_slabs_def)
  have "class_count (updated w i m al tc) = class_count w" by (simp add: updated_def fun_eq_iff central_all_def eq(3))
  then show ?thesis using cap by (simp add: capacity_def updated_def eq l)
qed

lemma capacity_span:
  assumes cap: "capacity T D bs w" and k: "al_keeps (w_al w) al" and d: "span_drawn (w_al w) c al"
    and l: "al_large al = al_large (w_al w)"
    and below: "0 < requests_in D c" "class_count w c < requests_in D c + T * thread_slack (al_config (w_al w)) c"
  shows "capacity T D bs (updated w i m al tc)"
proof -
  let ?cfg = "al_config (w_al w)" and ?w = "updated w i m al tc"
  have cfg: "al_config al = ?cfg" "arena_len (al_arena al) = arena_len (al_arena (w_al w))" using k by (simp_all add: al_keeps_def)
  have al: "w_al ?w = al" "length (w_caches ?w) = length (w_caches w)" by (simp_all add: updated_def)
  have "span_drawn (w_al w) c (w_al ?w)" using d al(1) by simp
  then obtain j where j: "0 < j" "j \<le> refill_count ?cfg c" "class_count ?w c = class_count w c + j"
    "\<forall>x. x \<noteq> c \<longrightarrow> central_all (w_central ?w) x = central_all (w_central w) x"
    "arena_next (al_arena (w_al ?w)) < arena_next (al_arena (w_al w)) + alignment ?cfg + class_block_size ?cfg c * j"
    by (rule span_drawn_count)
  have "small_room ?cfg T D (class_count ?w) + span_cost ?cfg c \<le> small_room ?cfg T D (class_count w)"
    by (rule small_room_update) (use j below in simp_all)
  moreover have "class_block_size ?cfg c * j \<le> class_block_size ?cfg c * refill_count ?cfg c" using j(2) by simp
  ultimately have "arena_next (al_arena (w_al ?w)) + small_room ?cfg T D (class_count ?w) \<le> arena_next (al_arena (w_al w)) + small_room ?cfg T D (class_count w)"
    using j(5) unfolding span_cost_def by linarith
  then show ?thesis using cap unfolding capacity_def al cfg l by auto
qed

lemma capacity_large:
  assumes inv: "world_inv dbg w" and cap: "capacity T D bs w" and k: "al_keeps (w_al w) al" and d: "large_drawn (w_al w) n al"
    and c: "al_central al = w_central w" and dem: "add_mset n (demand (live_set w)) \<subseteq># D" and n: "from_request n = None"
  shows "capacity T D bs (updated w i m al tc)"
proof (cases "al_arena al = al_arena (w_al w) \<and> large_regions (al_large al) = large_regions (al_large (w_al w))")
  case True
  then show ?thesis by (intro capacity_same [OF cap k]) (simp_all add: same_slabs_def c)
next
  case False
  let ?cfg = "al_config (w_al w)" and ?w = "updated w i m al tc" and ?R = "large_regions (al_large (w_al w))"
  have "n \<in># D" using dem by (simp add: insert_subset_eq_iff)
  then have b: "large_block_size ?cfg n = Some bs" using cap n by (auto simp: capacity_def one_large_size_def)
  then obtain x where x: "\<forall>f. f \<in># large_free (al_large (w_al w)) \<longrightarrow> free_block_size f < bs"
    "large_regions (al_large al) = add_mset (x, bs) ?R"
    "arena_next (al_arena al) < arena_next (al_arena (w_al w)) + alignment ?cfg + bs"
    using d False unfolding large_drawn_def by auto
  have cfg: "al_config al = ?cfg" "arena_len (al_arena al) = arena_len (al_arena (w_al w))" using k by (simp_all add: al_keeps_def)
  have al: "w_al ?w = al" "length (w_caches ?w) = length (w_caches w)" by (simp_all add: updated_def)
  have cnt: "class_count ?w = class_count w" by (simp add: al(1) c)
  have "size ?R < large_requests D" by (rule large_below_demand [OF inv cap dem n x(1)])
  then have "large_requests D - size ?R = Suc (large_requests D - Suc (size ?R))" by linarith
  then have "large_room ?cfg D (size ?R) bs = large_room ?cfg D (Suc (size ?R)) bs + (alignment ?cfg + bs)"
    by (simp add: large_room_def)
  then show ?thesis using cap x(2,3) unfolding capacity_def al cfg c by auto
qed

lemma capacity_allocate:
  assumes inv: "world_inv dbg w" and fr: "frugal_world w" and cap: "capacity T D bs w" and ep: "epochs_ok w" and os: "madvise_ok sys"
    and one: "i < length (w_caches w)" and dem: "add_mset n (demand (live_set w)) \<subseteq># D"
    and run: "allocate_with_cache dbg sys (w_mem w) (w_al w) (w_caches w ! i) n = Some (m, al, tc, r)"
  shows "\<exists>p. r = Inr p" "capacity T D bs (updated w i m al tc)"
proof -
  have n: "n \<in># D" "0 < n"
    using cap dem by (auto simp: capacity_def insert_subset_eq_iff intro!: gr0I)
  show r: "\<exists>p. r = Inr p"
    using allocate_outcome [OF inv one ep os, of n] run capacity_not_exhausted [OF inv fr cap dem] n(2)
    by (auto split: sum.splits)
  then obtain p where p: "r = Inr p" ..
  note E = allocate_effect [OF inv one ep os run]
  show "capacity T D bs (updated w i m al tc)"
  proof (cases "from_request n")
    case None
    then show ?thesis using capacity_large [OF inv cap E(2) _ _ dem None] E(5) [OF p None] by blast
  next
    case (Some c)
    note d = E(4) [OF p Some]
    show ?thesis
    proof (cases "same_slabs (w_al w) al")
      case True
      then show ?thesis using capacity_same [OF cap E(2)] d by simp
    next
      case False
      then have dr: "central_blocks (w_mem w) (w_central w) c = {#}" "span_drawn (w_al w) c al" using d by (auto simp: drawn_def)
      have "length (w_caches w) \<le> T" using cap by (simp add: capacity_def)
      from class_below_demand [OF inv fr this dem Some dr(1)] show ?thesis using capacity_span [OF cap E(2) dr(2)] d by blast
    qed
  qed
qed

lemma capacity_free:
  assumes inv: "world_inv dbg w" and fr: "frugal_world w" and cap: "capacity T D bs w" and ep: "epochs_ok w" and os: "madvise_ok sys"
    and one: "i < length (w_caches w)" and p: "(p, n) \<in> live_set w"
    and run: "deallocate_with_cache dbg sys (w_mem w) (w_al w) (w_caches w ! i) p = Some (m, al, tc, Inr ())"
  shows "capacity T D bs (updated w i m al tc)"
proof -
  note E = free_effect [OF inv one ep os p frugal_worldD [OF fr one] run]
  show ?thesis by (rule capacity_same [OF cap E(2-4)])
qed

text \<open>A new allocator has capacity for every demand that the arena can hold.\<close>

lemma capacity_initial:
  assumes "Allocator_new sys cfg i = (Inr al, j)" "w_al w = al" "length (w_caches w) \<le> T" "mapping_ok sys"
    and "0 \<notin># D" "one_large_size cfg D bs"
    and room: "small_room cfg T D (\<lambda>_. 0) + large_room cfg D 0 bs \<le> arena_size cfg"
  shows "capacity T D bs w"
proof -
  obtain a where a: "Arena_new sys cfg = Inr a"
    and al: "al = \<lparr>al_id = i, al_config = cfg, al_arena = a, al_central = CentralPool_new, al_large = LargeObjectState_default\<rparr>"
    using assms(1) by (auto simp: Allocator_new_def split: sum.splits)
  have "central_all CentralPool_new c = []" for c
    by (simp add: central_all_def central_geometry_def CentralPool_new_def ClassPool_new_def)
  moreover have "large_regions LargeObjectState_default = {#}"
    by (simp add: LargeObjectState_default_def large_free_def btree_values_def large_regions_def)
  ultimately show ?thesis using assms(2,3,5,6) room Arena_new_wf [OF a assms(4)] by (simp add: capacity_def al)
qed

section \<open>A budget of calls\<close>

text \<open>
  \<open>good_world k\<close>: the state of a world in which at least \<open>k\<close> more calls cannot overflow an epoch
  counter. Each call returns, uses up one unit of the budget, and changes the live
  allocations as it should; within a demand that the arena has room for, it succeeds.
\<close>

definition good_world :: "bool \<Rightarrow> os \<Rightarrow> nat \<Rightarrow> world \<Rightarrow> bool" where
  "good_world dbg sys k w \<longleftrightarrow> os_ok sys \<and> world_inv dbg w \<and> frugal_world w \<and> (\<forall>d. cp_epoch (cpool (w_central w) d) + 4 * k < 2 ^ 63)"

lemma good_worldD:
  assumes "good_world dbg sys (Suc k) w"
  shows "world_inv dbg w" "frugal_world w" "epochs_ok w" "madvise_ok sys"
proof -
  have "cp_epoch (cpool (w_central w) d) < 2 ^ 63" for d
  proof -
    have "cp_epoch (cpool (w_central w) d) + 4 * Suc k < 2 ^ 63" using assms by (simp add: good_world_def)
    then show ?thesis by linarith
  qed
  then show "epochs_ok w" by (simp add: epochs_ok_def)
qed (use assms in \<open>simp_all add: good_world_def os_ok_def\<close>)

lemma good_world_next:
  assumes "good_world dbg sys (Suc k) w" "epochs_rise (w_central w) (w_central w')" "world_inv dbg w'" "frugal_world w'"
  shows "good_world dbg sys k w'"
proof -
  have "cp_epoch (cpool (w_central w') d) + 4 * k < 2 ^ 63" for d
  proof -
    have "cp_epoch (cpool (w_central w') d) \<le> cp_epoch (cpool (w_central w) d) + 4" using assms(2) by (simp add: epochs_rise_def)
    moreover have "cp_epoch (cpool (w_central w) d) + 4 * Suc k < 2 ^ 63" using assms(1) by (simp add: good_world_def)
    ultimately show ?thesis by simp
  qed
  then show ?thesis using assms(1,3,4) by (simp add: good_world_def)
qed

lemma good_world_less: "good_world dbg sys (Suc k) w \<Longrightarrow> good_world dbg sys k w"
  by (rule good_world_next) (auto simp: good_world_def epochs_rise_def)

lemma good_world_allocate:
  assumes g: "good_world dbg sys (Suc k) w" and i: "i < length (w_caches w)" and n: "0 < n"
  obtains m al tc x where "allocate_with_cache dbg sys (w_mem w) (w_al w) (w_caches w ! i) n = Some (m, al, tc, x)"
    "good_world dbg sys k (updated w i m al tc)"
    "case x of Inl e \<Rightarrow> live_set (updated w i m al tc) = live_set w
     | Inr p \<Rightarrow> (p, n) \<notin> live_set w \<and> live_set (updated w i m al tc) = insert (p, n) (live_set w)"
    "\<forall>T D bs. capacity T D bs w \<longrightarrow> add_mset n (demand (live_set w)) \<subseteq># D \<longrightarrow> (\<exists>p. x = Inr p) \<and> capacity T D bs (updated w i m al tc)"
proof -
  note G = good_worldD [OF g]
  obtain m al tc x where a: "allocate_with_cache dbg sys (w_mem w) (w_al w) (w_caches w ! i) n = Some (m, al, tc, x)"
    "world_inv dbg (updated w i m al tc)"
    "case x of
       Inl e \<Rightarrow> live_set (updated w i m al tc) = live_set w \<and>
         (n = 0 \<and> e = ZeroSize \<or> 0 < n \<and> e = out_of_memory al n \<and> exhausted (w_mem w) (w_al w) (w_caches w ! i) n)
     | Inr p \<Rightarrow> 0 < n \<and> 64 dvd p \<and> fresh_region (live_set w) p n \<and>
         live_set (updated w i m al tc) = insert (p, n) (live_set w)"
    using allocate_outcome [OF G(1) i G(3,4), of n] by blast
  note E = allocate_effect [OF G(1) i G(3,4) a(1)]
  have fr: "frugal al tc"
    by (rule allocate_frugal [OF world_at [OF G(1) i] G(4) epochs_ok_low [OF G(3)] frugal_worldD [OF G(2) i] a(1)])
  have fw: "frugal_world (updated w i m al tc)" by (rule frugal_updated [OF G(2) E(2) fr])
  have fresh: "(p, n) \<notin> live_set w" if "fresh_region (live_set w) p n" for p using that n by (auto simp: fresh_region_def)
  show thesis
  proof (rule that [OF a(1) good_world_next [OF g _ a(2) fw]])
    show "epochs_rise (w_central w) (w_central (updated w i m al tc))" using E(1) by (simp add: updated_def)
    show "case x of Inl e \<Rightarrow> live_set (updated w i m al tc) = live_set w
       | Inr p \<Rightarrow> (p, n) \<notin> live_set w \<and> live_set (updated w i m al tc) = insert (p, n) (live_set w)"
      using a(3) fresh by (cases x) auto
  qed (use capacity_allocate [OF G(1,2) _ G(3,4) i _ a(1)] in fastforce)
qed

lemma good_world_free:
  assumes g: "good_world dbg sys (Suc k) w" and i: "i < length (w_caches w)" and p: "(p, n) \<in> live_set w"
  obtains m al tc where "deallocate_with_size_checked dbg sys (w_mem w) (w_al w) (w_caches w ! i) p n = Some (m, al, tc, Inr ())"
    "good_world dbg sys k (updated w i m al tc)" "live_set (updated w i m al tc) = live_set w - {(p, n)}"
    "\<forall>T D bs. capacity T D bs w \<longrightarrow> capacity T D bs (updated w i m al tc)"
proof -
  note G = good_worldD [OF g]
  obtain m al tc where d: "deallocate_with_cache dbg sys (w_mem w) (w_al w) (w_caches w ! i) p = Some (m, al, tc, Inr ())"
    "deallocate_with_size_checked dbg sys (w_mem w) (w_al w) (w_caches w ! i) p n = Some (m, al, tc, Inr ())"
    "world_inv dbg (updated w i m al tc)" "live_set (updated w i m al tc) = live_set w - {(p, n)}"
    using free_outcome(1) [OF G(1) i G(3,4) p] by blast
  note E = free_effect [OF G(1) i G(3,4) p frugal_worldD [OF G(2) i] d(1)]
  have fw: "frugal_world (updated w i m al tc)" by (rule frugal_updated [OF G(2) E(2,5)])
  have "epochs_rise (w_central w) (w_central (updated w i m al tc))" using E(1) by (simp add: updated_def)
  then show thesis using that [OF d(2) good_world_next [OF g _ d(3) fw] d(4)] capacity_free [OF G(1,2) _ G(3,4) i p d(1)] by blast
qed

text \<open>A new allocator whose threads have not yet made a call.\<close>

lemma good_world_initial:
  assumes new: "Allocator_new sys cfg i = (Inr al, j)" and os: "os_ok sys"
    and caches: "\<forall>tc\<in>set tcs. \<exists>id id'. ThreadCache_new cfg id = (tc, id')" and k: "4 * k < 2 ^ 63"
  shows "good_world dbg sys k \<lparr>w_mem = m, w_al = al, w_caches = tcs, w_next_id = nid\<rparr>"
    "live_set \<lparr>w_mem = m, w_al = al, w_caches = tcs, w_next_id = nid\<rparr> = {}"
proof -
  let ?w = "\<lambda>tcs nid. \<lparr>w_mem = m, w_al = al, w_caches = tcs, w_next_id = nid\<rparr>"
  have al: "al_config al = cfg" "\<And>d. cp_epoch (cpool (al_central al) d) = 0"
    using new by (auto simp: Allocator_new_def CentralPool_new_def ClassPool_new_def split: sum.splits)
  have "world_inv dbg (?w tcs nid) \<and> frugal_world (?w tcs nid) \<and> live_set (?w tcs nid) = {}" for nid
    using caches
  proof (induction tcs arbitrary: nid rule: rev_induct)
    case Nil
    have "initial sys (?w [] nid)" using new by (auto simp: initial_def)
    then show ?case using os initial_inv [of sys "?w [] nid"] initial_frugal [of sys "?w [] nid"] by (auto simp: os_ok_def)
  next
    case (snoc tc tcs)
    obtain id id' where t: "ThreadCache_new cfg id = (tc, id')" using snoc.prems by auto
    have IH: "world_inv dbg (?w tcs id)" "frugal_world (?w tcs id)" "live_set (?w tcs id) = {}" using snoc by auto
    have t': "ThreadCache_new (al_config (w_al (?w tcs id))) (w_next_id (?w tcs id)) = (tc, id')" using t al(1) by simp
    note st = step.start [OF t', of dbg sys]
    have "madvise_ok sys" using os by (simp add: os_ok_def)
    from step_frugal(1) [OF st IH(1) this IH(2)] start_inv [OF IH(1) t'] IH(3)
    have "world_inv dbg (?w (tcs @ [tc]) id') \<and> frugal_world (?w (tcs @ [tc]) id') \<and> live_set (?w (tcs @ [tc]) id') = {}" by simp
    then show ?case by (simp add: world_inv_def frugal_world_def live_set_def outstanding_def [abs_def] w_held_def)
  qed
  then show "good_world dbg sys k (?w tcs nid)" "live_set (?w tcs nid) = {}"
    using os k al(2) by (simp_all add: good_world_def)
qed

end
