(* ===== verification/Bench_Config.thy ===== *)
theory Bench_Config
  imports Complex_Main Global_Alloc
begin

text \<open>
  The tables and the configuration of the benchmark harness: \<^verbatim>\<open>src/bench/src/lib.rs\<close> (allocator
  kinds, workload table, errors) and the environment variables of
  \<^verbatim>\<open>src/bench/src/bin/flamegraph.rs\<close>; also the messages of the errors of \<^verbatim>\<open>src/src/error.rs\<close>,
  which the harness prints.

  A Rust string is the list of its UTF-8 bytes. The environment of the process is a
  parameter: a function from names to the result of \<open>std::env::var\<close>.
\<close>

section \<open>Numbers as text\<close>

text \<open>\<open>Display\<close> of an unsigned integer, and \<open>str::parse::<usize>\<close> of the standard library.\<close>

definition digit :: "nat \<Rightarrow> char" where
  "digit d = char_of (48 + d)"

fun show_usize :: "usize \<Rightarrow> string" where
  "show_usize n = (if n < 10 then [digit n] else show_usize (n div 10) @ [digit (n mod 10)])"

declare show_usize.simps [simp del]

datatype ParseIntError = Empty_input | InvalidDigit | PosOverflow

definition ParseIntError_display :: "ParseIntError \<Rightarrow> string" where
  "ParseIntError_display e = (case e of
      Empty_input \<Rightarrow> ''cannot parse integer from empty string''
    | InvalidDigit \<Rightarrow> ''invalid digit found in string''
    | PosOverflow \<Rightarrow> ''number too large to fit in target type'')"

definition to_digit :: "char \<Rightarrow> nat option" where
  "to_digit c = (let k = of_char c :: nat in if 48 \<le> k \<and> k \<le> 57 then Some (k - 48) else None)"

fun parse_digits :: "usize \<Rightarrow> string \<Rightarrow> ParseIntError + usize" where
  "parse_digits acc [] = Inr acc"
| "parse_digits acc (c # cs) =
     (case to_digit c of
        None \<Rightarrow> Inl InvalidDigit
      | Some d \<Rightarrow>
        (case Option.bind (checked_mul acc 10) (\<lambda>r. checked_add r d) of
           None \<Rightarrow> Inl PosOverflow
         | Some r \<Rightarrow> parse_digits r cs))"

definition parse_usize :: "string \<Rightarrow> ParseIntError + usize" where
  "parse_usize s =
     (if s = [] then Inl Empty_input
      else if s = ''+'' \<or> s = ''-'' then Inl InvalidDigit
      else parse_digits 0 (if hd s = CHR ''+'' then tl s else s))"

lemma to_digit_digit [simp]: "d < 10 \<Longrightarrow> to_digit (digit d) = Some d"
  by (simp add: to_digit_def digit_def Let_def of_char_of)

lemma parse_digits_append:
  "parse_digits acc (xs @ ys) = (case parse_digits acc xs of Inl e \<Rightarrow> Inl e | Inr r \<Rightarrow> parse_digits r ys)"
  by (induction acc xs rule: parse_digits.induct) (auto split: option.splits)

lemma parse_show_digits: "n \<le> usize_max \<Longrightarrow> parse_digits 0 (show_usize n) = Inr n"
proof (induction n rule: show_usize.induct)
  case (1 n)
  show ?case
  proof (cases "n < 10")
    case True
    then show ?thesis by (simp add: show_usize.simps [of n] checked_mul_def checked_add_def usize_max_def)
  next
    case False
    have "n div 10 \<le> usize_max" using "1.prems" by linarith
    then have IH: "parse_digits 0 (show_usize (n div 10)) = Inr (n div 10)" by (rule "1.IH" [OF False])
    have n: "n div 10 * 10 + n mod 10 = n" by simp
    then have "n div 10 * 10 \<le> usize_max" using "1.prems" by linarith
    then have "parse_digits (n div 10) [digit (n mod 10)] = Inr n"
      using n "1.prems" by (simp add: checked_mul_def checked_add_def mult.commute)
    then show ?thesis using False IH by (simp add: show_usize.simps [of n] parse_digits_append)
  qed
qed

lemma show_usize_digits: "c \<in> set (show_usize n) \<Longrightarrow> to_digit c \<noteq> None"
proof (induction n rule: show_usize.induct)
  case (1 n)
  then show ?case by (cases "n < 10") (auto simp: show_usize.simps [of n])
qed

lemma show_usize_not_Nil [simp]: "show_usize n \<noteq> []"
  by (simp add: show_usize.simps [of n])

lemma parse_show_usize: "n \<le> usize_max \<Longrightarrow> parse_usize (show_usize n) = Inr n"
proof -
  assume n: "n \<le> usize_max"
  have not: "c \<noteq> CHR ''+''" "c \<noteq> CHR ''-''" if "c \<in> set (show_usize n)" for c
    using show_usize_digits [OF that] by (auto simp: to_digit_def)
  have hd: "hd (show_usize n) \<in> set (show_usize n)" by simp
  then have "show_usize n \<noteq> ''+''" "show_usize n \<noteq> ''-''" "hd (show_usize n) \<noteq> CHR ''+''"
    using not [OF hd] by auto
  then show ?thesis using parse_show_digits [OF n] by (simp add: parse_usize_def)
qed

section \<open>Messages of the allocator's errors\<close>

text \<open>The message of an operating-system error is a parameter.\<close>

definition InitError_display :: "(int \<Rightarrow> string) \<Rightarrow> InitError \<Rightarrow> string" where
  "InitError_display io e = (case e of
      MapFailed code \<Rightarrow> ''failed to create arena mapping: '' @ io code
    | InvalidConfig msg \<Rightarrow> ''invalid allocator configuration: '' @ msg)"

definition AllocError_display :: "AllocError \<Rightarrow> string" where
  "AllocError_display e = (case e of
      ZeroSize \<Rightarrow> ''allocation size must be greater than zero''
    | AllocGlobalInitFailed \<Rightarrow> ''global allocator initialization failed''
    | OutOfMemory req rem \<Rightarrow> ''allocator out of memory: requested '' @ show_usize req @
        '' bytes, remaining '' @ show_usize rem @ '' bytes'')"

definition FreeError_display :: "FreeError \<Rightarrow> string" where
  "FreeError_display e = (case e of
      FreeGlobalInitFailed \<Rightarrow> ''global allocator initialization failed''
    | ForeignPointer \<Rightarrow> ''pointer does not belong to this allocator''
    | SizeMismatch p r \<Rightarrow> ''provided size '' @ show_usize p @
        '' does not match recorded allocation size '' @ show_usize r
    | DoubleFree \<Rightarrow> ''small allocation was already freed''
    | AlreadyFreedOrUnknownLarge \<Rightarrow> ''large allocation was already freed or is unknown''
    | CorruptHeader \<Rightarrow> ''allocation header is corrupt'')"

section \<open>Allocators, workloads and errors\<close>

definition ALIGNMENT :: usize where "ALIGNMENT = 64"
definition EMBEDDING_BATCH_SIZE :: usize where "EMBEDDING_BATCH_SIZE = 8"
definition EMBEDDING_BYTES :: usize where "EMBEDDING_BYTES = 1536 * 4"
definition LARGE_REQUEST_BYTES :: usize where "LARGE_REQUEST_BYTES = 20 * 1024 * 1024"
definition SAME_THREAD_SIZES :: "usize list" where "SAME_THREAD_SIZES = [32, 64, 65, 4096, 70000]"
definition MIXED_SIZES :: "usize list" where "MIXED_SIZES = [32, 64, 65, 128, 512, 4096, 16384, 70000]"
definition LONG_LIVED_HANDOFF_ITERATIONS :: usize where "LONG_LIVED_HANDOFF_ITERATIONS = 80000"
definition LONG_LIVED_HANDOFF_4X_PAIRS :: usize where "LONG_LIVED_HANDOFF_4X_PAIRS = 4"
definition CONCURRENT_LARGE_4X_THREADS :: usize where "CONCURRENT_LARGE_4X_THREADS = 4"
definition CONCURRENT_LARGE_ITERATIONS :: usize where "CONCURRENT_LARGE_ITERATIONS = 1200"
definition WARMUP_SAMPLES :: usize where "WARMUP_SAMPLES = 3"
definition MEASURE_SAMPLES :: usize where "MEASURE_SAMPLES = 9"
definition DEFAULT_FLAMEGRAPH_REPETITIONS :: usize where "DEFAULT_FLAMEGRAPH_REPETITIONS = 400"
definition DEFAULT_FLAMEGRAPH_WORKLOAD :: string where "DEFAULT_FLAMEGRAPH_WORKLOAD = ''mixed_size_churn''"

datatype AllocatorKind = OrthotopeKind | SystemKind | MiMallocKind | JemallocKind

definition ALL_kinds :: "AllocatorKind list" where
  "ALL_kinds = [OrthotopeKind, SystemKind, MiMallocKind, JemallocKind]"

definition DEFAULT_FLAMEGRAPH_ALLOCATOR :: AllocatorKind where
  "DEFAULT_FLAMEGRAPH_ALLOCATOR = OrthotopeKind"

definition kind_name :: "AllocatorKind \<Rightarrow> string" where
  "kind_name k = (case k of
      OrthotopeKind \<Rightarrow> ''Orthotope'' | SystemKind \<Rightarrow> ''System'' | MiMallocKind \<Rightarrow> ''mimalloc'' | JemallocKind \<Rightarrow> ''jemalloc'')"

definition kind_parse :: "string \<Rightarrow> AllocatorKind option" where
  "kind_parse v =
     (if v = ''Orthotope'' \<or> v = ''orthotope'' then Some OrthotopeKind
      else if v = ''System'' \<or> v = ''system'' then Some SystemKind
      else if v = ''mimalloc'' \<or> v = ''MiMalloc'' then Some MiMallocKind
      else if v = ''jemalloc'' \<or> v = ''Jemalloc'' then Some JemallocKind
      else None)"

datatype TimeUnit = Nanoseconds | Microseconds

definition suffix :: "TimeUnit \<Rightarrow> string" where
  "suffix u = (case u of Nanoseconds \<Rightarrow> ''ns'' | Microseconds \<Rightarrow> ''us'')"

datatype WorkloadKind =
    SameThreadSmallChurn usize
  | EmbeddingBatch
  | MixedSizeChurn
  | LargePath
  | ConcurrentLarge4x
  | LongLivedHandoff
  | LongLivedHandoff4x

record Workload =
  workload_name :: string
  operations :: usize
  workload_unit :: TimeUnit
  workload_kind :: WorkloadKind

text \<open>The payload of \<open>Io\<close> is an operating-system error code.\<close>

datatype BenchError = AllocFailed string | ThreadFailed string | IoFailed int | ConfigFailed string

definition BenchError_display :: "(int \<Rightarrow> string) \<Rightarrow> BenchError \<Rightarrow> string" where
  "BenchError_display io e = (case e of
      AllocFailed msg \<Rightarrow> msg | ThreadFailed msg \<Rightarrow> msg | ConfigFailed msg \<Rightarrow> msg | IoFailed code \<Rightarrow> io code)"

section \<open>The workload table\<close>

definition same_thread_iterations :: "usize \<Rightarrow> usize" where
  "same_thread_iterations sz =
     (if sz \<le> 64 then 6000000 else if sz \<le> 4096 then 3000000 else 600000)"

definition workload_table :: "Workload list" where
  "workload_table =
     map (\<lambda>sz. \<lparr>workload_name = ''same_thread_small_churn/'' @ show_usize sz, operations = same_thread_iterations sz,
       workload_unit = Nanoseconds, workload_kind = SameThreadSmallChurn sz\<rparr>) SAME_THREAD_SIZES @
     [\<lparr>workload_name = ''embedding_batch'', operations = 200000, workload_unit = Nanoseconds, workload_kind = EmbeddingBatch\<rparr>,
      \<lparr>workload_name = ''mixed_size_churn'', operations = 120000, workload_unit = Nanoseconds, workload_kind = MixedSizeChurn\<rparr>,
      \<lparr>workload_name = ''large_path'', operations = 1200, workload_unit = Microseconds, workload_kind = LargePath\<rparr>,
      \<lparr>workload_name = ''concurrent_large_4x'', operations = CONCURRENT_LARGE_ITERATIONS, workload_unit = Microseconds,
       workload_kind = ConcurrentLarge4x\<rparr>,
      \<lparr>workload_name = ''long_lived_handoff'', operations = LONG_LIVED_HANDOFF_ITERATIONS, workload_unit = Microseconds,
       workload_kind = LongLivedHandoff\<rparr>,
      \<lparr>workload_name = ''long_lived_handoff_4x'', operations = LONG_LIVED_HANDOFF_ITERATIONS, workload_unit = Microseconds,
       workload_kind = LongLivedHandoff4x\<rparr>]"

definition workloads :: "Workload list" where
  "workloads = workload_table"

definition workload_names :: "string list" where
  "workload_names = map workload_name workload_table"

definition workload_by_name :: "string \<Rightarrow> Workload option" where
  "workload_by_name name = find (\<lambda>w. workload_name w = name) workload_table"

text \<open>\<open>per_operation\<close> with exact division in place of the rounding one of \<open>f64\<close>; durations are in nanoseconds.\<close>

definition per_operation :: "nat \<Rightarrow> usize \<Rightarrow> TimeUnit \<Rightarrow> rat" where
  "per_operation duration ops u =
     (let seconds = of_nat duration / 1000000000; divisor = of_nat ops
      in case u of Nanoseconds \<Rightarrow> seconds * 1000000000 / divisor | Microseconds \<Rightarrow> seconds * 1000000 / divisor)"

lemma kind_round_trip: "kind_parse (kind_name k) = Some k"
  by (cases k) (simp_all add: kind_parse_def kind_name_def)

lemma kind_name_inj: "kind_name k = kind_name l \<longleftrightarrow> k = l"
  using kind_round_trip by (metis option.inject)

lemma ALL_kinds_complete: "set ALL_kinds = UNIV" "distinct ALL_kinds"
proof -
  have "k \<in> set ALL_kinds" for k by (cases k) (simp_all add: ALL_kinds_def)
  then show "set ALL_kinds = UNIV" by blast
  show "distinct ALL_kinds" by (simp add: ALL_kinds_def)
qed

text \<open>Two workloads never share a name, so that looking one up by its name finds it.\<close>

lemma show_usize_inj: "n \<le> usize_max \<Longrightarrow> m \<le> usize_max \<Longrightarrow> show_usize n = show_usize m \<Longrightarrow> n = m"
  using parse_show_usize by (metis sum.inject(2))

lemma workload_names_distinct: "distinct workload_names"
proof -
  let ?churn = "map (\<lambda>sz. ''same_thread_small_churn/'' @ show_usize sz) SAME_THREAD_SIZES"
  have "distinct ?churn"
    by (subst distinct_map, intro conjI inj_onI show_usize_inj) (auto simp: SAME_THREAD_SIZES_def usize_max_def)
  moreover have "x \<notin> set ?churn" if "hd x \<noteq> CHR ''s''" for x using that by auto
  ultimately show ?thesis unfolding workload_names_def workload_table_def map_append
    by (simp add: comp_def image_iff)
qed

lemma find_distinct: "distinct (map f xs) \<Longrightarrow> x \<in> set xs \<Longrightarrow> find (\<lambda>y. f y = f x) xs = Some x"
  by (induction xs) (auto simp: image_iff)

lemma workload_round_trip: "w \<in> set workloads \<Longrightarrow> workload_by_name (workload_name w) = Some w"
  unfolding workload_by_name_def using workload_names_distinct
  by (intro find_distinct) (simp_all add: workload_names_def workloads_def)

lemma workload_by_name_None: "workload_by_name s = None \<longleftrightarrow> s \<notin> set workload_names"
  by (auto simp: workload_by_name_def workload_names_def find_None_iff)

section \<open>The environment\<close>

text \<open>
  The errors of \<open>std::env::var\<close>; the payload of \<open>NotUnicode\<close> is the raw value the way
  \<open>Debug\<close> prints it.
\<close>

datatype VarError = NotPresent | NotUnicode string

definition VarError_display :: "VarError \<Rightarrow> string" where
  "VarError_display e = (case e of
      NotPresent \<Rightarrow> ''environment variable not found''
    | NotUnicode raw \<Rightarrow> ''environment variable was not valid unicode: '' @ raw)"

type_synonym environment = "string \<Rightarrow> VarError + string"

definition WORKLOAD_ENV :: string where "WORKLOAD_ENV = ''ORTHOTOPE_FLAMEGRAPH_WORKLOAD''"
definition ALLOCATOR_ENV :: string where "ALLOCATOR_ENV = ''ORTHOTOPE_FLAMEGRAPH_ALLOCATOR''"
definition REPETITIONS_ENV :: string where "REPETITIONS_ENV = ''ORTHOTOPE_FLAMEGRAPH_REPETITIONS''"

text \<open>
  \<open>str::trim\<close> leaves nothing exactly when every character is white space: the UTF-8
  encodings of the code points with the Unicode property \<open>White_Space\<close>.
\<close>

fun blank_bytes :: "nat list \<Rightarrow> bool" where
  "blank_bytes [] = True"
| "blank_bytes (a # bs) =
     (if a = 32 \<or> 9 \<le> a \<and> a \<le> 13 then blank_bytes bs
      else case bs of
          [] \<Rightarrow> False
        | b # cs \<Rightarrow>
          if a = 0xC2 \<and> (b = 0x85 \<or> b = 0xA0) then blank_bytes cs
          else case cs of
              [] \<Rightarrow> False
            | c # ds \<Rightarrow>
              (a = 0xE1 \<and> b = 0x9A \<and> c = 0x80 \<or>
               a = 0xE2 \<and> b = 0x80 \<and> (0x80 \<le> c \<and> c \<le> 0x8A \<or> c = 0xA8 \<or> c = 0xA9 \<or> c = 0xAF) \<or>
               a = 0xE2 \<and> b = 0x81 \<and> c = 0x9F \<or>
               a = 0xE3 \<and> b = 0x80 \<and> c = 0x80) \<and> blank_bytes ds)"

definition trim_is_empty :: "string \<Rightarrow> bool" where
  "trim_is_empty s = blank_bytes (map of_char s)"

definition read_env_or_default :: "environment \<Rightarrow> string \<Rightarrow> string \<Rightarrow> BenchError + string" where
  "read_env_or_default env name dflt =
     (case env name of
        Inr value \<Rightarrow>
          if trim_is_empty value then Inl (ConfigFailed (name @ '' must not be empty when set'')) else Inr value
      | Inl NotPresent \<Rightarrow> Inr dflt
      | Inl error \<Rightarrow> Inl (ConfigFailed (''failed to read '' @ name @ '': '' @ VarError_display error)))"

definition read_usize_env_or_default :: "environment \<Rightarrow> string \<Rightarrow> usize \<Rightarrow> BenchError + usize" where
  "read_usize_env_or_default env name dflt =
     (case env name of
        Inr value \<Rightarrow>
          (case parse_usize value of
             Inl error \<Rightarrow> Inl (ConfigFailed (name @ '' must be a positive integer: '' @ ParseIntError_display error))
           | Inr parsed \<Rightarrow>
               if parsed = 0 then Inl (ConfigFailed (name @ '' must be a positive integer greater than zero''))
               else Inr parsed)
      | Inl NotPresent \<Rightarrow> Inr dflt
      | Inl error \<Rightarrow> Inl (ConfigFailed (''failed to read '' @ name @ '': '' @ VarError_display error)))"

section \<open>The settings of the flamegraph harness\<close>

text \<open>\<open>slice::join\<close>.\<close>

fun join :: "string \<Rightarrow> string list \<Rightarrow> string" where
  "join sep [] = []"
| "join sep [x] = x"
| "join sep (x # y # xs) = x @ sep @ join sep (y # xs)"

definition and_then :: "'e + 'a \<Rightarrow> ('a \<Rightarrow> 'e + 'b) \<Rightarrow> 'e + 'b" where
  "and_then r f = (case r of Inl e \<Rightarrow> Inl e | Inr x \<Rightarrow> f x)"

definition ok_or :: "'a option \<Rightarrow> 'e \<Rightarrow> 'e + 'a" where
  "ok_or x e = (case x of None \<Rightarrow> Inl e | Some y \<Rightarrow> Inr y)"

record settings =
  set_workload :: Workload
  set_allocator :: AllocatorKind
  set_repetitions :: usize
  set_samples :: usize

text \<open>The part of \<open>run\<close> before the workload is started.\<close>

definition flamegraph_settings :: "environment \<Rightarrow> BenchError + settings" where
  "flamegraph_settings env =
     and_then (read_env_or_default env WORKLOAD_ENV DEFAULT_FLAMEGRAPH_WORKLOAD) (\<lambda>name.
     and_then (read_env_or_default env ALLOCATOR_ENV (kind_name DEFAULT_FLAMEGRAPH_ALLOCATOR)) (\<lambda>allocator_name.
     and_then (read_usize_env_or_default env REPETITIONS_ENV DEFAULT_FLAMEGRAPH_REPETITIONS) (\<lambda>repetitions.
     and_then (ok_or (workload_by_name name) (ConfigFailed (''unknown '' @ WORKLOAD_ENV @ '' value `'' @ name @
            ''`; valid workloads: '' @ join '', '' workload_names))) (\<lambda>workload.
     and_then (ok_or (kind_parse allocator_name) (ConfigFailed (''unknown '' @ ALLOCATOR_ENV @ '' value `'' @ allocator_name @
            ''`; valid allocators: Orthotope, System, mimalloc, jemalloc''))) (\<lambda>allocator.
     and_then (ok_or (checked_mul (operations workload) repetitions) (ConfigFailed (REPETITIONS_ENV @
            '' is too large for workload `'' @ workload_name workload @ ''`''))) (\<lambda>samples.
     Inr \<lparr>set_workload = workload, set_allocator = allocator, set_repetitions = repetitions, set_samples = samples\<rparr>))))))"

definition help_lines :: "string list" where
  "help_lines =
     [''Run one allocator workload repeatedly for cargo flamegraph.'', [], ''Environment variables:'',
      ''  '' @ WORKLOAD_ENV @ '' (default: '' @ DEFAULT_FLAMEGRAPH_WORKLOAD @ '')'',
      ''  '' @ ALLOCATOR_ENV @ '' (default: '' @ kind_name DEFAULT_FLAMEGRAPH_ALLOCATOR @ '')'',
      ''  '' @ REPETITIONS_ENV @ '' (default: '' @ show_usize DEFAULT_FLAMEGRAPH_REPETITIONS @ '')'', [],
      ''Valid workloads: '' @ join '', '' workload_names,
      ''Valid allocators: Orthotope, System, mimalloc, jemalloc'']"

lemma and_then_eq_Inr: "and_then r f = Inr y \<longleftrightarrow> (\<exists>x. r = Inr x \<and> f x = Inr y)"
  by (cases r) (simp_all add: and_then_def)

lemma and_then_simps [simp]: "and_then (Inl e) f = Inl e" "and_then (Inr x) f = f x"
  by (simp_all add: and_then_def)

lemma ok_or_eq_Inr [simp]: "ok_or x e = Inr y \<longleftrightarrow> x = Some y"
  by (cases x) (simp_all add: ok_or_def)

lemma read_usize_positive: "read_usize_env_or_default env name d = Inr n \<Longrightarrow> 0 < d \<Longrightarrow> 0 < n"
  by (auto simp: read_usize_env_or_default_def split: sum.splits VarError.splits if_splits)

lemma workload_by_nameD:
  assumes "workload_by_name s = Some w"
  shows "w \<in> set workloads" "workload_name w = s"
  using assms by (auto simp: workload_by_name_def workloads_def find_Some_iff)

lemma operations_bounds: "w \<in> set workloads \<Longrightarrow> 0 < operations w \<and> operations w \<le> 6000000"
  by (auto simp: workloads_def workload_table_def SAME_THREAD_SIZES_def same_thread_iterations_def
      CONCURRENT_LARGE_ITERATIONS_def LONG_LIVED_HANDOFF_ITERATIONS_def)

text \<open>With no variable set, the defaults of the documentation apply.\<close>

lemma flamegraph_defaults:
  assumes "\<And>name. env name = Inl NotPresent"
  shows "\<exists>w. workload_by_name ''mixed_size_churn'' = Some w \<and> flamegraph_settings env =
    Inr \<lparr>set_workload = w, set_allocator = OrthotopeKind, set_repetitions = 400, set_samples = 48000000\<rparr>"
proof -
  let ?w = "\<lparr>workload_name = ''mixed_size_churn'', operations = 120000, workload_unit = Nanoseconds, workload_kind = MixedSizeChurn\<rparr>"
  have w: "workload_by_name ''mixed_size_churn'' = Some ?w"
    using workload_round_trip [of ?w] by (simp add: workloads_def workload_table_def)
  show ?thesis
    using assms w by (intro exI [of _ ?w]) (simp add: flamegraph_settings_def read_env_or_default_def read_usize_env_or_default_def
        DEFAULT_FLAMEGRAPH_WORKLOAD_def DEFAULT_FLAMEGRAPH_ALLOCATOR_def DEFAULT_FLAMEGRAPH_REPETITIONS_def kind_round_trip
        checked_mul_def usize_max_def ok_or_def)
qed

end
