(* ===== verification/Bench_Api.thy ===== *)
theory Bench_Api
  imports Capacity Bench_Config
begin

text \<open>
  The single-threaded workloads of the benchmark harness (\<^verbatim>\<open>src/bench/src/lib.rs\<close>) as clients of
  the allocators.

  The trait \<open>AllocationApi\<close> is the locale \<open>allocation_api\<close>; the workloads are verified in it
  once, and the dynamic dispatch to the two backends, \<open>OrthotopeBackend\<close> and \<open>RawBackend\<close>, is its
  interpretation. The allocators behind \<open>RawBackend\<close> (system, mimalloc, jemalloc) are not code
  of the repository: their functions are the parameter \<open>hx_raw\<close>. So are the operating system,
  the readings of the clock, the decisions of the scheduler, and the messages of
  operating-system errors. An action that
  may fail maps a state to a result and a new state; \<open>None\<close> is a panic.
\<close>

section \<open>Fallible actions\<close>

type_synonym ('b, 'a) io = "'b \<Rightarrow> ((BenchError + 'a) \<times> 'b) run"

definition ret :: "'a \<Rightarrow> ('b, 'a) io" where
  "ret x b = Some (Inr x, b)"

text \<open>Sequencing with the operator \<open>?\<close>: an error ends the function.\<close>

definition seq :: "('b, 'a) io \<Rightarrow> ('a \<Rightarrow> ('b, 'c) io) \<Rightarrow> ('b, 'c) io" where
  "seq f g b = (case f b of
      None \<Rightarrow> None
    | Some (Inl e, b') \<Rightarrow> Some (Inl e, b')
    | Some (Inr x, b') \<Rightarrow> g x b')"

lemma ret_simps [simp]: "ret x b = Some (Inr x, b)"
  by (simp add: ret_def)

lemma seq_simps [simp]:
  "f b = None \<Longrightarrow> seq f g b = None"
  "f b = Some (Inl e, b') \<Longrightarrow> seq f g b = Some (Inl e, b')"
  "f b = Some (Inr x, b') \<Longrightarrow> seq f g b = g x b'"
  by (simp_all add: seq_def)

section \<open>The loops of the workloads\<close>

text \<open>\<open>for _ in 0..n\<close>, leaving at the first error.\<close>

primrec repeat_io :: "('b, unit) io \<Rightarrow> nat \<Rightarrow> ('b, unit) io" where
  "repeat_io body 0 = ret ()"
| "repeat_io body (Suc n) = seq body (\<lambda>_. repeat_io body n)"

definition churn_step ::
    "(usize \<Rightarrow> ('b, addr) io) \<Rightarrow> (addr \<Rightarrow> usize \<Rightarrow> ('b, unit) io) \<Rightarrow> usize \<Rightarrow> ('b, unit) io" where
  "churn_step allocate deallocate sz = seq (allocate sz) (\<lambda>ptr. deallocate ptr sz)"

text \<open>
  A batch is filled in order and emptied from its end; every pointer is kept together with the
  size it was requested with (the vectors of the embedding workload have one constant size).
\<close>

fun fill_batch :: "(usize \<Rightarrow> ('b, addr) io) \<Rightarrow> usize list \<Rightarrow> (usize \<times> addr) list \<Rightarrow> ('b, (usize \<times> addr) list) io" where
  "fill_batch allocate [] batch = ret batch"
| "fill_batch allocate (sz # szs) batch = seq (allocate sz) (\<lambda>ptr. fill_batch allocate szs (batch @ [(sz, ptr)]))"

fun free_in_order :: "(addr \<Rightarrow> usize \<Rightarrow> ('b, unit) io) \<Rightarrow> (usize \<times> addr) list \<Rightarrow> ('b, unit) io" where
  "free_in_order deallocate [] = ret ()"
| "free_in_order deallocate ((sz, ptr) # batch) = seq (deallocate ptr sz) (\<lambda>_. free_in_order deallocate batch)"

definition batch_step ::
    "(usize \<Rightarrow> ('b, addr) io) \<Rightarrow> (addr \<Rightarrow> usize \<Rightarrow> ('b, unit) io) \<Rightarrow> usize list \<Rightarrow> ('b, unit) io" where
  "batch_step allocate deallocate szs =
     seq (fill_batch allocate szs []) (\<lambda>batch. free_in_order deallocate (rev batch))"

section \<open>Tasks\<close>

text \<open>
  \<open>good k b\<close>: the state \<open>b\<close> allows at least \<open>k\<close> more calls. \<open>allocs b\<close>: the allocations not yet freed.
  A task that makes at most \<open>K\<close> calls returns and, unless it reports an error, leaves the live
  allocations as they were; it is reliable if, with room for its demand \<open>D\<close>, it reports no error.
\<close>

definition total_task :: "(nat \<Rightarrow> 'b \<Rightarrow> bool) \<Rightarrow> ('b \<Rightarrow> (addr \<times> usize) set) \<Rightarrow> nat \<Rightarrow> ('b, 'a) io \<Rightarrow> bool" where
  "total_task good allocs K f \<longleftrightarrow> (\<forall>k b. good (K + k) b \<longrightarrow>
     (\<exists>r b'. f b = Some (r, b') \<and> good k b' \<and> ((\<exists>x. r = Inr x) \<longrightarrow> allocs b' = allocs b)))"

definition reliable_task ::
    "(nat \<Rightarrow> 'b \<Rightarrow> bool) \<Rightarrow> ('b \<Rightarrow> (addr \<times> usize) set) \<Rightarrow> (usize multiset \<Rightarrow> 'b \<Rightarrow> bool) \<Rightarrow> nat \<Rightarrow> usize multiset \<Rightarrow> ('b, 'a) io \<Rightarrow> bool" where
  "reliable_task good allocs roomy K D f \<longleftrightarrow> (\<forall>k b. good (K + k) b \<longrightarrow> roomy D b \<longrightarrow> allocs b = {} \<longrightarrow>
     (\<exists>x b'. f b = Some (Inr x, b') \<and> good k b' \<and> roomy D b' \<and> allocs b' = {}))"

lemma total_taskD:
  assumes "total_task good allocs K f" "good (K + k) b"
  obtains r b' where "f b = Some (r, b')" "good k b'" "(\<exists>x. r = Inr x) \<longrightarrow> allocs b' = allocs b"
  using assms unfolding total_task_def by blast

lemma reliable_taskD:
  assumes "reliable_task good allocs roomy K D f" "good (K + k) b" "roomy D b" "allocs b = {}"
  obtains x b' where "f b = Some (Inr x, b')" "good k b'" "roomy D b'" "allocs b' = {}"
  using assms unfolding reliable_task_def by blast

section \<open>The interface of an allocator\<close>

locale allocation_api =
  fixes allocate :: "usize \<Rightarrow> ('b, addr) io" and deallocate :: "addr \<Rightarrow> usize \<Rightarrow> ('b, unit) io"
    and good :: "nat \<Rightarrow> 'b \<Rightarrow> bool" and allocs :: "'b \<Rightarrow> (addr \<times> usize) set"
  assumes finite_allocs: "good k b \<Longrightarrow> finite (allocs b)"
    and good_less: "good (Suc k) b \<Longrightarrow> good k b"
    and allocate_law: "good (Suc k) b \<Longrightarrow> 0 < n \<Longrightarrow> \<exists>r b'. allocate n b = Some (r, b') \<and> good k b' \<and>
      (case r of Inl e \<Rightarrow> allocs b' = allocs b | Inr p \<Rightarrow> (p, n) \<notin> allocs b \<and> allocs b' = insert (p, n) (allocs b))"
    and deallocate_law: "good (Suc k) b \<Longrightarrow> (p, n) \<in> allocs b \<Longrightarrow>
      \<exists>b'. deallocate p n b = Some (Inr (), b') \<and> good k b' \<and> allocs b' = allocs b - {(p, n)}"
begin

lemma allocate_cases:
  assumes "good (Suc k) b" "0 < n"
  obtains (failed) e b' where "allocate n b = Some (Inl e, b')" "good k b'" "allocs b' = allocs b"
  | (got) p b' where "allocate n b = Some (Inr p, b')" "good k b'" "(p, n) \<notin> allocs b" "allocs b' = insert (p, n) (allocs b)"
proof -
  obtain r b' where r: "allocate n b = Some (r, b')" "good k b'"
    "case r of Inl e \<Rightarrow> allocs b' = allocs b | Inr p \<Rightarrow> (p, n) \<notin> allocs b \<and> allocs b' = insert (p, n) (allocs b)"
    using allocate_law [OF assms] by blast
  then show thesis using failed got by (cases r) auto
qed

lemma good_le: "good (j + k) b \<Longrightarrow> good k b"
  by (induction j) (auto dest: good_less)

text \<open>One allocation and its release: no panic, and nothing stays allocated.\<close>

lemma churn_step_total:
  assumes "good (Suc (Suc k)) b" "0 < n"
  shows "\<exists>r b'. churn_step allocate deallocate n b = Some (r, b') \<and> good k b' \<and> allocs b' = allocs b"
  using assms
proof (cases rule: allocate_cases)
  case (failed e b')
  then show ?thesis by (simp add: churn_step_def good_less)
next
  case (got p b')
  then obtain b2 where "deallocate p n b' = Some (Inr (), b2)" "good k b2" "allocs b2 = allocs b' - {(p, n)}"
    using deallocate_law [of k b' p n] by auto
  then show ?thesis using got by (auto simp: churn_step_def)
qed

lemma churn_task: "0 < n \<Longrightarrow> total_task good allocs 2 (churn_step allocate deallocate n)"
  unfolding total_task_def
proof (intro allI impI)
  fix k b
  assume "0 < n" "good (2 + k) b"
  then have "good (Suc (Suc k)) b" "0 < n" by simp_all
  from churn_step_total [OF this]
  show "\<exists>r b'. churn_step allocate deallocate n b = Some (r, b') \<and> good k b' \<and> ((\<exists>x. r = Inr x) \<longrightarrow> allocs b' = allocs b)" by blast
qed

lemma repeat_task:
  assumes "total_task good allocs c body"
  shows "total_task good allocs (n * c) (repeat_io body n)"
proof (induction n)
  case 0
  then show ?case by (auto simp: total_task_def)
next
  case (Suc n)
  show ?case unfolding total_task_def
  proof (intro allI impI)
    fix k b
    assume "good (Suc n * c + k) b"
    then have g: "good (c + (n * c + k)) b" by (simp add: ac_simps)
    obtain r b1 where r: "body b = Some (r, b1)" "good (n * c + k) b1" "(\<exists>x. r = Inr x) \<longrightarrow> allocs b1 = allocs b"
      by (rule total_taskD [OF assms g])
    show "\<exists>r b'. repeat_io body (Suc n) b = Some (r, b') \<and> good k b' \<and> ((\<exists>x. r = Inr x) \<longrightarrow> allocs b' = allocs b)"
    proof (cases r)
      case (Inl e)
      then show ?thesis using r good_le [OF r(2)] by simp
    next
      case (Inr x)
      obtain r' b2 where "repeat_io body n b1 = Some (r', b2)" "good k b2" "(\<exists>x. r' = Inr x) \<longrightarrow> allocs b2 = allocs b1"
        by (rule total_taskD [OF Suc.IH r(2)])
      then show ?thesis using r Inr by simp
    qed
  qed
qed

text \<open>
  Filling a batch adds one fresh allocation per size, and freeing a batch removes exactly its
  allocations, in whatever order.
\<close>

abbreviation pairs :: "(usize \<times> addr) list \<Rightarrow> (addr \<times> usize) list" where
  "pairs batch \<equiv> map (\<lambda>(sz, ptr). (ptr, sz)) batch"

lemma fill_batch_total:
  assumes "good (length szs + k) b" "0 \<notin> set szs" "set (pairs batch) \<subseteq> allocs b" "distinct (pairs batch)"
  shows "\<exists>r b'. fill_batch allocate szs batch b = Some (r, b') \<and> good k b' \<and> allocs b \<subseteq> allocs b' \<and>
    (\<forall>full. r = Inr full \<longrightarrow> distinct (pairs full) \<and> length full = length batch + length szs \<and>
       set (pairs full) - set (pairs batch) = allocs b' - allocs b \<and> set (pairs full) \<subseteq> allocs b' \<and>
       set (pairs batch) \<subseteq> set (pairs full))"
  using assms
proof (induction szs arbitrary: batch b)
  case Nil
  then show ?case by simp
next
  case (Cons sz szs)
  have g: "good (Suc (length szs + k)) b" "0 < sz" using Cons.prems(1,2) by simp_all
  show ?case using g
  proof (cases rule: allocate_cases)
    case (failed e b')
    then show ?thesis using good_le [OF failed(2)] by simp
  next
    case (got p b1)
    have "set (pairs (batch @ [(sz, p)])) \<subseteq> allocs b1" "distinct (pairs (batch @ [(sz, p)]))"
      using Cons.prems(3,4) got(3,4) by auto
    from Cons.IH [OF got(2) _ this] Cons.prems(2) obtain r b' where
      r: "fill_batch allocate szs (batch @ [(sz, p)]) b1 = Some (r, b')" "good k b'" "allocs b1 \<subseteq> allocs b'"
      "\<forall>full. r = Inr full \<longrightarrow> distinct (pairs full) \<and> length full = length (batch @ [(sz, p)]) + length szs \<and>
       set (pairs full) - set (pairs (batch @ [(sz, p)])) = allocs b' - allocs b1 \<and> set (pairs full) \<subseteq> allocs b' \<and>
       set (pairs (batch @ [(sz, p)])) \<subseteq> set (pairs full)" by auto
    have run: "fill_batch allocate (sz # szs) batch b = Some (r, b')" using got(1) r(1) by simp
    have new: "(p, sz) \<notin> set (pairs batch)" using Cons.prems(3) got(3) by blast
    have "set (pairs full) - set (pairs batch) = allocs b' - allocs b" if "r = Inr full" for full
    proof -
      have "set (pairs full) - insert (p, sz) (set (pairs batch)) = allocs b' - insert (p, sz) (allocs b)"
        "(p, sz) \<in> set (pairs full)" "(p, sz) \<in> allocs b'" using r(3,4) that got(4) by auto
      then show ?thesis using new got(3) by blast
    qed
    then show ?thesis using run r(2-4) got(4) by auto
  qed
qed

lemma free_in_order_total:
  assumes "good (length batch + k) b" "set (pairs batch) \<subseteq> allocs b" "distinct (pairs batch)"
  shows "\<exists>b'. free_in_order deallocate batch b = Some (Inr (), b') \<and> good k b' \<and> allocs b' = allocs b - set (pairs batch)"
  using assms
proof (induction batch arbitrary: b)
  case Nil
  then show ?case by simp
next
  case (Cons x batch)
  obtain sz p where x: "x = (sz, p)" by (cases x)
  have "good (Suc (length batch + k)) b" "(p, sz) \<in> allocs b" using Cons.prems(1,2) x by simp_all
  from deallocate_law [OF this] obtain b1 where
    d: "deallocate p sz b = Some (Inr (), b1)" "good (length batch + k) b1" "allocs b1 = allocs b - {(p, sz)}" by blast
  have "set (pairs batch) \<subseteq> allocs b1" "distinct (pairs batch)" using Cons.prems(2,3) x d(3) by auto
  from Cons.IH [OF d(2) this] show ?case using d(1,3) x by auto
qed

lemma batch_step_total:
  assumes "good (2 * length szs + k) b" "0 \<notin> set szs"
  shows "\<exists>r b'. batch_step allocate deallocate szs b = Some (r, b') \<and> good k b' \<and>
    (case r of Inl e \<Rightarrow> allocs b \<subseteq> allocs b' | Inr _ \<Rightarrow> allocs b' = allocs b)"
proof -
  have "good (length szs + (length szs + k)) b" using assms(1) by (simp add: mult_2 add.assoc)
  from fill_batch_total [OF this assms(2), of "[]"] obtain r b1 where
    f: "fill_batch allocate szs [] b = Some (r, b1)" "good (length szs + k) b1" "allocs b \<subseteq> allocs b1"
      "\<forall>full. r = Inr full \<longrightarrow> distinct (pairs full) \<and> length full = length szs \<and> set (pairs full) = allocs b1 - allocs b" by auto
  show ?thesis
  proof (cases r)
    case (Inl e)
    then show ?thesis using f good_le [OF f(2)] by (simp add: batch_step_def)
  next
    case (Inr full)
    have "good (length (rev full) + k) b1" "set (pairs (rev full)) \<subseteq> allocs b1" "distinct (pairs (rev full))"
      using f(2,4) Inr by (simp_all add: rev_map [symmetric])
    from free_in_order_total [OF this] obtain b2 where
      "free_in_order deallocate (rev full) b1 = Some (Inr (), b2)" "good k b2" "allocs b2 = allocs b1 - set (pairs (rev full))" by blast
    then show ?thesis using f Inr by (auto simp: batch_step_def)
  qed
qed

lemma batch_task: "0 \<notin> set szs \<Longrightarrow> total_task good allocs (2 * length szs) (batch_step allocate deallocate szs)"
  unfolding total_task_def
proof (intro allI impI)
  fix k b
  assume "0 \<notin> set szs" "good (2 * length szs + k) b"
  then show "\<exists>r b'. batch_step allocate deallocate szs b = Some (r, b') \<and> good k b' \<and> ((\<exists>x. r = Inr x) \<longrightarrow> allocs b' = allocs b)"
    using batch_step_total [of szs k b] by fastforce
qed

end

lemma demand_insert: "finite S \<Longrightarrow> (p, n) \<notin> S \<Longrightarrow> demand (insert (p, n) S) = add_mset n (demand S)"
  by (simp add: demand_def)

text \<open>
  An allocator with the guarantee not to refuse requests while the live allocations stay
  within a demand \<open>D\<close> it has room for.
\<close>

locale reliable_api = allocation_api allocate deallocate good allocs
  for allocate :: "usize \<Rightarrow> ('b, addr) io" and deallocate :: "addr \<Rightarrow> usize \<Rightarrow> ('b, unit) io"
    and good :: "nat \<Rightarrow> 'b \<Rightarrow> bool" and allocs :: "'b \<Rightarrow> (addr \<times> usize) set" +
  fixes roomy :: "usize multiset \<Rightarrow> 'b \<Rightarrow> bool"
  assumes roomy_allocate: "good (Suc k) b \<Longrightarrow> roomy D b \<Longrightarrow> add_mset n (demand (allocs b)) \<subseteq># D \<Longrightarrow>
      allocate n b = Some (r, b') \<Longrightarrow> (\<exists>p. r = Inr p) \<and> roomy D b'"
    and roomy_deallocate: "good (Suc k) b \<Longrightarrow> roomy D b \<Longrightarrow> (p, n) \<in> allocs b \<Longrightarrow>
      deallocate p n b = Some (u, b') \<Longrightarrow> roomy D b'"
begin

lemma allocate_reliable:
  assumes "good (Suc k) b" "0 < n" "roomy D b" "add_mset n (demand (allocs b)) \<subseteq># D"
  obtains p b' where "allocate n b = Some (Inr p, b')" "good k b'" "(p, n) \<notin> allocs b" "allocs b' = insert (p, n) (allocs b)"
    "roomy D b'" "demand (allocs b') = add_mset n (demand (allocs b))"
  using assms(1,2)
proof (cases rule: allocate_cases)
  case (failed e b')
  then show ?thesis using roomy_allocate [OF assms(1,3,4)] by blast
next
  case (got p b')
  then show ?thesis using roomy_allocate [OF assms(1,3,4)] that demand_insert [OF finite_allocs [OF assms(1)]] by metis
qed

lemma churn_step_reliable:
  assumes "good (2 + k) b" "0 < n" "roomy D b" "add_mset n (demand (allocs b)) \<subseteq># D"
  shows "\<exists>b'. churn_step allocate deallocate n b = Some (Inr (), b') \<and> good k b' \<and> allocs b' = allocs b \<and> roomy D b'"
proof -
  have g: "good (Suc (Suc k)) b" using assms(1) by simp
  obtain p b1 where a: "allocate n b = Some (Inr p, b1)" "good (Suc k) b1" "(p, n) \<notin> allocs b"
    "allocs b1 = insert (p, n) (allocs b)" "roomy D b1" by (rule allocate_reliable [OF g assms(2-4)])
  obtain b2 where d: "deallocate p n b1 = Some (Inr (), b2)" "good k b2" "allocs b2 = allocs b1 - {(p, n)}"
    using deallocate_law [OF a(2), of p n] a(4) by auto
  have "roomy D b2" by (rule roomy_deallocate [OF a(2,5) _ d(1)]) (simp add: a(4))
  then show ?thesis using a d by (auto simp: churn_step_def)
qed

lemma fill_batch_reliable:
  assumes "good (length szs + k) b" "0 \<notin> set szs" "roomy D b" "mset szs + demand (allocs b) \<subseteq># D"
  shows "\<exists>full b'. fill_batch allocate szs batch b = Some (Inr full, b') \<and> roomy D b'"
  using assms
proof (induction szs arbitrary: batch b)
  case Nil
  then show ?case by simp
next
  case (Cons sz szs)
  have sub: "add_mset sz (demand (allocs b)) \<subseteq># mset (sz # szs) + demand (allocs b)" by simp
  have g: "good (Suc (length szs + k)) b" "0 < sz" using Cons.prems(1,2) by simp_all
  obtain p b1 where a: "allocate sz b = Some (Inr p, b1)" "good (length szs + k) b1" "roomy D b1"
    "demand (allocs b1) = add_mset sz (demand (allocs b))"
    by (rule allocate_reliable [OF g Cons.prems(3) subset_mset.order_trans [OF sub Cons.prems(4)]])
  have "mset szs + demand (allocs b1) \<subseteq># D" using Cons.prems(4) a(4) by simp
  from Cons.IH [OF a(2) _ a(3) this] Cons.prems(2) a(1) show ?case by auto
qed

lemma free_in_order_roomy:
  assumes "good (length batch + k) b" "set (pairs batch) \<subseteq> allocs b" "distinct (pairs batch)" "roomy D b"
    "free_in_order deallocate batch b = Some (r, b')"
  shows "roomy D b'"
  using assms
proof (induction batch arbitrary: b)
  case Nil
  then show ?case by simp
next
  case (Cons x batch)
  obtain sz p where x: "x = (sz, p)" by (cases x)
  have g: "good (Suc (length batch + k)) b" "(p, sz) \<in> allocs b" using Cons.prems(1,2) x by simp_all
  from deallocate_law [OF this] obtain b1 where
    d: "deallocate p sz b = Some (Inr (), b1)" "good (length batch + k) b1" "allocs b1 = allocs b - {(p, sz)}" by blast
  have "set (pairs batch) \<subseteq> allocs b1" "distinct (pairs batch)" using Cons.prems(2,3) x d(3) by auto
  from Cons.IH [OF d(2) this roomy_deallocate [OF g(1) Cons.prems(4) g(2) d(1)]] show ?case using Cons.prems(5) d(1) x by simp
qed

lemma batch_step_reliable:
  assumes g: "good (2 * length szs + k) b" and z: "0 \<notin> set szs" and rm: "roomy D b" and dem: "mset szs + demand (allocs b) \<subseteq># D"
  shows "\<exists>b'. batch_step allocate deallocate szs b = Some (Inr (), b') \<and> good k b' \<and> allocs b' = allocs b \<and> roomy D b'"
proof -
  have g': "good (length szs + (length szs + k)) b" using g by (simp add: mult_2 add.assoc)
  obtain full b1 where f: "fill_batch allocate szs [] b = Some (Inr full, b1)" "roomy D b1"
    using fill_batch_reliable [OF g' z rm dem] by blast
  have F: "good (length szs + k) b1" "distinct (pairs full)" "length full = length szs" "set (pairs full) \<subseteq> allocs b1"
    using fill_batch_total [OF g' z, of "[]"] f(1) by auto
  obtain r b2 where t: "batch_step allocate deallocate szs b = Some (r, b2)" "good k b2"
    "case r of Inl e \<Rightarrow> allocs b \<subseteq> allocs b2 | Inr _ \<Rightarrow> allocs b2 = allocs b" using batch_step_total [OF g z] by blast
  have run: "free_in_order deallocate (rev full) b1 = Some (r, b2)" using t(1) f(1) by (simp add: batch_step_def)
  have pre: "good (length (rev full) + k) b1" "set (pairs (rev full)) \<subseteq> allocs b1" "distinct (pairs (rev full))"
    using F by (simp_all add: rev_map [symmetric])
  have "r = Inr ()" using free_in_order_total [OF pre] run by auto
  moreover have "roomy D b2" by (rule free_in_order_roomy [OF pre f(2) run])
  ultimately show ?thesis using t by simp
qed

text \<open>A loop that stays within the demand completes, and leaves nothing allocated.\<close>

lemma churn_reliable_task: "0 < n \<Longrightarrow> reliable_task good allocs roomy 2 {#n#} (churn_step allocate deallocate n)"
  unfolding reliable_task_def
proof (intro allI impI)
  fix k b
  assume "0 < n" "good (2 + k) b" "roomy {#n#} b" "allocs b = {}"
  then show "\<exists>x b'. churn_step allocate deallocate n b = Some (Inr x, b') \<and> good k b' \<and> roomy {#n#} b' \<and> allocs b' = {}"
    using churn_step_reliable [of k b n "{#n#}"] by (simp add: demand_def) blast
qed

lemma batch_reliable_task: "0 \<notin> set szs \<Longrightarrow> reliable_task good allocs roomy (2 * length szs) (mset szs) (batch_step allocate deallocate szs)"
  unfolding reliable_task_def
proof (intro allI impI)
  fix k b
  assume "0 \<notin> set szs" "good (2 * length szs + k) b" "roomy (mset szs) b" "allocs b = {}"
  then show "\<exists>x b'. batch_step allocate deallocate szs b = Some (Inr x, b') \<and> good k b' \<and> roomy (mset szs) b' \<and> allocs b' = {}"
    using batch_step_reliable [of szs k b "mset szs"] by (simp add: demand_def) blast
qed

lemma repeat_reliable_task:
  assumes "reliable_task good allocs roomy c D body"
  shows "reliable_task good allocs roomy (n * c) D (repeat_io body n)"
proof (induction n)
  case 0
  then show ?case by (auto simp: reliable_task_def)
next
  case (Suc n)
  show ?case unfolding reliable_task_def
  proof (intro allI impI)
    fix k b
    assume a: "good (Suc n * c + k) b" "roomy D b" "allocs b = {}"
    then have g: "good (c + (n * c + k)) b" by (simp add: ac_simps)
    obtain x b1 where r: "body b = Some (Inr x, b1)" "good (n * c + k) b1" "roomy D b1" "allocs b1 = {}"
      by (rule reliable_taskD [OF assms g a(2,3)])
    show "\<exists>x b'. repeat_io body (Suc n) b = Some (Inr x, b') \<and> good k b' \<and> roomy D b' \<and> allocs b' = {}"
      by (rule reliable_taskD [OF Suc.IH r(2-4)]) (use r(1) in simp)
  qed
qed

end

section \<open>The two backends\<close>

record 's harness =
  hx_debug :: bool
  hx_os :: os
  hx_clock :: "nat \<Rightarrow> nat"
  hx_sched :: "nat \<Rightarrow> nat"
  hx_raw :: "AllocatorKind \<Rightarrow> 's system_allocator"
  hx_io :: "int \<Rightarrow> string"

text \<open>
  The process: memory, the two counters of the crate, the numbers of clock readings and of
  decisions of the scheduler so far, and the state of the other allocators.
\<close>

record 's bench_state =
  bs_mem :: heap
  bs_next_allocator :: usize
  bs_next_cache :: u32
  bs_ticks :: nat
  bs_turns :: nat
  bs_raw :: 's

text \<open>A \<open>RawBackend\<close> refers to one of the three static allocators.\<close>

record RawBackend =
  raw_allocator :: AllocatorKind

record OrthotopeBackend =
  ob_allocator :: Allocator
  ob_cache :: ThreadCache

datatype backend = Orthotope_api OrthotopeBackend | Raw_api RawBackend

type_synonym 's client = "backend \<times> 's bench_state"

definition layout_for :: "usize \<Rightarrow> BenchError + Layout" where
  "layout_for sz = (case from_size_align sz ALIGNMENT of
      Some l \<Rightarrow> Inr l
    | None \<Rightarrow> Inl (AllocFailed (''invalid layout for size '' @ show_usize sz @ '' and alignment '' @ show_usize ALIGNMENT @
        '': invalid parameters to Layout::from_size_align'')))"

definition raw_backend :: "AllocatorKind \<Rightarrow> RawBackend run" where
  "raw_backend k = (if k = OrthotopeKind then None else Some \<lparr>raw_allocator = k\<rparr>)"

definition RawBackend_allocate :: "'s harness \<Rightarrow> RawBackend \<Rightarrow> usize \<Rightarrow> 's bench_state \<Rightarrow> (BenchError + addr) \<times> 's bench_state" where
  "RawBackend_allocate hx rb sz st = (case layout_for sz of
      Inl e \<Rightarrow> (Inl e, st)
    | Inr layout \<Rightarrow>
        (let (ptr, s') = system_alloc (hx_raw hx (raw_allocator rb)) layout (bs_raw st); st' = st\<lparr>bs_raw := s'\<rparr>
         in if ptr = 0 then (Inl (AllocFailed (''allocation failed for '' @ show_usize sz @ '' bytes'')), st')
            else (Inr ptr, st')))"

definition RawBackend_deallocate ::
    "'s harness \<Rightarrow> RawBackend \<Rightarrow> addr \<Rightarrow> usize \<Rightarrow> 's bench_state \<Rightarrow> (BenchError + unit) \<times> 's bench_state" where
  "RawBackend_deallocate hx rb ptr sz st = (case layout_for sz of
      Inl e \<Rightarrow> (Inl e, st)
    | Inr layout \<Rightarrow> (Inr (), st\<lparr>bs_raw := system_dealloc (hx_raw hx (raw_allocator rb)) ptr layout (bs_raw st)\<rparr>))"

definition OrthotopeBackend_new :: "'s harness \<Rightarrow> 's bench_state \<Rightarrow> (BenchError + OrthotopeBackend) \<times> 's bench_state" where
  "OrthotopeBackend_new hx st =
     (let config = default_config
      in case Allocator_new (hx_os hx) config (bs_next_allocator st) of
          (Inl e, next_id) \<Rightarrow>
            (Inl (AllocFailed (''orthotope init failed: '' @ InitError_display (hx_io hx) e)), st\<lparr>bs_next_allocator := next_id\<rparr>)
        | (Inr al, next_id) \<Rightarrow>
            (let (cache, next_cache) = ThreadCache_new config (bs_next_cache st)
             in (Inr \<lparr>ob_allocator = al, ob_cache = cache\<rparr>, st\<lparr>bs_next_allocator := next_id, bs_next_cache := next_cache\<rparr>)))"

definition OrthotopeBackend_allocate ::
    "'s harness \<Rightarrow> OrthotopeBackend \<Rightarrow> usize \<Rightarrow> 's bench_state \<Rightarrow> ((BenchError + addr) \<times> OrthotopeBackend \<times> 's bench_state) run" where
  "OrthotopeBackend_allocate hx ob sz st = do {
     (m, al, tc, r) \<leftarrow> allocate_with_cache (hx_debug hx) (hx_os hx) (bs_mem st) (ob_allocator ob) (ob_cache ob) sz;
     Some (case r of
         Inl e \<Rightarrow> Inl (AllocFailed (''orthotope allocation failed: '' @ AllocError_display e))
       | Inr ptr \<Rightarrow> Inr ptr, \<lparr>ob_allocator = al, ob_cache = tc\<rparr>, st\<lparr>bs_mem := m\<rparr>) }"

definition OrthotopeBackend_deallocate ::
    "'s harness \<Rightarrow> OrthotopeBackend \<Rightarrow> addr \<Rightarrow> usize \<Rightarrow> 's bench_state \<Rightarrow>
     ((BenchError + unit) \<times> OrthotopeBackend \<times> 's bench_state) run" where
  "OrthotopeBackend_deallocate hx ob ptr sz st = do {
     (m, al, tc, r) \<leftarrow> deallocate_with_size_checked (hx_debug hx) (hx_os hx) (bs_mem st) (ob_allocator ob) (ob_cache ob) ptr sz;
     Some (case r of
         Inl e \<Rightarrow> Inl (AllocFailed (''orthotope deallocation failed: '' @ FreeError_display e))
       | Inr u \<Rightarrow> Inr u, \<lparr>ob_allocator = al, ob_cache = tc\<rparr>, st\<lparr>bs_mem := m\<rparr>) }"

text \<open>The calls through \<open>&mut dyn AllocationApi\<close>.\<close>

definition dyn_allocate :: "'s harness \<Rightarrow> usize \<Rightarrow> ('s client, addr) io" where
  "dyn_allocate hx sz c = (case c of
      (Raw_api rb, st) \<Rightarrow> (let (r, st') = RawBackend_allocate hx rb sz st in Some (r, Raw_api rb, st'))
    | (Orthotope_api ob, st) \<Rightarrow> do {
        (r, ob', st') \<leftarrow> OrthotopeBackend_allocate hx ob sz st;
        Some (r, Orthotope_api ob', st') })"

definition dyn_deallocate :: "'s harness \<Rightarrow> addr \<Rightarrow> usize \<Rightarrow> ('s client, unit) io" where
  "dyn_deallocate hx ptr sz c = (case c of
      (Raw_api rb, st) \<Rightarrow> (let (r, st') = RawBackend_deallocate hx rb ptr sz st in Some (r, Raw_api rb, st'))
    | (Orthotope_api ob, st) \<Rightarrow> do {
        (r, ob', st') \<leftarrow> OrthotopeBackend_deallocate hx ob ptr sz st;
        Some (r, Orthotope_api ob', st') })"

definition with_backend :: "'s harness \<Rightarrow> AllocatorKind \<Rightarrow> ('s client, 'a) io \<Rightarrow> ('s bench_state, 'a) io" where
  "with_backend hx k f st = (case k of
      OrthotopeKind \<Rightarrow>
        (case OrthotopeBackend_new hx st of
           (Inl e, st') \<Rightarrow> Some (Inl e, st')
         | (Inr ob, st') \<Rightarrow> do { (r, _, st'') \<leftarrow> f (Orthotope_api ob, st'); Some (r, st'') })
    | _ \<Rightarrow> do {
        rb \<leftarrow> raw_backend k;
        (r, _, st') \<leftarrow> f (Raw_api rb, st);
        Some (r, st') })"

section \<open>The backends keep the contract\<close>

definition world_of :: "OrthotopeBackend \<Rightarrow> 's bench_state \<Rightarrow> world" where
  "world_of ob st = \<lparr>w_mem = bs_mem st, w_al = ob_allocator ob, w_caches = [ob_cache ob], w_next_id = bs_next_cache st\<rparr>"

text \<open>
  What \<open>GlobalAlloc\<close> documents of the other allocators: a block that is handed out is not in
  use, and deallocation ends exactly the allocation it names. \<open>rl\<close> reads the live allocations
  off the state of such an allocator.
\<close>

definition raw_contract :: "'s system_allocator \<Rightarrow> ('s \<Rightarrow> (addr \<times> usize) set) \<Rightarrow> bool" where
  "raw_contract sa rl \<longleftrightarrow> (\<forall>s. finite (rl s)) \<and>
     (\<forall>l s p s'. 0 < layout_size l \<longrightarrow> system_alloc sa l s = (p, s') \<longrightarrow>
        p = 0 \<and> rl s' = rl s \<or> p \<noteq> 0 \<and> (p, layout_size l) \<notin> rl s \<and> rl s' = insert (p, layout_size l) (rl s)) \<and>
     (\<forall>p l s. (p, layout_size l) \<in> rl s \<longrightarrow> rl (system_dealloc sa p l s) = rl s - {(p, layout_size l)})"

definition backend_kind :: "backend \<Rightarrow> AllocatorKind" where
  "backend_kind b = (case b of Orthotope_api ob \<Rightarrow> OrthotopeKind | Raw_api rb \<Rightarrow> raw_allocator rb)"

definition client_good :: "'s harness \<Rightarrow> ('s \<Rightarrow> (addr \<times> usize) set) \<Rightarrow> AllocatorKind \<Rightarrow> nat \<Rightarrow> 's client \<Rightarrow> bool" where
  "client_good hx rl kd k c \<longleftrightarrow> backend_kind (fst c) = kd \<and> (case c of
      (Orthotope_api ob, st) \<Rightarrow> good_world (hx_debug hx) (hx_os hx) k (world_of ob st)
    | (Raw_api rb, st) \<Rightarrow> raw_contract (hx_raw hx (raw_allocator rb)) rl \<and>
        (\<forall>(p, n)\<in>rl (bs_raw st). from_size_align n ALIGNMENT \<noteq> None))"

definition client_allocs :: "('s \<Rightarrow> (addr \<times> usize) set) \<Rightarrow> 's client \<Rightarrow> (addr \<times> usize) set" where
  "client_allocs rl c = (case c of (Orthotope_api ob, st) \<Rightarrow> live_set (world_of ob st) | (Raw_api rb, st) \<Rightarrow> rl (bs_raw st))"

definition client_roomy :: "usize multiset \<Rightarrow> 's client \<Rightarrow> bool" where
  "client_roomy D c = (case c of (Orthotope_api ob, st) \<Rightarrow> \<exists>bs. capacity 1 D bs (world_of ob st) | (Raw_api rb, st) \<Rightarrow> False)"

lemma world_of_simps [simp]:
  "w_mem (world_of ob st) = bs_mem st" "w_al (world_of ob st) = ob_allocator ob" "w_caches (world_of ob st) = [ob_cache ob]"
  "updated (world_of ob st) 0 m al tc = world_of \<lparr>ob_allocator = al, ob_cache = tc\<rparr> (st\<lparr>bs_mem := m\<rparr>)"
  by (simp_all add: world_of_def updated_def)

lemma backend_kind_simps [simp]: "backend_kind (Orthotope_api ob) = OrthotopeKind" "backend_kind (Raw_api rb) = raw_allocator rb"
  by (simp_all add: backend_kind_def)

lemma layout_for_simps: "from_size_align n ALIGNMENT = Some l \<Longrightarrow> layout_for n = Inr l" "layout_for n = Inr l \<Longrightarrow> layout_size l = n"
  "layout_for n = Inr l \<Longrightarrow> from_size_align n ALIGNMENT = Some l"
  by (auto simp: layout_for_def from_size_align_def split: option.splits if_splits)

lemma raw_contractD:
  assumes "raw_contract sa rl"
  shows "finite (rl s)"
    "0 < layout_size l \<Longrightarrow> system_alloc sa l s = (p, s') \<Longrightarrow>
       p = 0 \<and> rl s' = rl s \<or> p \<noteq> 0 \<and> (p, layout_size l) \<notin> rl s \<and> rl s' = insert (p, layout_size l) (rl s)"
    "(p, layout_size l) \<in> rl s \<Longrightarrow> rl (system_dealloc sa p l s) = rl s - {(p, layout_size l)}"
  using assms unfolding raw_contract_def by blast+

lemma raw_allocate_law:
  assumes "raw_contract (hx_raw hx (raw_allocator rb)) rl" "\<forall>(p, n)\<in>rl (bs_raw st). from_size_align n ALIGNMENT \<noteq> None" "0 < n"
    and run: "RawBackend_allocate hx rb n st = (r, st')"
  shows "(\<forall>(p, n)\<in>rl (bs_raw st'). from_size_align n ALIGNMENT \<noteq> None) \<and>
    (case r of Inl e \<Rightarrow> rl (bs_raw st') = rl (bs_raw st)
     | Inr p \<Rightarrow> (p, n) \<notin> rl (bs_raw st) \<and> rl (bs_raw st') = insert (p, n) (rl (bs_raw st)))"
proof (cases "layout_for n")
  case (Inl e)
  then show ?thesis using run assms(2) by (auto simp: RawBackend_allocate_def)
next
  case (Inr l)
  obtain p s' where a: "system_alloc (hx_raw hx (raw_allocator rb)) l (bs_raw st) = (p, s')" by fastforce
  have "p = 0 \<and> rl s' = rl (bs_raw st) \<or> p \<noteq> 0 \<and> (p, n) \<notin> rl (bs_raw st) \<and> rl s' = insert (p, n) (rl (bs_raw st))"
    using raw_contractD(2) [OF assms(1) _ a] assms(3) layout_for_simps(2) [OF Inr] by simp
  then show ?thesis
  proof
    assume "p = 0 \<and> rl s' = rl (bs_raw st)"
    then show ?thesis using run assms(2) Inr a by (auto simp: RawBackend_allocate_def)
  next
    assume c: "p \<noteq> 0 \<and> (p, n) \<notin> rl (bs_raw st) \<and> rl s' = insert (p, n) (rl (bs_raw st))"
    then have "r = Inr p" "bs_raw st' = s'" using run Inr a by (auto simp: RawBackend_allocate_def)
    then show ?thesis using c assms(2) layout_for_simps(3) [OF Inr] by simp
  qed
qed

lemma raw_deallocate_law:
  assumes "raw_contract (hx_raw hx (raw_allocator rb)) rl" "\<forall>(p, n)\<in>rl (bs_raw st). from_size_align n ALIGNMENT \<noteq> None"
    "(p, n) \<in> rl (bs_raw st)"
  obtains st' where "RawBackend_deallocate hx rb p n st = (Inr (), st')"
    "\<forall>(p, n)\<in>rl (bs_raw st'). from_size_align n ALIGNMENT \<noteq> None" "rl (bs_raw st') = rl (bs_raw st) - {(p, n)}"
proof -
  obtain l where l: "layout_for n = Inr l" using assms(2,3) layout_for_simps(1) by fastforce
  have "rl (system_dealloc (hx_raw hx (raw_allocator rb)) p l (bs_raw st)) = rl (bs_raw st) - {(p, n)}"
    using raw_contractD(3) [OF assms(1), of p l] assms(3) layout_for_simps(2) [OF l] by simp
  then show ?thesis using that assms(2) l by (auto simp: RawBackend_deallocate_def)
qed

lemma orthotope_allocate_law:
  assumes g: "client_good hx rl kd (Suc k) (Orthotope_api ob, st)" and n: "0 < n"
  obtains r ob' st' where "OrthotopeBackend_allocate hx ob n st = Some (r, ob', st')" "client_good hx rl kd k (Orthotope_api ob', st')"
    "case r of Inl e \<Rightarrow> live_set (world_of ob' st') = live_set (world_of ob st)
     | Inr p \<Rightarrow> (p, n) \<notin> live_set (world_of ob st) \<and> live_set (world_of ob' st') = insert (p, n) (live_set (world_of ob st))"
    "\<forall>T D bs. capacity T D bs (world_of ob st) \<longrightarrow> add_mset n (demand (live_set (world_of ob st))) \<subseteq># D \<longrightarrow>
       (\<exists>p. r = Inr p) \<and> capacity T D bs (world_of ob' st')"
proof -
  let ?w = "world_of ob st"
  have G: "good_world (hx_debug hx) (hx_os hx) (Suc k) ?w" "0 < length (w_caches ?w)" and kd: "kd = OrthotopeKind"
    using g by (simp_all add: client_good_def)
  obtain m al tc x where a: "allocate_with_cache (hx_debug hx) (hx_os hx) (w_mem ?w) (w_al ?w) (w_caches ?w ! 0) n = Some (m, al, tc, x)"
    "good_world (hx_debug hx) (hx_os hx) k (updated ?w 0 m al tc)"
    "case x of Inl e \<Rightarrow> live_set (updated ?w 0 m al tc) = live_set ?w
     | Inr p \<Rightarrow> (p, n) \<notin> live_set ?w \<and> live_set (updated ?w 0 m al tc) = insert (p, n) (live_set ?w)"
    "\<forall>T D bs. capacity T D bs ?w \<longrightarrow> add_mset n (demand (live_set ?w)) \<subseteq># D \<longrightarrow> (\<exists>p. x = Inr p) \<and> capacity T D bs (updated ?w 0 m al tc)"
    by (rule good_world_allocate [OF G n])
  let ?ob = "\<lparr>ob_allocator = al, ob_cache = tc\<rparr>" and ?st = "st\<lparr>bs_mem := m\<rparr>"
  let ?r = "case x of Inl e \<Rightarrow> Inl (AllocFailed (''orthotope allocation failed: '' @ AllocError_display e)) | Inr ptr \<Rightarrow> Inr ptr"
  have run: "OrthotopeBackend_allocate hx ob n st = Some (?r, ?ob, ?st)" using a(1) by (simp add: OrthotopeBackend_allocate_def)
  show thesis
  proof (rule that [OF run])
    show "client_good hx rl kd k (Orthotope_api ?ob, ?st)" using a(2) by (simp add: client_good_def kd)
    show "case ?r of Inl e \<Rightarrow> live_set (world_of ?ob ?st) = live_set ?w
       | Inr p \<Rightarrow> (p, n) \<notin> live_set ?w \<and> live_set (world_of ?ob ?st) = insert (p, n) (live_set ?w)"
      using a(3) by (cases x) simp_all
    show "\<forall>T D bs. capacity T D bs ?w \<longrightarrow> add_mset n (demand (live_set ?w)) \<subseteq># D \<longrightarrow>
       (\<exists>p. ?r = Inr p) \<and> capacity T D bs (world_of ?ob ?st)"
      using a(4) by (cases x) simp_all
  qed
qed

lemma orthotope_deallocate_law:
  assumes g: "client_good hx rl kd (Suc k) (Orthotope_api ob, st)" and p: "(p, n) \<in> live_set (world_of ob st)"
  obtains ob' st' where "OrthotopeBackend_deallocate hx ob p n st = Some (Inr (), ob', st')" "client_good hx rl kd k (Orthotope_api ob', st')"
    "live_set (world_of ob' st') = live_set (world_of ob st) - {(p, n)}"
    "\<forall>T D bs. capacity T D bs (world_of ob st) \<longrightarrow> capacity T D bs (world_of ob' st')"
proof -
  let ?w = "world_of ob st"
  have G: "good_world (hx_debug hx) (hx_os hx) (Suc k) ?w" "0 < length (w_caches ?w)" and kd: "kd = OrthotopeKind"
    using g by (simp_all add: client_good_def)
  obtain m al tc where d:
    "deallocate_with_size_checked (hx_debug hx) (hx_os hx) (w_mem ?w) (w_al ?w) (w_caches ?w ! 0) p n = Some (m, al, tc, Inr ())"
    "good_world (hx_debug hx) (hx_os hx) k (updated ?w 0 m al tc)" "live_set (updated ?w 0 m al tc) = live_set ?w - {(p, n)}"
    "\<forall>T D bs. capacity T D bs ?w \<longrightarrow> capacity T D bs (updated ?w 0 m al tc)"
    by (rule good_world_free [OF G p])
  let ?ob = "\<lparr>ob_allocator = al, ob_cache = tc\<rparr>" and ?st = "st\<lparr>bs_mem := m\<rparr>"
  have run: "OrthotopeBackend_deallocate hx ob p n st = Some (Inr (), ?ob, ?st)" using d(1) by (simp add: OrthotopeBackend_deallocate_def)
  show thesis by (rule that [OF run]) (use d(2-4) in \<open>simp_all add: client_good_def kd\<close>)
qed

lemma client_cases:
  obtains (orthotope) ob st where "c = (Orthotope_api ob, st)" | (raw) rb st where "c = (Raw_api rb, st)"
  by (metis backend.exhaust surj_pair)

interpretation backends: reliable_api "dyn_allocate hx" "dyn_deallocate hx" "client_good hx rl kd" "client_allocs rl" client_roomy
  for hx :: "'s harness" and rl :: "'s \<Rightarrow> (addr \<times> usize) set" and kd
proof
  show "finite (client_allocs rl c)" if "client_good hx rl kd k c" for k and c :: "'s client"
    using that by (cases c rule: client_cases) (auto simp: client_good_def client_allocs_def live_set_finite raw_contractD(1))
  show "client_good hx rl kd k c" if "client_good hx rl kd (Suc k) c" for k and c :: "'s client"
    using that by (cases c rule: client_cases) (auto simp: client_good_def dest: good_world_less)
next
  fix k n :: nat and c :: "'s client"
  assume g: "client_good hx rl kd (Suc k) c" and n: "0 < n"
  show "\<exists>r c'. dyn_allocate hx n c = Some (r, c') \<and> client_good hx rl kd k c' \<and>
    (case r of Inl e \<Rightarrow> client_allocs rl c' = client_allocs rl c
     | Inr p \<Rightarrow> (p, n) \<notin> client_allocs rl c \<and> client_allocs rl c' = insert (p, n) (client_allocs rl c))"
  proof (cases c rule: client_cases)
    case (orthotope ob st)
    obtain r ob' st' where "OrthotopeBackend_allocate hx ob n st = Some (r, ob', st')" "client_good hx rl kd k (Orthotope_api ob', st')"
      "case r of Inl e \<Rightarrow> live_set (world_of ob' st') = live_set (world_of ob st)
       | Inr p \<Rightarrow> (p, n) \<notin> live_set (world_of ob st) \<and> live_set (world_of ob' st') = insert (p, n) (live_set (world_of ob st))"
      by (rule orthotope_allocate_law [OF g [unfolded orthotope] n])
    then show ?thesis by (cases r) (simp_all add: orthotope dyn_allocate_def client_allocs_def)
  next
    case (raw rb st)
    obtain r st' where run: "RawBackend_allocate hx rb n st = (r, st')" by fastforce
    have rc: "raw_contract (hx_raw hx (raw_allocator rb)) rl" "\<forall>(p, n)\<in>rl (bs_raw st). from_size_align n ALIGNMENT \<noteq> None"
      and kd: "kd = raw_allocator rb" using g by (auto simp: raw client_good_def)
    from raw_allocate_law [OF rc n run] show ?thesis
      using run rc(1) by (cases r) (simp_all add: raw dyn_allocate_def client_allocs_def client_good_def kd)
  qed
next
  fix k n p :: nat and c :: "'s client"
  assume g: "client_good hx rl kd (Suc k) c" and p: "(p, n) \<in> client_allocs rl c"
  show "\<exists>c'. dyn_deallocate hx p n c = Some (Inr (), c') \<and> client_good hx rl kd k c' \<and> client_allocs rl c' = client_allocs rl c - {(p, n)}"
  proof (cases c rule: client_cases)
    case (orthotope ob st)
    have l: "(p, n) \<in> live_set (world_of ob st)" using p by (simp add: orthotope client_allocs_def)
    obtain ob' st' where
      "OrthotopeBackend_deallocate hx ob p n st = Some (Inr (), ob', st')" "client_good hx rl kd k (Orthotope_api ob', st')"
      "live_set (world_of ob' st') = live_set (world_of ob st) - {(p, n)}"
      by (rule orthotope_deallocate_law [OF g [unfolded orthotope] l])
    then show ?thesis by (simp add: orthotope dyn_deallocate_def client_allocs_def)
  next
    case (raw rb st)
    have rc: "raw_contract (hx_raw hx (raw_allocator rb)) rl" "\<forall>(p, n)\<in>rl (bs_raw st). from_size_align n ALIGNMENT \<noteq> None"
      "(p, n) \<in> rl (bs_raw st)" and kd: "kd = raw_allocator rb" using g p by (auto simp: raw client_good_def client_allocs_def)
    obtain st' where "RawBackend_deallocate hx rb p n st = (Inr (), st')"
      "\<forall>(p, n)\<in>rl (bs_raw st'). from_size_align n ALIGNMENT \<noteq> None" "rl (bs_raw st') = rl (bs_raw st) - {(p, n)}"
      by (rule raw_deallocate_law [OF rc])
    then show ?thesis using rc(1) by (simp add: raw dyn_deallocate_def client_allocs_def client_good_def kd)
  qed
next
  fix k D n r and c c' :: "'s client"
  assume a: "client_good hx rl kd (Suc k) c" "client_roomy D c" "add_mset n (demand (client_allocs rl c)) \<subseteq># D" "dyn_allocate hx n c = Some (r, c')"
  obtain ob st bs where c: "c = (Orthotope_api ob, st)" and cap: "capacity 1 D bs (world_of ob st)"
    using a(2) by (cases c rule: client_cases) (auto simp: client_roomy_def)
  have n: "0 < n" using a(3) cap by (auto simp: capacity_def insert_subset_eq_iff intro: gr0I)
  have dem: "add_mset n (demand (live_set (world_of ob st))) \<subseteq># D" using a(3) by (simp add: c client_allocs_def)
  obtain x ob' st' where x: "OrthotopeBackend_allocate hx ob n st = Some (x, ob', st')"
    "\<forall>T D bs. capacity T D bs (world_of ob st) \<longrightarrow> add_mset n (demand (live_set (world_of ob st))) \<subseteq># D \<longrightarrow>
       (\<exists>p. x = Inr p) \<and> capacity T D bs (world_of ob' st')"
    by (rule orthotope_allocate_law [OF a(1) [unfolded c] n])
  from x(2) cap dem have "(\<exists>p. x = Inr p) \<and> capacity 1 D bs (world_of ob' st')" by blast
  then show "(\<exists>p. r = Inr p) \<and> client_roomy D c'"
    using a(4) x(1) by (auto simp: c dyn_allocate_def client_roomy_def)
next
  fix k D p n u and c c' :: "'s client"
  assume a: "client_good hx rl kd (Suc k) c" "client_roomy D c" "(p, n) \<in> client_allocs rl c" "dyn_deallocate hx p n c = Some (u, c')"
  obtain ob st bs where c: "c = (Orthotope_api ob, st)" and cap: "capacity 1 D bs (world_of ob st)"
    using a(2) by (cases c rule: client_cases) (auto simp: client_roomy_def)
  have l: "(p, n) \<in> live_set (world_of ob st)" using a(3) by (simp add: c client_allocs_def)
  obtain ob' st' where
    "OrthotopeBackend_deallocate hx ob p n st = Some (Inr (), ob', st')"
    "\<forall>T D bs. capacity T D bs (world_of ob st) \<longrightarrow> capacity T D bs (world_of ob' st')"
    by (rule orthotope_deallocate_law [OF a(1) [unfolded c] l])
  moreover from this(2) cap have "capacity 1 D bs (world_of ob' st')" by blast
  ultimately show "client_roomy D c'" using a(4) by (auto simp: c dyn_deallocate_def client_roomy_def)
qed

end
