(* ===== verification/Bench_Crew.thy ===== *)
theory Bench_Crew
  imports Bench_Api
begin

text \<open>
  The threads of the multi-threaded workloads (\<^verbatim>\<open>src/bench/src/lib.rs\<close>). A workload starts
  units that do not wait for each other: a worker, or a producer and a consumer joined by a
  rendezvous channel. A scheduler picks the next thread among those that can move; one
  move is one call of the allocator, or one message.

  The locale \<open>crew\<close> states what a unit promises, and its lemmas hold for every scheduler: the
  run ends, every thread ends, and every allocation is freed.
\<close>

section \<open>Running the threads\<close>

datatype 'x attempt = Blocked | Panicked | Moved 'x

text \<open>A unit has at most two threads, \<open>False\<close> and \<open>True\<close>.\<close>

type_synonym ('u, 'b) act = "nat \<Rightarrow> bool \<Rightarrow> 'u \<Rightarrow> 'b \<Rightarrow> ('u \<times> 'b) attempt"

definition runnable :: "('u, 'b) act \<Rightarrow> 'u list \<Rightarrow> 'b \<Rightarrow> (nat \<times> bool) list" where
  "runnable act us b =
     filter (\<lambda>(j, a). act j a (us ! j) b \<noteq> Blocked) (List.product [0..<length us] [False, True])"

text \<open>
  The run ends when no thread can move any more. A panic of the allocator and a run without
  end are \<open>None\<close>.
\<close>

partial_function (option) crew_run ::
    "('u, 'b) act \<Rightarrow> (nat \<Rightarrow> nat) \<Rightarrow> 'u list \<Rightarrow> 'b \<Rightarrow> nat \<Rightarrow> ('u list \<times> 'b \<times> nat) run" where
  "crew_run act sched us b turn =
     (let es = runnable act us b
      in if es = [] then Some (us, b, turn)
         else (case es ! (sched turn mod length es) of (j, a) \<Rightarrow>
           (case act j a (us ! j) b of
              Moved (u, b') \<Rightarrow> crew_run act sched (us[j := u]) b' (Suc turn)
            | _ \<Rightarrow> None)))"

lemma runnable_iff: "(j, a) \<in> set (runnable act us b) \<longleftrightarrow> j < length us \<and> act j a (us ! j) b \<noteq> Blocked"
  by (auto simp: runnable_def)

lemma runnable_pick:
  assumes "runnable act us b \<noteq> []" "runnable act us b ! (n mod length (runnable act us b)) = (j, a)"
  shows "j < length us" "act j a (us ! j) b \<noteq> Blocked"
  using assms nth_mem [of "n mod length (runnable act us b)" "runnable act us b"] by (auto simp: runnable_iff)

section \<open>What a unit promises\<close>

text \<open>
  \<open>work\<close> bounds the moves of a unit, \<open>calls\<close> its calls of the allocator; \<open>held\<close> are the allocations
  its threads own. \<open>fine\<close>: no thread of the unit has failed.
\<close>

locale crew =
  fixes act :: "('u, 'b) act" and work :: "'u \<Rightarrow> nat" and calls :: "'u \<Rightarrow> nat" and held :: "'u \<Rightarrow> (addr \<times> usize) list"
    and unit_ok :: "'u \<Rightarrow> bool" and ended :: "'u \<Rightarrow> bool" and fine :: "'u \<Rightarrow> bool"
    and good :: "nat \<Rightarrow> 'b \<Rightarrow> bool" and allocs :: "'b \<Rightarrow> (addr \<times> usize) set" and roomy :: "usize multiset \<Rightarrow> 'b \<Rightarrow> bool"
    and N :: nat and share :: "usize multiset"
  assumes unit_law: "j < N \<Longrightarrow> unit_ok u \<Longrightarrow> good (calls u + k) b \<Longrightarrow> set (held u) \<subseteq> allocs b \<Longrightarrow> distinct (held u) \<Longrightarrow>
      (case act j a u b of
         Blocked \<Rightarrow> True
       | Panicked \<Rightarrow> False
       | Moved (u', b') \<Rightarrow> unit_ok u' \<and> good (calls u' + k) b' \<and> work u' < work u \<and> distinct (held u') \<and>
           set (held u') \<subseteq> allocs b' \<and> allocs b' - set (held u') = allocs b - set (held u) \<and>
           (\<forall>D. fine u \<longrightarrow> roomy D b \<longrightarrow> demand (allocs b - set (held u)) + share \<subseteq># D \<longrightarrow> fine u' \<and> roomy D b'))"
    and progress: "unit_ok u \<Longrightarrow> \<not> ended u \<Longrightarrow> \<exists>a. act j a u b \<noteq> Blocked"
    and held_ended: "ended u \<Longrightarrow> held u = []" and calls_ended: "ended u \<Longrightarrow> calls u = 0"
    and held_share: "unit_ok u \<Longrightarrow> mset (map snd (held u)) \<subseteq># share"
begin

lemma act_total:
  "j < N \<Longrightarrow> unit_ok u \<Longrightarrow> good (calls u + k) b \<Longrightarrow> set (held u) \<subseteq> allocs b \<Longrightarrow> distinct (held u) \<Longrightarrow> act j a u b \<noteq> Panicked"
  using unit_law [of j u k b a] by (auto split: attempt.splits)

lemma act_law:
  assumes "j < N" "unit_ok u" "good (calls u + k) b" "set (held u) \<subseteq> allocs b" "distinct (held u)" "act j a u b = Moved (u', b')"
  shows "unit_ok u'" "good (calls u' + k) b'" "work u' < work u" "distinct (held u')" "set (held u') \<subseteq> allocs b'"
    "allocs b' - set (held u') = allocs b - set (held u)"
    "fine u \<Longrightarrow> roomy D b \<Longrightarrow> demand (allocs b - set (held u)) + share \<subseteq># D \<Longrightarrow> fine u' \<and> roomy D b'"
  using unit_law [OF assms(1-5), of a] by (simp_all add: assms(6))

definition crew_inv :: "(addr \<times> usize) set \<Rightarrow> nat \<Rightarrow> 'u list \<Rightarrow> 'b \<Rightarrow> bool" where
  "crew_inv S k us b \<longleftrightarrow> length us = N \<and> (\<forall>u\<in>set us. unit_ok u) \<and> good (sum_list (map calls us) + k) b \<and>
     distinct (concat (map held us)) \<and> set (concat (map held us)) \<subseteq> allocs b \<and> allocs b - set (concat (map held us)) = S"

text \<open>One move of unit \<open>j\<close>, with the units before and after it.\<close>

lemma crew_inv_split:
  assumes inv: "crew_inv S k us b" and j: "j < length us"
  defines "left \<equiv> concat (map held (take j us)) @ concat (map held (drop (Suc j) us))"
    and "extra \<equiv> sum_list (map calls (take j us)) + sum_list (map calls (drop (Suc j) us)) + k"
  shows "j < N" "unit_ok (us ! j)" "good (calls (us ! j) + extra) b" "distinct (held (us ! j))" "set (held (us ! j)) \<subseteq> allocs b"
    "set left \<subseteq> allocs b - set (held (us ! j))" "distinct left" "allocs b - set (held (us ! j)) - set left = S"
proof -
  have us: "us = take j us @ us ! j # drop (Suc j) us" by (rule id_take_nth_drop [OF j])
  have h: "concat (map held us) = concat (map held (take j us)) @ held (us ! j) @ concat (map held (drop (Suc j) us))"
    by (subst us) simp
  have c: "sum_list (map calls us) = sum_list (map calls (take j us)) + calls (us ! j) + sum_list (map calls (drop (Suc j) us))"
    by (subst us) (simp del: append_take_drop_id)
  note I = inv [unfolded crew_inv_def h c]
  show "j < N" "unit_ok (us ! j)" using I j by auto
  have "sum_list (map calls (take j us)) + calls (us ! j) + sum_list (map calls (drop (Suc j) us)) + k = calls (us ! j) + extra"
    by (simp add: extra_def)
  then show "good (calls (us ! j) + extra) b" using I by metis
  show "distinct (held (us ! j))" "set (held (us ! j)) \<subseteq> allocs b" "set left \<subseteq> allocs b - set (held (us ! j))" "distinct left"
    "allocs b - set (held (us ! j)) - set left = S" using I unfolding left_def by auto
qed

lemma crew_inv_join:
  fixes k :: nat
  assumes j: "j < length us" and len: "length us = N" and ok: "\<forall>u\<in>set us. unit_ok u" "unit_ok u'"
  defines "left \<equiv> concat (map held (take j us)) @ concat (map held (drop (Suc j) us))"
    and "extra \<equiv> sum_list (map calls (take j us)) + sum_list (map calls (drop (Suc j) us)) + k"
  assumes g: "good (calls u' + extra) b'" and d: "distinct (held u')" "set (held u') \<subseteq> allocs b'"
    and r: "set left \<subseteq> allocs b' - set (held u')" "distinct left" "allocs b' - set (held u') - set left = S"
  shows "crew_inv S k (us[j := u']) b'"
proof -
  have us: "us[j := u'] = take j us @ u' # drop (Suc j) us" by (rule upd_conv_take_nth_drop [OF j])
  have "calls u' + extra = sum_list (map calls (us[j := u'])) + k" by (simp add: us extra_def)
  then have "good (sum_list (map calls (us[j := u'])) + k) b'" using g by simp
  moreover have "\<forall>u\<in>set (us[j := u']). unit_ok u" using ok set_update_subset_insert by fastforce
  moreover have h: "concat (map held (us[j := u'])) = concat (map held (take j us)) @ held u' @ concat (map held (drop (Suc j) us))"
    by (simp add: us)
  ultimately show ?thesis using len d r unfolding crew_inv_def h left_def by auto
qed

lemma crew_move:
  assumes inv: "crew_inv S k us b" and j: "j < length us" and m: "act j a (us ! j) b = Moved (u', b')"
  shows "crew_inv S k (us[j := u']) b'" "sum_list (map work (us[j := u'])) < sum_list (map work us)"
proof -
  note C = crew_inv_split [OF inv j]
  note A = act_law [OF C(1-3,5,4) m]
  show "crew_inv S k (us[j := u']) b'"
    using inv C A by (intro crew_inv_join [OF j]) (auto simp: crew_inv_def)
  have "sum_list (map work (us[j := u'])) + work (us ! j) = sum_list (map work us) + work u'"
    using j by (induction us arbitrary: j) (auto split: nat.splits)
  then show "sum_list (map work (us[j := u'])) < sum_list (map work us)" using A by linarith
qed

lemma crew_blocked:
  assumes inv: "crew_inv S k us b" and r: "runnable act us b = []"
  shows "\<forall>u\<in>set us. ended u" "allocs b = S" "good k b"
proof -
  show e: "\<forall>u\<in>set us. ended u"
  proof (rule ccontr)
    assume "\<not> (\<forall>u\<in>set us. ended u)"
    then obtain j where j: "j < length us" "\<not> ended (us ! j)" by (auto simp: in_set_conv_nth)
    then obtain a where "act j a (us ! j) b \<noteq> Blocked" using progress inv by (fastforce simp: crew_inv_def)
    then have "(j, a) \<in> set (runnable act us b)" using j(1) by (simp add: runnable_iff)
    then show False using r by simp
  qed
  then have "concat (map held us) = []" by (auto simp: held_ended)
  then show "allocs b = S" using inv by (simp add: crew_inv_def)
  have "good (sum_list (map calls us) + k) b" using inv by (simp add: crew_inv_def)
  moreover have "sum_list (map calls us) = 0" using e by (auto simp: calls_ended)
  ultimately show "good k b" by (simp only: add_0)
qed

text \<open>Every run ends, whatever the scheduler does.\<close>

lemma crew_run_total:
  assumes "crew_inv S k us b"
  shows "\<exists>us' b' turn'. crew_run act sched us b turn = Some (us', b', turn') \<and> good k b' \<and>
    (\<forall>u\<in>set us'. ended u) \<and> allocs b' = S"
  using assms
proof (induction "sum_list (map work us)" arbitrary: us b turn rule: less_induct)
  case less
  show ?case
  proof (cases "runnable act us b = []")
    case True
    then show ?thesis using less.prems crew_blocked [OF less.prems True] by (subst crew_run.simps) simp
  next
    case False
    let ?es = "runnable act us b"
    obtain j a where e: "?es ! (sched turn mod length ?es) = (j, a)" by fastforce
    note P = runnable_pick [OF False e]
    obtain u' b' where m: "act j a (us ! j) b = Moved (u', b')"
      using P(2) act_total crew_inv_split [OF less.prems P(1)] by (cases "act j a (us ! j) b") auto
    have "crew_run act sched us b turn = crew_run act sched (us[j := u']) b' (Suc turn)"
      using False e m by (subst crew_run.simps) (simp add: Let_def)
    then show ?thesis using less.hyps [OF crew_move(2,1) [OF less.prems P(1) m]] by simp
  qed
qed

text \<open>With room for the demand of all units, no thread fails.\<close>

lemma held_demand:
  assumes "\<forall>u\<in>set us. unit_ok u"
  shows "mset (map snd (concat (map held us))) \<subseteq># repeat_mset (length us) share"
  using assms
proof (induction us)
  case Nil
  then show ?case by simp
next
  case (Cons u us)
  then show ?case using held_share [of u] by (simp add: subset_mset.add_mono)
qed

lemma demand_distinct: "distinct xs \<Longrightarrow> demand (set xs) = mset (map snd xs)"
  by (simp add: demand_def mset_set_set)

lemma others_demand:
  assumes inv: "crew_inv {} k us b" and j: "j < length us"
  shows "demand (allocs b - set (held (us ! j))) + share \<subseteq># repeat_mset N share"
proof -
  note C = crew_inv_split [OF inv j]
  let ?others = "take j us @ drop (Suc j) us"
  have "allocs b - set (held (us ! j)) = set (concat (map held ?others))" using C(6,8) by auto
  moreover have "distinct (concat (map held ?others))" using C(7) by simp
  ultimately have "demand (allocs b - set (held (us ! j))) = mset (map snd (concat (map held ?others)))" by (simp only: demand_distinct)
  moreover have "\<forall>u\<in>set ?others. unit_ok u" using inv by (auto simp: crew_inv_def dest: in_set_takeD in_set_dropD)
  moreover have "Suc (length ?others) = N" using inv j by (simp add: crew_inv_def)
  ultimately show ?thesis using held_demand [of ?others] by (metis repeat_mset_Suc subset_mset.add_mono subset_mset.order_refl add.commute)
qed

lemma crew_run_fine:
  assumes "crew_inv {} k us b" "\<forall>u\<in>set us. fine u" "roomy (repeat_mset N share) b"
    "crew_run act sched us b turn = Some (us', b', turn')"
  shows "(\<forall>u\<in>set us'. fine u) \<and> roomy (repeat_mset N share) b'"
  using assms
proof (induction "sum_list (map work us)" arbitrary: us b turn rule: less_induct)
  case less
  show ?case
  proof (cases "runnable act us b = []")
    case True
    then show ?thesis using less.prems by (subst (asm) crew_run.simps) simp
  next
    case False
    let ?es = "runnable act us b"
    obtain j a where e: "?es ! (sched turn mod length ?es) = (j, a)" by fastforce
    note P = runnable_pick [OF False e] and C = crew_inv_split [OF less.prems(1)]
    obtain u1 b1 where m: "act j a (us ! j) b = Moved (u1, b1)"
      using P(2) act_total C [OF P(1)] by (cases "act j a (us ! j) b") auto
    have run: "crew_run act sched (us[j := u1]) b1 (Suc turn) = Some (us', b', turn')"
      using less.prems(4) False e m by (subst (asm) crew_run.simps) (simp add: Let_def)
    have f: "fine u1" "roomy (repeat_mset N share) b1"
      using act_law(7) [OF C(1-3,5,4) [OF P(1)] m _ less.prems(3) others_demand [OF less.prems(1) P(1)]] less.prems(2) P(1) by auto
    have "\<forall>u\<in>set (us[j := u1]). fine u" using less.prems(2) f(1) set_update_subset_insert by fastforce
    from less.hyps [OF crew_move(2,1) [OF less.prems(1) P(1) m] this f(2) run] show ?thesis .
  qed
qed

end

end
