(* ===== verification/Bench_Threads.thy ===== *)
theory Bench_Threads
  imports Bench_Crew
begin

text \<open>
  The workers of \<open>concurrent_large_4x\<close> and the pairs of \<open>long_lived_handoff\<close>
  (\<^verbatim>\<open>src/bench/src/lib.rs\<close>) as units of a crew, for any allocator with one handle per thread.
\<close>

section \<open>Threads\<close>

text \<open>
  A state is the point in the loop of the closure at which the thread waits, with the number
  of iterations that follow; the last state is the result of the closure.
\<close>

datatype worker = Churning nat | Holding nat addr | Worker_done "BenchError + unit"

datatype producer = Producing nat | Sending nat addr | Producer_done "BenchError + unit"

datatype consumer = Receiving nat | Releasing nat addr | Consumer_done "BenchError + unit"

definition worker_act ::
    "(nat \<Rightarrow> usize \<Rightarrow> ('b, addr) io) \<Rightarrow> (nat \<Rightarrow> addr \<Rightarrow> usize \<Rightarrow> ('b, unit) io) \<Rightarrow> usize \<Rightarrow> (worker, 'b) act" where
  "worker_act allocate deallocate sz j a w b =
     (if a then Blocked
      else case w of
          Churning 0 \<Rightarrow> Moved (Worker_done (Inr ()), b)
        | Churning (Suc n) \<Rightarrow>
            (case allocate j sz b of
               None \<Rightarrow> Panicked
             | Some (Inl e, b') \<Rightarrow> Moved (Worker_done (Inl e), b')
             | Some (Inr ptr, b') \<Rightarrow> Moved (Holding n ptr, b'))
        | Holding n ptr \<Rightarrow>
            (case deallocate j ptr sz b of
               None \<Rightarrow> Panicked
             | Some (Inl e, b') \<Rightarrow> Moved (Worker_done (Inl e), b')
             | Some (Inr u, b') \<Rightarrow> Moved (Churning n, b'))
        | Worker_done r \<Rightarrow> Blocked)"

text \<open>
  The channel has no buffer: \<open>send\<close> returns when the receiver takes the message, which is one
  move of both threads. A thread that has returned has dropped its end of the channel.
\<close>

definition send_failed :: BenchError where
  "send_failed = ThreadFailed ''send failed: sending on a closed channel''"

definition receive_failed :: BenchError where
  "receive_failed = ThreadFailed ''receive failed: receiving on a closed channel''"

definition produce :: "('b, addr) io \<Rightarrow> producer \<times> consumer \<Rightarrow> 'b \<Rightarrow> ((producer \<times> consumer) \<times> 'b) attempt" where
  "produce allocate u b = (case u of (p, c) \<Rightarrow>
     (case p of
        Producing 0 \<Rightarrow> Moved ((Producer_done (Inr ()), c), b)
      | Producing (Suc n) \<Rightarrow>
          (case allocate b of
             None \<Rightarrow> Panicked
           | Some (Inl e, b') \<Rightarrow> Moved ((Producer_done (Inl e), c), b')
           | Some (Inr ptr, b') \<Rightarrow> Moved ((Sending n ptr, c), b'))
      | Sending n ptr \<Rightarrow>
          (case c of
             Receiving (Suc m) \<Rightarrow> Moved ((Producing n, Releasing m ptr), b)
           | Consumer_done r \<Rightarrow> Moved ((Producer_done (Inl send_failed), c), b)
           | _ \<Rightarrow> Blocked)
      | Producer_done r \<Rightarrow> Blocked))"

definition consume :: "(addr \<Rightarrow> ('b, unit) io) \<Rightarrow> producer \<times> consumer \<Rightarrow> 'b \<Rightarrow> ((producer \<times> consumer) \<times> 'b) attempt" where
  "consume deallocate u b = (case u of (p, c) \<Rightarrow>
     (case c of
        Receiving 0 \<Rightarrow> Moved ((p, Consumer_done (Inr ())), b)
      | Receiving (Suc m) \<Rightarrow>
          (case p of
             Producer_done r \<Rightarrow> Moved ((p, Consumer_done (Inl receive_failed)), b)
           | _ \<Rightarrow> Blocked)
      | Releasing m ptr \<Rightarrow>
          (case deallocate ptr b of
             None \<Rightarrow> Panicked
           | Some (Inl e, b') \<Rightarrow> Moved ((p, Consumer_done (Inl e)), b')
           | Some (Inr x, b') \<Rightarrow> Moved ((p, Receiving m), b'))
      | Consumer_done r \<Rightarrow> Blocked))"

text \<open>The threads of pair \<open>j\<close> are spawned as threads \<open>2 * j\<close> and \<open>2 * j + 1\<close>.\<close>

definition pair_act ::
    "(nat \<Rightarrow> usize \<Rightarrow> ('b, addr) io) \<Rightarrow> (nat \<Rightarrow> addr \<Rightarrow> usize \<Rightarrow> ('b, unit) io) \<Rightarrow> usize \<Rightarrow> (producer \<times> consumer, 'b) act" where
  "pair_act allocate deallocate sz j a u b =
     (if a then consume (\<lambda>ptr. deallocate (2 * j + 1) ptr sz) u b else produce (allocate (2 * j) sz) u b)"

section \<open>What the threads of a unit own and have left to do\<close>

fun worker_work :: "worker \<Rightarrow> nat" where
  "worker_work (Churning n) = 2 * n + 1"
| "worker_work (Holding n p) = 2 * n + 2"
| "worker_work (Worker_done r) = 0"

fun worker_calls :: "worker \<Rightarrow> nat" where
  "worker_calls (Churning n) = 2 * n"
| "worker_calls (Holding n p) = 2 * n + 1"
| "worker_calls (Worker_done r) = 0"

fun worker_held :: "usize \<Rightarrow> worker \<Rightarrow> (addr \<times> usize) list" where
  "worker_held sz (Holding n p) = [(p, sz)]"
| "worker_held sz w = []"

fun worker_ended :: "worker \<Rightarrow> bool" where
  "worker_ended (Worker_done r) = True"
| "worker_ended w = False"

fun worker_fine :: "worker \<Rightarrow> bool" where
  "worker_fine (Worker_done (Inl e)) = False"
| "worker_fine w = True"

fun producer_work :: "producer \<Rightarrow> nat" where
  "producer_work (Producing n) = 2 * n + 1"
| "producer_work (Sending n p) = 2 * n + 2"
| "producer_work (Producer_done r) = 0"

fun consumer_work :: "consumer \<Rightarrow> nat" where
  "consumer_work (Receiving n) = 2 * n + 1"
| "consumer_work (Releasing n p) = 2 * n + 2"
| "consumer_work (Consumer_done r) = 0"

fun producer_calls :: "producer \<Rightarrow> nat" where
  "producer_calls (Producing n) = n"
| "producer_calls (Sending n p) = n"
| "producer_calls (Producer_done r) = 0"

fun consumer_calls :: "consumer \<Rightarrow> nat" where
  "consumer_calls (Receiving n) = n"
| "consumer_calls (Releasing n p) = Suc n"
| "consumer_calls (Consumer_done r) = 0"

fun producer_held :: "usize \<Rightarrow> producer \<Rightarrow> (addr \<times> usize) list" where
  "producer_held sz (Sending n p) = [(p, sz)]"
| "producer_held sz w = []"

fun consumer_held :: "usize \<Rightarrow> consumer \<Rightarrow> (addr \<times> usize) list" where
  "consumer_held sz (Releasing n p) = [(p, sz)]"
| "consumer_held sz w = []"

fun producer_result :: "producer \<Rightarrow> (BenchError + unit) option" where
  "producer_result (Producer_done r) = Some r"
| "producer_result p = None"

fun consumer_result :: "consumer \<Rightarrow> (BenchError + unit) option" where
  "consumer_result (Consumer_done r) = Some r"
| "consumer_result c = None"

fun consumer_left :: "consumer \<Rightarrow> nat option" where
  "consumer_left (Receiving n) = Some n"
| "consumer_left (Releasing n p) = Some n"
| "consumer_left (Consumer_done r) = None"

definition pair_work :: "producer \<times> consumer \<Rightarrow> nat" where
  "pair_work u = producer_work (fst u) + consumer_work (snd u)"

definition pair_calls :: "producer \<times> consumer \<Rightarrow> nat" where
  "pair_calls u = producer_calls (fst u) + consumer_calls (snd u)"

definition pair_held :: "usize \<Rightarrow> producer \<times> consumer \<Rightarrow> (addr \<times> usize) list" where
  "pair_held sz u = producer_held sz (fst u) @ consumer_held sz (snd u)"

definition pair_ended :: "producer \<times> consumer \<Rightarrow> bool" where
  "pair_ended u \<longleftrightarrow> producer_result (fst u) \<noteq> None \<and> consumer_result (snd u) \<noteq> None"

definition failed_result :: "(BenchError + unit) option \<Rightarrow> bool" where
  "failed_result r = (case r of Some (Inl e) \<Rightarrow> True | _ \<Rightarrow> False)"

definition pair_fine :: "producer \<times> consumer \<Rightarrow> bool" where
  "pair_fine u \<longleftrightarrow> \<not> failed_result (producer_result (fst u)) \<and> \<not> failed_result (consumer_result (snd u))"

text \<open>
  The two loops are in step: the consumer expects as many messages as the producer will send,
  unless the producer has failed.
\<close>

definition pair_ok :: "producer \<times> consumer \<Rightarrow> bool" where
  "pair_ok u = (case u of (p, c) \<Rightarrow>
     (case p of
        Producing n \<Rightarrow> consumer_left c = Some n \<or> n = 0 \<and> c = Consumer_done (Inr ())
      | Sending n ptr \<Rightarrow> consumer_left c = Some (Suc n)
      | Producer_done (Inr x) \<Rightarrow> consumer_left c = Some 0 \<or> c = Consumer_done (Inr ())
      | Producer_done (Inl e) \<Rightarrow> (\<exists>m. consumer_left c = Some (Suc m)) \<or> (\<exists>e. c = Consumer_done (Inl e))))"

lemmas pair_defs = pair_work_def pair_calls_def pair_held_def pair_ended_def pair_fine_def pair_ok_def failed_result_def

section \<open>The units keep the contract of a crew\<close>

text \<open>An allocator with a handle for each of \<open>T\<close> threads.\<close>

locale indexed_api =
  fixes allocate :: "nat \<Rightarrow> usize \<Rightarrow> ('b, addr) io" and deallocate :: "nat \<Rightarrow> addr \<Rightarrow> usize \<Rightarrow> ('b, unit) io"
    and good :: "nat \<Rightarrow> 'b \<Rightarrow> bool" and allocs :: "'b \<Rightarrow> (addr \<times> usize) set" and roomy :: "usize multiset \<Rightarrow> 'b \<Rightarrow> bool"
    and T :: nat
  assumes api: "i < T \<Longrightarrow> reliable_api (allocate i) (deallocate i) good allocs roomy"
begin

lemmas allocation = reliable_api.axioms(1) [OF api]

lemma freed:
  assumes "i < T" "good (Suc k) b" "(p, n) \<in> allocs b"
  obtains b' where "deallocate i p n b = Some (Inr (), b')" "good k b'" "allocs b' = allocs b - {(p, n)}"
    "\<And>D. roomy D b \<Longrightarrow> roomy D b'"
  using allocation_api.deallocate_law [OF allocation [OF assms(1)] assms(2,3)] reliable_api.roomy_deallocate [OF api [OF assms(1)] assms(2) _ assms(3)]
  by metis

lemma allocated:
  assumes "i < T" "good (Suc k) b" "0 < n"
  obtains (failed) e b' where "allocate i n b = Some (Inl e, b')" "good k b'" "allocs b' = allocs b"
    "\<And>D. roomy D b \<Longrightarrow> \<not> add_mset n (demand (allocs b)) \<subseteq># D"
  | (got) p b' where "allocate i n b = Some (Inr p, b')" "good k b'" "(p, n) \<notin> allocs b" "allocs b' = insert (p, n) (allocs b)"
    "\<And>D. roomy D b \<Longrightarrow> add_mset n (demand (allocs b)) \<subseteq># D \<Longrightarrow> roomy D b'"
proof -
  note R = reliable_api.roomy_allocate [OF api [OF assms(1)] assms(2)]
  show thesis
  proof (rule allocation_api.allocate_cases [OF allocation [OF assms(1)] assms(2,3)])
    fix e b' assume f: "allocate i n b = Some (Inl e, b')" "good k b'" "allocs b' = allocs b"
    show thesis by (rule failed [OF f]) (use R f(1) in blast)
  next
    fix p b' assume g: "allocate i n b = Some (Inr p, b')" "good k b'" "(p, n) \<notin> allocs b" "allocs b' = insert (p, n) (allocs b)"
    show thesis by (rule got [OF g]) (use R g(1) in blast)
  qed
qed

end

text \<open>Workers: one thread per unit.\<close>

locale workers = indexed_api allocate deallocate good allocs roomy T
  for allocate :: "nat \<Rightarrow> usize \<Rightarrow> ('b, addr) io" and deallocate :: "nat \<Rightarrow> addr \<Rightarrow> usize \<Rightarrow> ('b, unit) io"
    and good :: "nat \<Rightarrow> 'b \<Rightarrow> bool" and allocs :: "'b \<Rightarrow> (addr \<times> usize) set" and roomy :: "usize multiset \<Rightarrow> 'b \<Rightarrow> bool"
    and T :: nat +
  fixes sz :: usize
  assumes sz: "0 < sz"
begin

lemma worker_law:
  assumes j: "j < T" and g: "good (worker_calls w + k) b" and h: "set (worker_held sz w) \<subseteq> allocs b"
  shows "case worker_act allocate deallocate sz j a w b of
      Blocked \<Rightarrow> True
    | Panicked \<Rightarrow> False
    | Moved (w', b') \<Rightarrow> True \<and> good (worker_calls w' + k) b' \<and> worker_work w' < worker_work w \<and> distinct (worker_held sz w') \<and>
        set (worker_held sz w') \<subseteq> allocs b' \<and> allocs b' - set (worker_held sz w') = allocs b - set (worker_held sz w) \<and>
        (\<forall>D. worker_fine w \<longrightarrow> roomy D b \<longrightarrow> demand (allocs b - set (worker_held sz w)) + {#sz#} \<subseteq># D \<longrightarrow> worker_fine w' \<and> roomy D b')"
proof (cases "\<exists>n. w = Churning (Suc n)")
  case True
  then obtain n where w: "w = Churning (Suc n)" ..
  have g': "good (Suc (Suc (2 * n) + k)) b" using g w by simp
  show ?thesis using j g' sz
  proof (cases rule: allocated)
    case (failed e b')
    have "good k b'" using allocation_api.good_le [OF allocation [OF j], of "Suc (2 * n)"] failed(2) by simp
    then show ?thesis using failed(1,3,4) by (auto simp: worker_act_def w)
  next
    case (got p b')
    then show ?thesis by (auto simp: worker_act_def w)
  qed
next
  case False
  show ?thesis
  proof (cases w)
    case (Churning n)
    then show ?thesis using False g by (cases n) (auto simp: worker_act_def)
  next
    case (Holding n p)
    have "good (Suc (2 * n + k)) b" "(p, sz) \<in> allocs b" using g h Holding by simp_all
    from freed [OF j this] obtain b' where "deallocate j p sz b = Some (Inr (), b')" "good (2 * n + k) b'"
      "allocs b' = allocs b - {(p, sz)}" "\<And>D. roomy D b \<Longrightarrow> roomy D b'" by blast
    then show ?thesis by (simp add: worker_act_def Holding)
  next
    case (Worker_done r)
    then show ?thesis by (simp add: worker_act_def)
  qed
qed

end

sublocale workers \<subseteq> crew_of_workers: crew "worker_act allocate deallocate sz" worker_work worker_calls "worker_held sz" "\<lambda>_. True"
  worker_ended worker_fine good allocs roomy T "{#sz#}"
proof
  fix j k b a and u :: worker
  assume "j < T" "good (worker_calls u + k) b" "set (worker_held sz u) \<subseteq> allocs b"
  from worker_law [OF this] show "case worker_act allocate deallocate sz j a u b of
      Blocked \<Rightarrow> True
    | Panicked \<Rightarrow> False
    | Moved (w', b') \<Rightarrow> True \<and> good (worker_calls w' + k) b' \<and> worker_work w' < worker_work u \<and> distinct (worker_held sz w') \<and>
        set (worker_held sz w') \<subseteq> allocs b' \<and> allocs b' - set (worker_held sz w') = allocs b - set (worker_held sz u) \<and>
        (\<forall>D. worker_fine u \<longrightarrow> roomy D b \<longrightarrow> demand (allocs b - set (worker_held sz u)) + {#sz#} \<subseteq># D \<longrightarrow> worker_fine w' \<and> roomy D b')" .
next
  fix j b and u :: worker
  assume "\<not> worker_ended u"
  then have "worker_act allocate deallocate sz j False u b \<noteq> Blocked"
    by (cases u) (auto simp: worker_act_def split: nat.splits option.splits sum.splits)
  then show "\<exists>a. worker_act allocate deallocate sz j a u b \<noteq> Blocked" ..
next
  show "worker_held sz u = []" "worker_calls u = 0" if "worker_ended u" for u using that by (cases u; simp)+
  show "mset (map snd (worker_held sz u)) \<subseteq># {#sz#}" for u by (cases u) simp_all
qed

text \<open>Pairs: a producer and a consumer.\<close>

lemma demand_remove: "finite S \<Longrightarrow> (p, n) \<in> S \<Longrightarrow> demand S = add_mset n (demand (S - {(p, n)}))"
  using demand_insert [of "S - {(p, n)}" p n] by (simp add: insert_absorb)

lemma consumer_room:
  assumes "finite S" "set (consumer_held sz c) \<subseteq> S" "demand (S - set (consumer_held sz c)) + {#sz, sz#} \<subseteq># D"
  shows "add_mset sz (demand S) \<subseteq># D"
proof (cases c)
  case (Releasing n p)
  then show ?thesis using assms demand_remove [of S p sz] by simp
qed (use assms subset_mset.order_trans [of "add_mset sz (demand S)" "add_mset sz (add_mset sz (demand S))" D] in simp_all)

locale handoff = indexed_api allocate deallocate good allocs roomy T
  for allocate :: "nat \<Rightarrow> usize \<Rightarrow> ('b, addr) io" and deallocate :: "nat \<Rightarrow> addr \<Rightarrow> usize \<Rightarrow> ('b, unit) io"
    and good :: "nat \<Rightarrow> 'b \<Rightarrow> bool" and allocs :: "'b \<Rightarrow> (addr \<times> usize) set" and roomy :: "usize multiset \<Rightarrow> 'b \<Rightarrow> bool"
    and T :: nat +
  fixes sz :: usize and pairs :: nat
  assumes sz: "0 < sz" and pairs: "2 * pairs \<le> T"
begin

definition pair_moved :: "nat \<Rightarrow> producer \<times> consumer \<Rightarrow> 'b \<Rightarrow> ((producer \<times> consumer) \<times> 'b) attempt \<Rightarrow> bool" where
  "pair_moved k u b r = (case r of
      Blocked \<Rightarrow> True
    | Panicked \<Rightarrow> False
    | Moved (u', b') \<Rightarrow> pair_ok u' \<and> good (pair_calls u' + k) b' \<and> pair_work u' < pair_work u \<and> distinct (pair_held sz u') \<and>
        set (pair_held sz u') \<subseteq> allocs b' \<and> allocs b' - set (pair_held sz u') = allocs b - set (pair_held sz u) \<and>
        (\<forall>D. pair_fine u \<longrightarrow> roomy D b \<longrightarrow> demand (allocs b - set (pair_held sz u)) + {#sz, sz#} \<subseteq># D \<longrightarrow> pair_fine u' \<and> roomy D b'))"

lemma produce_law:
  assumes i: "i < T" and ok: "pair_ok u" and g: "good (pair_calls u + k) b" and h: "set (pair_held sz u) \<subseteq> allocs b" "distinct (pair_held sz u)"
  shows "pair_moved k u b (produce (allocate i sz) u b)"
proof (cases "\<exists>n c. u = (Producing (Suc n), c)")
  case True
  then obtain n c where u: "u = (Producing (Suc n), c)" by blast
  have c: "consumer_left c = Some (Suc n)" using ok by (simp add: u pair_ok_def)
  have g': "good (Suc (n + (consumer_calls c + k))) b" using g by (simp add: u pair_calls_def ac_simps)
  have hc: "set (consumer_held sz c) \<subseteq> allocs b" "distinct (consumer_held sz c)" using h by (simp_all add: u pair_held_def)
  have room: "add_mset sz (demand (allocs b)) \<subseteq># D" if "demand (allocs b - set (consumer_held sz c)) + {#sz, sz#} \<subseteq># D" for D
    by (rule consumer_room [OF allocation_api.finite_allocs [OF allocation [OF i] g'] hc(1) that])
  show ?thesis using i g' sz
  proof (cases rule: allocated)
    case (failed e b')
    have "good (consumer_calls c + k) b'" by (rule allocation_api.good_le [OF allocation [OF i] failed(2)])
    then show ?thesis using failed(1,3,4) c hc room by (auto simp: pair_moved_def produce_def u pair_defs)
  next
    case (got p b')
    have "(p, sz) \<notin> set (consumer_held sz c)" using hc(1) got(3) by blast
    then show ?thesis using got c hc room by (auto simp: pair_moved_def produce_def u pair_defs ac_simps)
  qed
next
  case False
  obtain p c where u: "u = (p, c)" by (cases u)
  show ?thesis
  proof (cases p)
    case (Producing n)
    then have n: "n = 0" using False u by (cases n) auto
    then show ?thesis using ok g h by (auto simp: pair_moved_def produce_def u Producing pair_defs)
  next
    case (Sending n ptr)
    have left: "consumer_left c = Some (Suc n)" using ok by (simp add: u Sending pair_ok_def)
    show ?thesis
    proof (cases c)
      case (Receiving m)
      then have "m = Suc n" using left by simp
      then show ?thesis using g h by (auto simp: pair_moved_def produce_def u Sending Receiving pair_defs)
    qed (use left in \<open>simp_all add: pair_moved_def produce_def u Sending\<close>)
  next
    case (Producer_done r)
    then show ?thesis by (simp add: pair_moved_def produce_def u)
  qed
qed

lemma consume_law:
  assumes i: "i < T" and ok: "pair_ok u" and g: "good (pair_calls u + k) b" and h: "set (pair_held sz u) \<subseteq> allocs b" "distinct (pair_held sz u)"
  shows "pair_moved k u b (consume (\<lambda>ptr. deallocate i ptr sz) u b)"
proof -
  obtain p c where u: "u = (p, c)" by (cases u)
  show ?thesis
  proof (cases c)
    case (Receiving m)
    show ?thesis
    proof (cases m)
      case 0
      then show ?thesis using ok g h
        by (auto simp: pair_moved_def consume_def u Receiving pair_defs split: producer.splits sum.splits)
    next
      case (Suc n)
      have "good (m + (producer_calls p + k)) b" using g by (simp add: u Receiving pair_calls_def ac_simps)
      then have "good (producer_calls p + k) b" by (rule allocation_api.good_le [OF allocation [OF i]])
      then show ?thesis using ok h Suc
        by (cases p) (auto simp: pair_moved_def consume_def u Receiving pair_defs split: sum.splits)
    qed
  next
    case (Releasing m ptr)
    have "good (Suc (m + (producer_calls p + k))) b" "(ptr, sz) \<in> allocs b"
      using g h by (simp_all add: u Releasing pair_defs ac_simps)
    from freed [OF i this] obtain b' where d: "deallocate i ptr sz b = Some (Inr (), b')" "good (m + (producer_calls p + k)) b'"
      "allocs b' = allocs b - {(ptr, sz)}" "\<And>D. roomy D b \<Longrightarrow> roomy D b'" by blast
    have "pair_ok (p, Receiving m)" using ok by (auto simp: u Releasing pair_ok_def split: producer.splits sum.splits)
    then show ?thesis using d h by (auto simp: pair_moved_def consume_def u Releasing pair_defs ac_simps)
  next
    case (Consumer_done r)
    then show ?thesis by (simp add: pair_moved_def consume_def u)
  qed
qed

lemma pair_law:
  assumes "j < pairs" "pair_ok u" "good (pair_calls u + k) b" "set (pair_held sz u) \<subseteq> allocs b" "distinct (pair_held sz u)"
  shows "pair_moved k u b (pair_act allocate deallocate sz j a u b)"
  using produce_law [OF _ assms(2-5), of "2 * j"] consume_law [OF _ assms(2-5), of "2 * j + 1"] assms(1) pairs by (simp add: pair_act_def)

text \<open>No deadlock: a producer that sends waits for a consumer that receives, and the other way round.\<close>

lemma pair_progress:
  assumes "pair_ok u" "\<not> pair_ended u"
  shows "\<exists>a. pair_act allocate deallocate sz j a u b \<noteq> Blocked"
proof -
  obtain p c where u: "u = (p, c)" by (cases u)
  have "produce (allocate (2 * j) sz) u b \<noteq> Blocked \<or> consume (\<lambda>ptr. deallocate (2 * j + 1) ptr sz) u b \<noteq> Blocked"
    using assms by (cases p; cases c)
      (auto simp: u produce_def consume_def pair_defs split: nat.splits option.splits sum.splits)
  then show ?thesis by (metis (full_types) pair_act_def)
qed

end

sublocale handoff \<subseteq> crew_of_pairs: crew "pair_act allocate deallocate sz" pair_work pair_calls "pair_held sz" pair_ok
  pair_ended pair_fine good allocs roomy pairs "{#sz, sz#}"
proof
  show "pair_held sz u = []" "pair_calls u = 0" if "pair_ended u" for u
    using that by (cases "fst u"; cases "snd u"; simp add: pair_defs)+
  show "mset (map snd (pair_held sz u)) \<subseteq># {#sz, sz#}" for u by (cases "fst u"; cases "snd u") (simp_all add: pair_held_def)
qed (fact pair_law [unfolded pair_moved_def], fact pair_progress)

end
