(* ===== verification/Bench_Runs.thy ===== *)
theory Bench_Runs
  imports Bench_Threads
begin

text \<open>
  The workloads of \<^verbatim>\<open>src/bench/src/lib.rs\<close> from \<open>run_workload\<close> down, the measurement loop, and the
  two programs \<^verbatim>\<open>src/bench/src/main.rs\<close> and \<^verbatim>\<open>src/bench/src/bin/flamegraph.rs\<close> up to the formatting of
  their output.

  Durations are nanoseconds. \<open>Instant::elapsed\<close> saturates at zero. \<open>thread::spawn\<close> succeeds; the
  threads of a workload create their caches before the barrier, and start their loops behind it.
\<close>

section \<open>The clock\<close>

definition instant_now :: "'s harness \<Rightarrow> ('s bench_state, nat) io" where
  "instant_now hx st = Some (Inr (hx_clock hx (bs_ticks st)), st\<lparr>bs_ticks := Suc (bs_ticks st)\<rparr>)"

definition elapsed :: "'s harness \<Rightarrow> nat \<Rightarrow> ('s bench_state, nat) io" where
  "elapsed hx start = seq (instant_now hx) (\<lambda>now. ret (now - start))"

text \<open>An action of the process, in a function that also holds allocators.\<close>

definition on_process :: "('s bench_state, 'a) io \<Rightarrow> ('h \<times> 's bench_state, 'a) io" where
  "on_process f c = (case c of (h, st) \<Rightarrow> (case f st of None \<Rightarrow> None | Some (r, st') \<Rightarrow> Some (r, h, st')))"

definition timed :: "'s harness \<Rightarrow> ('h \<times> 's bench_state, unit) io \<Rightarrow> ('h \<times> 's bench_state, nat) io" where
  "timed hx body = seq (on_process (instant_now hx)) (\<lambda>start. seq body (\<lambda>_. on_process (elapsed hx start)))"

section \<open>Workloads of one thread\<close>

definition run_same_thread_small_churn :: "'s harness \<Rightarrow> AllocatorKind \<Rightarrow> usize \<Rightarrow> ('s bench_state, nat) io" where
  "run_same_thread_small_churn hx k sz =
     with_backend hx k (timed hx (repeat_io (churn_step (dyn_allocate hx) (dyn_deallocate hx) sz) (same_thread_iterations sz)))"

definition run_embedding_batch :: "'s harness \<Rightarrow> AllocatorKind \<Rightarrow> ('s bench_state, nat) io" where
  "run_embedding_batch hx k = with_backend hx k (timed hx (repeat_io
     (batch_step (dyn_allocate hx) (dyn_deallocate hx) (replicate EMBEDDING_BATCH_SIZE EMBEDDING_BYTES)) 200000))"

definition run_mixed_size_churn :: "'s harness \<Rightarrow> AllocatorKind \<Rightarrow> ('s bench_state, nat) io" where
  "run_mixed_size_churn hx k = with_backend hx k (timed hx (repeat_io
     (batch_step (dyn_allocate hx) (dyn_deallocate hx) MIXED_SIZES) 120000))"

definition run_large_path :: "'s harness \<Rightarrow> AllocatorKind \<Rightarrow> ('s bench_state, nat) io" where
  "run_large_path hx k = with_backend hx k (timed hx (repeat_io
     (churn_step (dyn_allocate hx) (dyn_deallocate hx) LARGE_REQUEST_BYTES) 1200))"

section \<open>Workloads of several threads\<close>

text \<open>What the threads share: the allocator, each with its cache; or a static allocator.\<close>

datatype team = Orthotope_team Allocator "ThreadCache list" | Raw_team RawBackend

fun spawn_caches :: "AllocatorConfig \<Rightarrow> nat \<Rightarrow> u32 \<Rightarrow> ThreadCache list \<times> u32" where
  "spawn_caches cfg 0 next_cache = ([], next_cache)"
| "spawn_caches cfg (Suc n) next_cache =
     (let (cache, next1) = ThreadCache_new cfg next_cache; (caches, next2) = spawn_caches cfg n next1
      in (cache # caches, next2))"

definition orthotope_team :: "'s harness \<Rightarrow> nat \<Rightarrow> ('s bench_state, team) io" where
  "orthotope_team hx threads st =
     (case Allocator_new (hx_os hx) default_config (bs_next_allocator st) of
        (Inl e, next_id) \<Rightarrow>
          Some (Inl (AllocFailed (''orthotope init failed: '' @ InitError_display (hx_io hx) e)), st\<lparr>bs_next_allocator := next_id\<rparr>)
      | (Inr al, next_id) \<Rightarrow>
          (let (caches, next_cache) = spawn_caches (al_config al) threads (bs_next_cache st)
           in Some (Inr (Orthotope_team al caches), st\<lparr>bs_next_allocator := next_id, bs_next_cache := next_cache\<rparr>)))"

definition team_allocate :: "'s harness \<Rightarrow> string \<Rightarrow> nat \<Rightarrow> usize \<Rightarrow> (team \<times> 's bench_state, addr) io" where
  "team_allocate hx msg i sz c = (case c of
      (Raw_team rb, st) \<Rightarrow> (let (r, st') = RawBackend_allocate hx rb sz st in Some (r, Raw_team rb, st'))
    | (Orthotope_team al caches, st) \<Rightarrow> do {
        (m, al', cache, r) \<leftarrow> allocate_with_cache (hx_debug hx) (hx_os hx) (bs_mem st) al (caches ! i) sz;
        Some (case r of Inl e \<Rightarrow> Inl (AllocFailed (msg @ AllocError_display e)) | Inr ptr \<Rightarrow> Inr ptr,
          Orthotope_team al' (caches[i := cache]), st\<lparr>bs_mem := m\<rparr>) })"

definition team_deallocate :: "'s harness \<Rightarrow> string \<Rightarrow> nat \<Rightarrow> addr \<Rightarrow> usize \<Rightarrow> (team \<times> 's bench_state, unit) io" where
  "team_deallocate hx msg i ptr sz c = (case c of
      (Raw_team rb, st) \<Rightarrow> (let (r, st') = RawBackend_deallocate hx rb ptr sz st in Some (r, Raw_team rb, st'))
    | (Orthotope_team al caches, st) \<Rightarrow> do {
        (m, al', cache, r) \<leftarrow> deallocate_with_size_checked (hx_debug hx) (hx_os hx) (bs_mem st) al (caches ! i) ptr sz;
        Some (case r of Inl e \<Rightarrow> Inl (AllocFailed (msg @ FreeError_display e)) | Inr u \<Rightarrow> Inr u,
          Orthotope_team al' (caches[i := cache]), st\<lparr>bs_mem := m\<rparr>) })"

text \<open>
  The main thread joins the threads in the order in which it started them and returns the
  first error. A thread that never ends is \<open>None\<close>.
\<close>

fun join_all :: "(BenchError + unit) option list \<Rightarrow> (BenchError + unit) run" where
  "join_all [] = Some (Inr ())"
| "join_all (None # rs) = None"
| "join_all (Some (Inl e) # rs) = Some (Inl e)"
| "join_all (Some (Inr u) # rs) = join_all rs"

definition crew_action ::
    "'s harness \<Rightarrow> ('u, team \<times> 's bench_state) act \<Rightarrow> ('u \<Rightarrow> (BenchError + unit) option list) \<Rightarrow> 'u list \<Rightarrow>
     (team \<times> 's bench_state, unit) io" where
  "crew_action hx act results us c =
     (case crew_run act (hx_sched hx) us c (bs_turns (snd c)) of
        None \<Rightarrow> None
      | Some (us', (t, st), turns) \<Rightarrow>
          (case join_all (concat (map results us')) of
             None \<Rightarrow> None
           | Some r \<Rightarrow> Some (r, t, st\<lparr>bs_turns := turns\<rparr>)))"

fun worker_result :: "worker \<Rightarrow> (BenchError + unit) option list" where
  "worker_result (Worker_done r) = [Some r]"
| "worker_result w = [None]"

definition pair_results :: "producer \<times> consumer \<Rightarrow> (BenchError + unit) option list" where
  "pair_results u = [producer_result (fst u), consumer_result (snd u)]"

text \<open>The team is dropped at the end.\<close>

definition with_team :: "('s bench_state, team) io \<Rightarrow> (team \<times> 's bench_state, 'a) io \<Rightarrow> ('s bench_state, 'a) io" where
  "with_team start f = seq start (\<lambda>t st. case f (t, st) of None \<Rightarrow> None | Some (r, _, st') \<Rightarrow> Some (r, st'))"

definition raw_team :: "AllocatorKind \<Rightarrow> ('s bench_state, team) io" where
  "raw_team k st = (case raw_backend k of None \<Rightarrow> None | Some rb \<Rightarrow> Some (Inr (Raw_team rb), st))"

definition large_workers :: "worker list" where
  "large_workers = replicate CONCURRENT_LARGE_4X_THREADS (Churning (CONCURRENT_LARGE_ITERATIONS div CONCURRENT_LARGE_4X_THREADS))"

definition run_concurrent_large_raw :: "'s harness \<Rightarrow> AllocatorKind \<Rightarrow> ('s bench_state, nat) io" where
  "run_concurrent_large_raw hx k = with_team (raw_team k) (timed hx (crew_action hx
     (worker_act (team_allocate hx []) (team_deallocate hx []) LARGE_REQUEST_BYTES) worker_result large_workers))"

definition run_concurrent_large_orthotope :: "'s harness \<Rightarrow> ('s bench_state, nat) io" where
  "run_concurrent_large_orthotope hx = with_team (orthotope_team hx CONCURRENT_LARGE_4X_THREADS) (timed hx (crew_action hx
     (worker_act (team_allocate hx ''orthotope large allocation failed: '') (team_deallocate hx ''orthotope large free failed: '')
       LARGE_REQUEST_BYTES) worker_result large_workers))"

definition run_concurrent_large_4x :: "'s harness \<Rightarrow> AllocatorKind \<Rightarrow> ('s bench_state, nat) io" where
  "run_concurrent_large_4x hx k = (if k = OrthotopeKind then run_concurrent_large_orthotope hx else run_concurrent_large_raw hx k)"

definition run_long_lived_handoff_raw :: "'s harness \<Rightarrow> AllocatorKind \<Rightarrow> nat \<Rightarrow> nat \<Rightarrow> ('s bench_state, nat) io" where
  "run_long_lived_handoff_raw hx k pair_count iterations = with_team (raw_team k) (timed hx (crew_action hx
     (pair_act (team_allocate hx []) (team_deallocate hx []) 256) pair_results
     (replicate pair_count (Producing iterations, Receiving iterations))))"

definition run_long_lived_handoff_orthotope :: "'s harness \<Rightarrow> nat \<Rightarrow> nat \<Rightarrow> ('s bench_state, nat) io" where
  "run_long_lived_handoff_orthotope hx pair_count iterations = with_team (orthotope_team hx (2 * pair_count)) (timed hx (crew_action hx
     (pair_act (team_allocate hx ''orthotope allocation failed: '') (team_deallocate hx ''orthotope deallocation failed: '') 256) pair_results
     (replicate pair_count (Producing iterations, Receiving iterations))))"

definition run_long_lived_handoff_with_pairs :: "'s harness \<Rightarrow> AllocatorKind \<Rightarrow> nat \<Rightarrow> nat \<Rightarrow> ('s bench_state, nat) io" where
  "run_long_lived_handoff_with_pairs hx k pair_count iterations =
     (if k = OrthotopeKind then run_long_lived_handoff_orthotope hx pair_count iterations
      else run_long_lived_handoff_raw hx k pair_count iterations)"

definition run_long_lived_handoff :: "'s harness \<Rightarrow> AllocatorKind \<Rightarrow> ('s bench_state, nat) io" where
  "run_long_lived_handoff hx k = run_long_lived_handoff_with_pairs hx k 1 LONG_LIVED_HANDOFF_ITERATIONS"

definition run_long_lived_handoff_4x :: "'s harness \<Rightarrow> AllocatorKind \<Rightarrow> ('s bench_state, nat) io" where
  "run_long_lived_handoff_4x hx k = run_long_lived_handoff_with_pairs hx k LONG_LIVED_HANDOFF_4X_PAIRS
     (LONG_LIVED_HANDOFF_ITERATIONS div LONG_LIVED_HANDOFF_4X_PAIRS)"

definition run_workload :: "'s harness \<Rightarrow> WorkloadKind \<Rightarrow> AllocatorKind \<Rightarrow> ('s bench_state, nat) io" where
  "run_workload hx wk k = (case wk of
      SameThreadSmallChurn sz \<Rightarrow> run_same_thread_small_churn hx k sz
    | EmbeddingBatch \<Rightarrow> run_embedding_batch hx k
    | MixedSizeChurn \<Rightarrow> run_mixed_size_churn hx k
    | LargePath \<Rightarrow> run_large_path hx k
    | ConcurrentLarge4x \<Rightarrow> run_concurrent_large_4x hx k
    | LongLivedHandoff \<Rightarrow> run_long_lived_handoff hx k
    | LongLivedHandoff4x \<Rightarrow> run_long_lived_handoff_4x hx k)"

section \<open>Measurements\<close>

primrec collect :: "('b, 'a) io \<Rightarrow> nat \<Rightarrow> 'a list \<Rightarrow> ('b, 'a list) io" where
  "collect f 0 xs = ret xs"
| "collect f (Suc n) xs = seq f (\<lambda>x. collect f n (xs @ [x]))"

text \<open>Indexing a vector out of bounds panics.\<close>

definition vec_index :: "'a list \<Rightarrow> nat \<Rightarrow> ('b, 'a) io" where
  "vec_index xs i b = (if i < length xs then Some (Inr (xs ! i), b) else None)"

definition measure_workload :: "'s harness \<Rightarrow> Workload \<Rightarrow> AllocatorKind \<Rightarrow> ('s bench_state, nat) io" where
  "measure_workload hx w k =
     (let run = run_workload hx (workload_kind w) k
      in seq (repeat_io (seq run (\<lambda>_. ret ())) WARMUP_SAMPLES) (\<lambda>_.
         seq (collect run MEASURE_SAMPLES []) (\<lambda>samples.
         let sorted = sort samples in vec_index sorted (length sorted div 2))))"

definition run_repeated_workload :: "'s harness \<Rightarrow> Workload \<Rightarrow> AllocatorKind \<Rightarrow> nat \<Rightarrow> ('s bench_state, nat) io" where
  "run_repeated_workload hx w k repetitions =
     seq (instant_now hx) (\<lambda>start.
     seq (repeat_io (seq (run_workload hx (workload_kind w) k) (\<lambda>_. ret ())) repetitions) (\<lambda>_.
     elapsed hx start))"

section \<open>The two programs\<close>

record ResultRow =
  row_workload :: string
  row_allocator :: string
  row_value :: rat
  row_unit :: TimeUnit

text \<open>\<open>Option::is_some_and\<close> of a filter: an unset variable selects everything.\<close>

definition filtered_out :: "string option \<Rightarrow> string \<Rightarrow> bool" where
  "filtered_out filt name = (case filt of None \<Rightarrow> False | Some f \<Rightarrow> name \<noteq> f)"

definition env_ok :: "environment \<Rightarrow> string \<Rightarrow> string option" where
  "env_ok env name = (case env name of Inl e \<Rightarrow> None | Inr v \<Rightarrow> Some v)"

fun kind_rows :: "'s harness \<Rightarrow> string option \<Rightarrow> Workload \<Rightarrow> AllocatorKind list \<Rightarrow> ResultRow list \<Rightarrow> ('s bench_state, ResultRow list) io" where
  "kind_rows hx allocator_filter w [] rows = ret rows"
| "kind_rows hx allocator_filter w (k # ks) rows =
     (if filtered_out allocator_filter (kind_name k) then kind_rows hx allocator_filter w ks rows
      else seq (measure_workload hx w k) (\<lambda>time.
        kind_rows hx allocator_filter w ks (rows @ [\<lparr>row_workload = workload_name w, row_allocator = kind_name k,
          row_value = per_operation time (operations w) (workload_unit w), row_unit = workload_unit w\<rparr>])))"

fun workload_rows ::
    "'s harness \<Rightarrow> string option \<Rightarrow> string option \<Rightarrow> Workload list \<Rightarrow> ResultRow list \<Rightarrow> ('s bench_state, ResultRow list) io" where
  "workload_rows hx workload_filter allocator_filter [] rows = ret rows"
| "workload_rows hx workload_filter allocator_filter (w # ws) rows =
     (if filtered_out workload_filter (workload_name w) then workload_rows hx workload_filter allocator_filter ws rows
      else seq (kind_rows hx allocator_filter w ALL_kinds rows) (\<lambda>rows'.
        workload_rows hx workload_filter allocator_filter ws rows'))"

definition harness_rows :: "'s harness \<Rightarrow> environment \<Rightarrow> ('s bench_state, ResultRow list) io" where
  "harness_rows hx env =
     workload_rows hx (env_ok env ''ORTHOTOPE_BENCH_WORKLOAD'') (env_ok env ''ORTHOTOPE_BENCH_ALLOCATOR'') workloads []"

text \<open>The flamegraph program prints its help, or the settings with the time and the time per operation.\<close>

datatype flamegraph_output = Help "string list" | Report settings nat rat

definition flamegraph_run :: "'s harness \<Rightarrow> string list \<Rightarrow> environment \<Rightarrow> ('s bench_state, flamegraph_output) io" where
  "flamegraph_run hx args env st =
     (if 1 < length args \<and> (args ! 1 = ''--help'' \<or> args ! 1 = ''-h'') then Some (Inr (Help help_lines), st)
      else case flamegraph_settings env of
          Inl e \<Rightarrow> Some (Inl e, st)
        | Inr s \<Rightarrow> seq (run_repeated_workload hx (set_workload s) (set_allocator s) (set_repetitions s)) (\<lambda>time.
            ret (Report s time (per_operation time (set_samples s) (workload_unit (set_workload s))))) st)"

text \<open>The exit status and the line on the standard error stream.\<close>

datatype ExitCode = SUCCESS | FAILURE

definition flamegraph_main :: "'s harness \<Rightarrow> string list \<Rightarrow> environment \<Rightarrow> 's bench_state \<Rightarrow> (ExitCode \<times> string list \<times> 's bench_state) run" where
  "flamegraph_main hx args env st = (case flamegraph_run hx args env st of
      None \<Rightarrow> None
    | Some (Inr out, st') \<Rightarrow> Some (SUCCESS, [], st')
    | Some (Inl e, st') \<Rightarrow> Some (FAILURE, [BenchError_display (hx_io hx) e], st'))"

section \<open>A team keeps the contract\<close>

definition team_world :: "Allocator \<Rightarrow> ThreadCache list \<Rightarrow> 's bench_state \<Rightarrow> world" where
  "team_world al caches st = \<lparr>w_mem = bs_mem st, w_al = al, w_caches = caches, w_next_id = bs_next_cache st\<rparr>"

definition team_good :: "'s harness \<Rightarrow> ('s \<Rightarrow> (addr \<times> usize) set) \<Rightarrow> AllocatorKind \<Rightarrow> nat \<Rightarrow> nat \<Rightarrow> team \<times> 's bench_state \<Rightarrow> bool" where
  "team_good hx rl kd T k c = (case c of
      (Orthotope_team al caches, st) \<Rightarrow> kd = OrthotopeKind \<and> length caches = T \<and> good_world (hx_debug hx) (hx_os hx) k (team_world al caches st)
    | (Raw_team rb, st) \<Rightarrow> client_good hx rl kd k (Raw_api rb, st))"

definition team_allocs :: "('s \<Rightarrow> (addr \<times> usize) set) \<Rightarrow> team \<times> 's bench_state \<Rightarrow> (addr \<times> usize) set" where
  "team_allocs rl c = (case c of
      (Orthotope_team al caches, st) \<Rightarrow> live_set (team_world al caches st)
    | (Raw_team rb, st) \<Rightarrow> rl (bs_raw st))"

definition team_roomy :: "nat \<Rightarrow> usize multiset \<Rightarrow> team \<times> 's bench_state \<Rightarrow> bool" where
  "team_roomy T D c = (case c of
      (Orthotope_team al caches, st) \<Rightarrow> \<exists>bs. capacity T D bs (team_world al caches st)
    | (Raw_team rb, st) \<Rightarrow> False)"

lemma team_world_simps [simp]:
  "w_mem (team_world al caches st) = bs_mem st" "w_al (team_world al caches st) = al" "w_caches (team_world al caches st) = caches"
  "updated (team_world al caches st) i m al' tc = team_world al' (caches[i := tc]) (st\<lparr>bs_mem := m\<rparr>)"
  by (simp_all add: team_world_def updated_def)

lemma team_cases:
  obtains (orthotope) al caches st where "c = (Orthotope_team al caches, st)" | (raw) rb st where "c = (Raw_team rb, st)"
  by (metis team.exhaust surj_pair)

text \<open>A static allocator behaves behind the threads as it does behind \<open>RawBackend\<close>.\<close>

lemma raw_team_calls:
  "team_allocate hx msg i n (Raw_team rb, st) = (case dyn_allocate hx n (Raw_api rb, st) of
     None \<Rightarrow> None | Some (r, _, st') \<Rightarrow> Some (r, Raw_team rb, st'))"
  "team_deallocate hx msg i p n (Raw_team rb, st) = (case dyn_deallocate hx p n (Raw_api rb, st) of
     None \<Rightarrow> None | Some (r, _, st') \<Rightarrow> Some (r, Raw_team rb, st'))"
  by (simp_all add: team_allocate_def team_deallocate_def dyn_allocate_def dyn_deallocate_def split: prod.splits)

lemma raw_api_keeps:
  "dyn_allocate hx n (Raw_api rb, st) = Some (r, c') \<Longrightarrow> \<exists>st'. c' = (Raw_api rb, st')"
  "dyn_deallocate hx p n (Raw_api rb, st) = Some (u, c') \<Longrightarrow> \<exists>st'. c' = (Raw_api rb, st')"
  by (auto simp: dyn_allocate_def dyn_deallocate_def split: prod.splits)

lemma team_allocate_law:
  assumes i: "i < T" and g: "team_good hx rl kd T (Suc k) c" and n: "0 < n"
  obtains r c' where "team_allocate hx msg i n c = Some (r, c')" "team_good hx rl kd T k c'"
    "case r of Inl e \<Rightarrow> team_allocs rl c' = team_allocs rl c
     | Inr p \<Rightarrow> (p, n) \<notin> team_allocs rl c \<and> team_allocs rl c' = insert (p, n) (team_allocs rl c)"
    "\<forall>D. team_roomy T D c \<longrightarrow> add_mset n (demand (team_allocs rl c)) \<subseteq># D \<longrightarrow> (\<exists>p. r = Inr p) \<and> team_roomy T D c'"
proof (cases c rule: team_cases)
  case (orthotope al caches st)
  let ?w = "team_world al caches st"
  have G: "good_world (hx_debug hx) (hx_os hx) (Suc k) ?w" "i < length (w_caches ?w)" and len: "length caches = T" "kd = OrthotopeKind"
    using g i by (simp_all add: team_good_def orthotope)
  obtain m al' tc x where a: "allocate_with_cache (hx_debug hx) (hx_os hx) (w_mem ?w) (w_al ?w) (w_caches ?w ! i) n = Some (m, al', tc, x)"
    "good_world (hx_debug hx) (hx_os hx) k (updated ?w i m al' tc)"
    "case x of Inl e \<Rightarrow> live_set (updated ?w i m al' tc) = live_set ?w
     | Inr p \<Rightarrow> (p, n) \<notin> live_set ?w \<and> live_set (updated ?w i m al' tc) = insert (p, n) (live_set ?w)"
    "\<forall>T D bs. capacity T D bs ?w \<longrightarrow> add_mset n (demand (live_set ?w)) \<subseteq># D \<longrightarrow> (\<exists>p. x = Inr p) \<and> capacity T D bs (updated ?w i m al' tc)"
    by (rule good_world_allocate [OF G n])
  let ?c = "(Orthotope_team al' (caches[i := tc]), st\<lparr>bs_mem := m\<rparr>)"
  let ?r = "case x of Inl e \<Rightarrow> Inl (AllocFailed (msg @ AllocError_display e)) | Inr ptr \<Rightarrow> Inr ptr"
  show ?thesis
  proof (rule that)
    show "team_allocate hx msg i n c = Some (?r, ?c)" using a(1) by (simp add: team_allocate_def orthotope)
    show "team_good hx rl kd T k ?c" using a(2) len by (simp add: team_good_def)
    show "case ?r of Inl e \<Rightarrow> team_allocs rl ?c = team_allocs rl c
       | Inr p \<Rightarrow> (p, n) \<notin> team_allocs rl c \<and> team_allocs rl ?c = insert (p, n) (team_allocs rl c)"
      using a(3) by (cases x) (simp_all add: team_allocs_def orthotope)
    show "\<forall>D. team_roomy T D c \<longrightarrow> add_mset n (demand (team_allocs rl c)) \<subseteq># D \<longrightarrow> (\<exists>p. ?r = Inr p) \<and> team_roomy T D ?c"
      using a(4) by (cases x) (fastforce simp: team_allocs_def team_roomy_def orthotope)+
  qed
next
  case (raw rb st)
  have cg: "client_good hx rl kd (Suc k) (Raw_api rb, st)" using g by (simp add: team_good_def raw)
  obtain r c' where a: "dyn_allocate hx n (Raw_api rb, st) = Some (r, c')" "client_good hx rl kd k c'"
    "case r of Inl e \<Rightarrow> client_allocs rl c' = client_allocs rl (Raw_api rb, st)
     | Inr p \<Rightarrow> (p, n) \<notin> client_allocs rl (Raw_api rb, st) \<and> client_allocs rl c' = insert (p, n) (client_allocs rl (Raw_api rb, st))"
    using backends.allocate_law [OF cg n] by blast
  obtain st' where c': "c' = (Raw_api rb, st')" using raw_api_keeps(1) [OF a(1)] by blast
  show ?thesis
    by (rule that [of r "(Raw_team rb, st')"])
      (use a in \<open>auto simp: raw c' raw_team_calls(1) team_good_def team_allocs_def client_allocs_def team_roomy_def split: sum.splits\<close>)
qed

lemma team_deallocate_law:
  assumes i: "i < T" and g: "team_good hx rl kd T (Suc k) c" and p: "(p, n) \<in> team_allocs rl c"
  obtains c' where "team_deallocate hx msg i p n c = Some (Inr (), c')" "team_good hx rl kd T k c'"
    "team_allocs rl c' = team_allocs rl c - {(p, n)}" "\<forall>D. team_roomy T D c \<longrightarrow> team_roomy T D c'"
proof (cases c rule: team_cases)
  case (orthotope al caches st)
  let ?w = "team_world al caches st"
  have G: "good_world (hx_debug hx) (hx_os hx) (Suc k) ?w" "i < length (w_caches ?w)" "(p, n) \<in> live_set ?w" and len: "length caches = T" "kd = OrthotopeKind"
    using g i p by (simp_all add: team_good_def team_allocs_def orthotope)
  obtain m al' tc where d:
    "deallocate_with_size_checked (hx_debug hx) (hx_os hx) (w_mem ?w) (w_al ?w) (w_caches ?w ! i) p n = Some (m, al', tc, Inr ())"
    "good_world (hx_debug hx) (hx_os hx) k (updated ?w i m al' tc)" "live_set (updated ?w i m al' tc) = live_set ?w - {(p, n)}"
    "\<forall>T D bs. capacity T D bs ?w \<longrightarrow> capacity T D bs (updated ?w i m al' tc)"
    by (rule good_world_free [OF G])
  show ?thesis
  proof (rule that)
    show "team_deallocate hx msg i p n c = Some (Inr (), Orthotope_team al' (caches[i := tc]), st\<lparr>bs_mem := m\<rparr>)"
      using d(1) by (simp add: team_deallocate_def orthotope)
    show "\<forall>D. team_roomy T D c \<longrightarrow> team_roomy T D (Orthotope_team al' (caches[i := tc]), st\<lparr>bs_mem := m\<rparr>)"
      using d(4) by (fastforce simp: team_roomy_def orthotope)
  qed (use d(2,3) len in \<open>simp_all add: team_good_def team_allocs_def orthotope\<close>)
next
  case (raw rb st)
  have cg: "client_good hx rl kd (Suc k) (Raw_api rb, st)" "(p, n) \<in> client_allocs rl (Raw_api rb, st)"
    using g p by (simp_all add: team_good_def team_allocs_def client_allocs_def raw)
  obtain c' where a: "dyn_deallocate hx p n (Raw_api rb, st) = Some (Inr (), c')" "client_good hx rl kd k c'"
    "client_allocs rl c' = client_allocs rl (Raw_api rb, st) - {(p, n)}"
    using backends.deallocate_law [OF cg] by blast
  obtain st' where c': "c' = (Raw_api rb, st')" using raw_api_keeps(2) [OF a(1)] by blast
  show ?thesis
    by (rule that [of "(Raw_team rb, st')"])
      (use a in \<open>auto simp: raw c' raw_team_calls(2) team_good_def team_allocs_def client_allocs_def team_roomy_def\<close>)
qed

lemma team_api:
  assumes "i < T"
  shows "reliable_api (team_allocate hx msg i) (team_deallocate hx msg' i) (team_good hx rl kd T) (team_allocs rl) (team_roomy T)"
proof
  show "finite (team_allocs rl c)" if "team_good hx rl kd T k c" for k c
    using that by (cases c rule: team_cases) (auto simp: team_good_def team_allocs_def live_set_finite client_good_def raw_contractD(1))
  show "team_good hx rl kd T k c" if "team_good hx rl kd T (Suc k) c" for k c
    using that by (cases c rule: team_cases) (auto simp: team_good_def client_good_def dest: good_world_less)
  show "\<exists>r c'. team_allocate hx msg i n c = Some (r, c') \<and> team_good hx rl kd T k c' \<and>
      (case r of Inl e \<Rightarrow> team_allocs rl c' = team_allocs rl c
       | Inr p \<Rightarrow> (p, n) \<notin> team_allocs rl c \<and> team_allocs rl c' = insert (p, n) (team_allocs rl c))"
    if "team_good hx rl kd T (Suc k) c" "0 < n" for k c n
    by (rule team_allocate_law [OF assms that, of msg]) blast
  show "\<exists>c'. team_deallocate hx msg' i p n c = Some (Inr (), c') \<and> team_good hx rl kd T k c' \<and> team_allocs rl c' = team_allocs rl c - {(p, n)}"
    if "team_good hx rl kd T (Suc k) c" "(p, n) \<in> team_allocs rl c" for k c p n
    by (rule team_deallocate_law [OF assms that, of msg']) blast
  show "(\<exists>p. r = Inr p) \<and> team_roomy T D c'"
    if "team_good hx rl kd T (Suc k) c" "team_roomy T D c" "add_mset n (demand (team_allocs rl c)) \<subseteq># D" "team_allocate hx msg i n c = Some (r, c')"
    for k D c n r c'
  proof -
    have "0 \<notin># D" using that(2) by (cases c rule: team_cases) (auto simp: team_roomy_def capacity_def)
    then have "0 < n" using that(3) by (auto simp: insert_subset_eq_iff intro: gr0I)
    from team_allocate_law [OF assms that(1) this, of msg] that(2-4) show ?thesis by fastforce
  qed
  show "team_roomy T D c'"
    if "team_good hx rl kd T (Suc k) c" "team_roomy T D c" "(p, n) \<in> team_allocs rl c" "team_deallocate hx msg' i p n c = Some (u, c')"
    for k D c p n u c'
    by (rule team_deallocate_law [OF assms that(1,3), of msg']) (use that(2,4) in auto)
qed

end
