(* ===== verification/Bench_Tasks.thy ===== *)
theory Bench_Tasks
  imports Bench_Runs
begin

text \<open>
  The workloads run to their end. Their loops are tasks, for one thread and for crews; from
  them the drivers of the harness are built.
\<close>

section \<open>Tasks of clients and of teams\<close>

abbreviation client_total :: "'s harness \<Rightarrow> ('s \<Rightarrow> (addr \<times> usize) set) \<Rightarrow> AllocatorKind \<Rightarrow> nat \<Rightarrow> ('s client, 'a) io \<Rightarrow> bool" where
  "client_total hx rl kd \<equiv> total_task (client_good hx rl kd) (client_allocs rl)"

abbreviation client_reliable :: "'s harness \<Rightarrow> ('s \<Rightarrow> (addr \<times> usize) set) \<Rightarrow> AllocatorKind \<Rightarrow> nat \<Rightarrow> usize multiset \<Rightarrow> ('s client, 'a) io \<Rightarrow> bool" where
  "client_reliable hx rl kd \<equiv> reliable_task (client_good hx rl kd) (client_allocs rl) client_roomy"

abbreviation team_total :: "'s harness \<Rightarrow> ('s \<Rightarrow> (addr \<times> usize) set) \<Rightarrow> AllocatorKind \<Rightarrow> nat \<Rightarrow> nat \<Rightarrow> (team \<times> 's bench_state, 'a) io \<Rightarrow> bool" where
  "team_total hx rl kd T \<equiv> total_task (team_good hx rl kd T) (team_allocs rl)"

abbreviation team_reliable ::
    "'s harness \<Rightarrow> ('s \<Rightarrow> (addr \<times> usize) set) \<Rightarrow> AllocatorKind \<Rightarrow> nat \<Rightarrow> nat \<Rightarrow> usize multiset \<Rightarrow> (team \<times> 's bench_state, 'a) io \<Rightarrow> bool" where
  "team_reliable hx rl kd T \<equiv> reliable_task (team_good hx rl kd T) (team_allocs rl) (team_roomy T)"

text \<open>Reading the clock touches nothing that an allocator uses.\<close>

lemma timed_eq: "timed hx f (h, st) = (case f (h, st\<lparr>bs_ticks := Suc (bs_ticks st)\<rparr>) of
    None \<Rightarrow> None
  | Some (Inl e, c) \<Rightarrow> Some (Inl e, c)
  | Some (Inr u, h', st') \<Rightarrow>
      Some (Inr (hx_clock hx (bs_ticks st') - hx_clock hx (bs_ticks st)), h', st'\<lparr>bs_ticks := Suc (bs_ticks st')\<rparr>))"
  by (simp add: timed_def seq_def on_process_def instant_now_def elapsed_def ret_def split: option.splits sum.splits)

lemma clock_world [simp]:
  "world_of ob (st\<lparr>bs_ticks := n\<rparr>) = world_of ob st" "team_world al tcs (st\<lparr>bs_ticks := n\<rparr>) = team_world al tcs st"
  "team_world al tcs (st\<lparr>bs_turns := n\<rparr>) = team_world al tcs st"
  by (simp_all add: world_of_def team_world_def)

lemma clock_client [simp]:
  "client_good hx rl kd k (h, st\<lparr>bs_ticks := n\<rparr>) = client_good hx rl kd k (h, st)"
  "client_allocs rl (h, st\<lparr>bs_ticks := n\<rparr>) = client_allocs rl (h, st)"
  "client_roomy D (h, st\<lparr>bs_ticks := n\<rparr>) = client_roomy D (h, st)"
  by (cases h; simp add: client_good_def client_allocs_def client_roomy_def)+

lemma clock_team [simp]:
  "team_good hx rl kd T k (t, st\<lparr>bs_ticks := n\<rparr>) = team_good hx rl kd T k (t, st)"
  "team_allocs rl (t, st\<lparr>bs_ticks := n\<rparr>) = team_allocs rl (t, st)"
  "team_roomy T D (t, st\<lparr>bs_ticks := n\<rparr>) = team_roomy T D (t, st)"
  "team_good hx rl kd T k (t, st\<lparr>bs_turns := n\<rparr>) = team_good hx rl kd T k (t, st)"
  "team_allocs rl (t, st\<lparr>bs_turns := n\<rparr>) = team_allocs rl (t, st)"
  "team_roomy T D (t, st\<lparr>bs_turns := n\<rparr>) = team_roomy T D (t, st)"
  by (cases t; simp add: team_good_def team_allocs_def team_roomy_def client_good_def)+

lemma timed_task:
  assumes "total_task good allocs K f"
    and "\<And>k h st n. good k (h, st\<lparr>bs_ticks := n\<rparr>) = good k (h, st)" "\<And>h st n. allocs (h, st\<lparr>bs_ticks := n\<rparr>) = allocs (h, st)"
  shows "total_task good allocs K (timed hx f)"
  unfolding total_task_def
proof (intro allI impI)
  fix k b
  assume g: "good (K + k) b"
  obtain h st where b: "b = (h, st)" by (cases b)
  have "good (K + k) (h, st\<lparr>bs_ticks := Suc (bs_ticks st)\<rparr>)" using g by (simp add: b assms(2))
  from total_taskD [OF assms(1) this] obtain r c where
    r: "f (h, st\<lparr>bs_ticks := Suc (bs_ticks st)\<rparr>) = Some (r, c)" "good k c" "(\<exists>x. r = Inr x) \<longrightarrow> allocs c = allocs b"
    by (metis assms(3) b)
  then show "\<exists>r b'. timed hx f b = Some (r, b') \<and> good k b' \<and> ((\<exists>x. r = Inr x) \<longrightarrow> allocs b' = allocs b)"
    by (cases r; cases c) (simp_all add: b timed_eq assms(2,3))
qed

lemma timed_reliable:
  assumes "reliable_task good allocs roomy K D f"
    and "\<And>k h st n. good k (h, st\<lparr>bs_ticks := n\<rparr>) = good k (h, st)" "\<And>h st n. allocs (h, st\<lparr>bs_ticks := n\<rparr>) = allocs (h, st)"
    "\<And>D h st n. roomy D (h, st\<lparr>bs_ticks := n\<rparr>) = roomy D (h, st)"
  shows "reliable_task good allocs roomy K D (timed hx f)"
  unfolding reliable_task_def
proof (intro allI impI)
  fix k b
  assume g: "good (K + k) b" "roomy D b" "allocs b = {}"
  obtain h st where b: "b = (h, st)" by (cases b)
  let ?b = "(h, st\<lparr>bs_ticks := Suc (bs_ticks st)\<rparr>)"
  have "good (K + k) ?b" "roomy D ?b" "allocs ?b = {}" using g by (simp_all add: b assms(2-4))
  from reliable_taskD [OF assms(1) this] obtain x c where r: "f ?b = Some (Inr x, c)" "good k c" "roomy D c" "allocs c = {}" by blast
  then show "\<exists>x b'. timed hx f b = Some (Inr x, b') \<and> good k b' \<and> roomy D b' \<and> allocs b' = {}"
    by (cases c) (simp add: b timed_eq assms(2-4))
qed

section \<open>Crews\<close>

interpretation large_crew: workers "team_allocate hx msg" "team_deallocate hx msg'" "team_good hx rl kd T" "team_allocs rl" "team_roomy T" T LARGE_REQUEST_BYTES
  for hx :: "'s harness" and msg msg' rl kd T
  by (intro workers.intro indexed_api.intro workers_axioms.intro team_api) (simp_all add: LARGE_REQUEST_BYTES_def)

interpretation handoff_crew: handoff "team_allocate hx msg" "team_deallocate hx msg'" "team_good hx rl kd (2 * n)" "team_allocs rl"
    "team_roomy (2 * n)" "2 * n" 256 n
  for hx :: "'s harness" and msg msg' rl kd n
  by (intro handoff.intro indexed_api.intro handoff_axioms.intro team_api) simp_all

lemma join_all_ended: "None \<notin> set rs \<Longrightarrow> \<exists>r. join_all rs = Some r"
  by (induction rs rule: join_all.induct) auto

lemma join_all_fine: "\<forall>r\<in>set rs. r = Some (Inr ()) \<Longrightarrow> join_all rs = Some (Inr ())"
  by (induction rs) simp_all

lemma crew_action_eq:
  assumes "crew_run act (hx_sched hx) us c (bs_turns (snd c)) = Some (us', c', turns)" "join_all (concat (map results us')) = Some r"
  shows "crew_action hx act results us c = Some (r, fst c', (snd c')\<lparr>bs_turns := turns\<rparr>)"
  using assms by (cases c') (simp add: crew_action_def)

abbreviation large_action :: "'s harness \<Rightarrow> string \<Rightarrow> string \<Rightarrow> nat \<Rightarrow> nat \<Rightarrow> (team \<times> 's bench_state, unit) io" where
  "large_action hx msg msg' T n \<equiv> crew_action hx (worker_act (team_allocate hx msg) (team_deallocate hx msg') LARGE_REQUEST_BYTES)
     worker_result (replicate T (Churning n))"

abbreviation handoff_action :: "'s harness \<Rightarrow> string \<Rightarrow> string \<Rightarrow> nat \<Rightarrow> nat \<Rightarrow> (team \<times> 's bench_state, unit) io" where
  "handoff_action hx msg msg' pairs n \<equiv> crew_action hx (pair_act (team_allocate hx msg) (team_deallocate hx msg') 256)
     pair_results (replicate pairs (Producing n, Receiving n))"

lemma worker_results: "worker_ended w \<Longrightarrow> None \<notin> set (worker_result w)" "worker_ended w \<Longrightarrow> worker_fine w \<Longrightarrow> worker_result w = [Some (Inr ())]"
proof -
  show "None \<notin> set (worker_result w)" if "worker_ended w" using that by (cases w) simp_all
  show "worker_result w = [Some (Inr ())]" if e: "worker_ended w" and f: "worker_fine w"
  proof (cases w)
    case (Worker_done r)
    then show ?thesis using f by (cases r) simp_all
  qed (use e in simp_all)
qed

lemma pair_result_list: "pair_ended u \<Longrightarrow> None \<notin> set (pair_results u)"
  "pair_ended u \<Longrightarrow> pair_fine u \<Longrightarrow> set (pair_results u) = {Some (Inr ())}"
  by (auto simp: pair_results_def pair_defs split: option.splits sum.splits)

text \<open>A crew of a team is a task, for each kind of unit.\<close>

lemma crew_outcome:
  assumes crew: "crew act work calls held unit_ok ended fine (team_good hx rl kd T) (team_allocs rl) (team_roomy T) N share"
    and start: "unit_ok u" "fine u" "held u = []" and good: "team_good hx rl kd T (N * calls u + k) c"
  obtains us' c' turns where "crew_run act sched (replicate N u) c turn = Some (us', c', turns)" "team_good hx rl kd T k c'"
    "\<forall>v\<in>set us'. ended v" "team_allocs rl c' = team_allocs rl c"
    "team_allocs rl c = {} \<Longrightarrow> team_roomy T (repeat_mset N share) c \<Longrightarrow> (\<forall>v\<in>set us'. fine v) \<and> team_roomy T (repeat_mset N share) c'"
proof -
  have inv: "crew.crew_inv calls held unit_ok (team_good hx rl kd T) (team_allocs rl) N (team_allocs rl c) k (replicate N u) c"
    using good start by (simp add: crew.crew_inv_def [OF crew] map_replicate_const sum_list_replicate)
  obtain us' c' turns where R: "crew_run act sched (replicate N u) c turn = Some (us', c', turns)" "team_good hx rl kd T k c'"
    "\<forall>v\<in>set us'. ended v" "team_allocs rl c' = team_allocs rl c"
    using crew.crew_run_total [OF crew inv] by blast
  show thesis
  proof (rule that [OF R])
    assume e: "team_allocs rl c = {}" "team_roomy T (repeat_mset N share) c"
    show "(\<forall>v\<in>set us'. fine v) \<and> team_roomy T (repeat_mset N share) c'"
      by (rule crew.crew_run_fine [OF crew inv [unfolded e(1)] _ e(2) R(1)]) (simp add: start(2))
  qed
qed

lemma crew_task:
  assumes crew: "crew act work calls held unit_ok ended fine (team_good hx rl kd T) (team_allocs rl) (team_roomy T) N share"
    and ended: "\<And>u. ended u \<Longrightarrow> None \<notin> set (results u)" "\<And>u. ended u \<Longrightarrow> fine u \<Longrightarrow> \<forall>r\<in>set (results u). r = Some (Inr ())"
    and start: "unit_ok u" "fine u" "held u = []"
  shows "team_total hx rl kd T (N * calls u) (crew_action hx act results (replicate N u))"
    "team_reliable hx rl kd T (N * calls u) (repeat_mset N share) (crew_action hx act results (replicate N u))"
proof -
  show "team_total hx rl kd T (N * calls u) (crew_action hx act results (replicate N u))"
    unfolding total_task_def
  proof (intro allI impI)
    fix k c
    assume g: "team_good hx rl kd T (N * calls u + k) c"
    obtain us' c' turns where R: "crew_run act (hx_sched hx) (replicate N u) c (bs_turns (snd c)) = Some (us', c', turns)"
      "team_good hx rl kd T k c'" "\<forall>v\<in>set us'. ended v" "team_allocs rl c' = team_allocs rl c"
      by (rule crew_outcome [OF crew start g])
    have "None \<notin> set (concat (map results us'))" using R(3) ended(1) by auto
    then obtain r where r: "join_all (concat (map results us')) = Some r" using join_all_ended by blast
    show "\<exists>r b'. crew_action hx act results (replicate N u) c = Some (r, b') \<and> team_good hx rl kd T k b' \<and>
        ((\<exists>x. r = Inr x) \<longrightarrow> team_allocs rl b' = team_allocs rl c)"
      using crew_action_eq [of act hx, OF R(1) r] R(2,4) by simp
  qed
  show "team_reliable hx rl kd T (N * calls u) (repeat_mset N share) (crew_action hx act results (replicate N u))"
    unfolding reliable_task_def
  proof (intro allI impI)
    fix k c
    assume a: "team_good hx rl kd T (N * calls u + k) c" "team_roomy T (repeat_mset N share) c" "team_allocs rl c = {}"
    obtain us' c' turns where R: "crew_run act (hx_sched hx) (replicate N u) c (bs_turns (snd c)) = Some (us', c', turns)"
      "team_good hx rl kd T k c'" "\<forall>v\<in>set us'. ended v" "team_allocs rl c' = {}" "\<forall>v\<in>set us'. fine v" "team_roomy T (repeat_mset N share) c'"
      by (rule crew_outcome [OF crew start a(1)]) (use a(2,3) in auto)
    have "\<forall>r\<in>set (concat (map results us')). r = Some (Inr ())" using R(3,5) ended(2) by auto
    from crew_action_eq [of act hx, OF R(1) join_all_fine [OF this]] R(2,4,6)
    show "\<exists>x b'. crew_action hx act results (replicate N u) c = Some (Inr x, b') \<and> team_good hx rl kd T k b' \<and>
        team_roomy T (repeat_mset N share) b' \<and> team_allocs rl b' = {}" by simp
  qed
qed

lemma large_task:
  "team_total hx rl kd T (T * (2 * n)) (large_action hx msg msg' T n)"
  "team_reliable hx rl kd T (T * (2 * n)) (repeat_mset T {#LARGE_REQUEST_BYTES#}) (large_action hx msg msg' T n)"
  using crew_task [OF large_crew.crew_of_workers.crew_axioms, where u = "Churning n" and results = worker_result] worker_results by simp_all

lemma pair_start:
  "pair_calls (Producing n, Receiving n) = 2 * n" "pair_ok (Producing n, Receiving n)" "pair_fine (Producing n, Receiving n)"
  "pair_held 256 (Producing n, Receiving n) = []"
  by (simp_all add: pair_defs)

lemma handoff_task:
  "team_total hx rl kd (2 * pairs) (pairs * (2 * n)) (handoff_action hx msg msg' pairs n)"
  "team_reliable hx rl kd (2 * pairs) (pairs * (2 * n)) (repeat_mset pairs {#256, 256#}) (handoff_action hx msg msg' pairs n)"
proof -
  note C = crew_task [OF handoff_crew.crew_of_pairs.crew_axioms pair_result_list(1) _ pair_start(2-4), unfolded pair_start(1)]
  show "team_total hx rl kd (2 * pairs) (pairs * (2 * n)) (handoff_action hx msg msg' pairs n)"
    "team_reliable hx rl kd (2 * pairs) (pairs * (2 * n)) (repeat_mset pairs {#256, 256#}) (handoff_action hx msg msg' pairs n)"
    by (rule C; use pair_result_list(2) in auto)+
qed

section \<open>New allocators\<close>

text \<open>The arena of the default configuration holds the demand \<open>D\<close> of \<open>T\<close> threads, with large blocks of size \<open>bs\<close>.\<close>

definition arena_holds :: "nat \<Rightarrow> usize multiset \<Rightarrow> usize \<Rightarrow> bool" where
  "arena_holds T D bs \<longleftrightarrow> 0 \<notin># D \<and> one_large_size default_config D bs \<and>
     small_room default_config T D (\<lambda>_. 0) + large_room default_config D 0 bs \<le> arena_size default_config"

definition arena_maps :: "'s harness \<Rightarrow> bool" where
  "arena_maps hx \<longleftrightarrow> os_ok (hx_os hx) \<and> (\<exists>a. Arena_new (hx_os hx) default_config = Inr a)"

lemma Allocator_new_default:
  assumes "arena_maps hx"
  obtains al next_id where "Allocator_new (hx_os hx) default_config i = (Inr al, next_id)" "al_config al = default_config"
proof -
  have "validate_allocator_config default_config = Inr ()"
    by (simp add: validate_allocator_config_def default_config_def BLOCK_ALIGNMENT_def HEADER_ALIGNMENT_def)
  then show thesis using assms that by (auto simp: arena_maps_def Allocator_new_def)
qed

lemma spawn_caches_new:
  "spawn_caches cfg n i = (tcs, j) \<Longrightarrow> length tcs = n \<and> (\<forall>tc\<in>set tcs. \<exists>i i'. ThreadCache_new cfg i = (tc, i'))"
  by (induction n arbitrary: i tcs j) (fastforce split: prod.splits)+

lemma new_backend:
  assumes "arena_maps hx"
  obtains ob st' where "OrthotopeBackend_new hx st = (Inr ob, st')" "\<And>k. 4 * k < 2 ^ 63 \<Longrightarrow> client_good hx rl OrthotopeKind k (Orthotope_api ob, st')"
    "client_allocs rl (Orthotope_api ob, st') = {}" "\<And>D bs. arena_holds 1 D bs \<Longrightarrow> client_roomy D (Orthotope_api ob, st')"
proof -
  have os: "os_ok (hx_os hx)" using assms by (simp add: arena_maps_def)
  obtain al i' where al: "Allocator_new (hx_os hx) default_config (bs_next_allocator st) = (Inr al, i')"
    by (rule Allocator_new_default [OF assms])
  obtain tc j where tc: "ThreadCache_new default_config (bs_next_cache st) = (tc, j)" by fastforce
  let ?ob = "\<lparr>ob_allocator = al, ob_cache = tc\<rparr>" and ?st = "st\<lparr>bs_next_allocator := i', bs_next_cache := j\<rparr>"
  have new: "\<forall>x\<in>set [tc]. \<exists>i i'. ThreadCache_new default_config i = (x, i')" using tc by auto
  note G = good_world_initial [OF al os new, where m = "bs_mem st" and nid = j]
  have w: "world_of ?ob ?st = \<lparr>w_mem = bs_mem st, w_al = al, w_caches = [tc], w_next_id = j\<rparr>" by (simp add: world_of_def)
  show thesis
  proof (rule that)
    show "OrthotopeBackend_new hx st = (Inr ?ob, ?st)" using al tc by (simp add: OrthotopeBackend_new_def)
    show "client_good hx rl OrthotopeKind k (Orthotope_api ?ob, ?st)" if "4 * k < 2 ^ 63" for k using G(1) [OF that] by (simp add: client_good_def backend_kind_def w)
    show "client_allocs rl (Orthotope_api ?ob, ?st) = {}" using G(2) [of 0] by (simp add: client_allocs_def w)
    show "client_roomy D (Orthotope_api ?ob, ?st)" if "arena_holds 1 D bs" for D bs
      using that os capacity_initial [OF al, of "world_of ?ob ?st" 1 D bs]
      by (auto simp: client_roomy_def arena_holds_def os_ok_def)
  qed
qed

lemma new_team:
  assumes "arena_maps hx"
  obtains t st' where "orthotope_team hx T st = Some (Inr t, st')" "\<And>k. 4 * k < 2 ^ 63 \<Longrightarrow> team_good hx rl OrthotopeKind T k (t, st')"
    "team_allocs rl (t, st') = {}" "\<And>D bs. arena_holds T D bs \<Longrightarrow> team_roomy T D (t, st')"
proof -
  have os: "os_ok (hx_os hx)" using assms by (simp add: arena_maps_def)
  obtain al i' where al: "Allocator_new (hx_os hx) default_config (bs_next_allocator st) = (Inr al, i')" "al_config al = default_config"
    by (rule Allocator_new_default [OF assms])
  obtain tcs j where tc: "spawn_caches default_config T (bs_next_cache st) = (tcs, j)" by fastforce
  let ?st = "st\<lparr>bs_next_allocator := i', bs_next_cache := j\<rparr>"
  note S = spawn_caches_new [OF tc]
  note G = good_world_initial [OF al(1) os conjunct2 [OF S], where m = "bs_mem st" and nid = j]
  have w: "team_world al tcs ?st = \<lparr>w_mem = bs_mem st, w_al = al, w_caches = tcs, w_next_id = j\<rparr>" by (simp add: team_world_def)
  show thesis
  proof (rule that)
    show "orthotope_team hx T st = Some (Inr (Orthotope_team al tcs), ?st)" using al tc by (simp add: orthotope_team_def)
    show "team_good hx rl OrthotopeKind T k (Orthotope_team al tcs, ?st)" if "4 * k < 2 ^ 63" for k using G(1) [OF that] S by (simp add: team_good_def w)
    show "team_allocs rl (Orthotope_team al tcs, ?st) = {}" using G(2) [of 0] by (simp add: team_allocs_def w)
    show "team_roomy T D (Orthotope_team al tcs, ?st)" if "arena_holds T D bs" for D bs
      using that os S capacity_initial [OF al(1), of "team_world al tcs ?st" T D bs]
      by (auto simp: team_roomy_def arena_holds_def os_ok_def)
  qed
qed

text \<open>The drivers: a reliable task on a new allocator returns a result.\<close>

lemma with_backend_reliable:
  assumes "arena_maps hx" "client_reliable hx rl OrthotopeKind K D f" "arena_holds 1 D bs" "4 * K < 2 ^ 63"
  shows "\<exists>x st'. with_backend hx OrthotopeKind (timed hx f) st = Some (Inr x, st')"
proof -
  obtain ob st1 where n: "OrthotopeBackend_new hx st = (Inr ob, st1)" "client_good hx rl OrthotopeKind (K + 0) (Orthotope_api ob, st1)"
    "client_allocs rl (Orthotope_api ob, st1) = {}" "client_roomy D (Orthotope_api ob, st1)"
    by (rule new_backend [OF assms(1), of st rl]) (use assms(3,4) in simp)
  have "client_reliable hx rl OrthotopeKind K D (timed hx f)" by (rule timed_reliable [OF assms(2)]) simp_all
  from reliable_taskD [OF this n(2,4,3)] obtain x c where "timed hx f (Orthotope_api ob, st1) = Some (Inr x, c)" by blast
  then show ?thesis using n(1) by (cases c) (simp add: with_backend_def)
qed

lemma with_team_reliable:
  assumes "arena_maps hx" "team_reliable hx rl OrthotopeKind T K D f" "arena_holds T D bs" "4 * K < 2 ^ 63"
  shows "\<exists>x st'. with_team (orthotope_team hx T) (timed hx f) st = Some (Inr x, st')"
proof -
  obtain t st1 where n: "orthotope_team hx T st = Some (Inr t, st1)" "team_good hx rl OrthotopeKind T (K + 0) (t, st1)"
    "team_allocs rl (t, st1) = {}" "team_roomy T D (t, st1)"
    by (rule new_team [OF assms(1), of T st rl]) (use assms(3,4) in simp)
  have "team_reliable hx rl OrthotopeKind T K D (timed hx f)" by (rule timed_reliable [OF assms(2)]) simp_all
  from reliable_taskD [OF this n(2,4,3)] obtain x c where "timed hx f (t, st1) = Some (Inr x, c)" by blast
  then show ?thesis using n(1) by (cases c) (simp add: with_team_def)
qed

text \<open>A total task on a static allocator returns, and unless it fails nothing is leaked.\<close>

definition raw_ready :: "'s harness \<Rightarrow> ('s \<Rightarrow> (addr \<times> usize) set) \<Rightarrow> AllocatorKind \<Rightarrow> 's bench_state \<Rightarrow> bool" where
  "raw_ready hx rl k st \<longleftrightarrow> k \<noteq> OrthotopeKind \<and> raw_contract (hx_raw hx k) rl \<and> (\<forall>(p, n)\<in>rl (bs_raw st). from_size_align n ALIGNMENT \<noteq> None)"

lemma with_backend_total:
  assumes "raw_ready hx rl k st" "client_total hx rl k K f"
  shows "\<exists>r st'. with_backend hx k (timed hx f) st = Some (r, st') \<and> ((\<exists>x. r = Inr x) \<longrightarrow> rl (bs_raw st') = rl (bs_raw st))"
proof -
  let ?c = "(Raw_api \<lparr>raw_allocator = k\<rparr>, st)"
  have g: "client_good hx rl k (K + 0) ?c" using assms(1) by (simp add: client_good_def backend_kind_def raw_ready_def)
  have "client_total hx rl k K (timed hx f)" by (rule timed_task [OF assms(2)]) simp_all
  from total_taskD [OF this g] obtain r h st' where r: "timed hx f ?c = Some (r, h, st')" "client_good hx rl k 0 (h, st')"
    "(\<exists>x. r = Inr x) \<longrightarrow> client_allocs rl (h, st') = client_allocs rl ?c" by (metis surj_pair)
  obtain rb where h: "h = Raw_api rb" using r(2) assms(1) by (cases h) (auto simp: client_good_def backend_kind_def raw_ready_def)
  have "with_backend hx k (timed hx f) st = Some (r, st')"
    using r(1) assms(1) by (cases k) (simp_all add: with_backend_def raw_backend_def raw_ready_def)
  then show ?thesis using r(3) by (simp add: client_allocs_def h)
qed

lemma with_team_total:
  assumes "raw_ready hx rl k st" "team_total hx rl k T K f"
  shows "\<exists>r st'. with_team (raw_team k) (timed hx f) st = Some (r, st') \<and> ((\<exists>x. r = Inr x) \<longrightarrow> rl (bs_raw st') = rl (bs_raw st))"
proof -
  let ?c = "(Raw_team \<lparr>raw_allocator = k\<rparr>, st)"
  have g: "team_good hx rl k T (K + 0) ?c" using assms(1) by (simp add: team_good_def client_good_def backend_kind_def raw_ready_def)
  have "team_total hx rl k T K (timed hx f)" by (rule timed_task [OF assms(2)]) simp_all
  from total_taskD [OF this g] obtain r h st' where r: "timed hx f ?c = Some (r, h, st')" "team_good hx rl k T 0 (h, st')"
    "(\<exists>x. r = Inr x) \<longrightarrow> team_allocs rl (h, st') = team_allocs rl ?c" by (metis surj_pair)
  obtain rb where h: "h = Raw_team rb" using r(2) assms(1) by (cases h) (auto simp: team_good_def raw_ready_def)
  have "with_team (raw_team k) (timed hx f) st = Some (r, st')"
    using r(1) assms(1) by (simp add: with_team_def raw_team_def raw_backend_def raw_ready_def)
  then show ?thesis using r(3) by (simp add: team_allocs_def h)
qed

end
