(* ===== verification/Bench_Harness.thy ===== *)
theory Bench_Harness
  imports Bench_Tasks
begin

text \<open>
  The harness as a whole: on an operating system that maps the arena, every workload of the
  table runs to its end on Orthotope, for every scheduler and clock; on any other allocator
  that keeps its contract every workload returns without leaking, if it does not report an
  error. The measurement is the median of its samples.
\<close>

section \<open>The arena holds the demand of every workload\<close>

lemma default_slack:
  "thread_slack default_config B64 = 639" "span_cost default_config B64 = 32832"
  "thread_slack default_config B256 = 254" "span_cost default_config B256 = 32704"
  "thread_slack default_config B4K = 17" "span_cost default_config B4K = 29184"
  "thread_slack default_config B6K = 11" "span_cost default_config B6K = 31104"
  "thread_slack default_config B8K = 7" "span_cost default_config B8K = 24832"
  "thread_slack default_config B16K = 3" "span_cost default_config B16K = 16512"
  "thread_slack default_config B32K = 2" "span_cost default_config B32K = 32896"
  "thread_slack default_config B64K = 2" "span_cost default_config B64K = 65664"
  "thread_slack default_config B128K = 2" "span_cost default_config B128K = 131200"
  by (simp_all add: thread_slack_def span_cost_def cache_limit_def local_limit_def refill_count_def drain_count_def
      class_block_size_def default_config_def BLOCK_ALIGNMENT_def HEADER_SIZE_def block_size_for_alignment_def effective_block_alignment_def align_up_def Let_def)

lemma requests_in_empty [simp]: "requests_in {#} c = 0" "large_requests {#} = 0"
  by (simp_all add: requests_in_def large_requests_def)

lemma default_arena: "arena_size default_config = 2 ^ 30" "alignment default_config = 64"
  by (simp_all add: default_config_def BLOCK_ALIGNMENT_def)

text \<open>A demand for one size: spans of one class, or large blocks.\<close>

lemma requests_in_uniform [simp]:
  "requests_in (replicate_mset m n) c = (if from_request n = Some c then m else 0)"
  "large_requests (replicate_mset m n) = (if from_request n = None then m else 0)"
  by (induction m) simp_all

lemma room_small:
  assumes "from_request n = Some c" "(m + T * thread_slack default_config c) * span_cost default_config c \<le> 2 ^ 30"
  shows "arena_holds T (replicate_mset m n) 0"
proof -
  have "(\<Sum>d\<in>UNIV - {c}. class_room default_config T (replicate_mset m n) 0 d) = 0"
    by (rule sum.neutral) (use assms(1) in \<open>simp add: class_room_def\<close>)
  then have "small_room default_config T (replicate_mset m n) (\<lambda>_. 0) \<le> 2 ^ 30"
    using assms by (simp add: small_room_split [of _ _ _ _ c] class_room_def)
  moreover have "n \<noteq> 0" using assms(1) from_request_None_iff [of n] by auto
  ultimately show ?thesis using assms(1) by (simp add: arena_holds_def one_large_size_def large_room_def default_arena)
qed

lemma room_large:
  assumes "from_request n = None" "0 < n" "large_block_size default_config n = Some bs" "bs < 2 ^ 32 + HEADER_SIZE" "m * (64 + bs) \<le> 2 ^ 30"
  shows "arena_holds T (replicate_mset m n) bs"
proof -
  have "small_room default_config T (replicate_mset m n) (\<lambda>_. 0) = 0"
    using assms(1) by (simp add: small_room_def class_room_def)
  then show ?thesis using assms by (simp add: arena_holds_def one_large_size_def large_room_def default_arena)
qed

lemma room_churn: "sz \<in> set SAME_THREAD_SIZES \<Longrightarrow> arena_holds 1 {#sz#} 0"
proof -
  assume "sz \<in> set SAME_THREAD_SIZES"
  then obtain c where "from_request sz = Some c" "(1 + 1 * thread_slack default_config c) * span_cost default_config c \<le> 2 ^ 30"
    by (auto simp: SAME_THREAD_SIZES_def from_request_def default_slack)
  from room_small [OF this] show ?thesis by simp
qed

lemma room_embedding: "arena_holds 1 (mset (replicate EMBEDDING_BATCH_SIZE EMBEDDING_BYTES)) 0"
  unfolding mset_replicate
  by (rule room_small [where c = B6K]) (simp_all add: EMBEDDING_BATCH_SIZE_def EMBEDDING_BYTES_def from_request_def default_slack)

lemma room_handoff: "pairs \<le> 4 \<Longrightarrow> arena_holds (2 * pairs) (repeat_mset pairs {#256, 256#}) 0"
proof -
  assume "pairs \<le> 4"
  moreover have "repeat_mset pairs {#256, 256#} = replicate_mset (2 * pairs) (256 :: nat)" by (induction pairs) simp_all
  ultimately show ?thesis by (simp only:) (rule room_small [where c = B256], simp_all add: from_request_def default_slack)
qed

lemma room_large_requests: "m \<le> 4 \<Longrightarrow> arena_holds T (replicate_mset m LARGE_REQUEST_BYTES) 20971584"
  by (rule room_large) (simp_all add: LARGE_REQUEST_BYTES_def from_request_def large_block_size_def checked_add_def align_up_checked_def
      HEADER_SIZE_def usize_max_def default_arena)

lemma room_mixed: "arena_holds 1 (mset MIXED_SIZES) 0"
  by (simp add: MIXED_SIZES_def arena_holds_def one_large_size_def small_room_def large_room_def ALL_classes_def class_room_def
      from_request_def default_slack default_arena)

section \<open>Every workload returns\<close>

lemma sizes_positive: "sz \<in> set SAME_THREAD_SIZES \<Longrightarrow> 0 < sz" "0 \<notin> set (replicate EMBEDDING_BATCH_SIZE EMBEDDING_BYTES)" "0 \<notin> set MIXED_SIZES"
  "0 < LARGE_REQUEST_BYTES"
  by (auto simp: SAME_THREAD_SIZES_def MIXED_SIZES_def EMBEDDING_BYTES_def LARGE_REQUEST_BYTES_def)

lemma iterations_bound: "same_thread_iterations sz \<le> 6000000"
  by (simp add: same_thread_iterations_def)

lemma workload_kinds:
  assumes "w \<in> set workloads"
  shows "case workload_kind w of SameThreadSmallChurn sz \<Rightarrow> sz \<in> set SAME_THREAD_SIZES | _ \<Rightarrow> True"
  using assms by (auto simp: workloads_def workload_table_def)

lemma large_workers_eq: "large_workers = replicate 4 (Churning 300)" "CONCURRENT_LARGE_4X_THREADS = 4"
  by (simp_all add: large_workers_def CONCURRENT_LARGE_4X_THREADS_def CONCURRENT_LARGE_ITERATIONS_def)

lemmas handoff_numbers = LONG_LIVED_HANDOFF_ITERATIONS_def LONG_LIVED_HANDOFF_4X_PAIRS_def

lemma handoff_completes:
  assumes "arena_maps hx" "pairs \<le> 4" "n \<le> 2 ^ 55"
  shows "\<exists>d st'. run_long_lived_handoff_orthotope hx pairs n st = Some (Inr d, st')"
proof -
  have "pairs * (2 * n) \<le> 4 * (2 * 2 ^ 55)" using assms(2,3) by (intro mult_mono) simp_all
  then have "4 * (pairs * (2 * n)) < 2 ^ 63" by simp
  from with_team_reliable [OF assms(1) handoff_task(2) room_handoff [OF assms(2)] this]
  show ?thesis by (simp add: run_long_lived_handoff_orthotope_def)
qed

lemma concurrent_large_completes:
  assumes "arena_maps hx"
  shows "\<exists>d st'. run_concurrent_large_orthotope hx st = Some (Inr d, st')"
proof -
  have "arena_holds 4 (repeat_mset 4 {#LARGE_REQUEST_BYTES#}) 20971584" using room_large_requests [of 4 4] by simp
  from with_team_reliable [OF assms large_task(2) this] show ?thesis
    by (simp add: run_concurrent_large_orthotope_def large_workers_eq)
qed

lemma orthotope_completes:
  assumes maps: "arena_maps hx" and w: "w \<in> set workloads"
  shows "\<exists>d st'. run_workload hx (workload_kind w) OrthotopeKind st = Some (Inr d, st')"
proof (cases "workload_kind w")
  case (SameThreadSmallChurn sz)
  then have sz: "sz \<in> set SAME_THREAD_SIZES" using workload_kinds [OF w] by simp
  have "4 * (same_thread_iterations sz * 2) < 2 ^ 63" using iterations_bound [of sz] by simp
  from with_backend_reliable [OF maps backends.repeat_reliable_task [OF backends.churn_reliable_task [OF sizes_positive(1) [OF sz]]] room_churn [OF sz] this]
  show ?thesis by (simp add: SameThreadSmallChurn run_workload_def run_same_thread_small_churn_def)
next
  case EmbeddingBatch
  have "4 * (200000 * (2 * length (replicate EMBEDDING_BATCH_SIZE EMBEDDING_BYTES))) < (2 :: nat) ^ 63" by (simp add: EMBEDDING_BATCH_SIZE_def)
  from with_backend_reliable [OF maps backends.repeat_reliable_task [OF backends.batch_reliable_task [OF sizes_positive(2)]] room_embedding this]
  show ?thesis by (simp add: EmbeddingBatch run_workload_def run_embedding_batch_def)
next
  case MixedSizeChurn
  have "4 * (120000 * (2 * length MIXED_SIZES)) < (2 :: nat) ^ 63" by (simp add: MIXED_SIZES_def)
  from with_backend_reliable [OF maps backends.repeat_reliable_task [OF backends.batch_reliable_task [OF sizes_positive(3)]] room_mixed this]
  show ?thesis by (simp add: MixedSizeChurn run_workload_def run_mixed_size_churn_def)
next
  case LargePath
  have room: "arena_holds 1 {#LARGE_REQUEST_BYTES#} 20971584" using room_large_requests [of 1 1] by simp
  have "4 * (1200 * 2) < (2 :: nat) ^ 63" by simp
  from with_backend_reliable [OF maps backends.repeat_reliable_task [OF backends.churn_reliable_task [OF sizes_positive(4)]] room this]
  show ?thesis by (simp add: LargePath run_workload_def run_large_path_def)
next
  case ConcurrentLarge4x
  then show ?thesis using concurrent_large_completes [OF maps] by (simp add: run_workload_def run_concurrent_large_4x_def)
next
  case LongLivedHandoff
  then show ?thesis using handoff_completes [OF maps, of 1]
    by (simp add: run_workload_def run_long_lived_handoff_def run_long_lived_handoff_with_pairs_def handoff_numbers)
next
  case LongLivedHandoff4x
  then show ?thesis using handoff_completes [OF maps, of 4]
    by (simp add: run_workload_def run_long_lived_handoff_4x_def run_long_lived_handoff_with_pairs_def handoff_numbers)
qed


section \<open>Measurements\<close>

lemma repeat_returns_unit:
  assumes "\<forall>st. \<exists>st'. f st = Some (Inr (), st')"
  shows "\<exists>st'. repeat_io f n st = Some (Inr (), st')"
proof (induction n arbitrary: st)
  case (Suc n)
  obtain st1 where "f st = Some (Inr (), st1)" using assms by blast
  then show ?case using Suc [of st1] by simp
qed simp

lemma repeat_returns:
  assumes "\<forall>st. \<exists>x st'. f st = Some (Inr x, st')"
  shows "\<exists>st'. repeat_io (seq f (\<lambda>_. ret ())) n st = Some (Inr (), st')"
proof (rule repeat_returns_unit, intro allI)
  fix st
  obtain x st1 where "f st = Some (Inr x, st1)" using assms by blast
  then show "\<exists>st'. seq f (\<lambda>_. ret ()) st = Some (Inr (), st')" by simp
qed

lemma collect_returns:
  assumes "\<forall>st. \<exists>x st'. f st = Some (Inr x, st')"
  shows "\<exists>ys st'. collect f n xs st = Some (Inr ys, st')"
proof (induction n arbitrary: xs st)
  case (Suc n)
  obtain x st1 where "f st = Some (Inr x, st1)" using assms by blast
  then show ?case using Suc [of "xs @ [x]" st1] by simp
qed simp

lemma collect_length: "collect f n xs st = Some (Inr ys, st') \<Longrightarrow> length ys = length xs + n"
  by (induction n arbitrary: xs st) (auto simp: seq_def split: option.splits sum.splits)

lemma measure_completes:
  assumes "arena_maps hx" "w \<in> set workloads"
  shows "\<exists>d st'. measure_workload hx w OrthotopeKind st = Some (Inr d, st')"
proof -
  let ?run = "run_workload hx (workload_kind w) OrthotopeKind"
  have R: "\<forall>st. \<exists>x st'. ?run st = Some (Inr x, st')" using orthotope_completes [OF assms] by blast
  obtain st1 where 1: "repeat_io (seq ?run (\<lambda>_. ret ())) WARMUP_SAMPLES st = Some (Inr (), st1)" using repeat_returns [OF R] by blast
  obtain ys st2 where 2: "collect ?run MEASURE_SAMPLES [] st1 = Some (Inr ys, st2)" using collect_returns [OF R] by blast
  have "length ys = 9" using collect_length [OF 2] by (simp add: MEASURE_SAMPLES_def)
  then show ?thesis using 1 2 by (simp add: measure_workload_def Let_def vec_index_def)
qed

lemma repeated_completes:
  assumes "arena_maps hx" "w \<in> set workloads"
  shows "\<exists>d st'. run_repeated_workload hx w OrthotopeKind n st = Some (Inr d, st')"
proof -
  let ?st = "st\<lparr>bs_ticks := Suc (bs_ticks st)\<rparr>" and ?run = "run_workload hx (workload_kind w) OrthotopeKind"
  have R: "\<forall>st. \<exists>x st'. ?run st = Some (Inr x, st')" using orthotope_completes [OF assms] by blast
  obtain st1 where 1: "repeat_io (seq ?run (\<lambda>_. ret ())) n ?st = Some (Inr (), st1)" using repeat_returns [OF R] by blast
  have 0: "instant_now hx st = Some (Inr (hx_clock hx (bs_ticks st)), ?st)" by (simp add: instant_now_def)
  show ?thesis unfolding run_repeated_workload_def seq_simps(3) [of "instant_now hx", OF 0] seq_simps(3) [of "repeat_io _ _", OF 1]
    by (simp add: elapsed_def seq_def instant_now_def)
qed

text \<open>The element in the middle of a sorted list: as many elements on either side.\<close>

lemma sorted_ranks:
  assumes "sorted xs" "i < length xs"
  shows "Suc i \<le> length (filter (\<lambda>x. x \<le> xs ! i) xs)" "length xs - i \<le> length (filter (\<lambda>x. xs ! i \<le> x) xs)"
proof -
  have "\<forall>x\<in>set (take (Suc i) xs). x \<le> xs ! i"
    using assms by (auto simp: in_set_conv_nth sorted_iff_nth_mono)
  then have "filter (\<lambda>x. x \<le> xs ! i) (take (Suc i) xs) = take (Suc i) xs" by (simp add: filter_id_conv)
  moreover have "length (filter P (take n xs)) \<le> length (filter P xs)" for P n
    by (metis append_take_drop_id filter_append length_append le_add1)
  ultimately show "Suc i \<le> length (filter (\<lambda>x. x \<le> xs ! i) xs)"
    using assms(2) by (metis Suc_leI length_take min.absorb2)
  have "\<forall>x\<in>set (drop i xs). xs ! i \<le> x"
    using assms by (auto simp: in_set_conv_nth sorted_iff_nth_mono)
  then have "filter (\<lambda>x. xs ! i \<le> x) (drop i xs) = drop i xs" by (simp add: filter_id_conv)
  moreover have "length (filter P (drop n xs)) \<le> length (filter P xs)" for P n
    by (metis append_take_drop_id filter_append length_append le_add2)
  ultimately show "length xs - i \<le> length (filter (\<lambda>x. xs ! i \<le> x) xs)" by (metis length_drop)
qed

lemma filter_sort_length: "length (filter P (sort xs)) = length (filter P (xs :: nat list))"
  by (metis mset_filter mset_sort size_mset)

lemma measure_median:
  assumes "measure_workload hx w k st = Some (Inr d, st')"
  shows "\<exists>st1 samples. repeat_io (seq (run_workload hx (workload_kind w) k) (\<lambda>_. ret ())) WARMUP_SAMPLES st = Some (Inr (), st1) \<and>
    collect (run_workload hx (workload_kind w) k) MEASURE_SAMPLES [] st1 = Some (Inr samples, st') \<and>
    length samples = 9 \<and> d \<in> set samples \<and>
    5 \<le> length (filter (\<lambda>x. x \<le> d) samples) \<and> 5 \<le> length (filter (\<lambda>x. d \<le> x) samples)"
proof -
  let ?run = "run_workload hx (workload_kind w) k"
  obtain st1 where 1: "repeat_io (seq ?run (\<lambda>_. ret ())) WARMUP_SAMPLES st = Some (Inr (), st1)"
    using assms by (auto simp: measure_workload_def Let_def seq_def [of "repeat_io _ _"] split: option.splits sum.splits)
  obtain ys where 2: "collect ?run MEASURE_SAMPLES [] st1 = Some (Inr ys, st')" "vec_index (sort ys) (length (sort ys) div 2) st' = Some (Inr d, st')"
    using assms 1 by (auto simp: measure_workload_def Let_def seq_def [of "collect _ _ _"] vec_index_def split: option.splits sum.splits if_splits)
  have len: "length ys = 9" using collect_length [OF 2(1)] by (simp add: MEASURE_SAMPLES_def)
  then have d: "d = sort ys ! 4" using 2(2) by (simp add: vec_index_def)
  have "d \<in> set (sort ys)" unfolding d by (rule nth_mem) (simp add: len)
  moreover note sorted_ranks [of "sort ys" 4, folded d]
  ultimately show ?thesis using 1 2(1) len by (intro exI [of _ st1] exI [of _ ys]) (simp add: filter_sort_length)
qed

section \<open>The programs\<close>


text \<open>Settings that the program prints are read back.\<close>

lemma not_blank:
  assumes "33 \<le> (of_char c :: nat)" "(of_char c :: nat) < 128"
  shows "\<not> trim_is_empty (c # cs)"
  using assms by (simp add: trim_is_empty_def split: list.splits)

lemma names_not_blank: "\<not> trim_is_empty (kind_name k)" "w \<in> set workloads \<Longrightarrow> \<not> trim_is_empty (workload_name w)"
proof -
  show "\<not> trim_is_empty (kind_name k)" by (cases k) (simp_all add: kind_name_def not_blank)
  show "\<not> trim_is_empty (workload_name w)" if "w \<in> set workloads"
    using that by (auto simp: workloads_def workload_table_def not_blank)
qed

lemma settings_read_back:
  assumes "w \<in> set workloads" "0 < n" "operations w * n \<le> usize_max"
    and "env WORKLOAD_ENV = Inr (workload_name w)" "env ALLOCATOR_ENV = Inr (kind_name k)" "env REPETITIONS_ENV = Inr (show_usize n)"
  shows "flamegraph_settings env = Inr \<lparr>set_workload = w, set_allocator = k, set_repetitions = n, set_samples = operations w * n\<rparr>"
proof -
  have "1 * n \<le> operations w * n" using operations_bounds [OF assms(1)] by (intro mult_right_mono) simp_all
  then have "n \<le> usize_max" using assms(3) by linarith
  then show ?thesis using assms names_not_blank
    by (simp add: flamegraph_settings_def read_env_or_default_def read_usize_env_or_default_def parse_show_usize workload_round_trip
        kind_round_trip ok_or_def checked_mul_def)
qed

text \<open>The rows of the table: every selected workload with every selected allocator, in order.\<close>

definition row_names :: "ResultRow list \<Rightarrow> (string \<times> string) list" where
  "row_names rows = map (\<lambda>r. (row_workload r, row_allocator r)) rows"

lemma kind_rows_names:
  "kind_rows hx af w ks rows st = Some (Inr rows', st') \<Longrightarrow>
   row_names rows' = row_names rows @ map (\<lambda>k. (workload_name w, kind_name k)) (filter (\<lambda>k. \<not> filtered_out af (kind_name k)) ks)"
proof (induction ks arbitrary: rows st)
  case (Cons k ks)
  show ?case
  proof (cases "filtered_out af (kind_name k)")
    case False
    then obtain time st1 where "measure_workload hx w k st = Some (Inr time, st1)"
      using Cons.prems by (auto simp: seq_def [of "measure_workload _ _ _"] split: option.splits sum.splits)
    then show ?thesis using Cons False by (simp add: row_names_def)
  qed (use Cons in simp)
qed simp

lemma workload_rows_names:
  "workload_rows hx wl af ws rows st = Some (Inr rows', st') \<Longrightarrow>
   row_names rows' = row_names rows @ concat (map (\<lambda>w. map (\<lambda>k. (workload_name w, kind_name k)) (filter (\<lambda>k. \<not> filtered_out af (kind_name k)) ALL_kinds))
     (filter (\<lambda>w. \<not> filtered_out wl (workload_name w)) ws))"
proof (induction ws arbitrary: rows st)
  case (Cons w ws)
  show ?case
  proof (cases "filtered_out wl (workload_name w)")
    case False
    then obtain rows1 st1 where 1: "kind_rows hx af w ALL_kinds rows st = Some (Inr rows1, st1)"
      using Cons.prems by (auto simp: seq_def [of "kind_rows _ _ _ _ _"] split: option.splits sum.splits)
    then have "workload_rows hx wl af ws rows1 st1 = Some (Inr rows', st')" using Cons.prems False by simp
    from Cons.IH [OF this] show ?thesis using kind_rows_names [OF 1] False by simp
  qed (use Cons in simp)
qed simp

lemma harness_rows_complete:
  assumes "harness_rows hx env st = Some (Inr rows, st')"
  shows "row_names rows = concat (map (\<lambda>w. map (\<lambda>k. (workload_name w, kind_name k))
      (filter (\<lambda>k. \<not> filtered_out (env_ok env ''ORTHOTOPE_BENCH_ALLOCATOR'') (kind_name k)) ALL_kinds))
    (filter (\<lambda>w. \<not> filtered_out (env_ok env ''ORTHOTOPE_BENCH_WORKLOAD'') (workload_name w)) workloads))"
  using workload_rows_names [OF assms [unfolded harness_rows_def]] by (simp add: row_names_def)

section \<open>A sample harness\<close>

text \<open>An allocator that never reuses an address, as a model of the contract of the others.\<close>

definition counting_allocator :: "(addr \<times> usize) list system_allocator" where
  "counting_allocator =
     \<lparr>system_alloc = (\<lambda>l s. let p = Suc (sum_list (map fst s)) in (p, (p, layout_size l) # s)),
      system_dealloc = (\<lambda>p l s. filter (\<lambda>x. x \<noteq> (p, layout_size l)) s)\<rparr>"

definition sample_harness :: "(addr \<times> usize) list harness" where
  "sample_harness = \<lparr>hx_debug = True,
     hx_os = \<lparr>sysconf_page_size = 4096, map_anon = (\<lambda>n. if n \<le> 2 ^ 40 then Inr 4095 else Inl 12),
       madvise_free = (\<lambda>_ _ m. (0, m)), has_madvise = True\<rparr>,
     hx_clock = (\<lambda>n. 1000 * n), hx_sched = (\<lambda>n. 3 * n), hx_raw = (\<lambda>_. counting_allocator), hx_io = (\<lambda>_. ''error'')\<rparr>"

definition sample_state :: "(addr \<times> usize) list bench_state" where
  "sample_state = \<lparr>bs_mem = (\<lambda>_. from_encoded_fields Small_tag 0 0 64 0), bs_next_allocator = 0, bs_next_cache = 1, bs_ticks = 0, bs_turns = 0,
     bs_raw = []\<rparr>"


lemma sample_os: "os_ok (hx_os sample_harness)"
  by (auto simp: os_ok_def mapping_ok_def madvise_ok_def sample_harness_def usize_max_def split: if_splits)

lemma sample_arena: "Arena_new (hx_os sample_harness) default_config =
    Inr \<lparr>arena_base = 4096, arena_len = 2 ^ 30, arena_next = 0, arena_alignment = 64\<rparr>"
proof -
  have "is_power_of_two 64" unfolding is_power_of_two_iff by (rule exI [of _ 6]) simp
  then show ?thesis
    by (simp add: Arena_new_def sample_harness_def default_config_def validate_config_def BLOCK_ALIGNMENT_def
        checked_add_def usize_max_def arena_align_up_def)
qed

definition sample_workload :: Workload where
  "sample_workload = \<lparr>workload_name = ''long_lived_handoff_4x'', operations = 80000, workload_unit = Microseconds, workload_kind = LongLivedHandoff4x\<rparr>"

lemma sample_workload_listed: "sample_workload \<in> set workloads"
  by (simp add: sample_workload_def workloads_def workload_table_def LONG_LIVED_HANDOFF_ITERATIONS_def)

section \<open>Properties of the harness\<close>

text \<open>C20. Every workload of the table runs to its end on Orthotope, with a duration as the result, on
  every operating system that maps the arena, for every clock, every schedule of the threads
  and every state of the process: no allocation is refused, no free is rejected, no thread waits
  for ever, nothing panics. So do the measurement and the repetition of a workload.\<close>

theorem workloads_complete:
  assumes "os_ok (hx_os hx)" "Arena_new (hx_os hx) default_config = Inr a" "w \<in> set workloads"
  shows "(\<exists>d st'. run_workload hx (workload_kind w) OrthotopeKind st = Some (Inr d, st')) \<and>
    (\<exists>d st'. measure_workload hx w OrthotopeKind st = Some (Inr d, st')) \<and>
    (\<exists>d st'. run_repeated_workload hx w OrthotopeKind n st = Some (Inr d, st'))"
proof -
  have "arena_maps hx" using assms(1,2) by (auto simp: arena_maps_def)
  from orthotope_completes [OF this assms(3)] measure_completes [OF this assms(3)] repeated_completes [OF this assms(3)]
  show ?thesis by blast
qed

theorem workloads_complete_witness:
  "\<exists>d st'. run_workload sample_harness LongLivedHandoff4x OrthotopeKind sample_state = Some (Inr d, st')"
  using workloads_complete [OF sample_os sample_arena sample_workload_listed, of sample_state] by (simp add: sample_workload_def)



text \<open>C21. The threads of the handoff workload, under an arbitrary scheduler: with up to four pairs on
  a new allocator every producer and every consumer returns \<open>Ok\<close>, however the scheduler
  interleaves them, and no allocation is left when they have.\<close>

theorem handoff_pairs_return:
  assumes "os_ok (hx_os hx)" "Arena_new (hx_os hx) default_config = Inr a" "pairs \<le> 4" "n \<le> 2 ^ 55"
  shows "\<exists>t st1 us al caches st2 turns. orthotope_team hx (2 * pairs) st = Some (Inr t, st1) \<and>
    crew_run (pair_act (team_allocate hx msg) (team_deallocate hx msg') 256) sched (replicate pairs (Producing n, Receiving n)) (t, st1) turn =
      Some (us, (Orthotope_team al caches, st2), turns) \<and>
    (\<forall>u\<in>set us. u = (Producer_done (Inr ()), Consumer_done (Inr ()))) \<and> live_set (team_world al caches st2) = {}"
proof -
  have maps: "arena_maps hx" using assms(1,2) by (auto simp: arena_maps_def)
  have "pairs * (2 * n) \<le> 4 * (2 * 2 ^ 55)" using assms(3,4) by (intro mult_mono) simp_all
  then have k: "4 * (pairs * (2 * n) + 1) < 2 ^ 63" by simp
  obtain t st1 where new: "orthotope_team hx (2 * pairs) st = Some (Inr t, st1)"
    "team_good hx (\<lambda>_. {}) OrthotopeKind (2 * pairs) (pairs * pair_calls (Producing n, Receiving n) + 1) (t, st1)"
    "team_allocs (\<lambda>_. {}) (t, st1) = {}" "team_roomy (2 * pairs) (repeat_mset pairs {#256, 256#}) (t, st1)"
    using new_team [OF maps, of "2 * pairs" st "\<lambda>_. {}"] k room_handoff [OF assms(3)] unfolding pair_start(1) by metis
  obtain us c turns where R: "crew_run (pair_act (team_allocate hx msg) (team_deallocate hx msg') 256) sched
      (replicate pairs (Producing n, Receiving n)) (t, st1) turn = Some (us, c, turns)"
    "\<forall>u\<in>set us. pair_ended u" "team_allocs (\<lambda>_. {}) c = {}" "\<forall>u\<in>set us. pair_fine u" "team_roomy (2 * pairs) (repeat_mset pairs {#256, 256#}) c"
    by (rule crew_outcome [OF handoff_crew.crew_of_pairs.crew_axioms pair_start(2-4) new(2)]) (use new(3,4) in auto)
  have "u = (Producer_done (Inr ()), Consumer_done (Inr ()))" if "u \<in> set us" for u
  proof -
    have "pair_ended u" "pair_fine u" using R(2,4) that by blast+
    then show ?thesis by (cases "fst u"; cases "snd u"; cases u) (auto simp: pair_defs split: sum.splits)
  qed
  moreover obtain al caches st2 where "c = (Orthotope_team al caches, st2)" using R(5) by (cases c rule: team_cases) (auto simp: team_roomy_def)
  ultimately show ?thesis using new(1) R(1,3) by (auto simp: team_allocs_def)
qed

theorem handoff_pairs_return_witness:
  "\<exists>t st1 us al caches st2 turns. orthotope_team sample_harness 4 sample_state = Some (Inr t, st1) \<and>
    crew_run (pair_act (team_allocate sample_harness []) (team_deallocate sample_harness []) 256) (\<lambda>n. n div 2)
      (replicate 2 (Producing 5, Receiving 5)) (t, st1) 0 = Some (us, (Orthotope_team al caches, st2), turns) \<and>
    (\<forall>u\<in>set us. u = (Producer_done (Inr ()), Consumer_done (Inr ()))) \<and> live_set (team_world al caches st2) = {}"
  using handoff_pairs_return [OF sample_os sample_arena, of 2 5 sample_state "[]" "[]" "\<lambda>n. n div 2" 0] by simp

text \<open>C36. A measurement is the median of nine samples taken after the warm-up runs: it is one of
  the samples, and at least five of them are not above and five not below it.\<close>

theorem measurement_is_median:
  assumes "measure_workload hx w k st = Some (Inr d, st')"
  shows "\<exists>st1 samples. repeat_io (seq (run_workload hx (workload_kind w) k) (\<lambda>_. ret ())) WARMUP_SAMPLES st = Some (Inr (), st1) \<and>
    collect (run_workload hx (workload_kind w) k) MEASURE_SAMPLES [] st1 = Some (Inr samples, st') \<and>
    length samples = 9 \<and> d \<in> set samples \<and>
    5 \<le> length (filter (\<lambda>x. x \<le> d) samples) \<and> 5 \<le> length (filter (\<lambda>x. d \<le> x) samples)"
  by (rule measure_median [OF assms])

theorem measurement_is_median_witness:
  "\<exists>d st' st1 samples. measure_workload sample_harness sample_workload OrthotopeKind sample_state = Some (Inr d, st') \<and>
    collect (run_workload sample_harness LongLivedHandoff4x OrthotopeKind) 9 [] st1 = Some (Inr samples, st') \<and> d \<in> set samples \<and>
    5 \<le> length (filter (\<lambda>x. x \<le> d) samples) \<and> 5 \<le> length (filter (\<lambda>x. d \<le> x) samples)"
proof -
  have "arena_maps sample_harness" using sample_os sample_arena by (simp add: arena_maps_def)
  then obtain d st' where m: "measure_workload sample_harness sample_workload OrthotopeKind sample_state = Some (Inr d, st')"
    using measure_completes [OF _ sample_workload_listed] by blast
  from measurement_is_median [OF m] m show ?thesis by (auto simp: sample_workload_def MEASURE_SAMPLES_def)
qed

text \<open>C37. The settings of a flamegraph run are read back from the text they are printed as: a workload
  of the table by its name, an allocator by its name and a positive number of repetitions
  in decimal, as long as the number of operations fits the machine word.\<close>

theorem flamegraph_settings_round_trip:
  assumes "w \<in> set workloads" "0 < n" "operations w * n \<le> usize_max"
    and "env WORKLOAD_ENV = Inr (workload_name w)" "env ALLOCATOR_ENV = Inr (kind_name k)" "env REPETITIONS_ENV = Inr (show_usize n)"
  shows "flamegraph_settings env = Inr \<lparr>set_workload = w, set_allocator = k, set_repetitions = n, set_samples = operations w * n\<rparr>"
  by (rule settings_read_back [OF assms])

theorem flamegraph_settings_round_trip_witness:
  "flamegraph_settings (\<lambda>name. if name = WORKLOAD_ENV then Inr ''long_lived_handoff_4x'' else if name = ALLOCATOR_ENV then Inr ''jemalloc''
      else Inr (show_usize 25)) =
    Inr \<lparr>set_workload = sample_workload, set_allocator = JemallocKind, set_repetitions = 25, set_samples = 2000000\<rparr>"
proof -
  let ?env = "\<lambda>name. if name = WORKLOAD_ENV then Inr ''long_lived_handoff_4x'' else if name = ALLOCATOR_ENV then Inr ''jemalloc''
      else Inr (show_usize 25)"
  have "?env WORKLOAD_ENV = Inr (workload_name sample_workload)" "?env ALLOCATOR_ENV = Inr (kind_name JemallocKind)"
    "?env REPETITIONS_ENV = Inr (show_usize 25)"
    by (simp_all add: WORKLOAD_ENV_def ALLOCATOR_ENV_def REPETITIONS_ENV_def sample_workload_def kind_name_def)
  from flamegraph_settings_round_trip [OF sample_workload_listed _ _ this] show ?thesis
    by (simp add: sample_workload_def usize_max_def)
qed



end
